(* ===== verification/Prelude.thy ===== *)
theory Prelude
  imports Main "HOL-Library.Sublist" "HOL-Library.Char_ord" "HOL-Library.List_Lexorder"
    "HOL-Library.Product_Lexorder"
begin

text \<open>
  The prelude of the development: the theorem collections that the components fill, and the
  generic facts on lists, association lists and options that more than one component needs.
  Go values are modelled as follows throughout: a Go \<open>string\<close> or \<open>[]byte\<close> is a
  \<^typ>\<open>string\<close> (a list of 8-bit characters, that is of bytes), a Go slice is a list, a Go
  \<open>map[K]V\<close> is a partial function, a Go error result is a sum with the error on the left.
  The orders on strings and on tuples are the lexicographic ones of \<open>List_Lexorder\<close> and
  \<open>Product_Lexorder\<close>, which is the byte order Go uses to compare strings.
\<close>

named_theorems str_facts "facts on the Go string operations"
named_theorems inv_facts "preservation of component invariants"

subsection \<open>Distinct lists and removal\<close>

lemma distinct_map_filter_fst:
  "distinct (map f xs) \<Longrightarrow> distinct (map f (filter P xs))"
  by (simp add: distinct_map_filter)

lemma filter_neq_notin:
  "k \<notin> fst ` set xs \<Longrightarrow> filter (\<lambda>p. fst p \<noteq> k) xs = xs"
  by (rule filter_True) force

lemma map_of_filter_neq:
  "map_of (filter (\<lambda>p. fst p \<noteq> k) xs) = (map_of xs)(k := None)"
  by (induction xs) (auto simp: fun_eq_iff)

lemma distinct_map_eqD:
  "distinct (map f xs) \<Longrightarrow> x \<in> set xs \<Longrightarrow> y \<in> set xs \<Longrightarrow> f x = f y \<Longrightarrow> x = y"
  by (meson distinct_map inj_onD)

lemma length_filter_less_remove:
  "x \<in> set xs \<Longrightarrow> \<not> P x \<Longrightarrow> length (filter P xs) < length xs"
  by (metis length_filter_less)

lemma map_of_butlast_last:
  assumes "distinct (map fst xs)" and "xs \<noteq> []"
  shows "map_of (butlast xs) = (map_of xs)(fst (last xs) := None)"
proof -
  obtain ys y where xs: "xs = ys @ [y]"
    using assms(2) by (cases xs rule: rev_cases) auto
  with assms(1) have notin: "fst y \<notin> fst ` set ys" by auto
  show ?thesis
  proof
    fix k
    show "map_of (butlast xs) k = ((map_of xs)(fst (last xs) := None)) k"
    proof (cases "k = fst y")
      case True
      with xs notin show ?thesis by (simp add: map_of_eq_None_iff)
    next
      case False
      with xs show ?thesis by (simp add: map_add_def split: option.split)
    qed
  qed
qed

subsection \<open>Bounded search\<close>

text \<open>The first index at which a property holds, as the search loops of the code compute it.\<close>

fun find_index :: "('a \<Rightarrow> bool) \<Rightarrow> 'a list \<Rightarrow> nat option" where
  "find_index P [] = None"
| "find_index P (x # xs) = (if P x then Some 0 else map_option Suc (find_index P xs))"

lemma find_index_None_iff: "find_index P xs = None \<longleftrightarrow> (\<forall>x \<in> set xs. \<not> P x)"
  by (induction xs) auto

lemma find_index_SomeD:
  "find_index P xs = Some i \<Longrightarrow> i < length xs \<and> P (xs ! i) \<and> (\<forall>j < i. \<not> P (xs ! j))"
proof (induction xs arbitrary: i)
  case Nil
  then show ?case by simp
next
  case (Cons x xs)
  show ?case
  proof (cases "P x")
    case True
    with Cons.prems show ?thesis by simp
  next
    case False
    with Cons.prems obtain j where "find_index P xs = Some j" and "i = Suc j" by auto
    with Cons.IH [of j] False show ?thesis by (auto simp: less_Suc_eq_0_disj)
  qed
qed

text \<open>Text up to a separator is determined.\<close>

lemma sep_split: "c \<notin> set a \<Longrightarrow> c \<notin> set b \<Longrightarrow> a @ c # x = b @ c # y \<Longrightarrow> a = b \<and> x = y"
proof (induction a arbitrary: b)
  case Nil
  then show ?case by (cases b) auto
next
  case (Cons d a)
  then show ?case by (cases b) auto
qed

end
