(* ===== verification/LruCache.thy ===== *)
theory LruCache
  imports Prelude
begin

text \<open>
  \<open>internal/cache/lru.go\<close>: the LRU cache under every in-memory cache of the server. The code
  keeps a hash map from keys to elements of a \<open>container/list\<close> list and moves an element to the
  front when its key is used. An element pointer is a number here (\<open>lru_next\<close> is the next fresh
  one) and the list is the list of its elements, front first, each with its entry, so that the map
  and the list can disagree in the model exactly where the pointers could in the code. The
  invariant says they do not. The cache is shown to refine a plain list of key/value pairs, most
  recently used first; the interface \<open>lru_store\<close> is what the caches built on it rely on.
\<close>

subsection \<open>The code\<close>

record ('k, 'v) LRU =
  lru_entries :: "'k \<Rightarrow> nat option"
  lru_order :: "(nat \<times> 'k \<times> 'v) list"
  lru_maxSize :: int
  lru_next :: nat

definition NewLRU :: "int \<Rightarrow> ('k, 'v) LRU" where
  "NewLRU maxSize = \<lparr>lru_entries = Map.empty, lru_order = [], lru_maxSize = maxSize, lru_next = 0\<rparr>"

text \<open>\<open>container/list\<close>: the operations the cache calls, on elements named by their pointer.\<close>

definition list_remove :: "nat \<Rightarrow> (nat \<times> 'e) list \<Rightarrow> (nat \<times> 'e) list" where
  "list_remove el xs = filter (\<lambda>p. fst p \<noteq> el) xs"

definition list_move_to_front :: "nat \<Rightarrow> (nat \<times> 'e) list \<Rightarrow> (nat \<times> 'e) list" where
  "list_move_to_front el xs =
     (case map_of xs el of None \<Rightarrow> xs | Some e \<Rightarrow> (el, e) # list_remove el xs)"

definition LRU_Get :: "('k, 'v) LRU \<Rightarrow> 'k \<Rightarrow> 'v option \<times> ('k, 'v) LRU" where
  "LRU_Get c key =
     (case lru_entries c key of
        None \<Rightarrow> (None, c)
      | Some el \<Rightarrow>
          (map_option snd (map_of (lru_order c) el),
           c\<lparr>lru_order := list_move_to_front el (lru_order c)\<rparr>))"

definition LRU_Set :: "('k, 'v) LRU \<Rightarrow> 'k \<Rightarrow> 'v \<Rightarrow> ('k, 'v) LRU" where
  "LRU_Set c key value =
     (case lru_entries c key of
        Some el \<Rightarrow>
          c\<lparr>lru_order := map (\<lambda>(e, k, v). (e, k, if e = el then value else v))
                           (list_move_to_front el (lru_order c))\<rparr>
      | None \<Rightarrow>
          (let evict = int (length (lru_order c)) \<ge> lru_maxSize c \<and> lru_order c \<noteq> [];
               order1 = (if evict then list_remove (fst (last (lru_order c))) (lru_order c) else lru_order c);
               entries1 = (if evict then (lru_entries c)(fst (snd (last (lru_order c))) := None) else lru_entries c);
               el = lru_next c
           in c\<lparr>lru_order := (el, key, value) # order1, lru_entries := entries1(key \<mapsto> el), lru_next := Suc el\<rparr>))"

definition LRU_Delete :: "('k, 'v) LRU \<Rightarrow> 'k \<Rightarrow> ('k, 'v) LRU" where
  "LRU_Delete c key =
     (case lru_entries c key of
        None \<Rightarrow> c
      | Some el \<Rightarrow> c\<lparr>lru_order := list_remove el (lru_order c), lru_entries := (lru_entries c)(key := None)\<rparr>)"

definition LRU_Len :: "('k, 'v) LRU \<Rightarrow> nat" where
  "LRU_Len c = length (lru_order c)"

subsection \<open>The invariant and the abstraction\<close>

text \<open>
  The pairs in the list have distinct pointers and distinct keys, every pointer was allocated, and
  the map holds exactly the keys of the list, each with its own element.
\<close>

definition lru_inv :: "('k, 'v) LRU \<Rightarrow> bool" where
  "lru_inv c \<longleftrightarrow>
     distinct (map fst (lru_order c)) \<and>
     distinct (map (fst \<circ> snd) (lru_order c)) \<and>
     (\<forall>p \<in> set (lru_order c). fst p < lru_next c) \<and>
     (\<forall>k el. lru_entries c k = Some el \<longleftrightarrow> (\<exists>v. (el, k, v) \<in> set (lru_order c)))"

definition lru_abs :: "('k, 'v) LRU \<Rightarrow> ('k \<times> 'v) list" where
  "lru_abs c = map snd (lru_order c)"

definition lru_lookup :: "('k, 'v) LRU \<Rightarrow> 'k \<Rightarrow> 'v option" where
  "lru_lookup c = map_of (lru_abs c)"

text \<open>The specification: a list of pairs, most recently used first, of bounded length.\<close>

definition spec_use :: "'k \<Rightarrow> ('k \<times> 'v) list \<Rightarrow> ('k \<times> 'v) list" where
  "spec_use k al = (case map_of al k of None \<Rightarrow> al | Some v \<Rightarrow> (k, v) # filter (\<lambda>p. fst p \<noteq> k) al)"

definition spec_set :: "int \<Rightarrow> 'k \<Rightarrow> 'v \<Rightarrow> ('k \<times> 'v) list \<Rightarrow> ('k \<times> 'v) list" where
  "spec_set n k v al =
     (if k \<in> fst ` set al then (k, v) # filter (\<lambda>p. fst p \<noteq> k) al
      else (k, v) # (if int (length al) \<ge> n then butlast al else al))"

definition spec_del :: "'k \<Rightarrow> ('k \<times> 'v) list \<Rightarrow> ('k \<times> 'v) list" where
  "spec_del k al = filter (\<lambda>p. fst p \<noteq> k) al"

lemma lru_invD:
  assumes "lru_inv c"
  shows "distinct (map fst (lru_order c))"
    and "distinct (map (fst \<circ> snd) (lru_order c))"
    and "distinct (map fst (lru_abs c))"
  using assms by (simp_all add: lru_inv_def lru_abs_def)

lemma lru_entries_SomeD:
  assumes "lru_inv c" and "lru_entries c k = Some el"
  obtains v where "(el, k, v) \<in> set (lru_order c)" and "map_of (lru_order c) el = Some (k, v)"
    and "map_of (lru_abs c) k = Some v"
proof -
  from assms obtain v where v: "(el, k, v) \<in> set (lru_order c)" by (auto simp: lru_inv_def)
  moreover from v have "map_of (lru_order c) el = Some (k, v)"
    using lru_invD(1) [OF assms(1)] by simp
  moreover from v have "(k, v) \<in> set (lru_abs c)" by (force simp: lru_abs_def)
  then have "map_of (lru_abs c) k = Some v"
    using lru_invD(3) [OF assms(1)] by simp
  ultimately show thesis by (rule that)
qed

lemma lru_entries_None_iff:
  assumes "lru_inv c"
  shows "lru_entries c k = None \<longleftrightarrow> k \<notin> fst ` set (lru_abs c)"
proof -
  have "lru_entries c k = None \<longleftrightarrow> (\<forall>el v. (el, k, v) \<notin> set (lru_order c))"
    using assms by (metis lru_inv_def not_Some_eq)
  then show ?thesis by (force simp: lru_abs_def)
qed

text \<open>Removing the element of a key removes the pairs of that key.\<close>

lemma list_remove_key:
  assumes "lru_inv c" and "(el, k, v) \<in> set (lru_order c)"
  shows "list_remove el (lru_order c) = filter (\<lambda>p. fst (snd p) \<noteq> k) (lru_order c)"
  unfolding list_remove_def
proof (rule filter_cong [OF refl])
  fix p assume p: "p \<in> set (lru_order c)"
  show "(fst p \<noteq> el) = (fst (snd p) \<noteq> k)"
    using distinct_map_eqD [OF lru_invD(1) [OF assms(1)] p assms(2)]
      distinct_map_eqD [OF lru_invD(2) [OF assms(1)] p assms(2)] by (auto simp: prod_eq_iff)
qed

lemma map_snd_list_remove:
  assumes "lru_inv c" and "(el, k, v) \<in> set (lru_order c)"
  shows "map snd (list_remove el (lru_order c)) = filter (\<lambda>p. fst p \<noteq> k) (lru_abs c)"
  unfolding list_remove_key [OF assms] lru_abs_def by (simp add: filter_map o_def)

lemma list_remove_last:
  assumes "distinct (map fst xs)" and "xs \<noteq> []"
  shows "list_remove (fst (last xs)) xs = butlast xs"
proof -
  obtain ys y where "xs = ys @ [y]" using assms(2) by (cases xs rule: rev_cases) auto
  with assms(1) show ?thesis by (auto simp: list_remove_def intro!: filter_neq_notin)
qed

subsection \<open>Each operation refines the specification\<close>

lemma list_move_to_front_in:
  "map_of xs el = Some e \<Longrightarrow> list_move_to_front el xs = (el, e) # list_remove el xs"
  by (simp add: list_move_to_front_def)

lemma lru_inv_front:
  assumes inv: "lru_inv c" and mem: "(el, k, v) \<in> set (lru_order c)"
  shows "lru_inv (c\<lparr>lru_order := (el, k, w) # list_remove el (lru_order c)\<rparr>)"
proof -
  let ?r = "list_remove el (lru_order c)"
  have keys: "?r = filter (\<lambda>p. fst (snd p) \<noteq> k) (lru_order c)"
    by (rule list_remove_key [OF inv mem])
  have in_r: "p \<in> set ?r \<longleftrightarrow> p \<in> set (lru_order c) \<and> fst p \<noteq> el" for p
    by (auto simp: list_remove_def)
  have in_r': "p \<in> set ?r \<longleftrightarrow> p \<in> set (lru_order c) \<and> fst (snd p) \<noteq> k" for p
    unfolding keys by simp
  have "distinct (map fst ?r)" and "distinct (map (fst \<circ> snd) ?r)"
    using lru_invD(1,2) [OF inv] by (simp_all add: list_remove_def distinct_map_filter)
  moreover have "el \<notin> fst ` set ?r" using in_r by force
  moreover have "k \<notin> (fst \<circ> snd) ` set ?r" using in_r' by force
  moreover have "\<forall>p \<in> set ?r. fst p < lru_next c" and "el < lru_next c"
    using inv mem in_r by (auto simp: lru_inv_def)
  moreover have "lru_entries c j = Some e \<longleftrightarrow> (\<exists>u. (e, j, u) \<in> set ((el, k, w) # ?r))" for j e
  proof -
    have "lru_entries c j = Some e \<longleftrightarrow> (\<exists>u. (e, j, u) \<in> set (lru_order c))"
      using inv by (simp add: lru_inv_def)
    also have "\<dots> \<longleftrightarrow> (e = el \<and> j = k) \<or> (\<exists>u. (e, j, u) \<in> set ?r)"
      using mem in_r in_r' by fastforce
    finally show ?thesis by auto
  qed
  ultimately show ?thesis by (simp add: lru_inv_def)
qed

lemma lru_inv_NewLRU [inv_facts]: "lru_inv (NewLRU n)"
  by (simp add: lru_inv_def NewLRU_def)

lemma LRU_Get_miss: "lru_inv c \<Longrightarrow> k \<notin> fst ` set (lru_abs c) \<Longrightarrow> LRU_Get c k = (None, c)"
  by (simp add: LRU_Get_def lru_entries_None_iff [symmetric])

lemma LRU_Get_correct:
  assumes "lru_inv c"
  shows "fst (LRU_Get c k) = lru_lookup c k"
    and "lru_abs (snd (LRU_Get c k)) = spec_use k (lru_abs c)"
    and "lru_inv (snd (LRU_Get c k))"
proof -
  have "fst (LRU_Get c k) = lru_lookup c k \<and>
      lru_abs (snd (LRU_Get c k)) = spec_use k (lru_abs c) \<and> lru_inv (snd (LRU_Get c k))"
  proof (cases "lru_entries c k")
    case None
    then have "k \<notin> fst ` set (lru_abs c)" using lru_entries_None_iff [OF assms] by simp
    then have "map_of (lru_abs c) k = None" by (simp add: map_of_eq_None_iff)
    with None assms show ?thesis by (simp add: LRU_Get_def lru_lookup_def spec_use_def)
  next
    case (Some el)
    with assms obtain v where v: "(el, k, v) \<in> set (lru_order c)"
      "map_of (lru_order c) el = Some (k, v)" "map_of (lru_abs c) k = Some v"
      by (rule lru_entries_SomeD)
    then have "lru_abs (snd (LRU_Get c k)) = spec_use k (lru_abs c)"
      using Some map_snd_list_remove [OF assms v(1)]
      by (simp add: LRU_Get_def list_move_to_front_in spec_use_def lru_abs_def)
    moreover have "lru_inv (snd (LRU_Get c k))"
      using Some v lru_inv_front [OF assms v(1), of v]
      by (simp add: LRU_Get_def list_move_to_front_in)
    ultimately show ?thesis using Some v by (simp add: LRU_Get_def lru_lookup_def)
  qed
  then show "fst (LRU_Get c k) = lru_lookup c k"
    and "lru_abs (snd (LRU_Get c k)) = spec_use k (lru_abs c)"
    and "lru_inv (snd (LRU_Get c k))" by simp_all
qed

lemma LRU_Set_present:
  assumes inv: "lru_inv c" and el: "lru_entries c k = Some el"
  shows "LRU_Set c k w = c\<lparr>lru_order := (el, k, w) # list_remove el (lru_order c)\<rparr>"
proof -
  from inv el obtain v where v: "map_of (lru_order c) el = Some (k, v)"
    by (rule lru_entries_SomeD)
  have "map (\<lambda>(e, k, v). (e, k, if e = el then w else v)) (list_remove el (lru_order c))
      = list_remove el (lru_order c)"
    by (auto simp: list_remove_def intro!: map_idI)
  with v el show ?thesis by (simp add: LRU_Set_def list_move_to_front_in)
qed

text \<open>The eviction branch alone: what is left in the list and in the map.\<close>

lemma lru_inv_evict:
  assumes inv: "lru_inv c" and ne: "lru_order c \<noteq> []"
  shows "lru_inv (c\<lparr>lru_order := butlast (lru_order c),
                     lru_entries := (lru_entries c)(fst (snd (last (lru_order c))) := None)\<rparr>)"
proof -
  obtain ys e k v where ys: "lru_order c = ys @ [(e, k, v)]"
    using ne by (metis rev_exhaust prod_cases3)
  have keys: "k \<notin> (fst \<circ> snd) ` set ys" using lru_invD(2) [OF inv] ys by simp
  have "lru_entries c j = Some el \<longleftrightarrow> (\<exists>u. (el, j, u) \<in> set (lru_order c))" for j el
    using inv by (simp add: lru_inv_def)
  then have "((lru_entries c)(k := None)) j = Some el \<longleftrightarrow> (\<exists>u. (el, j, u) \<in> set ys)" for j el
    using keys ys by force
  then show ?thesis
    using inv ys by (simp add: lru_inv_def)
qed

lemma lru_inv_push:
  assumes inv: "lru_inv c" and new: "k \<notin> fst ` set (lru_abs c)"
  shows "lru_inv (c\<lparr>lru_order := (lru_next c, k, v) # lru_order c,
                     lru_entries := (lru_entries c)(k \<mapsto> lru_next c), lru_next := Suc (lru_next c)\<rparr>)"
proof -
  have fresh: "lru_next c \<notin> fst ` set (lru_order c)" using inv by (auto simp: lru_inv_def)
  have nk: "k \<notin> (fst \<circ> snd) ` set (lru_order c)" using new by (auto simp: lru_abs_def)
  have "lru_entries c j = Some el \<longleftrightarrow> (\<exists>u. (el, j, u) \<in> set (lru_order c))" for j el
    using inv by (simp add: lru_inv_def)
  with nk have "((lru_entries c)(k \<mapsto> lru_next c)) j = Some el \<longleftrightarrow>
      (\<exists>u. (el, j, u) \<in> set ((lru_next c, k, v) # lru_order c))" for j el
    by force
  with inv fresh nk show ?thesis by (auto simp: lru_inv_def less_Suc_eq)
qed

lemma LRU_Set_correct:
  assumes "lru_inv c"
  shows "lru_abs (LRU_Set c k v) = spec_set (lru_maxSize c) k v (lru_abs c)"
    and "lru_inv (LRU_Set c k v)"
proof -
  have "lru_abs (LRU_Set c k v) = spec_set (lru_maxSize c) k v (lru_abs c) \<and> lru_inv (LRU_Set c k v)"
  proof (cases "lru_entries c k")
    case (Some el)
    with assms obtain u where u: "(el, k, u) \<in> set (lru_order c)" by (rule lru_entries_SomeD)
    then have "k \<in> fst ` set (lru_abs c)" by (force simp: lru_abs_def)
    then show ?thesis
      using LRU_Set_present [OF assms Some, of v] map_snd_list_remove [OF assms u]
        lru_inv_front [OF assms u, of v]
      by (simp add: spec_set_def lru_abs_def)
  next
    case None
    then have new: "k \<notin> fst ` set (lru_abs c)" using lru_entries_None_iff [OF assms] by simp
    show ?thesis
    proof (cases "int (length (lru_order c)) \<ge> lru_maxSize c \<and> lru_order c \<noteq> []")
      case True
      let ?c = "c\<lparr>lru_order := butlast (lru_order c),
                  lru_entries := (lru_entries c)(fst (snd (last (lru_order c))) := None)\<rparr>"
      have inv': "lru_inv ?c" using True by (intro lru_inv_evict [OF assms]) simp
      have "set (butlast (lru_abs c)) \<subseteq> set (lru_abs c)" by (auto dest: in_set_butlastD)
      then have "k \<notin> fst ` set (lru_abs ?c)"
        using new by (auto simp: lru_abs_def map_butlast [symmetric])
      note lru_inv_push [OF inv' this, of v]
      moreover have "list_remove (fst (last (lru_order c))) (lru_order c) = butlast (lru_order c)"
        using True lru_invD(1) [OF assms] by (intro list_remove_last) simp_all
      ultimately show ?thesis
        using True None new by (simp add: LRU_Set_def spec_set_def lru_abs_def map_butlast Let_def)
    next
      case False
      then show ?thesis
        using None new lru_inv_push [OF assms new, of v]
        by (auto simp: LRU_Set_def spec_set_def lru_abs_def Let_def)
    qed
  qed
  then show "lru_abs (LRU_Set c k v) = spec_set (lru_maxSize c) k v (lru_abs c)"
    and "lru_inv (LRU_Set c k v)" by simp_all
qed

lemma LRU_Delete_correct:
  assumes "lru_inv c"
  shows "lru_abs (LRU_Delete c k) = spec_del k (lru_abs c)"
    and "lru_inv (LRU_Delete c k)"
proof -
  have "lru_abs (LRU_Delete c k) = spec_del k (lru_abs c) \<and> lru_inv (LRU_Delete c k)"
  proof (cases "lru_entries c k")
    case None
    then have "k \<notin> fst ` set (lru_abs c)" using lru_entries_None_iff [OF assms] by simp
    then show ?thesis
      using None assms by (simp add: LRU_Delete_def spec_del_def filter_neq_notin)
  next
    case (Some el)
    with assms obtain v where v: "(el, k, v) \<in> set (lru_order c)" by (rule lru_entries_SomeD)
    have "lru_entries c j = Some e \<longleftrightarrow> (\<exists>u. (e, j, u) \<in> set (lru_order c))" for j e
      using assms by (simp add: lru_inv_def)
    then have "((lru_entries c)(k := None)) j = Some e \<longleftrightarrow>
        (\<exists>u. (e, j, u) \<in> set (filter (\<lambda>p. fst (snd p) \<noteq> k) (lru_order c)))" for j e
      by auto
    moreover have "LRU_Delete c k = c\<lparr>lru_order := filter (\<lambda>p. fst (snd p) \<noteq> k) (lru_order c),
        lru_entries := (lru_entries c)(k := None)\<rparr>"
      using Some list_remove_key [OF assms v] by (simp add: LRU_Delete_def)
    ultimately have "lru_inv (LRU_Delete c k)"
      using lru_invD(1,2) [OF assms] assms
      by (simp add: lru_inv_def distinct_map_filter)
    then show ?thesis
      using Some map_snd_list_remove [OF assms v]
      by (simp add: LRU_Delete_def spec_del_def lru_abs_def)
  qed
  then show "lru_abs (LRU_Delete c k) = spec_del k (lru_abs c)" and "lru_inv (LRU_Delete c k)"
    by simp_all
qed

subsection \<open>The interface the other caches use\<close>

text \<open>
  What a cache built on the LRU relies on, and nothing about how entries are ordered or evicted:
  a read returns the stored entry and changes no entry, a write makes its own key readable and may
  only drop other keys, a delete drops its key.
\<close>

locale lru_store =
  fixes get :: "'c \<Rightarrow> 'k \<Rightarrow> 'v option \<times> 'c"
    and put :: "'c \<Rightarrow> 'k \<Rightarrow> 'v \<Rightarrow> 'c"
    and del :: "'c \<Rightarrow> 'k \<Rightarrow> 'c"
    and lookup :: "'c \<Rightarrow> 'k \<Rightarrow> 'v option"
    and inv :: "'c \<Rightarrow> bool"
  assumes get_val: "inv c \<Longrightarrow> fst (get c k) = lookup c k"
    and get_lookup: "inv c \<Longrightarrow> lookup (snd (get c k)) = lookup c"
    and get_inv: "inv c \<Longrightarrow> inv (snd (get c k))"
    and put_same: "inv c \<Longrightarrow> lookup (put c k v) k = Some v"
    and put_other: "inv c \<Longrightarrow> j \<noteq> k \<Longrightarrow> lookup (put c k v) j = Some w \<Longrightarrow> lookup c j = Some w"
    and put_inv: "inv c \<Longrightarrow> inv (put c k v)"
    and del_lookup: "inv c \<Longrightarrow> lookup (del c k) = (lookup c)(k := None)"
    and del_inv: "inv c \<Longrightarrow> inv (del c k)"
begin

text \<open>
  The read that every cache of the server layers on the LRU: read the entry, and when it is stale
  delete it and report a miss.
\<close>

lemma guarded_read:
  assumes "inv c" and "get c k = (r, c')"
  shows "r = lookup c k" and "inv c'" and "lookup c' = lookup c"
    and "inv (del c' k)" and "lookup (del c' k) = (lookup c)(k := None)"
  using get_val [OF assms(1), of k] get_inv [OF assms(1), of k] get_lookup [OF assms(1), of k]
    del_lookup del_inv assms(2) by simp_all

text \<open>
  A relation between keys and entries that a write establishes for its own key survives every
  operation: the entries a cache can return are only ever entries that were written.
\<close>

lemma put_entries:
  assumes "inv c" and "\<And>j w. lookup c j = Some w \<Longrightarrow> R j w" and "R k v"
    and "lookup (put c k v) j = Some w"
  shows "R j w"
  using assms put_same [OF assms(1), of k v] put_other [OF assms(1)] by (cases "j = k") auto

end

lemma map_of_spec_use: "map_of (spec_use k al) = map_of al"
  by (auto simp: spec_use_def fun_eq_iff map_of_filter_neq split: option.split)

lemma LRU_Get_lookup: "lru_inv c \<Longrightarrow> lru_lookup (snd (LRU_Get c k)) = lru_lookup c"
  by (simp add: lru_lookup_def LRU_Get_correct map_of_spec_use)

lemma map_of_spec_set:
  assumes "distinct (map fst al)"
  shows "map_of (spec_set n k v al) k = Some v"
    and "j \<noteq> k \<Longrightarrow> map_of (spec_set n k v al) j = Some w \<Longrightarrow> map_of al j = Some w"
proof -
  show "map_of (spec_set n k v al) k = Some v" by (simp add: spec_set_def)
  assume "j \<noteq> k" and "map_of (spec_set n k v al) j = Some w"
  then show "map_of al j = Some w"
    using assms map_of_butlast_last [OF assms]
    by (cases "al = []") (auto simp: spec_set_def map_of_filter_neq split: if_splits)
qed

interpretation lru: lru_store LRU_Get LRU_Set LRU_Delete lru_lookup lru_inv
proof
  fix c :: "('k, 'v) LRU" and k j :: 'k and v w :: 'v
  assume inv: "lru_inv c"
  show "fst (LRU_Get c k) = lru_lookup c k" and "lru_inv (snd (LRU_Get c k))"
    by (rule LRU_Get_correct [OF inv])+
  show "lru_lookup (snd (LRU_Get c k)) = lru_lookup c" by (rule LRU_Get_lookup [OF inv])
  show "lru_lookup (LRU_Set c k v) k = Some v"
    using map_of_spec_set(1) lru_invD(3) [OF inv] by (simp add: lru_lookup_def LRU_Set_correct [OF inv])
  show "lru_lookup c j = Some w" if "j \<noteq> k" and "lru_lookup (LRU_Set c k v) j = Some w"
    using that map_of_spec_set(2) [OF lru_invD(3) [OF inv]]
    by (simp add: lru_lookup_def LRU_Set_correct [OF inv])
  show "lru_inv (LRU_Set c k v)" by (rule LRU_Set_correct [OF inv])
  show "lru_lookup (LRU_Delete c k) = (lru_lookup c)(k := None)"
    by (simp add: lru_lookup_def LRU_Delete_correct [OF inv] spec_del_def map_of_filter_neq)
  show "lru_inv (LRU_Delete c k)" by (rule LRU_Delete_correct [OF inv])
qed

subsection \<open>Runs of operations\<close>

datatype ('k, 'v) lru_op = OpGet 'k | OpSet 'k 'v | OpDelete 'k

fun lru_step :: "('k, 'v) LRU \<Rightarrow> ('k, 'v) lru_op \<Rightarrow> 'v option \<times> ('k, 'v) LRU" where
  "lru_step c (OpGet k) = LRU_Get c k"
| "lru_step c (OpSet k v) = (None, LRU_Set c k v)"
| "lru_step c (OpDelete k) = (None, LRU_Delete c k)"

fun lru_run :: "('k, 'v) LRU \<Rightarrow> ('k, 'v) lru_op list \<Rightarrow> 'v option list \<times> ('k, 'v) LRU" where
  "lru_run c [] = ([], c)"
| "lru_run c (x # xs) =
     (let (r, c1) = lru_step c x; (rs, c2) = lru_run c1 xs in (r # rs, c2))"

fun spec_step :: "int \<Rightarrow> ('k \<times> 'v) list \<Rightarrow> ('k, 'v) lru_op \<Rightarrow> 'v option \<times> ('k \<times> 'v) list" where
  "spec_step n al (OpGet k) = (map_of al k, spec_use k al)"
| "spec_step n al (OpSet k v) = (None, spec_set n k v al)"
| "spec_step n al (OpDelete k) = (None, spec_del k al)"

fun spec_run :: "int \<Rightarrow> ('k \<times> 'v) list \<Rightarrow> ('k, 'v) lru_op list \<Rightarrow> 'v option list \<times> ('k \<times> 'v) list" where
  "spec_run n al [] = ([], al)"
| "spec_run n al (x # xs) =
     (let (r, al1) = spec_step n al x; (rs, al2) = spec_run n al1 xs in (r # rs, al2))"

lemma lru_step_maxSize: "lru_maxSize (snd (lru_step c x)) = lru_maxSize c"
  by (cases x) (auto simp: LRU_Get_def LRU_Set_def LRU_Delete_def Let_def split: option.split)

lemma lru_step_refines:
  assumes "lru_inv c"
  shows "fst (lru_step c x) = fst (spec_step (lru_maxSize c) (lru_abs c) x)"
    and "lru_abs (snd (lru_step c x)) = snd (spec_step (lru_maxSize c) (lru_abs c) x)"
    and "lru_inv (snd (lru_step c x))"
  using LRU_Get_correct [OF assms] LRU_Set_correct [OF assms] LRU_Delete_correct [OF assms]
  by (cases x; simp add: lru_lookup_def)+

lemma lru_run_spec:
  "lru_inv c \<Longrightarrow>
   fst (lru_run c xs) = fst (spec_run (lru_maxSize c) (lru_abs c) xs) \<and>
   lru_abs (snd (lru_run c xs)) = snd (spec_run (lru_maxSize c) (lru_abs c) xs) \<and>
   lru_inv (snd (lru_run c xs))"
proof (induction xs arbitrary: c)
  case Nil
  then show ?case by simp
next
  case (Cons x xs)
  show ?case
    using Cons.IH [OF lru_step_refines(3) [OF Cons.prems], of x]
      lru_step_refines(1,2) [OF Cons.prems, of x]
    by (auto simp: lru_step_maxSize split: prod.splits)
qed

lemma NewLRU_abs [simp]: "lru_abs (NewLRU n) = []" "lru_maxSize (NewLRU n) = n"
  by (simp_all add: NewLRU_def lru_abs_def)

text \<open>C8: Whatever sequence of \<open>Get\<close>, \<open>Set\<close> and \<open>Delete\<close> is run on a fresh
  cache of any capacity, the pointer structure (hash map plus linked list) returns exactly the
  values of the specification, a plain list of pairs kept most recently used first whose last pair
  is dropped when a new key arrives at a full cache, and its list holds exactly those pairs.\<close>

theorem LRU_refines_recency_list:
  "fst (lru_run (NewLRU n) xs) = fst (spec_run n [] xs) \<and>
   lru_abs (snd (lru_run (NewLRU n) xs)) = snd (spec_run n [] xs)"
  using lru_run_spec [OF lru_inv_NewLRU, of n xs] by simp

subsection \<open>Capacity and eviction order\<close>

lemma length_filter_key:
  "k \<in> fst ` set al \<Longrightarrow> length (filter (\<lambda>p. fst p \<noteq> k) al) < length al"
  by (force intro: length_filter_less)

lemma length_spec_step:
  assumes "int (length al) \<le> max 1 n"
  shows "int (length (snd (spec_step n al x))) \<le> max 1 n"
proof (cases x)
  case (OpGet k)
  have "length (spec_use k al) \<le> length al"
  proof (cases "map_of al k")
    case None
    then show ?thesis by (simp add: spec_use_def)
  next
    case (Some v)
    then have "k \<in> fst ` set al" by (metis map_of_eq_None_iff option.distinct(1))
    then show ?thesis using Some length_filter_key [of k al] by (simp add: spec_use_def)
  qed
  with assms OpGet show ?thesis by simp
next
  case (OpSet k v)
  show ?thesis
  proof (cases "k \<in> fst ` set al")
    case True
    then have "Suc (length (filter (\<lambda>p. fst p \<noteq> k) al)) \<le> length al"
      using length_filter_key [OF True] by simp
    then show ?thesis using assms True OpSet by (simp add: spec_set_def)
  next
    case False
    then show ?thesis using assms OpSet by (auto simp: spec_set_def)
  qed
next
  case (OpDelete k)
  have "int (length (filter (\<lambda>p. fst p \<noteq> k) al)) \<le> int (length al)" by simp
  then have "int (length (filter (\<lambda>p. fst p \<noteq> k) al)) \<le> max 1 n"
    using assms by (rule order_trans)
  with OpDelete show ?thesis by (simp add: spec_del_def)
qed

lemma length_spec_run:
  "int (length al) \<le> max 1 n \<Longrightarrow> int (length (snd (spec_run n al xs))) \<le> max 1 n"
proof (induction xs arbitrary: al)
  case Nil
  then show ?case by simp
next
  case (Cons x xs)
  then show ?case
    using Cons.IH [OF length_spec_step [OF Cons.prems, of x]] by (simp add: case_prod_beta Let_def)
qed

text \<open>The cache never holds more than its capacity. A capacity below 1, which the
  constructor does not refuse, behaves as a capacity of 1: the code pushes the new entry after
  looking for one to evict.\<close>

lemma LRU_Len_bounded: "int (LRU_Len (snd (lru_run (NewLRU n) xs))) \<le> max 1 n"
proof -
  have "LRU_Len (snd (lru_run (NewLRU n) xs)) = length (lru_abs (snd (lru_run (NewLRU n) xs)))"
    by (simp add: LRU_Len_def lru_abs_def)
  then have "LRU_Len (snd (lru_run (NewLRU n) xs)) = length (snd (spec_run n [] xs))"
    using lru_run_spec [OF lru_inv_NewLRU, of n xs] by simp
  then show ?thesis using length_spec_run [of "[]" n xs] by simp
qed

text \<open>The keys in order of their last use, most recent first, with no bound.\<close>

fun recency :: "'k list \<Rightarrow> 'k list" where
  "recency [] = []"
| "recency (k # ks) = k # removeAll k (recency ks)"

definition lru_sets :: "int \<Rightarrow> ('k \<times> 'v) list \<Rightarrow> ('k, 'v) LRU" where
  "lru_sets n kvs = fold (\<lambda>(k, v) c. LRU_Set c k v) kvs (NewLRU n)"

lemma distinct_recency: "distinct (recency ks)"
  by (induction ks) (simp_all add: distinct_removeAll)

lemma take_removeAll:
  "distinct r \<Longrightarrow> k \<in> set (take n r) \<Longrightarrow> take (n - 1) (removeAll k r) = removeAll k (take n r)"
proof (induction r arbitrary: n)
  case Nil
  then show ?case by simp
next
  case (Cons x r)
  then obtain m where m: "n = Suc m" by (cases n) auto
  show ?case
  proof (cases "x = k")
    case True
    with Cons.prems have "k \<notin> set r" and "k \<notin> set (take m r)" by (auto dest: in_set_takeD)
    with True m show ?thesis by simp
  next
    case False
    with Cons.prems m have "k \<in> set (take m r)" by simp
    then obtain l where l: "m = Suc l" by (cases m) auto
    then show ?thesis using Cons.IH [of m] Cons.prems False m \<open>k \<in> set (take m r)\<close> by simp
  qed
qed

lemma take_removeAll_absent:
  "k \<notin> set (take n r) \<Longrightarrow> m \<le> n \<Longrightarrow> take m (removeAll k r) = take m r"
proof (induction r arbitrary: n m)
  case Nil
  then show ?case by simp
next
  case (Cons x r)
  then show ?case by (cases n; cases m) auto
qed

lemma keys_filter: "map fst (filter (\<lambda>p. fst p \<noteq> k) al) = removeAll k (map fst al)"
  by (induction al) auto

lemma keys_spec_set:
  assumes n: "1 \<le> n" and al: "map fst al = take (nat n) r" and r: "distinct r"
  shows "map fst (spec_set n k v al) = take (nat n) (k # removeAll k r)"
proof -
  obtain m where m: "nat n = Suc m" using n by (cases "nat n") auto
  have len: "length al = min (nat n) (length r)" using al by (metis length_map length_take min.commute)
  have mem: "k \<in> fst ` set al \<longleftrightarrow> k \<in> set (take (nat n) r)" by (metis al list.set_map)
  show ?thesis
  proof (cases "k \<in> set (take (nat n) r)")
    case True
    then show ?thesis
      using take_removeAll [OF r True] al m mem by (simp add: spec_set_def keys_filter)
  next
    case False
    then have rest: "take m (removeAll k r) = take m r"
      by (rule take_removeAll_absent) (simp add: m)
    show ?thesis
    proof (cases "int (length al) \<ge> n")
      case True
      then have "length al = nat n" using len by linarith
      then have "butlast (map fst al) = take m r"
        using al m len by (simp add: butlast_take)
      then show ?thesis
        using True False mem m rest by (simp add: spec_set_def map_butlast)
    next
      case 2: False
      then have "length r \<le> m" using len m by linarith
      then have "take m r = r" and "take (Suc m) r = r" by simp_all
      then show ?thesis
        using 2 False mem m rest al by (simp add: spec_set_def)
    qed
  qed
qed

lemma lru_sets_keys:
  assumes n: "1 \<le> n"
  shows "lru_inv c \<Longrightarrow> lru_maxSize c = n \<Longrightarrow> map fst (lru_abs c) = take (nat n) (recency ks) \<Longrightarrow>
    map fst (lru_abs (fold (\<lambda>(k, v) c. LRU_Set c k v) kvs c))
      = take (nat n) (recency (rev (map fst kvs) @ ks))"
proof (induction kvs arbitrary: c ks)
  case Nil
  then show ?case by simp
next
  case (Cons p kvs)
  obtain k v where p: "p = (k, v)" by (cases p)
  have "lru_inv (LRU_Set c k v)" by (rule LRU_Set_correct [OF Cons.prems(1)])
  moreover have "lru_maxSize (LRU_Set c k v) = n"
    using lru_step_maxSize [of c "OpSet k v"] Cons.prems(2) by simp
  moreover have "map fst (lru_abs (LRU_Set c k v)) = take (nat n) (recency (k # ks))"
    using keys_spec_set [OF n Cons.prems(3) distinct_recency] Cons.prems(1,2)
    by (simp add: LRU_Set_correct)
  ultimately show ?case using Cons.IH [of "LRU_Set c k v" "k # ks"] p by simp
qed

text \<open>Eviction is by recency of use: after any sequence of \<open>Set\<close> calls on a cache of
  capacity at least 1, the keys it holds are exactly the most recently set distinct keys, as many
  as the capacity allows, in that order.\<close>

lemma LRU_keeps_most_recent:
  assumes "1 \<le> n"
  shows "map fst (lru_abs (lru_sets n kvs)) = take (nat n) (recency (rev (map fst kvs)))"
  using lru_sets_keys [OF assms, of "NewLRU n" "[]" kvs]
  by (simp add: lru_sets_def lru_inv_NewLRU)

end
