(* ===== verification/Caches.thy ===== *)
theory Caches
  imports LruCache "HOL-Library.Word"
begin

text \<open>
  The caches built on the LRU: \<open>TTLLRU\<close> (\<open>internal/cache/ttl_lru.go\<close>) and \<open>ParseCache\<close>
  (\<open>internal/cache/cache.go\<close>). Both read an entry, judge it stale or not, and delete a stale one;
  their lemmas use only the interface \<open>lru_store\<close> through its interpretation \<open>lru\<close> on the
  model of the code. Times and durations are integers (nanoseconds); \<open>time.Now()\<close> is an argument.
  Every method holds the cache's mutex throughout, so a method is one step of the state.
\<close>

subsection \<open>TTLLRU\<close>

record 'v ttlEntry =
  te_value :: 'v
  te_at :: int
  te_ttl :: int

record ('k, 'v) TTLLRU =
  ttl_lru :: "('k, 'v ttlEntry) LRU"
  ttl_ttl :: int

definition NewTTLLRU :: "int \<Rightarrow> int \<Rightarrow> ('k, 'v) TTLLRU" where
  "NewTTLLRU maxSize ttl = \<lparr>ttl_lru = NewLRU maxSize, ttl_ttl = ttl\<rparr>"

definition TTLLRU_Get :: "int \<Rightarrow> ('k, 'v) TTLLRU \<Rightarrow> 'k \<Rightarrow> 'v option \<times> ('k, 'v) TTLLRU" where
  "TTLLRU_Get now c key =
     (case LRU_Get (ttl_lru c) key of
        (None, l) \<Rightarrow> (None, c\<lparr>ttl_lru := l\<rparr>)
      | (Some e, l) \<Rightarrow>
          if now - te_at e > te_ttl e then (None, c\<lparr>ttl_lru := LRU_Delete l key\<rparr>)
          else (Some (te_value e), c\<lparr>ttl_lru := l\<rparr>))"

definition TTLLRU_SetWithTTL :: "int \<Rightarrow> ('k, 'v) TTLLRU \<Rightarrow> 'k \<Rightarrow> 'v \<Rightarrow> int \<Rightarrow> ('k, 'v) TTLLRU" where
  "TTLLRU_SetWithTTL now c key value ttl =
     (if ttl \<le> 0 then c
      else c\<lparr>ttl_lru := LRU_Set (ttl_lru c) key \<lparr>te_value = value, te_at = now, te_ttl = ttl\<rparr>\<rparr>)"

definition TTLLRU_Set :: "int \<Rightarrow> ('k, 'v) TTLLRU \<Rightarrow> 'k \<Rightarrow> 'v \<Rightarrow> ('k, 'v) TTLLRU" where
  "TTLLRU_Set now c key value = TTLLRU_SetWithTTL now c key value (ttl_ttl c)"

definition TTLLRU_Delete :: "('k, 'v) TTLLRU \<Rightarrow> 'k \<Rightarrow> ('k, 'v) TTLLRU" where
  "TTLLRU_Delete c key = c\<lparr>ttl_lru := LRU_Delete (ttl_lru c) key\<rparr>"

definition TTLLRU_Len :: "('k, 'v) TTLLRU \<Rightarrow> nat" where
  "TTLLRU_Len c = LRU_Len (ttl_lru c)"

text \<open>A history of calls, each with the clock reading of its moment, newest last.\<close>

datatype ('k, 'v) ttl_op = TGet 'k | TSet 'k 'v | TSetTTL 'k 'v int | TDelete 'k

fun ttl_step :: "('k, 'v) TTLLRU \<Rightarrow> int \<times> ('k, 'v) ttl_op \<Rightarrow> ('k, 'v) TTLLRU" where
  "ttl_step c (now, TGet k) = snd (TTLLRU_Get now c k)"
| "ttl_step c (now, TSet k v) = TTLLRU_Set now c k v"
| "ttl_step c (now, TSetTTL k v ttl) = TTLLRU_SetWithTTL now c k v ttl"
| "ttl_step c (now, TDelete k) = TTLLRU_Delete c k"

text \<open>What the calls wrote last for a key: value, time and lifetime; nothing after a delete.\<close>

fun last_write :: "int \<Rightarrow> 'k \<Rightarrow> (int \<times> ('k, 'v) ttl_op) list \<Rightarrow> 'v ttlEntry option \<Rightarrow> 'v ttlEntry option" where
  "last_write d k [] w = w"
| "last_write d k ((now, TGet j) # h) w = last_write d k h w"
| "last_write d k ((now, TSet j v) # h) w =
     last_write d k h (if j = k \<and> d > 0 then Some \<lparr>te_value = v, te_at = now, te_ttl = d\<rparr> else w)"
| "last_write d k ((now, TSetTTL j v ttl) # h) w =
     last_write d k h (if j = k \<and> ttl > 0 then Some \<lparr>te_value = v, te_at = now, te_ttl = ttl\<rparr> else w)"
| "last_write d k ((now, TDelete j) # h) w = last_write d k h (if j = k then None else w)"

definition ttl_ok :: "('k \<Rightarrow> 'v ttlEntry option) \<Rightarrow> ('k, 'v) TTLLRU \<Rightarrow> bool" where
  "ttl_ok w c \<longleftrightarrow> lru_inv (ttl_lru c) \<and>
     (\<forall>k e. lru_lookup (ttl_lru c) k = Some e \<longrightarrow> w k = Some e)"

lemma ttl_ok_get: "ttl_ok w c \<Longrightarrow> ttl_ok w (snd (TTLLRU_Get now c k))"
proof -
  assume ok: "ttl_ok w c"
  obtain r l where g: "LRU_Get (ttl_lru c) k = (r, l)" by (cases "LRU_Get (ttl_lru c) k")
  from ok have "lru_inv (ttl_lru c)" by (simp add: ttl_ok_def)
  note lru.guarded_read [OF this g]
  with ok g show ?thesis by (auto simp: TTLLRU_Get_def ttl_ok_def split: option.split if_splits)
qed

lemma ttl_ok_set:
  assumes "ttl_ok w c" and "0 < ttl"
  shows "ttl_ok (w(k \<mapsto> \<lparr>te_value = v, te_at = now, te_ttl = ttl\<rparr>)) (TTLLRU_SetWithTTL now c k v ttl)"
  using assms lru.put_inv [of "ttl_lru c"] lru.put_same [of "ttl_lru c" k] lru.put_other [of "ttl_lru c"]
  by (auto simp: ttl_ok_def TTLLRU_SetWithTTL_def)

lemma ttl_ok_delete: "ttl_ok w c \<Longrightarrow> ttl_ok (w(k := None)) (TTLLRU_Delete c k)"
  by (simp add: ttl_ok_def TTLLRU_Delete_def lru.del_inv lru.del_lookup)

lemma ttl_step_ttl: "ttl_ttl (ttl_step c x) = ttl_ttl c"
  by (cases "(c, x)" rule: ttl_step.cases)
    (simp_all add: TTLLRU_Get_def TTLLRU_SetWithTTL_def TTLLRU_Set_def TTLLRU_Delete_def split: prod.split option.split)

lemma ttl_step_ok:
  assumes "ttl_ok w c"
  shows "ttl_ok (\<lambda>k. last_write (ttl_ttl c) k [x] (w k)) (ttl_step c x)"
proof -
  obtain now y where x: "x = (now, y)" by (cases x)
  have eq: "(\<lambda>k. if j = k then f else w k) = w(j := f)" for j f by auto
  show ?thesis
    using assms ttl_ok_get [OF assms] ttl_ok_delete [OF assms] ttl_ok_set [OF assms]
    by (cases y) (auto simp: x eq TTLLRU_Set_def TTLLRU_SetWithTTL_def)
qed

lemma last_write_snoc: "last_write d k (h @ [x]) w = last_write d k [x] (last_write d k h w)"
  by (induction d k h w rule: last_write.induct) simp_all

lemma ttl_run_ok:
  "ttl_ok (\<lambda>k. last_write ttl k h None) (foldl ttl_step (NewTTLLRU n ttl) h) \<and>
   ttl_ttl (foldl ttl_step (NewTTLLRU n ttl) h) = ttl"
proof (induction h rule: rev_induct)
  case Nil
  show ?case by (simp add: ttl_ok_def NewTTLLRU_def lru_inv_NewLRU lru_lookup_def)
next
  case (snoc x h)
  then show ?case
    using ttl_step_ok [of _ "foldl ttl_step (NewTTLLRU n ttl) h" x]
    by (simp add: ttl_step_ttl last_write_snoc)
qed

text \<open>A \<open>Get\<close> on a TTL cache that returns a value returns the last value written for that
  key, which was not deleted since, was written with a positive lifetime, and has not outlived it:
  an expired, deleted or superseded value is never returned, whatever calls came before.\<close>

lemma TTLLRU_Get_fresh:
  assumes "fst (TTLLRU_Get now (foldl ttl_step (NewTTLLRU n ttl) h) k) = Some v"
  shows "\<exists>at d. last_write ttl k h None = Some \<lparr>te_value = v, te_at = at, te_ttl = d\<rparr> \<and> now - at \<le> d"
proof -
  let ?c = "foldl ttl_step (NewTTLLRU n ttl) h"
  have ok: "ttl_ok (\<lambda>k. last_write ttl k h None) ?c" using ttl_run_ok by blast
  obtain r l where g: "LRU_Get (ttl_lru ?c) k = (r, l)" by (cases "LRU_Get (ttl_lru ?c) k")
  have "r = lru_lookup (ttl_lru ?c) k"
    using ok lru.guarded_read(1) [OF _ g] by (simp add: ttl_ok_def)
  moreover from assms g obtain e where e: "r = Some e" "te_value e = v" "now - te_at e \<le> te_ttl e"
    by (auto simp: TTLLRU_Get_def split: option.splits if_splits)
  ultimately have "lru_lookup (ttl_lru ?c) k = Some e" by simp
  with ok have "last_write ttl k h None = Some e" by (simp add: ttl_ok_def)
  then show ?thesis using e by (cases e) auto
qed

text \<open>A write under the default lifetime is readable for exactly that long: read back
  within the lifetime it returns the value, and after it the read misses and the entry is gone.\<close>

lemma TTLLRU_Set_Get:
  assumes "lru_inv (ttl_lru c)" and "0 < ttl_ttl c"
  shows "fst (TTLLRU_Get now (TTLLRU_Set at c k v) k) = (if now - at \<le> ttl_ttl c then Some v else None) \<and>
    lru_lookup (ttl_lru (snd (TTLLRU_Get now (TTLLRU_Set at c k v) k))) k
      = (if now - at \<le> ttl_ttl c then Some \<lparr>te_value = v, te_at = at, te_ttl = ttl_ttl c\<rparr> else None)"
proof -
  let ?e = "\<lparr>te_value = v, te_at = at, te_ttl = ttl_ttl c\<rparr>"
  let ?l = "LRU_Set (ttl_lru c) k ?e"
  obtain r l where g: "LRU_Get ?l k = (r, l)" by (cases "LRU_Get ?l k")
  note gr = lru.guarded_read [OF lru.put_inv [OF assms(1)] g]
  have "r = Some ?e" using gr(1) lru.put_same [OF assms(1)] by simp
  with g gr(3,5) lru.put_same [OF assms(1)] assms(2) show ?thesis
    by (auto simp: TTLLRU_Set_def TTLLRU_SetWithTTL_def TTLLRU_Get_def)
qed

subsection \<open>ParseCache\<close>

text \<open>
  The parse results and call sites that the cache stores are opaque to it (types \<open>'r\<close> and
  \<open>'s\<close>). The hit and miss counters are \<open>int64\<close>.
\<close>

record parseCacheKey =
  pk_path :: string
  pk_includeBody :: bool
  pk_includeTypeRels :: bool

lemma parseCacheKey_eta [simp]:
  "\<lparr>pk_path = pk_path k, pk_includeBody = pk_includeBody k, pk_includeTypeRels = pk_includeTypeRels k\<rparr> = k"
  by (cases k) simp

record ('r, 's) parseCacheEntry =
  pe_result :: 'r
  pe_calls :: "'s list"
  pe_modTime :: "64 word"
  pe_size :: "64 word"

record ('r, 's) ParseCache =
  pc_lru :: "(parseCacheKey, ('r, 's) parseCacheEntry) LRU"
  pc_hits :: "64 word"
  pc_misses :: "64 word"

definition DefaultParseCacheSize :: int where
  "DefaultParseCacheSize = 5000"

definition NewParseCache :: "int \<Rightarrow> ('r, 's) ParseCache" where
  "NewParseCache maxSize =
     \<lparr>pc_lru = NewLRU (if maxSize \<le> 0 then DefaultParseCacheSize else maxSize), pc_hits = 0, pc_misses = 0\<rparr>"

definition ParseCache_Get ::
  "('r, 's) ParseCache \<Rightarrow> string \<Rightarrow> 64 word \<Rightarrow> 64 word \<Rightarrow> bool \<Rightarrow> bool \<Rightarrow>
   ('r \<times> 's list) option \<times> ('r, 's) ParseCache" where
  "ParseCache_Get c path modTime fsize includeBody includeTypeRels =
     (let key = \<lparr>pk_path = path, pk_includeBody = includeBody, pk_includeTypeRels = includeTypeRels\<rparr>
      in case LRU_Get (pc_lru c) key of
           (None, l) \<Rightarrow> (None, c\<lparr>pc_lru := l, pc_misses := pc_misses c + 1\<rparr>)
         | (Some e, l) \<Rightarrow>
             if pe_modTime e \<noteq> modTime \<or> pe_size e \<noteq> fsize
             then (None, c\<lparr>pc_lru := LRU_Delete l key, pc_misses := pc_misses c + 1\<rparr>)
             else (Some (pe_result e, pe_calls e), c\<lparr>pc_lru := l, pc_hits := pc_hits c + 1\<rparr>))"

definition ParseCache_Put ::
  "('r, 's) ParseCache \<Rightarrow> string \<Rightarrow> 64 word \<Rightarrow> 64 word \<Rightarrow> bool \<Rightarrow> bool \<Rightarrow> 'r \<Rightarrow> 's list \<Rightarrow>
   ('r, 's) ParseCache" where
  "ParseCache_Put c path modTime fsize includeBody includeTypeRels result calls =
     (let key = \<lparr>pk_path = path, pk_includeBody = includeBody, pk_includeTypeRels = includeTypeRels\<rparr>
      in c\<lparr>pc_lru := LRU_Set (pc_lru c) key
              \<lparr>pe_result = result, pe_calls = calls, pe_modTime = modTime, pe_size = fsize\<rparr>\<rparr>)"

record Stats =
  st_Hits :: "64 word"
  st_Misses :: "64 word"
  st_Entries :: nat

definition ParseCache_Stats :: "('r, 's) ParseCache \<Rightarrow> Stats" where
  "ParseCache_Stats c = \<lparr>st_Hits = pc_hits c, st_Misses = pc_misses c, st_Entries = LRU_Len (pc_lru c)\<rparr>"

text \<open>Histories of calls; a call carries its key, the file's modification time and its size.\<close>

datatype ('r, 's) pc_op =
  PGet parseCacheKey "64 word" "64 word"
| PPut parseCacheKey "64 word" "64 word" 'r "'s list"

fun pc_step :: "('r, 's) ParseCache \<Rightarrow> ('r, 's) pc_op \<Rightarrow> ('r, 's) ParseCache" where
  "pc_step c (PGet k m z) = snd (ParseCache_Get c (pk_path k) m z (pk_includeBody k) (pk_includeTypeRels k))"
| "pc_step c (PPut k m z r s) = ParseCache_Put c (pk_path k) m z (pk_includeBody k) (pk_includeTypeRels k) r s"

fun last_put :: "parseCacheKey \<Rightarrow> ('r, 's) pc_op list \<Rightarrow> ('r, 's) parseCacheEntry option \<Rightarrow>
    ('r, 's) parseCacheEntry option" where
  "last_put k [] w = w"
| "last_put k (PGet j m z # h) w = last_put k h w"
| "last_put k (PPut j m z r s # h) w =
     last_put k h (if j = k then Some \<lparr>pe_result = r, pe_calls = s, pe_modTime = m, pe_size = z\<rparr> else w)"

fun n_gets :: "('r, 's) pc_op list \<Rightarrow> nat" where
  "n_gets [] = 0"
| "n_gets (PGet k m z # h) = Suc (n_gets h)"
| "n_gets (PPut k m z r s # h) = n_gets h"

definition pc_ok :: "(parseCacheKey \<Rightarrow> ('r, 's) parseCacheEntry option) \<Rightarrow> ('r, 's) ParseCache \<Rightarrow> bool" where
  "pc_ok w c \<longleftrightarrow> lru_inv (pc_lru c) \<and> (\<forall>k e. lru_lookup (pc_lru c) k = Some e \<longrightarrow> w k = Some e)"

lemma last_put_snoc: "last_put k (h @ [x]) w = last_put k [x] (last_put k h w)"
  by (induction k h w rule: last_put.induct) simp_all

lemma n_gets_snoc: "n_gets (h @ [x]) = n_gets h + n_gets [x]"
  by (induction h rule: n_gets.induct) simp_all

lemma pc_step_ok:
  assumes "pc_ok w c"
  shows "pc_ok (\<lambda>k. last_put k [x] (w k)) (pc_step c x)"
proof (cases x)
  case (PGet k m z)
  obtain r l where g: "LRU_Get (pc_lru c) k = (r, l)" by (cases "LRU_Get (pc_lru c) k")
  from assms have "lru_inv (pc_lru c)" by (simp add: pc_ok_def)
  note lru.guarded_read [OF this g]
  with assms g PGet show ?thesis
    by (auto simp: ParseCache_Get_def pc_ok_def Let_def split: option.split if_splits)
next
  case (PPut k m z r s)
  have inv: "lru_inv (pc_lru c)" using assms by (simp add: pc_ok_def)
  have "w j = Some e" if "j \<noteq> k" and "lru_lookup (LRU_Set (pc_lru c) k u) j = Some e" for j e u
    using assms lru.put_other [OF inv that] by (simp add: pc_ok_def)
  with PPut show ?thesis
    using lru.put_inv [OF inv] lru.put_same [OF inv, of k]
    by (auto simp: ParseCache_Put_def pc_ok_def Let_def)
qed

lemma pc_step_counts:
  "pc_hits (pc_step c x) + pc_misses (pc_step c x) = pc_hits c + pc_misses c + of_nat (n_gets [x])"
  by (cases x) (auto simp: ParseCache_Get_def ParseCache_Put_def Let_def split: prod.split option.split)

lemma pc_run_ok:
  "pc_ok (\<lambda>k. last_put k h None) (foldl pc_step (NewParseCache n) h) \<and>
   pc_hits (foldl pc_step (NewParseCache n) h) + pc_misses (foldl pc_step (NewParseCache n) h) = of_nat (n_gets h)"
proof (induction h rule: rev_induct)
  case Nil
  show ?case by (simp add: pc_ok_def NewParseCache_def lru_inv_NewLRU lru_lookup_def)
next
  case (snoc x h)
  let ?c = "foldl pc_step (NewParseCache n) h"
  from snoc pc_step_ok [of _ ?c x] show ?case
    by (simp add: last_put_snoc n_gets_snoc [of h x] pc_step_counts add.assoc)
qed

text \<open>The parse cache returns a result only for the file state it was parsed from: a hit
  for a path, an include mode and a (modification time, size) pair is exactly what the last \<open>Put\<close>
  under that path and those modes stored, with that modification time and that size. Modes never
  see each other's entries.\<close>

lemma ParseCache_Get_sound:
  assumes "fst (ParseCache_Get (foldl pc_step (NewParseCache n) h) path m z b t) = Some (r, s)"
  shows "last_put \<lparr>pk_path = path, pk_includeBody = b, pk_includeTypeRels = t\<rparr> h None
      = Some \<lparr>pe_result = r, pe_calls = s, pe_modTime = m, pe_size = z\<rparr>"
proof -
  let ?c = "foldl pc_step (NewParseCache n) h"
  let ?k = "\<lparr>pk_path = path, pk_includeBody = b, pk_includeTypeRels = t\<rparr>"
  have ok: "pc_ok (\<lambda>k. last_put k h None) ?c" using pc_run_ok by blast
  obtain x l where g: "LRU_Get (pc_lru ?c) ?k = (x, l)" by (cases "LRU_Get (pc_lru ?c) ?k")
  have "x = lru_lookup (pc_lru ?c) ?k"
    using ok lru.guarded_read(1) [OF _ g] by (simp add: pc_ok_def)
  moreover from assms g obtain e where e: "x = Some e" "pe_result e = r" "pe_calls e = s"
      "pe_modTime e = m" "pe_size e = z"
    by (auto simp: ParseCache_Get_def Let_def split: option.splits if_splits)
  ultimately have "lru_lookup (pc_lru ?c) ?k = Some e" by simp
  with ok have "last_put ?k h None = Some e" by (simp add: pc_ok_def)
  with e show ?thesis by (cases e) simp
qed

text \<open>Every read of the parse cache is counted once, as a hit or as a miss: after any calls
  the two \<open>int64\<close> counters add up, modulo their width, to the number of reads.\<close>

lemma ParseCache_counts_reads:
  "st_Hits (ParseCache_Stats (foldl pc_step (NewParseCache n) h))
     + st_Misses (ParseCache_Stats (foldl pc_step (NewParseCache n) h)) = of_nat (n_gets h)"
  using pc_run_ok [of h n] by (simp add: ParseCache_Stats_def)

end
