(* ===== verification/GoStrings.thy ===== *)
theory GoStrings
  imports Prelude
begin

text \<open>
  The operations of Go's packages \<open>strings\<close>, \<open>bytes\<close> and \<open>strconv\<close> that the source
  uses, on byte strings: \<open>HasPrefix s p\<close> is \<^term>\<open>prefix p s\<close>, \<open>HasSuffix s p\<close> is
  \<^term>\<open>suffix p s\<close>, \<open>Contains s p\<close> is \<^term>\<open>sublist p s\<close>; the others are defined here,
  each with the facts that characterise it.
\<close>

subsection \<open>Index and LastIndex\<close>

fun str_index :: "'a list \<Rightarrow> 'a list \<Rightarrow> nat option" where
  "str_index [] p = (if p = [] then Some 0 else None)"
| "str_index (c # s) p = (if prefix p (c # s) then Some 0 else map_option Suc (str_index s p))"

lemma str_index_SomeD:
  "str_index s p = Some i \<Longrightarrow> prefix p (drop i s) \<and> i \<le> length s \<and> (\<forall>j < i. \<not> prefix p (drop j s))"
proof (induction s arbitrary: i)
  case Nil
  then show ?case by (auto split: if_splits)
next
  case (Cons c s)
  show ?case
  proof (cases "prefix p (c # s)")
    case True
    with Cons.prems show ?thesis by simp
  next
    case False
    with Cons.prems obtain j where j: "str_index s p = Some j" "i = Suc j" by auto
    with Cons.IH [of j] False show ?thesis
      by (auto simp: less_Suc_eq_0_disj)
  qed
qed

lemma str_index_None_iff [str_facts]: "str_index s p = None \<longleftrightarrow> \<not> sublist p s"
proof (induction s)
  case Nil
  show ?case by simp
next
  case (Cons c s)
  show ?case
    using Cons by (auto simp: sublist_Cons_right)
qed

lemma str_index_append:
  "str_index s p = Some i \<Longrightarrow> s = take i s @ p @ drop (i + length p) s"
  by (metis append_take_drop_id drop_drop prefix_def str_index_SomeD append_eq_conv_conj add.commute)

lemma str_index_single_None [simp]: "str_index s [c] = None \<longleftrightarrow> c \<notin> set s"
  by (induction s) auto

lemma str_index_single_notin:
  "str_index s [c] = Some i \<Longrightarrow> c \<notin> set (take i s) \<and> i < length s \<and> s ! i = c"
proof (induction s arbitrary: i)
  case Nil
  then show ?case by simp
next
  case (Cons x s)
  show ?case
  proof (cases "x = c")
    case True
    with Cons.prems show ?thesis by simp
  next
    case False
    with Cons.prems obtain j where "str_index s [c] = Some j" and "i = Suc j" by auto
    with Cons.IH [of j] False show ?thesis by auto
  qed
qed

lemma str_index_single_append:
  "c \<notin> set a \<Longrightarrow> str_index (a @ c # b) [c] = Some (length a)"
  by (induction a) auto

fun str_last_index :: "'a list \<Rightarrow> 'a list \<Rightarrow> nat option" where
  "str_last_index [] p = (if p = [] then Some 0 else None)"
| "str_last_index (c # s) p =
     (case str_last_index s p of
        Some i \<Rightarrow> Some (Suc i)
      | None \<Rightarrow> if prefix p (c # s) then Some 0 else None)"

lemma str_last_index_None_iff [str_facts]: "str_last_index s p = None \<longleftrightarrow> \<not> sublist p s"
proof (induction s)
  case Nil
  show ?case by simp
next
  case (Cons c s)
  then show ?case by (auto simp: sublist_Cons_right split: option.splits)
qed

lemma str_last_index_single_SomeD:
  "str_last_index s [c] = Some i \<Longrightarrow> i < length s \<and> s ! i = c \<and> c \<notin> set (drop (Suc i) s)"
proof (induction s arbitrary: i)
  case Nil
  then show ?case by simp
next
  case (Cons x s)
  then show ?case
    by (auto split: option.splits if_splits simp: str_last_index_None_iff)
      (metis (mono_tags, lifting) append_Cons append_Nil split_list sublist_def)
qed

lemma str_last_index_single_append:
  "c \<notin> set b \<Longrightarrow> str_last_index (a @ c # b) [c] = Some (length a)"
proof (induction a)
  case Nil
  then have "str_last_index b [c] = None"
    by (auto simp: str_last_index_None_iff dest: set_mono_sublist)
  then show ?case by simp
next
  case (Cons x a)
  then show ?case by simp
qed

lemma str_last_index_single_None [simp]: "str_last_index s [c] = None \<longleftrightarrow> c \<notin> set s"
  by (induction s) (auto split: option.splits)

subsection \<open>Split and Join\<close>

fun split_on :: "'a \<Rightarrow> 'a list \<Rightarrow> 'a list list" where
  "split_on c [] = [[]]"
| "split_on c (x # s) =
     (if x = c then [] # split_on c s
      else (case split_on c s of [] \<Rightarrow> [[x]] | y # ys \<Rightarrow> (x # y) # ys))"

fun str_join :: "'a list \<Rightarrow> 'a list list \<Rightarrow> 'a list" where
  "str_join sep [] = []"
| "str_join sep [x] = x"
| "str_join sep (x # y # ys) = x @ sep @ str_join sep (y # ys)"

lemma split_on_not_Nil [simp]: "split_on c s \<noteq> []"
  by (induction s) (auto split: list.splits)

lemma str_join_Cons: "xs \<noteq> [] \<Longrightarrow> str_join sep (x # xs) = x @ sep @ str_join sep xs"
  by (cases xs) auto

lemma str_join_split_on [str_facts]: "str_join [c] (split_on c s) = s"
proof (induction s)
  case Nil
  show ?case by simp
next
  case (Cons x s)
  show ?case
  proof (cases "x = c")
    case True
    with Cons show ?thesis by (simp add: str_join_Cons)
  next
    case False
    obtain y ys where ys: "split_on c s = y # ys"
      by (cases "split_on c s") auto
    with Cons False show ?thesis by (cases ys) auto
  qed
qed

lemma split_on_no_sep: "p \<in> set (split_on c s) \<Longrightarrow> c \<notin> set p"
proof (induction s arbitrary: p)
  case Nil
  then show ?case by simp
next
  case (Cons x s)
  then show ?case by (cases "split_on c s") (auto split: if_splits)
qed

lemma split_on_id: "c \<notin> set s \<Longrightarrow> split_on c s = [s]"
  by (induction s) auto

lemma split_on_append_sep: "c \<notin> set a \<Longrightarrow> split_on c (a @ c # s) = a # split_on c s"
  by (induction a) auto

lemma split_on_str_join [str_facts]:
  "ps \<noteq> [] \<Longrightarrow> \<forall>p \<in> set ps. c \<notin> set p \<Longrightarrow> split_on c (str_join [c] ps) = ps"
proof (induction "[c]" ps rule: str_join.induct)
  case 1
  then show ?case by simp
next
  case (2 x)
  then show ?case by (simp add: split_on_id)
next
  case (3 x y ys)
  then show ?case by (simp add: split_on_append_sep)
qed

subsection \<open>Trimming, replacing and formatting\<close>

definition trim_suffix :: "'a list \<Rightarrow> 'a list \<Rightarrow> 'a list" where
  "trim_suffix s p = (if suffix p s then take (length s - length p) s else s)"

definition trim_prefix :: "'a list \<Rightarrow> 'a list \<Rightarrow> 'a list" where
  "trim_prefix s p = (if prefix p s then drop (length p) s else s)"

lemma trim_suffix_append [simp]: "trim_suffix (s @ p) p = s"
  by (simp add: trim_suffix_def suffix_def)

lemma trim_suffix_not: "\<not> suffix p s \<Longrightarrow> trim_suffix s p = s"
  by (simp add: trim_suffix_def)

lemma trim_prefix_append [simp]: "trim_prefix (p @ s) p = s"
  by (simp add: trim_prefix_def)

text \<open>\<open>ReplaceAll\<close> with a one-byte pattern.\<close>

definition replace_char :: "'a \<Rightarrow> 'a list \<Rightarrow> 'a list \<Rightarrow> 'a list" where
  "replace_char c r s = concat (map (\<lambda>x. if x = c then r else [x]) s)"

lemma replace_char_simps [simp]:
  "replace_char c r [] = []"
  "replace_char c r (x # s) = (if x = c then r else [x]) @ replace_char c r s"
  by (simp_all add: replace_char_def)

lemma replace_char_append [simp]: "replace_char c r (s @ t) = replace_char c r s @ replace_char c r t"
  by (simp add: replace_char_def)

lemma replace_char_absent: "c \<notin> set s \<Longrightarrow> replace_char c r s = s"
  by (induction s) auto

definition digit_char :: "nat \<Rightarrow> char" where
  "digit_char d = ''0123456789'' ! d"

text \<open>Decimal formatting, as the verb \<open>%d\<close> and \<open>strconv.Itoa\<close> print it.\<close>

fun nat_dec :: "nat \<Rightarrow> string" where
  "nat_dec n = (if n < 10 then [digit_char n] else nat_dec (n div 10) @ [digit_char (n mod 10)])"

declare nat_dec.simps [simp del]

definition int_dec :: "int \<Rightarrow> string" where
  "int_dec i = (if i < 0 then CHR ''-'' # nat_dec (nat (- i)) else nat_dec (nat i))"

lemma nat_dec_not_Nil [simp]: "nat_dec n \<noteq> []"
  by (subst nat_dec.simps) simp

lemma digit_char_range: "d < 10 \<Longrightarrow> digit_char d \<in> set ''0123456789''"
  unfolding digit_char_def by (rule nth_mem) simp

lemma nat_dec_digits: "c \<in> set (nat_dec n) \<Longrightarrow> c \<in> set ''0123456789''"
proof (induction n rule: nat_dec.induct)
  case (1 n)
  show ?case
  proof (cases "n < 10")
    case True
    with "1.prems" have "c = digit_char n" by (simp add: nat_dec.simps [of n])
    with True show ?thesis using digit_char_range by blast
  next
    case False
    with "1.prems" consider "c \<in> set (nat_dec (n div 10))" | "c = digit_char (n mod 10)"
      by (auto simp: nat_dec.simps [of n])
    then show ?thesis
    proof cases
      case 1
      with False "1.IH" show ?thesis by blast
    next
      case 2
      then show ?thesis using digit_char_range [of "n mod 10"] by simp
    qed
  qed
qed

text \<open>ASCII white space, as \<open>strings.TrimSpace\<close> and \<open>bytes.TrimSpace\<close> see it on ASCII input.\<close>

definition is_space :: "char \<Rightarrow> bool" where
  "is_space c \<longleftrightarrow> c \<in> {CHR '' '', CHR 0x09, CHR 0x0A, CHR 0x0B, CHR 0x0C, CHR 0x0D}"

definition trim_left_with :: "('a \<Rightarrow> bool) \<Rightarrow> 'a list \<Rightarrow> 'a list" where
  "trim_left_with P s = dropWhile P s"

definition trim_right_with :: "('a \<Rightarrow> bool) \<Rightarrow> 'a list \<Rightarrow> 'a list" where
  "trim_right_with P s = rev (dropWhile P (rev s))"

definition trim_space :: "string \<Rightarrow> string" where
  "trim_space s = trim_right_with is_space (trim_left_with is_space s)"

end
