(* ===== verification/DagCycle.thy ===== *)
theory DagCycle
  imports GoStrings
begin

text \<open>
  \<open>detectDAGCycle\<close> of \<open>internal/goutil/dag.go\<close>: a depth-first search with three colours that
  rejects a node list whose dependencies form a cycle. The recursive closure \<open>visit\<close> and its loop
  over the dependencies are the two functions below; the colour map is threaded through them, and
  a fuel argument bounds the depth of the recursion. One unit per identifier is enough
  (\<open>dag_visit_returns\<close>), since every nested call has one white identifier less.
\<close>

record dag_node =
  node_id :: string
  node_deps :: "string list"

datatype dag_color = White | Gray | Black

text \<open>The map \<open>deps\<close>: the last node with an identifier wins; an unknown identifier has none.\<close>

definition dag_deps :: "dag_node list \<Rightarrow> string \<Rightarrow> string list" where
  "dag_deps nodes x =
     (case map_of (rev (map (\<lambda>n. (node_id n, node_deps n)) nodes)) x of None \<Rightarrow> [] | Some ds \<Rightarrow> ds)"

function (sequential)
  dag_visit :: "nat \<Rightarrow> (string \<Rightarrow> string list) \<Rightarrow> string \<Rightarrow> (string \<Rightarrow> dag_color) \<Rightarrow>
      ((string \<times> string) option \<times> (string \<Rightarrow> dag_color)) option"
  and dag_loop :: "nat \<Rightarrow> (string \<Rightarrow> string list) \<Rightarrow> string \<Rightarrow> string list \<Rightarrow> (string \<Rightarrow> dag_color) \<Rightarrow>
      ((string \<times> string) option \<times> (string \<Rightarrow> dag_color)) option"
where
  "dag_visit 0 deps x color = None"
| "dag_visit (Suc f) deps x color =
     (case dag_loop f deps x (deps x) (color(x := Gray)) of
        None \<Rightarrow> None
      | Some (Some cyc, c) \<Rightarrow> Some (Some cyc, c)
      | Some (None, c) \<Rightarrow> Some (None, c(x := Black)))"
| "dag_loop f deps x [] color = Some (None, color)"
| "dag_loop f deps x (d # ds) color =
     (case color d of
        Gray \<Rightarrow> Some (Some (x, d), color)
      | White \<Rightarrow>
          (case dag_visit f deps d color of
             None \<Rightarrow> None
           | Some (Some cyc, c) \<Rightarrow> Some (Some cyc, c)
           | Some (None, c) \<Rightarrow> dag_loop f deps x ds c)
      | Black \<Rightarrow> dag_loop f deps x ds color)"
  by pat_completeness auto
termination
  by (relation "measures [\<lambda>a. case a of Inl (f, _) \<Rightarrow> 2 * f | Inr (f, _) \<Rightarrow> 2 * f + 1,
                          \<lambda>a. case a of Inl _ \<Rightarrow> 0 | Inr (_, _, _, ds, _) \<Rightarrow> length ds]") auto

fun dag_check :: "nat \<Rightarrow> (string \<Rightarrow> string list) \<Rightarrow> string list \<Rightarrow> (string \<Rightarrow> dag_color) \<Rightarrow>
    (string \<times> string) option option" where
  "dag_check f deps [] color = Some None"
| "dag_check f deps (x # xs) color =
     (if color x = White then
        (case dag_visit f deps x color of
           None \<Rightarrow> None
         | Some (Some cyc, c) \<Rightarrow> Some (Some cyc)
         | Some (None, c) \<Rightarrow> dag_check f deps xs c)
      else dag_check f deps xs color)"

definition dag_ids :: "dag_node list \<Rightarrow> string list" where
  "dag_ids nodes = remdups (map node_id nodes @ concat (map node_deps nodes))"

text \<open>\<open>None\<close>: the search did not return; \<open>Some None\<close>: no error; \<open>Some (Some e)\<close>: the error \<open>e\<close>.\<close>

definition detectDAGCycle :: "dag_node list \<Rightarrow> string option option" where
  "detectDAGCycle nodes =
     map_option (map_option (\<lambda>(x, d). ''dependency cycle: '' @ x @ [CHR '' '', CHR 0xE2, CHR 0x86, CHR 0x92, CHR '' ''] @ d))
       (dag_check (Suc (length (dag_ids nodes))) (dag_deps nodes) (map node_id nodes) (\<lambda>_. White))"

definition dep_edges :: "(string \<Rightarrow> string list) \<Rightarrow> (string \<times> string) set" where
  "dep_edges deps = {(x, d). d \<in> set (deps x)}"

subsection \<open>The search returns\<close>

definition whites :: "string set \<Rightarrow> (string \<Rightarrow> dag_color) \<Rightarrow> string set" where
  "whites U color = {x \<in> U. color x = White}"

definition closed_under :: "(string \<Rightarrow> string list) \<Rightarrow> string set \<Rightarrow> bool" where
  "closed_under deps U \<longleftrightarrow> (\<forall>x \<in> U. set (deps x) \<subseteq> U)"

lemma whites_mono: "(\<And>x. c x \<noteq> White \<Longrightarrow> c' x \<noteq> White) \<Longrightarrow> whites U c' \<subseteq> whites U c"
  by (auto simp: whites_def)

lemma dag_no_new_white:
  "dag_visit f deps x c = Some (r, c') \<Longrightarrow> c z \<noteq> White \<Longrightarrow> c' z \<noteq> White"
  "dag_loop f deps x ds c = Some (r, c') \<Longrightarrow> c z \<noteq> White \<Longrightarrow> c' z \<noteq> White"
proof (induction f deps x c and f deps x ds c arbitrary: r c' and r c' rule: dag_visit_dag_loop.induct)
  case (2 f deps x color)
  from "2.prems"(1) obtain r0 c where l: "dag_loop f deps x (deps x) (color(x := Gray)) = Some (r0, c)"
    and c': "c' = c \<or> c' = c(x := Black)"
    by (auto split: option.splits)
  from "2.IH" [OF l] "2.prems"(2) have "c z \<noteq> White" by simp
  with c' show ?case by (auto split: if_splits)
next
  case (4 f deps x d ds color)
  then show ?case
    by (cases "color d") (auto split: option.splits)
qed simp_all

lemma dag_visit_returns:
  assumes "finite U" and "closed_under deps U"
  shows "x \<in> U \<Longrightarrow> c x = White \<Longrightarrow> card (whites U c) \<le> f \<Longrightarrow> \<exists>r. dag_visit f deps x c = Some r"
    and "set ds \<subseteq> U \<Longrightarrow> card (whites U c) \<le> f \<Longrightarrow> \<exists>r. dag_loop f deps x ds c = Some r"
  using assms
proof (induction f deps x c and f deps x ds c rule: dag_visit_dag_loop.induct)
  case (1 deps x color)
  have "x \<in> whites U color" using 1 by (simp add: whites_def)
  with 1 show ?case by (auto simp: card_eq_0_iff whites_def)
next
  case (2 f deps x color)
  have sub: "whites U (color(x := Gray)) = whites U color - {x}" by (auto simp: whites_def)
  have "x \<in> whites U color" using 2 by (simp add: whites_def)
  moreover have "finite (whites U color)" using 2 by (simp add: whites_def)
  ultimately have "card (whites U (color(x := Gray))) \<le> f"
    using "2.prems"(3) by (simp only: sub card_Diff_singleton)
  moreover have "set (deps x) \<subseteq> U" using 2 by (auto simp: closed_under_def)
  ultimately obtain r where "dag_loop f deps x (deps x) (color(x := Gray)) = Some r"
    using 2 by blast
  then show ?case by (cases r) (auto split: option.split)
next
  case (3 f deps x color)
  then show ?case by simp
next
  case (4 f deps x d ds color)
  show ?case
  proof (cases "color d")
    case White
    with 4 obtain r c where v: "dag_visit f deps d color = Some (r, c)" by auto
    show ?thesis
    proof (cases r)
      case None
      have "whites U c \<subseteq> whites U color"
        by (rule whites_mono) (rule dag_no_new_white(1) [OF v])
      moreover have "finite (whites U color)" using 4 by (simp add: whites_def)
      ultimately have "card (whites U c) \<le> f" using "4.prems"(2) card_mono le_trans by blast
      with 4 White v None show ?thesis by simp
    next
      case (Some cyc)
      with White v show ?thesis by simp
    qed
  qed (use 4 in auto)
qed

subsection \<open>The search is right\<close>

definition grays :: "(string \<Rightarrow> dag_color) \<Rightarrow> string set" where
  "grays c = {x. c x = Gray}"

text \<open>
  What black means: a black identifier lies on no cycle and its dependencies are black.
\<close>

definition black_ok :: "(string \<Rightarrow> string list) \<Rightarrow> (string \<Rightarrow> dag_color) \<Rightarrow> bool" where
  "black_ok deps c \<longleftrightarrow>
     (\<forall>x. c x = Black \<longrightarrow> (\<forall>d \<in> set (deps x). c d = Black) \<and> (x, x) \<notin> (dep_edges deps)\<^sup>+)"

lemma black_reach:
  assumes "black_ok deps c" and "(x, y) \<in> (dep_edges deps)\<^sup>*" and "c x = Black"
  shows "c y = Black"
  using assms(2,3,1) by (induction rule: rtrancl_induct) (auto simp: black_ok_def dep_edges_def)

lemma black_ok_finish:
  assumes "black_ok deps c" and "c x = Gray" and "\<forall>d \<in> set (deps x). c d = Black"
  shows "black_ok deps (c(x := Black))"
proof -
  have "(x, x) \<notin> (dep_edges deps)\<^sup>+"
  proof
    assume "(x, x) \<in> (dep_edges deps)\<^sup>+"
    then obtain d where "(x, d) \<in> dep_edges deps" and "(d, x) \<in> (dep_edges deps)\<^sup>*"
      by (meson tranclD)
    then have "c x = Black"
      using black_reach [OF assms(1)] assms(3) by (auto simp: dep_edges_def)
    with assms(2) show False by simp
  qed
  with assms show ?thesis by (auto simp: black_ok_def)
qed

lemma black_ok_gray:
  assumes "black_ok deps c" and "c x = White"
  shows "black_ok deps (c(x := Gray))"
  unfolding black_ok_def
proof (intro allI impI)
  fix z assume "(c(x := Gray)) z = Black"
  then have z: "c z = Black" by (simp split: if_splits)
  with assms have "(z, z) \<notin> (dep_edges deps)\<^sup>+" and d: "\<forall>d \<in> set (deps z). c d = Black"
    by (simp_all add: black_ok_def)
  then show "(\<forall>d \<in> set (deps z). (c(x := Gray)) d = Black) \<and> (z, z) \<notin> (dep_edges deps)\<^sup>+"
    using assms(2) by auto
qed

lemma dag_search_clean:
  "dag_visit f deps x c = Some (None, c') \<Longrightarrow> c x = White \<Longrightarrow> black_ok deps c \<Longrightarrow>
     black_ok deps c' \<and> c' x = Black \<and> grays c' = grays c \<and> (\<forall>z. c z = Black \<longrightarrow> c' z = Black)"
  "dag_loop f deps x ds c = Some (None, c') \<Longrightarrow> black_ok deps c \<Longrightarrow>
     black_ok deps c' \<and> (\<forall>d \<in> set ds. c' d = Black) \<and> grays c' = grays c \<and> (\<forall>z. c z = Black \<longrightarrow> c' z = Black)"
proof (induction f deps x c and f deps x ds c arbitrary: c' and c' rule: dag_visit_dag_loop.induct)
  case (1 deps x color)
  then show ?case by simp
next
  case (2 f deps x color)
  then obtain c where l: "dag_loop f deps x (deps x) (color(x := Gray)) = Some (None, c)"
    and c': "c' = c(x := Black)"
    by (auto split: option.splits)
  have "black_ok deps (color(x := Gray))" using black_ok_gray 2(3,4) by blast
  from "2.IH" [OF l this]
  have IH: "black_ok deps c" "\<forall>d \<in> set (deps x). c d = Black" "grays c = grays (color(x := Gray))"
    "\<forall>z. (color(x := Gray)) z = Black \<longrightarrow> c z = Black" by blast+
  have g: "c z = Gray \<longleftrightarrow> z = x \<or> color z = Gray" for z
    using IH(3) unfolding grays_def set_eq_iff by simp
  then have gx: "c x = Gray" by simp
  have "grays c' = grays color"
    unfolding grays_def set_eq_iff using g c' 2(3) by simp
  moreover have "\<forall>z. color z = Black \<longrightarrow> c' z = Black" using IH(4) c' 2(3) by simp
  ultimately show ?case using black_ok_finish [OF IH(1) gx IH(2)] c' by (simp only: fun_upd_same)
next
  case (3 f deps x color)
  then show ?case by simp
next
  case (4 f deps x d ds color)
  show ?case
  proof (cases "color d")
    case White
    with "4.prems" obtain c where v: "dag_visit f deps d color = Some (None, c)"
      and l: "dag_loop f deps x ds c = Some (None, c')"
      by (auto split: option.splits)
    note v' = "4.IH"(1) [OF White v White "4.prems"(2)]
    have "black_ok deps c" using v' by blast
    from "4.IH"(2) [OF White v refl refl l this] v' show ?thesis by auto
  next
    case Gray
    with 4 show ?thesis by simp
  next
    case Black
    with 4 show ?thesis by auto
  qed
qed

lemma dag_search_cycle:
  "dag_visit f deps x c = Some (Some (a, b), c') \<Longrightarrow> c x = White \<Longrightarrow> black_ok deps c \<Longrightarrow>
     \<forall>g \<in> grays c. (g, x) \<in> (dep_edges deps)\<^sup>* \<Longrightarrow> (a, b) \<in> dep_edges deps \<and> (b, a) \<in> (dep_edges deps)\<^sup>*"
  "dag_loop f deps x ds c = Some (Some (a, b), c') \<Longrightarrow> black_ok deps c \<Longrightarrow> set ds \<subseteq> set (deps x) \<Longrightarrow>
     \<forall>g \<in> grays c. (g, x) \<in> (dep_edges deps)\<^sup>* \<Longrightarrow> (a, b) \<in> dep_edges deps \<and> (b, a) \<in> (dep_edges deps)\<^sup>*"
proof (induction f deps x c and f deps x ds c arbitrary: c' and c' rule: dag_visit_dag_loop.induct)
  case (2 f deps x color)
  then have l: "dag_loop f deps x (deps x) (color(x := Gray)) = Some (Some (a, b), c')"
    by (auto split: option.splits)
  have "black_ok deps (color(x := Gray))" using black_ok_gray 2(3,4) by blast
  moreover have "\<forall>g \<in> grays (color(x := Gray)). (g, x) \<in> (dep_edges deps)\<^sup>*"
    using 2(5) by (auto simp: grays_def)
  ultimately show ?case using "2.IH" [OF l] by blast
next
  case (4 f deps x d ds color)
  have edge: "(x, d) \<in> dep_edges deps" using "4.prems"(3) by (simp add: dep_edges_def)
  show ?case
  proof (cases "color d")
    case White
    have reach: "\<forall>g \<in> grays color. (g, d) \<in> (dep_edges deps)\<^sup>*"
      using "4.prems"(4) edge by (meson rtrancl.rtrancl_into_rtrancl)
    from White "4.prems"(1) consider
        "dag_visit f deps d color = Some (Some (a, b), c')"
      | c where "dag_visit f deps d color = Some (None, c)" "dag_loop f deps x ds c = Some (Some (a, b), c')"
      by (auto split: option.splits)
    then show ?thesis
    proof cases
      case 1
      then show ?thesis using "4.IH"(1) [OF White 1 White "4.prems"(2) reach] by simp
    next
      case 2
      note clean = dag_search_clean(1) [OF 2(1) White "4.prems"(2)]
      then show ?thesis using "4.IH"(2) [OF White 2(1) refl refl 2(2)] "4.prems"(3,4) by simp
    qed
  next
    case Gray
    with "4.prems" edge show ?thesis by (auto simp: grays_def)
  next
    case Black
    with 4 show ?thesis by auto
  qed
qed simp_all

lemma dag_check_correct:
  "dag_check f deps xs c = Some r \<Longrightarrow> black_ok deps c \<Longrightarrow> grays c = {} \<Longrightarrow>
   (r = None \<longrightarrow> (\<exists>c'. black_ok deps c' \<and> (\<forall>x \<in> set xs. c' x = Black) \<and> (\<forall>z. c z = Black \<longrightarrow> c' z = Black))) \<and>
   (\<forall>a b. r = Some (a, b) \<longrightarrow> (a, b) \<in> dep_edges deps \<and> (b, a) \<in> (dep_edges deps)\<^sup>*)"
proof (induction xs arbitrary: c)
  case Nil
  then show ?case by auto
next
  case (Cons x xs)
  show ?case
  proof (cases "c x = White")
    case True
    with Cons.prems(1) consider
        a b c' where "dag_visit f deps x c = Some (Some (a, b), c')" "r = Some (a, b)"
      | c' where "dag_visit f deps x c = Some (None, c')" "dag_check f deps xs c' = Some r"
      by (auto split: option.splits)
    then show ?thesis
    proof cases
      case 1
      then show ?thesis
        using dag_search_cycle(1) [OF 1(1) True Cons.prems(2)] Cons.prems(3) by simp
    next
      case 2
      note clean = dag_search_clean(1) [OF 2(1) True Cons.prems(2)]
      then have "black_ok deps c'" and "grays c' = {}" using Cons.prems(3) by auto
      from Cons.IH [OF 2(2) this] clean show ?thesis by auto
    qed
  next
    case False
    with Cons.prems(3) have "c x = Black"
      by (cases "c x") (auto simp: grays_def)
    with Cons.IH [of c] Cons.prems False show ?thesis by auto
  qed
qed

lemma dag_check_returns:
  assumes "finite U" and "closed_under deps U"
  shows "set xs \<subseteq> U \<Longrightarrow> card (whites U c) \<le> f \<Longrightarrow> \<exists>r. dag_check f deps xs c = Some r"
proof (induction xs arbitrary: c)
  case Nil
  then show ?case by simp
next
  case (Cons x xs)
  show ?case
  proof (cases "c x = White")
    case True
    with dag_visit_returns(1) [OF assms, of x c f] Cons.prems obtain r c'
      where v: "dag_visit f deps x c = Some (r, c')" by auto
    have "whites U c' \<subseteq> whites U c"
      by (rule whites_mono) (rule dag_no_new_white(1) [OF v])
    moreover have "finite (whites U c)" using assms(1) by (simp add: whites_def)
    ultimately have "card (whites U c') \<le> f" using Cons.prems(2) card_mono le_trans by blast
    with Cons v True show ?thesis by (cases r) auto
  next
    case False
    with Cons show ?thesis by simp
  qed
qed

lemma dag_deps_in_ids: "set (dag_deps nodes x) \<subseteq> set (dag_ids nodes)"
proof (cases "map_of (rev (map (\<lambda>n. (node_id n, node_deps n)) nodes)) x")
  case None
  then show ?thesis by (simp add: dag_deps_def)
next
  case (Some ds)
  then have "(x, ds) \<in> set (rev (map (\<lambda>n. (node_id n, node_deps n)) nodes))" by (rule map_of_SomeD)
  then obtain n where "n \<in> set nodes" and "ds = node_deps n" by auto
  then show ?thesis using Some by (auto simp: dag_deps_def dag_ids_def)
qed

lemma dag_deps_known:
  assumes "d \<in> set (dag_deps nodes x)"
  shows "x \<in> node_id ` set nodes"
proof (rule ccontr)
  assume "x \<notin> node_id ` set nodes"
  then have "map_of (rev (map (\<lambda>n. (node_id n, node_deps n)) nodes)) x = None"
    by (simp add: map_of_eq_None_iff image_image)
  then show False using assms by (simp add: dag_deps_def)
qed

lemma detect_search:
  obtains r where "dag_check (Suc (length (dag_ids nodes))) (dag_deps nodes) (map node_id nodes) (\<lambda>_. White) = Some r"
    and "r = None \<longleftrightarrow> acyclic (dep_edges (dag_deps nodes))"
proof -
  let ?U = "set (dag_ids nodes)" and ?E = "dep_edges (dag_deps nodes)"
  have "whites ?U (\<lambda>_. White) = ?U" by (simp add: whites_def)
  moreover have "card ?U \<le> length (dag_ids nodes)" by (rule card_length)
  moreover have "closed_under (dag_deps nodes) ?U"
    using dag_deps_in_ids by (auto simp: closed_under_def)
  moreover have "set (map node_id nodes) \<subseteq> ?U" by (auto simp: dag_ids_def)
  ultimately obtain r where
    r: "dag_check (Suc (length (dag_ids nodes))) (dag_deps nodes) (map node_id nodes) (\<lambda>_. White) = Some r"
    using dag_check_returns [of ?U "dag_deps nodes" "map node_id nodes" "\<lambda>_. White"] by fastforce
  note c = dag_check_correct [OF r]
  have "acyclic ?E" if "r = None"
  proof -
    from c that obtain c' where c': "black_ok (dag_deps nodes) c'" "\<forall>x \<in> node_id ` set nodes. c' x = Black"
      by (auto simp: black_ok_def grays_def)
    have "(x, x) \<notin> ?E\<^sup>+" for x
    proof
      assume x: "(x, x) \<in> ?E\<^sup>+"
      then obtain d where "(x, d) \<in> ?E" by (meson tranclD)
      then have "d \<in> set (dag_deps nodes x)" by (simp add: dep_edges_def)
      then have "c' x = Black" using c'(2) dag_deps_known by blast
      with c'(1) x show False by (simp add: black_ok_def)
    qed
    then show ?thesis by (simp add: acyclic_def)
  qed
  moreover have "\<not> acyclic ?E" if "r \<noteq> None"
  proof -
    from that obtain a b where "r = Some (a, b)" by auto
    with c have "(a, b) \<in> ?E" "(b, a) \<in> ?E\<^sup>*" by (auto simp: black_ok_def grays_def)
    then have "(a, a) \<in> ?E\<^sup>+" by (rule rtrancl_into_trancl2)
    then show ?thesis by (auto simp: acyclic_def)
  qed
  ultimately have "r = None \<longleftrightarrow> acyclic ?E" by blast
  with r show thesis by (rule that)
qed

text \<open>C5: The cycle check always returns, and it reports no error exactly when the dependency
  relation of the nodes has no cycle, whatever the order of the nodes and whether or not the
  dependencies are themselves nodes.\<close>

theorem detectDAGCycle_correct:
  "\<exists>r. detectDAGCycle nodes = Some r \<and> (r = None \<longleftrightarrow> acyclic (dep_edges (dag_deps nodes)))"
  by (rule detect_search [of nodes]) (auto simp: detectDAGCycle_def)

lemma detectDAGCycle_example:
  "detectDAGCycle [\<lparr>node_id = ''a'', node_deps = [''b'']\<rparr>, \<lparr>node_id = ''b'', node_deps = [''a'']\<rparr>]
     = Some (Some (''dependency cycle: b '' @ [CHR 0xE2, CHR 0x86, CHR 0x92] @ '' a''))"
  by code_simp

end
