(* ===== verification/DagRunner.thy ===== *)
theory DagRunner
  imports DagCycle "HOL-Library.Multiset"
begin

text \<open>
  \<open>RunDAG\<close> of \<open>internal/goutil/dag.go\<close>: a dispatcher goroutine and a pool of workers that share a
  mutex, a condition variable and the buffered channel \<open>work\<close>. The state below holds the shared
  variables and the program counter of every goroutine; \<open>dag_exec\<close> is one atomic step of one
  goroutine, named by an action. Iteration over the Go map \<open>pending\<close> has no fixed order, so the
  action \<open>Plan\<close> carries the order the runtime picked; the outcome of the caller's \<open>fn\<close> and the
  moment the context is cancelled are actions too. A critical section of a worker is one step,
  enabled while the dispatcher does not hold the mutex. The fields \<open>lost\<close> and \<open>calls\<close> are history
  variables: the nodes whose work failed or was abandoned, and the calls of \<open>fn\<close>, newest first.
\<close>

datatype dispatcher_pc = DWoken | DCheck | DSend "string list" | DWait | DExit

datatype worker_pc =
    WIdle | WGot string | WCancel string | WSignal | WRun string | WRet string "string option" | WExit

datatype fn_event = Start string | Finish string "string option"

record run_state =
  pending :: "string list"
  done_ids :: "string list"
  inFlight :: int
  runErr :: "string option"
  work :: "string list"
  closed :: bool
  ctxErr :: "string option"
  disp :: dispatcher_pc
  workers :: "worker_pc list"
  lost :: "string list"
  calls :: "fn_event list"

datatype dag_action =
    Lock | Close | Plan "string list" | Send | Park
  | Recv nat | RecvClosed nat | SeeCtx nat | FnRet nat "string option"
  | CancelLock nat | SignalExit nat | FinishNode nat | CtxCancel string

definition mu_free :: "run_state \<Rightarrow> bool" where
  "mu_free s \<longleftrightarrow> (case disp s of DCheck \<Rightarrow> False | DSend _ \<Rightarrow> False | _ \<Rightarrow> True)"

definition findReady :: "(string \<Rightarrow> string list) \<Rightarrow> run_state \<Rightarrow> string list" where
  "findReady deps s = filter (\<lambda>x. list_all (\<lambda>d. d \<in> set (done_ids s)) (deps x)) (pending s)"

definition should_close :: "run_state \<Rightarrow> bool" where
  "should_close s \<longleftrightarrow> runErr s \<noteq> None \<or> (pending s = [] \<and> inFlight s = 0)"

definition first_err :: "string option \<Rightarrow> string option \<Rightarrow> string option" where
  "first_err old e = (if old = None then e else old)"

definition cond_signal :: "dispatcher_pc \<Rightarrow> dispatcher_pc" where
  "cond_signal d = (if d = DWait then DWoken else d)"

definition wpc :: "run_state \<Rightarrow> nat \<Rightarrow> worker_pc option" where
  "wpc s i = (if i < length (workers s) then Some (workers s ! i) else None)"

definition setw :: "nat \<Rightarrow> worker_pc \<Rightarrow> run_state \<Rightarrow> run_state" where
  "setw i w s = s\<lparr>workers := (workers s)[i := w]\<rparr>"

fun dag_exec :: "(string \<Rightarrow> string list) \<Rightarrow> nat \<Rightarrow> dag_action \<Rightarrow> run_state \<Rightarrow> run_state option" where
  "dag_exec deps bound Lock s = (if disp s = DWoken then Some (s\<lparr>disp := DCheck\<rparr>) else None)"
| "dag_exec deps bound Close s =
     (if disp s = DCheck \<and> should_close s then Some (s\<lparr>closed := True, disp := DExit\<rparr>) else None)"
| "dag_exec deps bound (Plan order) s =
     (if disp s = DCheck \<and> \<not> should_close s \<and> mset order = mset (findReady deps s)
      then Some (s\<lparr>disp := DSend order\<rparr>) else None)"
| "dag_exec deps bound Send s =
     (case disp s of
        DSend (n # ns) \<Rightarrow>
          if length (work s) < bound
          then Some (s\<lparr>pending := removeAll n (pending s), inFlight := inFlight s + 1,
                       work := work s @ [n], disp := DSend ns\<rparr>)
          else None
      | _ \<Rightarrow> None)"
| "dag_exec deps bound Park s = (if disp s = DSend [] then Some (s\<lparr>disp := DWait\<rparr>) else None)"
| "dag_exec deps bound (Recv i) s =
     (case (wpc s i, work s) of
        (Some WIdle, n # rest) \<Rightarrow> Some (setw i (WGot n) (s\<lparr>work := rest\<rparr>))
      | _ \<Rightarrow> None)"
| "dag_exec deps bound (RecvClosed i) s =
     (if wpc s i = Some WIdle \<and> work s = [] \<and> closed s then Some (setw i WExit s) else None)"
| "dag_exec deps bound (SeeCtx i) s =
     (case wpc s i of
        Some (WGot n) \<Rightarrow>
          if ctxErr s \<noteq> None then Some (setw i (WCancel n) s)
          else Some (setw i (WRun n) (s\<lparr>calls := Start n # calls s\<rparr>))
      | _ \<Rightarrow> None)"
| "dag_exec deps bound (FnRet i e) s =
     (case wpc s i of
        Some (WRun n) \<Rightarrow> Some (setw i (WRet n e) (s\<lparr>calls := Finish n e # calls s\<rparr>))
      | _ \<Rightarrow> None)"
| "dag_exec deps bound (CancelLock i) s =
     (case wpc s i of
        Some (WCancel n) \<Rightarrow>
          if mu_free s
          then Some (setw i WSignal (s\<lparr>runErr := first_err (runErr s) (ctxErr s), lost := n # lost s\<rparr>))
          else None
      | _ \<Rightarrow> None)"
| "dag_exec deps bound (SignalExit i) s =
     (if wpc s i = Some WSignal then Some (setw i WExit (s\<lparr>disp := cond_signal (disp s)\<rparr>)) else None)"
| "dag_exec deps bound (FinishNode i) s =
     (case wpc s i of
        Some (WRet n e) \<Rightarrow>
          if mu_free s
          then Some (setw i WIdle (case e of
                 None \<Rightarrow> s\<lparr>inFlight := inFlight s - 1, done_ids := n # done_ids s,
                           disp := cond_signal (disp s)\<rparr>
               | Some _ \<Rightarrow> s\<lparr>inFlight := inFlight s - 1, runErr := first_err (runErr s) e,
                            lost := n # lost s, disp := cond_signal (disp s)\<rparr>))
          else None
      | _ \<Rightarrow> None)"
| "dag_exec deps bound (CtxCancel e) s =
     (if ctxErr s = None then Some (s\<lparr>ctxErr := Some e\<rparr>) else None)"

text \<open>
  The entry of \<open>RunDAG\<close>: no nodes and a cycle return at once (\<open>Inl\<close>), otherwise the goroutines are
  started (\<open>Inr\<close>). \<open>ncpu\<close> is the value of \<open>runtime.NumCPU()\<close>, \<open>ctx\<close> the error of a context that
  is cancelled already.
\<close>

definition start_state :: "dag_node list \<Rightarrow> nat \<Rightarrow> string option \<Rightarrow> run_state" where
  "start_state nodes k ctx =
     \<lparr>pending = remdups (map node_id nodes), done_ids = [], inFlight = 0, runErr = None, work = [],
      closed = False, ctxErr = ctx, disp = DWoken, workers = replicate k WIdle, lost = [], calls = []\<rparr>"

definition RunDAG_start :: "nat \<Rightarrow> dag_node list \<Rightarrow> int \<Rightarrow> string option \<Rightarrow> string option + run_state" where
  "RunDAG_start ncpu nodes wanted ctx =
     (if nodes = [] then Inl None
      else case detectDAGCycle nodes of
        Some (Some e) \<Rightarrow> Inl (Some e)
      | _ \<Rightarrow> Inr (start_state nodes (if wanted \<le> 0 then ncpu else nat wanted) ctx))"

text \<open>\<open>wg.Wait()\<close> returns when every worker has; then the caller reads the outcome.\<close>

definition all_exited :: "run_state \<Rightarrow> bool" where
  "all_exited s \<longleftrightarrow> list_all (\<lambda>w. w = WExit) (workers s)"

definition RunDAG_result :: "run_state \<Rightarrow> string option" where
  "RunDAG_result s = (if runErr s \<noteq> None then runErr s else ctxErr s)"

fun dag_trace :: "(string \<Rightarrow> string list) \<Rightarrow> nat \<Rightarrow> dag_action list \<Rightarrow> run_state \<Rightarrow> run_state option" where
  "dag_trace deps bound [] s = Some s"
| "dag_trace deps bound (a # as) s =
     (case dag_exec deps bound a s of None \<Rightarrow> None | Some t \<Rightarrow> dag_trace deps bound as t)"

inductive dag_reach :: "dag_node list \<Rightarrow> nat \<Rightarrow> string option \<Rightarrow> run_state \<Rightarrow> bool"
  for nodes k ctx where
  init: "dag_reach nodes k ctx (start_state nodes k ctx)"
| step: "dag_reach nodes k ctx s \<Longrightarrow> dag_exec (dag_deps nodes) (length nodes) a s = Some t \<Longrightarrow>
         dag_reach nodes k ctx t"

lemma dag_trace_reach:
  "dag_trace (dag_deps nodes) (length nodes) as s = Some t \<Longrightarrow> dag_reach nodes k ctx s \<Longrightarrow> dag_reach nodes k ctx t"
proof (induction as arbitrary: s)
  case Nil
  then show ?case by simp
next
  case (Cons a as)
  then show ?case by (auto split: option.splits intro: dag_reach.step)
qed

subsection \<open>Where the nodes are\<close>

fun held1 :: "worker_pc \<Rightarrow> string list" where
  "held1 (WGot n) = [n]"
| "held1 (WCancel n) = [n]"
| "held1 (WRun n) = [n]"
| "held1 (WRet n e) = [n]"
| "held1 WIdle = []"
| "held1 WSignal = []"
| "held1 WExit = []"

definition held :: "worker_pc list \<Rightarrow> string list" where
  "held ws = concat (map held1 ws)"

lemma held_replicate: "held (replicate k WIdle) = []"
  by (simp add: held_def)

lemma held_update:
  assumes "i < length ws"
  shows "mset (held (ws[i := w])) + mset (held1 (ws ! i)) = mset (held ws) + mset (held1 w)"
proof -
  have "ws = take i ws @ ws ! i # drop (Suc i) ws" using assms by (rule id_take_nth_drop)
  then have "mset (held ws) = mset (held (take i ws)) + mset (held1 (ws ! i)) + mset (held (drop (Suc i) ws))"
    by (metis held_def map_append concat_append mset_append list.map(2) concat.simps(2) add.assoc)
  moreover have "mset (held (ws[i := w])) = mset (held (take i ws)) + mset (held1 w) + mset (held (drop (Suc i) ws))"
    using assms by (simp add: upd_conv_take_nth_drop held_def)
  ultimately show ?thesis by simp
qed

lemma set_held_update:
  assumes "i < length ws"
  shows "set (held (ws[i := w])) \<subseteq> set (held ws) \<union> set (held1 w)"
proof -
  have "set (held (ws[i := w])) \<subseteq> \<Union> (set ` held1 ` insert w (set ws))"
    using set_update_subset_insert [of ws i w] by (auto simp: held_def)
  then show ?thesis by (auto simp: held_def)
qed

lemma length_held_update:
  assumes "i < length ws"
  shows "length (held (ws[i := w])) + length (held1 (ws ! i)) = length (held ws) + length (held1 w)"
  using arg_cong [OF held_update [OF assms, of w], of size] by simp

lemma wpc_Some: "wpc s i = Some w \<longleftrightarrow> i < length (workers s) \<and> workers s ! i = w"
  by (simp add: wpc_def)

lemma in_set_update: "x \<in> set ws \<Longrightarrow> ws ! i \<noteq> x \<Longrightarrow> x \<in> set (ws[i := w])"
  by (metis in_set_conv_nth length_list_update nth_list_update_neq)

lemma dag_exec_cases [consumes 1, case_names Lock Close Plan Send Park Recv RecvClosed SeeCancelled
    StartFn FnRet CancelLock SignalExit FinishOk FinishErr CtxCancel]:
  assumes "dag_exec deps b a s = Some t"
  obtains
    "disp s = DWoken" "t = s\<lparr>disp := DCheck\<rparr>"
  | "disp s = DCheck" "should_close s" "t = s\<lparr>closed := True, disp := DExit\<rparr>"
  | order where "disp s = DCheck" "\<not> should_close s" "mset order = mset (findReady deps s)"
      "t = s\<lparr>disp := DSend order\<rparr>"
  | n ns where "disp s = DSend (n # ns)" "length (work s) < b"
      "t = s\<lparr>pending := removeAll n (pending s), inFlight := inFlight s + 1, work := work s @ [n], disp := DSend ns\<rparr>"
  | "disp s = DSend []" "t = s\<lparr>disp := DWait\<rparr>"
  | i n rest where "i < length (workers s)" "workers s ! i = WIdle" "work s = n # rest"
      "t = setw i (WGot n) (s\<lparr>work := rest\<rparr>)"
  | i where "i < length (workers s)" "workers s ! i = WIdle" "work s = []" "closed s" "t = setw i WExit s"
  | i n where "i < length (workers s)" "workers s ! i = WGot n" "ctxErr s \<noteq> None" "t = setw i (WCancel n) s"
  | i n where "i < length (workers s)" "workers s ! i = WGot n" "ctxErr s = None"
      "t = setw i (WRun n) (s\<lparr>calls := Start n # calls s\<rparr>)"
  | i n e where "i < length (workers s)" "workers s ! i = WRun n"
      "t = setw i (WRet n e) (s\<lparr>calls := Finish n e # calls s\<rparr>)"
  | i n where "i < length (workers s)" "workers s ! i = WCancel n" "mu_free s"
      "t = setw i WSignal (s\<lparr>runErr := first_err (runErr s) (ctxErr s), lost := n # lost s\<rparr>)"
  | i where "i < length (workers s)" "workers s ! i = WSignal"
      "t = setw i WExit (s\<lparr>disp := cond_signal (disp s)\<rparr>)"
  | i n where "i < length (workers s)" "workers s ! i = WRet n None" "mu_free s"
      "t = setw i WIdle (s\<lparr>inFlight := inFlight s - 1, done_ids := n # done_ids s, disp := cond_signal (disp s)\<rparr>)"
  | i n e where "i < length (workers s)" "workers s ! i = WRet n (Some e)" "mu_free s"
      "t = setw i WIdle (s\<lparr>inFlight := inFlight s - 1, runErr := first_err (runErr s) (Some e),
             lost := n # lost s, disp := cond_signal (disp s)\<rparr>)"
  | e where "ctxErr s = None" "t = s\<lparr>ctxErr := Some e\<rparr>"
proof (cases a)
  case (FinishNode i)
  from assms obtain n r where w: "i < length (workers s)" "workers s ! i = WRet n r" and m: "mu_free s"
    unfolding FinishNode by (auto simp: wpc_Some split: option.splits worker_pc.splits if_splits)
  show ?thesis
  proof (cases r)
    case None
    then show ?thesis using assms w m that(13) [of i n] unfolding FinishNode by (simp add: wpc_def)
  next
    case (Some e)
    then show ?thesis using assms w m that(14) [of i n e] unfolding FinishNode by (simp add: wpc_def)
  qed
next
  case (SeeCtx i)
  from assms obtain n where w: "i < length (workers s)" "workers s ! i = WGot n"
    unfolding SeeCtx by (auto simp: wpc_Some split: option.splits worker_pc.splits if_splits)
  show ?thesis
    using assms w that(8) [of i n] that(9) [of i n] unfolding SeeCtx
    by (cases "ctxErr s = None") (simp_all add: wpc_def)
next
  case Lock
  then show ?thesis using assms that(1) by (simp split: if_splits)
next
  case Close
  then show ?thesis using assms that(2) by (simp split: if_splits)
next
  case (Plan order)
  then show ?thesis using assms that(3) [of order] by (simp split: if_splits)
next
  case Send
  then show ?thesis using assms that(4) by (simp split: if_splits dispatcher_pc.splits list.splits)
next
  case Park
  then show ?thesis using assms that(5) by (simp split: if_splits)
next
  case (Recv i)
  then show ?thesis using assms that(6) [of i]
    by (simp add: wpc_Some split: option.splits worker_pc.splits list.splits)
next
  case (RecvClosed i)
  then show ?thesis using assms that(7) [of i] by (simp add: wpc_Some split: if_splits)
next
  case (FnRet i r)
  then show ?thesis using assms that(10) [of i _ r] by (simp add: wpc_Some split: option.splits worker_pc.splits)
next
  case (CancelLock i)
  then show ?thesis using assms that(11) [of i]
    by (simp add: wpc_Some split: option.splits worker_pc.splits if_splits)
next
  case (SignalExit i)
  then show ?thesis using assms that(12) [of i] by (simp add: wpc_Some split: if_splits)
next
  case (CtxCancel e)
  then show ?thesis using assms that(15) [of e] by (simp split: if_splits)
qed

definition nodes_at :: "run_state \<Rightarrow> string multiset" where
  "nodes_at s = mset (pending s) + mset (work s) + mset (held (workers s)) + mset (lost s) + mset (done_ids s)"

definition plan_ok :: "(string \<Rightarrow> string list) \<Rightarrow> run_state \<Rightarrow> bool" where
  "plan_ok deps s \<longleftrightarrow> distinct (pending s) \<and>
     (\<forall>ns. disp s = DSend ns \<longrightarrow> mset ns = mset (findReady deps s) \<and> runErr s = None)"

lemma findReady_send:
  assumes "distinct (pending s)" and "mset (n # ns) = mset (findReady deps s)"
  shows "mset (findReady deps (s\<lparr>pending := removeAll n (pending s)\<rparr>)) = mset ns"
proof -
  have "findReady deps (s\<lparr>pending := removeAll n (pending s)\<rparr>) = removeAll n (findReady deps s)"
    by (simp add: findReady_def removeAll_filter_not_eq conj_commute)
  also have "\<dots> = remove1 n (findReady deps s)"
    using assms(1) by (simp add: findReady_def distinct_remove1_removeAll)
  finally show ?thesis using assms(2) [symmetric] by simp
qed

lemma findReady_cong: "pending s = pending t \<Longrightarrow> done_ids s = done_ids t \<Longrightarrow> findReady deps s = findReady deps t"
  by (simp add: findReady_def)

lemma cond_signal_simps [simp]:
  "cond_signal d \<noteq> DWait" "cond_signal d = DSend ns \<longleftrightarrow> d = DSend ns" "cond_signal d = DExit \<longleftrightarrow> d = DExit"
  "cond_signal d = DCheck \<longleftrightarrow> d = DCheck"
  by (auto simp: cond_signal_def)

lemma mu_free_iff: "mu_free s \<longleftrightarrow> disp s \<noteq> DCheck \<and> (\<forall>ns. disp s \<noteq> DSend ns)"
  by (auto simp: mu_free_def split: dispatcher_pc.splits)

lemma setw_simps [simp]:
  "pending (setw i w s) = pending s" "done_ids (setw i w s) = done_ids s" "inFlight (setw i w s) = inFlight s"
  "runErr (setw i w s) = runErr s" "work (setw i w s) = work s" "closed (setw i w s) = closed s"
  "ctxErr (setw i w s) = ctxErr s" "disp (setw i w s) = disp s" "lost (setw i w s) = lost s"
  "calls (setw i w s) = calls s" "workers (setw i w s) = (workers s)[i := w]"
  by (simp_all add: setw_def)

lemma findReady_simps [simp]:
  "findReady deps (setw i w s) = findReady deps s" "findReady deps (s\<lparr>disp := d\<rparr>) = findReady deps s"
  "findReady deps (s\<lparr>closed := c\<rparr>) = findReady deps s" "findReady deps (s\<lparr>work := q\<rparr>) = findReady deps s"
  "findReady deps (s\<lparr>calls := ev\<rparr>) = findReady deps s" "findReady deps (s\<lparr>runErr := r\<rparr>) = findReady deps s"
  "findReady deps (s\<lparr>lost := l\<rparr>) = findReady deps s" "findReady deps (s\<lparr>ctxErr := c'\<rparr>) = findReady deps s"
  "findReady deps (s\<lparr>inFlight := k\<rparr>) = findReady deps s"
  by (simp_all add: findReady_def)

lemma plan_ok_step:
  assumes "dag_exec deps b a s = Some t" and "plan_ok deps s"
  shows "plan_ok deps t"
  using assms
proof (cases rule: dag_exec_cases)
  case (Send n ns)
  have r: "runErr s = None" and m: "mset (n # ns) = mset (findReady deps s)" and di: "distinct (pending s)"
    using assms(2) Send(1) by (simp_all add: plan_ok_def)
  have "findReady deps t = findReady deps (s\<lparr>pending := removeAll n (pending s)\<rparr>)"
    unfolding Send(3) by (rule findReady_cong) simp_all
  then show ?thesis using findReady_send [OF di m] r di
    by (simp add: plan_ok_def Send(3) distinct_removeAll del: findReady_simps)
qed (simp_all add: plan_ok_def should_close_def mu_free_iff)

lemma nodes_at_step:
  assumes e: "dag_exec deps b a s = Some t" and p: "plan_ok deps s"
  shows "nodes_at t = nodes_at s"
  using e
proof (cases rule: dag_exec_cases)
  case (Send n ns)
  have m: "mset (findReady deps s) = add_mset n (mset ns)" and di: "distinct (pending s)"
    using p Send(1) by (simp_all add: plan_ok_def)
  have "n \<in> set (pending s)" using arg_cong [OF m, of set_mset] by (auto simp: findReady_def)
  then show ?thesis using di by (simp add: Send(3) nodes_at_def distinct_remove1_removeAll [symmetric])
next
  case (Recv i n rest)
  then show ?thesis using held_update [of i "workers s" "WGot n"] by (simp add: nodes_at_def)
next
  case (RecvClosed i)
  then show ?thesis using held_update [of i "workers s" WExit] by (simp add: nodes_at_def)
next
  case (SeeCancelled i n)
  then show ?thesis using held_update [of i "workers s" "WCancel n"] by (simp add: nodes_at_def)
next
  case (StartFn i n)
  then show ?thesis using held_update [of i "workers s" "WRun n"] by (simp add: nodes_at_def)
next
  case (FnRet i n r)
  then show ?thesis using held_update [of i "workers s" "WRet n r"] by (simp add: nodes_at_def)
next
  case (CancelLock i n)
  then show ?thesis using held_update [of i "workers s" WSignal] by (simp add: nodes_at_def)
next
  case (SignalExit i)
  then show ?thesis using held_update [of i "workers s" WExit] by (simp add: nodes_at_def)
next
  case (FinishOk i n)
  then show ?thesis using held_update [of i "workers s" WIdle] by (simp add: nodes_at_def)
next
  case (FinishErr i n r)
  then show ?thesis using held_update [of i "workers s" WIdle] by (simp add: nodes_at_def)
qed (simp_all add: nodes_at_def)
subsection \<open>Accounting and ordering\<close>

definition acct_ok :: "run_state \<Rightarrow> bool" where
  "acct_ok s \<longleftrightarrow> (runErr s = None \<longrightarrow>
     lost s = [] \<and> inFlight s = int (length (work s) + length (held (workers s))))"

lemma acct_ok_step:
  assumes "dag_exec deps b a s = Some t" and "acct_ok s"
    and "\<And>i n. i < length (workers s) \<Longrightarrow> workers s ! i = WCancel n \<Longrightarrow> ctxErr s \<noteq> None"
  shows "acct_ok t"
  using assms(1)
proof (cases rule: dag_exec_cases)
  case (Recv i n rest)
  then show ?thesis using assms(2) length_held_update [of i "workers s" "WGot n"] by (simp add: acct_ok_def)
next
  case (RecvClosed i)
  then show ?thesis using assms(2) length_held_update [of i "workers s" WExit] by (simp add: acct_ok_def)
next
  case (SeeCancelled i n)
  then show ?thesis using assms(2) length_held_update [of i "workers s" "WCancel n"] by (simp add: acct_ok_def)
next
  case (StartFn i n)
  then show ?thesis using assms(2) length_held_update [of i "workers s" "WRun n"] by (simp add: acct_ok_def)
next
  case (FnRet i n r)
  then show ?thesis using assms(2) length_held_update [of i "workers s" "WRet n r"] by (simp add: acct_ok_def)
next
  case (CancelLock i n)
  then show ?thesis using assms(3) by (auto simp: acct_ok_def first_err_def split: if_splits)
next
  case (SignalExit i)
  then show ?thesis using assms(2) length_held_update [of i "workers s" WExit] by (simp add: acct_ok_def)
next
  case (FinishOk i n)
  then show ?thesis using assms(2) length_held_update [of i "workers s" WIdle] by (simp add: acct_ok_def)
next
  case (FinishErr i n r)
  then show ?thesis by (auto simp: acct_ok_def first_err_def split: if_splits)
qed (use assms(2) in \<open>simp_all add: acct_ok_def\<close>)

text \<open>Whatever has left \<open>pending\<close> has all its dependencies done.\<close>

definition deps_ok :: "(string \<Rightarrow> string list) \<Rightarrow> run_state \<Rightarrow> bool" where
  "deps_ok deps s \<longleftrightarrow>
     (\<forall>n \<in> set (work s) \<union> set (held (workers s)) \<union> set (lost s) \<union> set (done_ids s).
        set (deps n) \<subseteq> set (done_ids s))"

lemma held_subset: "i < length ws \<Longrightarrow> set (held1 (ws ! i)) \<subseteq> set (held ws)"
  by (auto simp: held_def intro!: bexI [of _ "ws ! i"])

lemma deps_ok_step:
  assumes "dag_exec deps b a s = Some t" and "deps_ok deps s" and "plan_ok deps s"
  shows "deps_ok deps t"
  using assms(1)
proof (cases rule: dag_exec_cases)
  case (Send n ns)
  then have "mset (findReady deps s) = add_mset n (mset ns)" using assms(3) by (simp add: plan_ok_def)
  from arg_cong [OF this, of set_mset] have "n \<in> set (findReady deps s)" by simp
  then show ?thesis using Send assms(2) by (auto simp: deps_ok_def findReady_def list_all_iff)
next
  case (Recv i n rest)
  then show ?thesis using assms(2) set_held_update [of i "workers s" "WGot n"] by (auto simp: deps_ok_def)
next
  case (RecvClosed i)
  then show ?thesis using assms(2) set_held_update [of i "workers s" WExit] by (auto simp: deps_ok_def)
next
  case (SeeCancelled i n)
  then show ?thesis using assms(2) set_held_update [of i "workers s" "WCancel n"] held_subset [of i "workers s"]
    by (auto simp: deps_ok_def)
next
  case (StartFn i n)
  then show ?thesis using assms(2) set_held_update [of i "workers s" "WRun n"] held_subset [of i "workers s"]
    by (auto simp: deps_ok_def)
next
  case (FnRet i n r)
  then show ?thesis using assms(2) set_held_update [of i "workers s" "WRet n r"] held_subset [of i "workers s"]
    by (auto simp: deps_ok_def)
next
  case (CancelLock i n)
  then show ?thesis using assms(2) set_held_update [of i "workers s" WSignal] held_subset [of i "workers s"]
    by (auto simp: deps_ok_def)
next
  case (SignalExit i)
  then show ?thesis using assms(2) set_held_update [of i "workers s" WExit] by (auto simp: deps_ok_def)
next
  case (FinishOk i n)
  then show ?thesis using assms(2) set_held_update [of i "workers s" WIdle] held_subset [of i "workers s"]
    by (auto simp: deps_ok_def)
next
  case (FinishErr i n r)
  then show ?thesis using assms(2) set_held_update [of i "workers s" WIdle] held_subset [of i "workers s"]
    by (auto simp: deps_ok_def)
qed (use assms(2) in \<open>simp_all add: deps_ok_def\<close>)

text \<open>
  The log of calls, newest first: a node is started at most once, and only after each of its
  dependencies has returned without an error.
\<close>

fun log_ok :: "(string \<Rightarrow> string list) \<Rightarrow> fn_event list \<Rightarrow> bool" where
  "log_ok deps [] = True"
| "log_ok deps (Start n # es) =
     ((\<forall>d \<in> set (deps n). Finish d None \<in> set es) \<and> Start n \<notin> set es \<and> log_ok deps es)"
| "log_ok deps (Finish n r # es) = log_ok deps es"

fun runs1 :: "worker_pc \<Rightarrow> string list" where
  "runs1 (WRun n) = [n]"
| "runs1 (WRet n e) = [n]"
| "runs1 w = []"

definition call_ok :: "(string \<Rightarrow> string list) \<Rightarrow> run_state \<Rightarrow> bool" where
  "call_ok deps s \<longleftrightarrow> log_ok deps (calls s) \<and>
     (\<forall>d \<in> set (done_ids s). Finish d None \<in> set (calls s)) \<and>
     (\<forall>n r. WRet n r \<in> set (workers s) \<longrightarrow> Finish n r \<in> set (calls s)) \<and>
     (\<forall>e. runErr s = Some e \<longrightarrow> (\<exists>n. Finish n (Some e) \<in> set (calls s)) \<or> ctxErr s = Some e)"

definition started_ok :: "run_state \<Rightarrow> bool" where
  "started_ok s \<longleftrightarrow> (\<forall>n. Start n \<in> set (calls s) \<longrightarrow>
     n \<in> set (lost s) \<union> set (done_ids s) \<or> (\<exists>w \<in> set (workers s). n \<in> set (runs1 w)))"

lemma held_count:
  assumes "i < length ws" and "ws ! i = WGot n" and "w \<in> set ws" and "n \<in> set (runs1 w)"
  shows "2 \<le> count (mset (held ws)) n"
proof -
  have ws: "mset (held ws) = mset (held1 (ws ! i)) + mset (held (ws[i := WIdle]))"
    using held_update [OF assms(1), of WIdle] by (simp add: ac_simps)
  have "w \<in> set (ws[i := WIdle])"
    using assms(2-4) by (intro in_set_update) auto
  moreover have "n \<in> set (held1 w)" using assms(4) by (cases w) auto
  ultimately have "n \<in># mset (held (ws[i := WIdle]))" by (auto simp: held_def)
  then have "1 \<le> count (mset (held (ws[i := WIdle]))) n" by (simp add: Suc_le_eq)
  then show ?thesis unfolding ws using assms(2) by simp
qed

lemma running_update:
  assumes "i < length ws" and "\<exists>w \<in> set ws. n \<in> set (runs1 w)"
  shows "n \<in> set (runs1 (ws ! i)) \<or> (\<exists>w \<in> set (ws[i := v]). n \<in> set (runs1 w))"
  using assms in_set_update by metis

lemma running_new: "i < length ws \<Longrightarrow> n \<in> set (runs1 v) \<Longrightarrow> \<exists>w \<in> set (ws[i := v]). n \<in> set (runs1 w)"
  by (meson set_update_memI)

lemma in_update_cases: "x \<in> set (ws[i := w]) \<Longrightarrow> x = w \<or> x \<in> set ws"
  using set_update_subset_insert [of ws i w] by blast


lemma started_ok_worker:
  assumes "started_ok s" and "i < length (workers s)" and "workers t = (workers s)[i := v]"
    and "set (calls t) \<subseteq> set (calls s) \<union> {Start n | n. n \<in> set (runs1 v)} \<union> range (\<lambda>(n, r). Finish n r)"
    and "set (lost s) \<union> set (done_ids s) \<subseteq> set (lost t) \<union> set (done_ids t)"
    and "set (runs1 (workers s ! i)) \<subseteq> set (lost t) \<union> set (done_ids t) \<union> set (runs1 v)"
  shows "started_ok t"
  unfolding started_ok_def
proof (intro allI impI)
  fix n
  assume "Start n \<in> set (calls t)"
  then consider "n \<in> set (runs1 v)" | "Start n \<in> set (calls s)" using assms(4) by auto
  then show "n \<in> set (lost t) \<union> set (done_ids t) \<or> (\<exists>w \<in> set (workers t). n \<in> set (runs1 w))"
  proof cases
    case 1
    then show ?thesis using running_new [OF assms(2)] assms(3) by simp
  next
    case 2
    then have "n \<in> set (lost s) \<union> set (done_ids s) \<or> (\<exists>w \<in> set (workers s). n \<in> set (runs1 w))"
      using assms(1) by (simp add: started_ok_def)
    then show ?thesis
      using running_update [OF assms(2), of n v] running_new [OF assms(2), of n v] assms(3,5,6) by auto
  qed
qed

lemma started_ok_step:
  assumes "dag_exec deps b a s = Some t" and "started_ok s"
  shows "started_ok t"
  using assms(1)
proof (cases rule: dag_exec_cases)
  case (Recv i n rest)
  then show ?thesis by (intro started_ok_worker [OF assms(2) Recv(1)]) auto
next
  case (RecvClosed i)
  then show ?thesis by (intro started_ok_worker [OF assms(2) RecvClosed(1)]) auto
next
  case (SeeCancelled i n)
  then show ?thesis by (intro started_ok_worker [OF assms(2) SeeCancelled(1)]) auto
next
  case (StartFn i n)
  then show ?thesis by (intro started_ok_worker [OF assms(2) StartFn(1)]) auto
next
  case (FnRet i n r)
  then show ?thesis by (intro started_ok_worker [OF assms(2) FnRet(1)]) auto
next
  case (CancelLock i n)
  then show ?thesis by (intro started_ok_worker [OF assms(2) CancelLock(1)]) auto
next
  case (SignalExit i)
  then show ?thesis by (intro started_ok_worker [OF assms(2) SignalExit(1)]) auto
next
  case (FinishOk i n)
  then show ?thesis by (intro started_ok_worker [OF assms(2) FinishOk(1)]) auto
next
  case (FinishErr i n r)
  then show ?thesis by (intro started_ok_worker [OF assms(2) FinishErr(1)]) auto
qed (use assms(2) in \<open>simp_all add: started_ok_def\<close>)

lemma not_started:
  assumes "started_ok s" and "i < length (workers s)" and "workers s ! i = WGot n"
    and "nodes_at s = mset ids" and "distinct ids"
  shows "Start n \<notin> set (calls s)"
proof
  assume "Start n \<in> set (calls s)"
  then consider "n \<in> set (lost s) \<union> set (done_ids s)" | w where "w \<in> set (workers s)" "n \<in> set (runs1 w)"
    using assms(1) by (auto simp: started_ok_def)
  then have "2 \<le> count (nodes_at s) n"
  proof cases
    case 1
    have "n \<in># mset (held (workers s))" using held_subset [OF assms(2)] assms(3) by auto
    then have "1 \<le> count (mset (held (workers s))) n" by (simp add: Suc_le_eq)
    moreover have "1 \<le> count (mset (lost s) + mset (done_ids s)) n"
      using 1 by (metis Un_iff count_greater_eq_one_iff set_mset_mset set_mset_union)
    ultimately show ?thesis unfolding nodes_at_def count_union by linarith
  next
    case 2
    show ?thesis using held_count [OF assms(2,3) 2] unfolding nodes_at_def count_union by linarith
  qed
  then show False using assms(4,5) by (simp add: distinct_count_atmost_1 split: if_splits)
qed

lemma call_ok_step:
  assumes "dag_exec deps b a s = Some t" and "call_ok deps s" and "started_ok s" and "deps_ok deps s"
    and "nodes_at s = mset ids" and "distinct ids"
  shows "call_ok deps t"
  using assms(1)
proof (cases rule: dag_exec_cases)
  case (StartFn i n)
  have "Start n \<notin> set (calls s)" using not_started [OF assms(3) StartFn(1,2) assms(5,6)] .
  moreover have "set (deps n) \<subseteq> set (done_ids s)"
    using assms(4) held_subset [OF StartFn(1)] StartFn(2) by (auto simp: deps_ok_def)
  ultimately show ?thesis using assms(2) StartFn by (auto simp: call_ok_def dest: in_update_cases)
next
  case (FnRet i n r)
  then show ?thesis using assms(2) by (auto simp: call_ok_def dest: in_update_cases)
next
  case (FinishOk i n)
  then have "WRet n None \<in> set (workers s)" using nth_mem by metis
  then show ?thesis using FinishOk assms(2) by (auto simp: call_ok_def dest: in_update_cases)
next
  case (FinishErr i n r)
  then have "WRet n (Some r) \<in> set (workers s)" using nth_mem by metis
  then show ?thesis using FinishErr assms(2)
    by (auto simp: call_ok_def first_err_def dest: in_update_cases split: if_splits)
next
  case (CancelLock i n)
  then show ?thesis using assms(2) by (auto simp: call_ok_def first_err_def dest: in_update_cases split: if_splits)
qed (use assms(2) in \<open>auto simp: call_ok_def dest: in_update_cases\<close>)
subsection \<open>The dispatcher\<close>

definition disp_ok :: "(string \<Rightarrow> string list) \<Rightarrow> run_state \<Rightarrow> bool" where
  "disp_ok deps s \<longleftrightarrow> (closed s \<longleftrightarrow> disp s = DExit) \<and>
     (disp s = DExit \<longrightarrow> runErr s \<noteq> None \<or> (pending s = [] \<and> work s = [] \<and> held (workers s) = [])) \<and>
     (WExit \<in> set (workers s) \<longrightarrow> disp s = DExit \<or> runErr s \<noteq> None) \<and>
     (WSignal \<in> set (workers s) \<longrightarrow> runErr s \<noteq> None) \<and>
     (\<forall>n. WCancel n \<in> set (workers s) \<longrightarrow> ctxErr s \<noteq> None)"

definition wait_ok :: "(string \<Rightarrow> string list) \<Rightarrow> run_state \<Rightarrow> bool" where
  "wait_ok deps s \<longleftrightarrow>
     (\<forall>ns. disp s = DSend ns \<longrightarrow> \<not> (pending s = [] \<and> inFlight s = 0)) \<and>
     (disp s = DWait \<longrightarrow> (if runErr s \<noteq> None then WSignal \<in> set (workers s)
        else findReady deps s = [] \<and> \<not> (pending s = [] \<and> inFlight s = 0)))"

lemma wait_ok_step:
  assumes "dag_exec deps b a s = Some t" and "wait_ok deps s" and "acct_ok s" and "plan_ok deps s"
  shows "wait_ok deps t"
  using assms(1)
proof (cases rule: dag_exec_cases)
  case (Send n ns)
  then have "runErr s = None" using assms(4) by (simp add: plan_ok_def)
  then have "0 \<le> inFlight s" using assms(3) by (simp add: acct_ok_def)
  then show ?thesis using Send by (simp add: wait_ok_def)
next
  case Park
  then show ?thesis using assms(2,4) by (auto simp: wait_ok_def plan_ok_def)
next
  case (Recv i n rest)
  then show ?thesis using assms(2) by (auto simp: wait_ok_def intro: in_set_update split: if_splits)
next
  case (RecvClosed i)
  then show ?thesis using assms(2) by (auto simp: wait_ok_def intro: in_set_update split: if_splits)
next
  case (SeeCancelled i n)
  then show ?thesis using assms(2) by (auto simp: wait_ok_def intro: in_set_update split: if_splits)
next
  case (StartFn i n)
  then show ?thesis using assms(2) by (auto simp: wait_ok_def intro: in_set_update split: if_splits)
next
  case (FnRet i n r)
  then show ?thesis using assms(2) by (auto simp: wait_ok_def intro: in_set_update split: if_splits)
next
  case (CancelLock i n)
  then show ?thesis using assms(2)
    by (auto simp: wait_ok_def mu_free_iff first_err_def set_update_memI split: if_splits)
qed (use assms(2) in \<open>auto simp: wait_ok_def should_close_def mu_free_iff\<close>)

lemma acct_zero:
  assumes "acct_ok s" and "runErr s = None" and "inFlight s = 0"
  shows "work s = []" and "held (workers s) = []"
proof -
  have "length (work s) + length (held (workers s)) = 0"
    using assms by (simp add: acct_ok_def del: of_nat_add)
  then show "work s = []" and "held (workers s) = []" by simp_all
qed

lemma held_done:
  assumes "i < length ws" and "held ws = []" and "held1 w = []"
  shows "held (ws[i := w]) = []"
  using held_update [OF assms(1), of w] assms(2,3) by simp

lemma disp_ok_step:
  assumes "dag_exec deps b a s = Some t" and "disp_ok deps s" and "acct_ok s"
  shows "disp_ok deps t"
  using assms(1)
proof (cases rule: dag_exec_cases)
  case Close
  then show ?thesis using assms(2) acct_zero [OF assms(3)] by (auto simp: disp_ok_def should_close_def)
next
  case (CancelLock i n)
  then have "WCancel n \<in> set (workers s)" using nth_mem by metis
  then have "runErr t \<noteq> None" using assms(2) CancelLock by (auto simp: disp_ok_def first_err_def)
  then show ?thesis using assms(2) CancelLock by (auto simp: disp_ok_def dest: in_update_cases)
next
  case (SignalExit i)
  then have "WSignal \<in> set (workers s)" using nth_mem by metis
  then show ?thesis using assms(2) SignalExit by (auto simp: disp_ok_def dest: in_update_cases)
next
  case (SeeCancelled i n)
  then have "held (workers s) \<noteq> []" using held_subset [OF SeeCancelled(1)] by auto
  then show ?thesis using assms(2) SeeCancelled by (auto simp: disp_ok_def dest: in_update_cases)
next
  case (StartFn i n)
  then have "held (workers s) \<noteq> []" using held_subset [OF StartFn(1)] by auto
  then show ?thesis using assms(2) StartFn by (auto simp: disp_ok_def dest: in_update_cases)
next
  case (FnRet i n r)
  then have "held (workers s) \<noteq> []" using held_subset [OF FnRet(1)] by auto
  then show ?thesis using assms(2) FnRet by (auto simp: disp_ok_def dest: in_update_cases)
next
  case (FinishOk i n)
  then have "held (workers s) \<noteq> []" using held_subset [OF FinishOk(1)] by auto
  then show ?thesis using assms(2) FinishOk by (auto simp: disp_ok_def dest: in_update_cases)
next
  case (FinishErr i n r)
  then have "runErr t \<noteq> None" by (auto simp: first_err_def)
  then show ?thesis using assms(2) FinishErr by (auto simp: disp_ok_def dest: in_update_cases)
next
  case (RecvClosed i)
  then show ?thesis using assms(2) by (auto simp: disp_ok_def held_done dest: in_update_cases)
qed (use assms(2) in \<open>auto simp: disp_ok_def should_close_def dest: in_update_cases\<close>)

subsection \<open>Reachable states\<close>

definition dag_inv :: "dag_node list \<Rightarrow> run_state \<Rightarrow> bool" where
  "dag_inv nodes s \<longleftrightarrow> plan_ok (dag_deps nodes) s \<and> nodes_at s = mset (remdups (map node_id nodes)) \<and>
     acct_ok s \<and> deps_ok (dag_deps nodes) s \<and> call_ok (dag_deps nodes) s \<and> started_ok s \<and>
     disp_ok (dag_deps nodes) s \<and> wait_ok (dag_deps nodes) s"

lemma dag_inv_start: "dag_inv nodes (start_state nodes k ctx)"
  by (simp add: dag_inv_def start_state_def plan_ok_def nodes_at_def acct_ok_def deps_ok_def call_ok_def
      started_ok_def disp_ok_def wait_ok_def held_replicate)

lemma dag_inv_step:
  assumes "dag_exec (dag_deps nodes) b a s = Some t" and "dag_inv nodes s"
  shows "dag_inv nodes t"
proof -
  let ?D = "dag_deps nodes" and ?ids = "remdups (map node_id nodes)"
  have p: "plan_ok ?D s" and n: "nodes_at s = mset ?ids" and ac: "acct_ok s" and de: "deps_ok ?D s"
    and c: "call_ok ?D s" and st: "started_ok s" and di: "disp_ok ?D s" and w: "wait_ok ?D s"
    using assms(2) unfolding dag_inv_def by blast+
  have ctx: "ctxErr s \<noteq> None" if "i < length (workers s)" "workers s ! i = WCancel m" for i m
  proof -
    from that have "WCancel m \<in> set (workers s)" by (metis nth_mem)
    then show ?thesis using di unfolding disp_ok_def by blast
  qed
  note st' = assms(1)
  have "nodes_at t = mset ?ids" using nodes_at_step [OF st' p] n by simp
  moreover have "acct_ok t" using st' ac ctx by (rule acct_ok_step)
  moreover have "call_ok ?D t" by (rule call_ok_step [OF st' c st de n distinct_remdups])
  ultimately show ?thesis unfolding dag_inv_def
    using plan_ok_step [OF st' p] deps_ok_step [OF st' de p] started_ok_step [OF st' st]
      disp_ok_step [OF st' di ac] wait_ok_step [OF st' w ac p] by blast
qed

lemma dag_reach_inv: "dag_reach nodes k ctx s \<Longrightarrow> dag_inv nodes s"
  by (induction rule: dag_reach.induct) (blast intro: dag_inv_start dag_inv_step)+

lemma dag_reach_workers: "dag_reach nodes k ctx s \<Longrightarrow> length (workers s) = k"
proof (induction rule: dag_reach.induct)
  case init
  then show ?case by (simp add: start_state_def)
next
  case (step s a t)
  from step(2) have "length (workers t) = length (workers s)" by (cases rule: dag_exec_cases) simp_all
  then show ?case using step by simp
qed

lemma reach_set:
  assumes "dag_inv nodes s"
  shows "set (pending s) \<union> set (work s) \<union> set (held (workers s)) \<union> set (lost s) \<union> set (done_ids s)
           = node_id ` set nodes"
proof -
  have "nodes_at s = mset (remdups (map node_id nodes))" using assms by (simp add: dag_inv_def)
  from arg_cong [OF this, of set_mset] show ?thesis by (simp add: nodes_at_def Un_assoc)
qed

lemma reach_size:
  assumes "dag_inv nodes s"
  shows "length (pending s) + length (work s) \<le> length nodes"
proof -
  have m: "nodes_at s = mset (remdups (map node_id nodes))" using assms by (simp add: dag_inv_def)
  have "length (remdups (map node_id nodes)) \<le> length nodes" by (metis length_map length_remdups_leq)
  then have "size (nodes_at s) \<le> length nodes" unfolding m by simp
  then show ?thesis by (simp add: nodes_at_def)
qed

subsection \<open>Progress and termination\<close>

fun worker_weight :: "worker_pc \<Rightarrow> nat" where
  "worker_weight (WGot n) = 7"
| "worker_weight (WRun n) = 6"
| "worker_weight (WRet n e) = 5"
| "worker_weight (WCancel n) = 5"
| "worker_weight WSignal = 4"
| "worker_weight WIdle = 1"
| "worker_weight WExit = 0"

fun disp_weight :: "dispatcher_pc \<Rightarrow> nat" where
  "disp_weight DWoken = 4"
| "disp_weight DCheck = 3"
| "disp_weight (DSend ns) = 2"
| "disp_weight DWait = 1"
| "disp_weight DExit = 0"

definition run_weight :: "run_state \<Rightarrow> nat" where
  "run_weight s = 8 * length (pending s) + 7 * length (work s) + sum_list (map worker_weight (workers s))
     + disp_weight (disp s) + (if ctxErr s = None then 1 else 0)"

lemma worker_weight_update:
  assumes "i < length ws"
  shows "sum_list (map worker_weight (ws[i := w])) + worker_weight (ws ! i)
           = sum_list (map worker_weight ws) + worker_weight w"
proof -
  have "ws = take i ws @ ws ! i # drop (Suc i) ws" using assms by (rule id_take_nth_drop)
  then have "sum_list (map worker_weight ws) =
      sum_list (map worker_weight (take i ws @ ws ! i # drop (Suc i) ws))" by simp
  then show ?thesis using assms by (simp add: upd_conv_take_nth_drop)
qed

lemma disp_weight_signal: "disp_weight (cond_signal d) \<le> disp_weight d + 3"
  by (cases d) (simp_all add: cond_signal_def)

text \<open>
  An interface for systems whose steps use up a weight: no run is longer than the weight of the
  state it starts in, so every run that goes on while it can ends.
\<close>

locale draining =
  fixes exec :: "'act \<Rightarrow> 'st \<Rightarrow> 'st option" and ok :: "'st \<Rightarrow> bool" and weight :: "'st \<Rightarrow> nat"
  assumes ok_step: "ok s \<Longrightarrow> exec a s = Some t \<Longrightarrow> ok t"
    and weight_step: "ok s \<Longrightarrow> exec a s = Some t \<Longrightarrow> weight t < weight s"
begin

fun run :: "'act list \<Rightarrow> 'st \<Rightarrow> 'st option" where
  "run [] s = Some s"
| "run (a # as) s = (case exec a s of None \<Rightarrow> None | Some t \<Rightarrow> run as t)"

lemma run_ok: "ok s \<Longrightarrow> run as s = Some t \<Longrightarrow> ok t"
  by (induction as arbitrary: s) (auto split: option.splits intro: ok_step)

lemma run_weight: "ok s \<Longrightarrow> run as s = Some t \<Longrightarrow> length as + weight t \<le> weight s"
proof (induction as arbitrary: s)
  case Nil
  then show ?case by simp
next
  case (Cons a as)
  then obtain u where u: "exec a s = Some u" and r: "run as u = Some t"
    by (auto split: option.splits)
  have "length as + weight t \<le> weight u" using Cons.IH [OF ok_step [OF Cons.prems(1) u] r] .
  then show ?case using weight_step [OF Cons.prems(1) u] by simp
qed

end

lemma run_weight_step:
  assumes "dag_exec deps b a s = Some t" and "plan_ok deps s"
  shows "run_weight t < run_weight s"
  using assms(1)
proof (cases rule: dag_exec_cases)
  case (Send n ns)
  have m: "mset (findReady deps s) = add_mset n (mset ns)" using assms(2) Send(1) by (simp add: plan_ok_def)
  have "n \<in> set (pending s)" using arg_cong [OF m, of set_mset] by (auto simp: findReady_def)
  then have "length (removeAll n (pending s)) < length (pending s)" by (rule length_removeAll_less)
  then show ?thesis using Send by (simp add: run_weight_def)
next
  case (Recv i n rest)
  then show ?thesis using worker_weight_update [OF Recv(1), of "WGot n"] by (simp add: run_weight_def)
next
  case (RecvClosed i)
  then show ?thesis using worker_weight_update [OF RecvClosed(1), of WExit] by (simp add: run_weight_def)
next
  case (SeeCancelled i n)
  then show ?thesis using worker_weight_update [OF SeeCancelled(1), of "WCancel n"] by (simp add: run_weight_def)
next
  case (StartFn i n)
  then show ?thesis using worker_weight_update [OF StartFn(1), of "WRun n"] by (simp add: run_weight_def)
next
  case (FnRet i n r)
  then show ?thesis using worker_weight_update [OF FnRet(1), of "WRet n r"] by (simp add: run_weight_def)
next
  case (CancelLock i n)
  then show ?thesis using worker_weight_update [OF CancelLock(1), of WSignal] by (simp add: run_weight_def)
next
  case (SignalExit i)
  then show ?thesis using worker_weight_update [OF SignalExit(1), of WExit] disp_weight_signal [of "disp s"]
    by (simp add: run_weight_def)
next
  case (FinishOk i n)
  then show ?thesis using worker_weight_update [OF FinishOk(1), of WIdle] disp_weight_signal [of "disp s"]
    by (simp add: run_weight_def)
next
  case (FinishErr i n r)
  then show ?thesis using worker_weight_update [OF FinishErr(1), of WIdle] disp_weight_signal [of "disp s"]
    by (simp add: run_weight_def)
qed (simp_all add: run_weight_def)

interpretation dag: draining "dag_exec (dag_deps nodes) b" "dag_inv nodes" run_weight for nodes b
proof
  show "dag_inv nodes t" if "dag_inv nodes s" "dag_exec (dag_deps nodes) b a s = Some t" for s a t
    using dag_inv_step that by blast
  show "run_weight t < run_weight s" if "dag_inv nodes s" "dag_exec (dag_deps nodes) b a s = Some t" for s a t
    using run_weight_step [OF that(2)] that(1) by (simp add: dag_inv_def)
qed

lemma dag_trace_run: "dag_trace (dag_deps nodes) b as s = dag.run nodes b as s"
  by (induction as arbitrary: s) (simp_all split: option.splits)

lemma start_weight: "run_weight (start_state nodes k ctx) \<le> 8 * length nodes + k + 5"
proof -
  have "length (remdups (map node_id nodes)) \<le> length nodes" by (metis length_map length_remdups_leq)
  then show ?thesis by (simp add: run_weight_def start_state_def sum_list_replicate)
qed

lemma waiting_ready:
  assumes "dag_inv nodes s" and "acyclic (dep_edges (dag_deps nodes))"
    and known: "\<forall>x. set (dag_deps nodes x) \<subseteq> node_id ` set nodes"
    and q: "work s = []" "held (workers s) = []" "runErr s = None" and p: "pending s \<noteq> []"
  shows "findReady (dag_deps nodes) s \<noteq> []"
proof -
  let ?D = "dag_deps nodes"
  let ?R = "{(d, x). d \<in> set (?D x) \<and> d \<in> set (pending s) \<and> x \<in> set (pending s)}"
  have "?R \<subseteq> (dep_edges ?D)\<inverse>" by (auto simp: dep_edges_def)
  moreover have "acyclic ((dep_edges ?D)\<inverse>)" using assms(2) by (simp only: acyclic_converse)
  ultimately have "acyclic ?R" using acyclic_subset by blast
  moreover have "finite ?R" by (rule finite_subset [of _ "set (pending s) \<times> set (pending s)"]) auto
  ultimately have "wf ?R" by (simp add: finite_acyclic_wf)
  moreover obtain x0 where "x0 \<in> set (pending s)" using p by (cases "pending s") auto
  ultimately obtain x where x: "x \<in> set (pending s)" and mn: "\<And>d. (d, x) \<in> ?R \<Longrightarrow> d \<notin> set (pending s)"
    by (rule wfE_min) blast
  have "lost s = []" using assms(1) q(3) by (simp add: dag_inv_def acct_ok_def)
  then have u: "set (pending s) \<union> set (done_ids s) = node_id ` set nodes"
    using reach_set [OF assms(1)] q(1,2) by simp
  have "d \<in> set (done_ids s)" if "d \<in> set (?D x)" for d
    using u known mn [of d] that x by blast
  then have "x \<in> set (findReady ?D s)" using x by (auto simp: findReady_def list_all_iff)
  then show ?thesis by auto
qed

lemma busy_worker_moves:
  assumes "mu_free s" and "w \<in> set (workers s)" and "w \<noteq> WIdle" and "w \<noteq> WExit"
  shows "\<exists>a. (\<forall>e. a \<noteq> CtxCancel e) \<and> dag_exec deps b a s \<noteq> None"
proof -
  from assms(2) obtain i where i: "i < length (workers s)" "workers s ! i = w" by (auto simp: in_set_conv_nth)
  then have wpc: "wpc s i = Some w" by (simp add: wpc_Some)
  show ?thesis
  proof (cases w)
    case (WGot n)
    then show ?thesis using wpc by (intro exI [of _ "SeeCtx i"]) simp
  next
    case (WCancel n)
    then show ?thesis using wpc assms(1) by (intro exI [of _ "CancelLock i"]) simp
  next
    case WSignal
    then show ?thesis using wpc by (intro exI [of _ "SignalExit i"]) simp
  next
    case (WRun n)
    then show ?thesis using wpc by (intro exI [of _ "FnRet i None"]) simp
  next
    case (WRet n r)
    then show ?thesis using wpc assms(1) by (intro exI [of _ "FinishNode i"]) simp
  qed (use assms in simp_all)
qed

lemma held_idle: "\<forall>w \<in> set ws. w = WIdle \<or> w = WExit \<Longrightarrow> held ws = []"
  by (auto simp: held_def)

lemma idle_worker_moves:
  assumes "WIdle \<in> set (workers s)" and "work s \<noteq> [] \<or> closed s"
  shows "\<exists>a. (\<forall>e. a \<noteq> CtxCancel e) \<and> dag_exec deps b a s \<noteq> None"
proof -
  from assms(1) obtain i where "i < length (workers s)" "workers s ! i = WIdle" by (auto simp: in_set_conv_nth)
  then have wpc: "wpc s i = Some WIdle" by (simp add: wpc_Some)
  show ?thesis
  proof (cases "work s")
    case Nil
    then show ?thesis using wpc assms(2) by (intro exI [of _ "RecvClosed i"]) simp
  next
    case (Cons n ns)
    then show ?thesis using wpc by (intro exI [of _ "Recv i"]) simp
  qed
qed

lemma sending_moves:
  assumes "dag_inv nodes s" and "disp s = DSend ns"
  shows "\<exists>a. (\<forall>e. a \<noteq> CtxCancel e) \<and> dag_exec (dag_deps nodes) (length nodes) a s \<noteq> None"
proof (cases ns)
  case Nil
  then show ?thesis using assms(2) by (intro exI [of _ Park]) simp
next
  case (Cons n ms)
  have m: "mset (findReady (dag_deps nodes) s) = add_mset n (mset ms)"
    using assms Cons by (simp add: dag_inv_def plan_ok_def)
  have "n \<in> set (pending s)" using arg_cong [OF m, of set_mset] by (auto simp: findReady_def)
  then have "0 < length (pending s)" by (rule length_pos_if_in_set)
  then have "length (work s) < length nodes" using reach_size [OF assms(1)] by linarith
  then show ?thesis using assms(2) Cons by (intro exI [of _ Send]) simp
qed

text \<open>A parked dispatcher with only idle or exited workers has left them work to do.\<close>

lemma parked_has_work:
  assumes inv: "dag_inv nodes s" and wait: "disp s = DWait" and "workers s \<noteq> []"
    and idle: "\<forall>w \<in> set (workers s). w = WIdle \<or> w = WExit"
    and dag: "acyclic (dep_edges (dag_deps nodes))" "\<forall>x. set (dag_deps nodes x) \<subseteq> node_id ` set nodes"
  shows "WIdle \<in> set (workers s) \<and> work s \<noteq> []"
proof
  have run: "runErr s = None" using inv wait idle by (force simp: dag_inv_def wait_ok_def split: if_splits)
  then have "WExit \<notin> set (workers s)" using inv wait by (simp add: dag_inv_def disp_ok_def)
  then show "WIdle \<in> set (workers s)"
    using idle assms(3) by (metis all_not_in_conv set_empty2)
  show "work s \<noteq> []"
  proof
    assume w: "work s = []"
    have h: "held (workers s) = []" by (rule held_idle [OF idle])
    then have "inFlight s = 0" using inv run w by (simp add: dag_inv_def acct_ok_def)
    then have "pending s \<noteq> []" and "findReady (dag_deps nodes) s = []"
      using inv wait run by (simp_all add: dag_inv_def wait_ok_def)
    then show False using waiting_ready [OF inv dag w h run] by blast
  qed
qed

text \<open>
  C1: The pool does not deadlock: while a worker is still running, some goroutine can move without
  the context being cancelled, provided the dependencies are acyclic and are all nodes of the list.
\<close>

theorem RunDAG_progress:
  assumes "dag_reach nodes k ctx s" and "0 < k" and "\<not> all_exited s"
    and "acyclic (dep_edges (dag_deps nodes))"
    and "\<forall>x. set (dag_deps nodes x) \<subseteq> node_id ` set nodes"
  shows "\<exists>a. (\<forall>e. a \<noteq> CtxCancel e) \<and> dag_exec (dag_deps nodes) (length nodes) a s \<noteq> None"
proof -
  have inv: "dag_inv nodes s" by (rule dag_reach_inv [OF assms(1)])
  have ne: "workers s \<noteq> []" using dag_reach_workers [OF assms(1)] assms(2) by auto
  show ?thesis
  proof (cases "disp s")
    case DWoken
    then show ?thesis by (intro exI [of _ Lock]) simp
  next
    case DCheck
    then show ?thesis
      by (intro exI [of _ "if should_close s then Close else Plan (findReady (dag_deps nodes) s)"]) simp
  next
    case (DSend ns)
    then show ?thesis by (rule sending_moves [OF inv])
  next
    case DExit
    then have free: "mu_free s" and cl: "closed s" using inv by (auto simp: mu_free_iff dag_inv_def disp_ok_def)
    obtain w where "w \<in> set (workers s)" "w \<noteq> WExit" using assms(3) by (auto simp: all_exited_def list_all_iff)
    then show ?thesis using busy_worker_moves [OF free] idle_worker_moves [of s] cl by metis
  next
    case DWait
    then have free: "mu_free s" by (simp add: mu_free_iff)
    show ?thesis
    proof (cases "\<forall>w \<in> set (workers s). w = WIdle \<or> w = WExit")
      case False
      then show ?thesis using busy_worker_moves [OF free] by blast
    next
      case True
      then show ?thesis using parked_has_work [OF inv DWait ne _ assms(4,5)] idle_worker_moves [of s] by blast
    qed
  qed
qed

definition chain_nodes :: "dag_node list" where
  "chain_nodes = [\<lparr>node_id = ''b'', node_deps = [''a'']\<rparr>, \<lparr>node_id = ''a'', node_deps = []\<rparr>]"

lemma chain_nodes_deps:
  "dag_deps chain_nodes x = (if x = ''b'' then [''a''] else [])"
  by (simp add: dag_deps_def chain_nodes_def)

lemma chain_nodes_facts:
  "length chain_nodes = 2" "node_id ` set chain_nodes = {''b'', ''a''}" "map node_id chain_nodes = [''b'', ''a'']"
  by (simp_all add: chain_nodes_def)

lemma chain_nodes_acyclic: "acyclic (dep_edges (dag_deps chain_nodes))"
proof -
  have "dep_edges (dag_deps chain_nodes) = {(''b'', ''a'')}"
    by (auto simp: dep_edges_def chain_nodes_deps split: if_splits)
  then show ?thesis by (simp add: acyclic_insert wf_acyclic)
qed

theorem RunDAG_progress_witness:
  "\<exists>a. (\<forall>e. a \<noteq> CtxCancel e) \<and>
     dag_exec (dag_deps chain_nodes) (length chain_nodes) a (start_state chain_nodes 2 None) \<noteq> None"
  by (rule RunDAG_progress [OF dag_reach.init _ _ chain_nodes_acyclic])
     (auto simp: all_exited_def start_state_def chain_nodes_deps chain_nodes_facts numeral_2_eq_2)

text \<open>
  C4: A run of the pool is bounded: whatever the schedule, the outcomes of the calls and the moment of
  cancellation, \<open>k\<close> workers on \<open>n\<close> nodes take at most \<open>8 n + k + 5\<close> steps.
\<close>

theorem RunDAG_bounded_run:
  assumes "dag_trace (dag_deps nodes) (length nodes) as (start_state nodes k ctx) = Some s"
  shows "length as \<le> 8 * length nodes + k + 5"
proof -
  have "length as + run_weight s \<le> run_weight (start_state nodes k ctx)"
    by (rule dag.run_weight [OF dag_inv_start assms [unfolded dag_trace_run]])
  then show ?thesis using start_weight [of nodes k ctx] by simp
qed

definition chain_schedule :: "dag_action list" where
  "chain_schedule = [Lock, Plan [''a''], Send, Recv 0, SeeCtx 0, Park, FnRet 0 None, FinishNode 0, Lock,
     Plan [''b''], Send, Park, Recv 1, SeeCtx 1, FnRet 1 None, FinishNode 1, Lock, Close,
     RecvClosed 0, RecvClosed 1]"

definition chain_final :: "run_state option" where
  "chain_final = dag_trace (dag_deps chain_nodes) (length chain_nodes) chain_schedule (start_state chain_nodes 2 None)"

lemma chain_final_value:
  "chain_final = Some \<lparr>pending = [], done_ids = [''b'', ''a''], inFlight = 0, runErr = None, work = [],
     closed = True, ctxErr = None, disp = DExit, workers = [WExit, WExit], lost = [],
     calls = [Finish ''b'' None, Start ''b'', Finish ''a'' None, Start ''a'']\<rparr>"
  by (simp add: chain_final_def chain_schedule_def start_state_def chain_nodes_facts numeral_2_eq_2
      wpc_def setw_def findReady_def should_close_def mu_free_def cond_signal_def chain_nodes_deps)

theorem RunDAG_bounded_run_witness: "length chain_schedule \<le> 8 * length chain_nodes + 2 + 5"
  using chain_final_value [unfolded chain_final_def] by (rule RunDAG_bounded_run)

subsection \<open>What a run has done\<close>

text \<open>
  C2: \<open>fn\<close> runs in dependency order: in the log of calls (newest first) of any reachable state a node
  is started at most once, only after each of its dependencies has returned without an error, and
  only nodes of the list are started.
\<close>

theorem RunDAG_order:
  assumes "dag_reach nodes k ctx s"
  shows "log_ok (dag_deps nodes) (calls s) \<and> (\<forall>n. Start n \<in> set (calls s) \<longrightarrow> n \<in> node_id ` set nodes)"
proof (intro conjI allI impI)
  have inv: "dag_inv nodes s" by (rule dag_reach_inv [OF assms])
  then show "log_ok (dag_deps nodes) (calls s)" by (simp add: dag_inv_def call_ok_def)
  fix n
  assume st: "Start n \<in> set (calls s)"
  have "started_ok s" using inv by (simp add: dag_inv_def)
  then consider "n \<in> set (lost s) \<union> set (done_ids s)" | w where "w \<in> set (workers s)" "n \<in> set (runs1 w)"
    using st by (auto simp: started_ok_def)
  then show "n \<in> node_id ` set nodes"
  proof cases
    case 1
    then show ?thesis unfolding reach_set [OF inv, symmetric] by blast
  next
    case 2
    have "n \<in> set (held1 w)" using 2(2) by (cases w) simp_all
    then have "n \<in> set (held (workers s))" using 2(1) by (auto simp: held_def)
    then show ?thesis unfolding reach_set [OF inv, symmetric] by blast
  qed
qed

theorem RunDAG_order_witness:
  "log_ok (dag_deps chain_nodes) [Finish ''b'' None, Start ''b'', Finish ''a'' None, Start ''a'']"
  using RunDAG_order [OF dag_trace_reach [OF chain_final_value [unfolded chain_final_def] dag_reach.init]]
  by simp

lemma exited_clean:
  assumes inv: "dag_inv nodes s" and k: "workers s \<noteq> []" and "all_exited s" and r: "runErr s = None"
  shows "set (done_ids s) = node_id ` set nodes"
proof -
  have "WExit \<in> set (workers s)" using k assms(3) by (cases "workers s") (auto simp: all_exited_def)
  then have e: "disp s = DExit" using inv r by (simp add: dag_inv_def disp_ok_def)
  then have "pending s = []" "work s = []" "held (workers s) = []"
    using inv r by (auto simp: dag_inv_def disp_ok_def)
  moreover have "lost s = []" using inv r by (simp add: dag_inv_def acct_ok_def)
  ultimately show ?thesis using reach_set [OF inv] by simp
qed

text \<open>
  C3: When every worker has returned, a nil result means that \<open>fn\<close> returned nil for every node, and an
  error result is the error of some call of \<open>fn\<close> or the context's.
\<close>

theorem RunDAG_outcome:
  assumes "dag_reach nodes k ctx s" and "0 < k" and "all_exited s"
  shows "case RunDAG_result s of
           None \<Rightarrow> \<forall>n \<in> set nodes. Finish (node_id n) None \<in> set (calls s)
         | Some e \<Rightarrow> (\<exists>n. Finish n (Some e) \<in> set (calls s)) \<or> ctxErr s = Some e"
proof -
  have inv: "dag_inv nodes s" by (rule dag_reach_inv [OF assms(1)])
  then have c: "call_ok (dag_deps nodes) s" by (simp add: dag_inv_def)
  have k: "workers s \<noteq> []" using dag_reach_workers [OF assms(1)] assms(2) by auto
  show ?thesis
  proof (cases "runErr s")
    case None
    then have "\<forall>n \<in> set nodes. Finish (node_id n) None \<in> set (calls s)"
      using exited_clean [OF inv k assms(3)] c by (auto simp: call_ok_def)
    then show ?thesis using None by (simp add: RunDAG_result_def split: option.splits)
  next
    case (Some e)
    then show ?thesis using c by (simp add: RunDAG_result_def call_ok_def)
  qed
qed

theorem RunDAG_outcome_witness:
  "all_exited (the chain_final) \<and> RunDAG_result (the chain_final) = None \<and>
   Finish ''a'' None \<in> set (calls (the chain_final)) \<and> Finish ''b'' None \<in> set (calls (the chain_final))"
proof -
  note reach = dag_trace_reach [OF chain_final_value [unfolded chain_final_def] dag_reach.init]
  have "all_exited (the chain_final)" and res: "RunDAG_result (the chain_final) = None"
    by (simp_all add: chain_final_value all_exited_def RunDAG_result_def)
  then show ?thesis using RunDAG_outcome [OF reach] by (simp add: chain_final_value chain_nodes_def)
qed

text \<open>
  A dependency that names no node of the list is not reported by the cycle check and is never
  done: as long as no call of \<open>fn\<close> fails and the context is live, the pool cannot finish.
\<close>

lemma RunDAG_unknown_dep:
  assumes "dag_reach nodes k ctx s" and "0 < k"
    and "n \<in> set nodes" and "d \<in> set (dag_deps nodes (node_id n))" and "d \<notin> node_id ` set nodes"
    and "RunDAG_result s = None"
  shows "\<not> all_exited s"
proof
  assume "all_exited s"
  have inv: "dag_inv nodes s" by (rule dag_reach_inv [OF assms(1)])
  have "runErr s = None" using assms(6) by (simp add: RunDAG_result_def split: if_splits)
  moreover have "workers s \<noteq> []" using dag_reach_workers [OF assms(1)] assms(2) by auto
  ultimately have dn: "set (done_ids s) = node_id ` set nodes"
    using exited_clean [OF inv _ \<open>all_exited s\<close>] by blast
  moreover have "deps_ok (dag_deps nodes) s" using inv by (simp add: dag_inv_def)
  ultimately have "set (dag_deps nodes (node_id n)) \<subseteq> node_id ` set nodes"
    using assms(3) by (simp add: deps_ok_def)
  then show False using assms(4,5) by blast
qed

definition dangling_nodes :: "dag_node list" where
  "dangling_nodes = [\<lparr>node_id = ''a'', node_deps = [''x'']\<rparr>]"

lemma dangling_nodes_deps: "dag_deps dangling_nodes x = (if x = ''a'' then [''x''] else [])"
  by (simp add: dag_deps_def dangling_nodes_def)

text \<open>In the state reached here nothing but a cancellation can happen, and after it nothing at all.\<close>

lemma dangling_stuck:
  assumes "dag_trace (dag_deps dangling_nodes) 1 [Lock, Plan [], Park] (start_state dangling_nodes 1 None) = Some s"
    and "dag_exec (dag_deps dangling_nodes) 1 (CtxCancel e) s = Some t"
  shows "dag_exec (dag_deps dangling_nodes) 1 a t = None"
proof -
  have "s = \<lparr>pending = [''a''], done_ids = [], inFlight = 0, runErr = None, work = [], closed = False,
      ctxErr = None, disp = DWait, workers = [WIdle], lost = [], calls = []\<rparr>"
    using assms(1) by (simp add: start_state_def dangling_nodes_deps findReady_def should_close_def)
      (simp add: dangling_nodes_def)
  then have "t = \<lparr>pending = [''a''], done_ids = [], inFlight = 0, runErr = None, work = [], closed = False,
      ctxErr = Some e, disp = DWait, workers = [WIdle], lost = [], calls = []\<rparr>"
    using assms(2) by simp
  then show ?thesis by (cases a) (simp_all add: wpc_def)
qed

lemma dangling_nodes_ids: "node_id ` set dangling_nodes = {''a''}"
  by (simp add: dangling_nodes_def)

end
