(* ===== verification/GoPath.thy ===== *)
theory GoPath
  imports GoStrings
begin

text \<open>
  The lexical operations of Go's \<open>path/filepath\<close> on Unix that the source uses (\<open>Clean\<close>, \<open>Dir\<close>,
  \<open>Base\<close>, \<open>Ext\<close>), and the parts of \<open>unicode\<close> and \<open>strings.ToLower\<close>: on ASCII text they are
  computed, on other text they are the fields of a table the definitions take as an argument.
\<close>

definition clean_step :: "bool \<Rightarrow> string list \<Rightarrow> string \<Rightarrow> string list" where
  "clean_step rooted out seg =
     (if seg = [] \<or> seg = ''.'' then out
      else if seg = ''..'' then
        (case out of
           [] \<Rightarrow> if rooted then [] else [''..'']
         | t # ts \<Rightarrow> if t = ''..'' then ''..'' # out else ts)
      else seg # out)"

definition path_clean :: "string \<Rightarrow> string" where
  "path_clean p =
     (let rooted = prefix ''/'' p;
          body = str_join ''/'' (rev (foldl (clean_step rooted) [] (split_on CHR ''/'' p)))
      in if rooted then ''/'' @ body else if body = [] then ''.'' else body)"

definition path_dir :: "string \<Rightarrow> string" where
  "path_dir p = path_clean (rev (dropWhile (\<lambda>c. c \<noteq> CHR ''/'') (rev p)))"

definition path_base :: "string \<Rightarrow> string" where
  "path_base p =
     (if p = [] then ''.''
      else let q = dropWhile (\<lambda>c. c = CHR ''/'') (rev p)
           in if q = [] then ''/'' else rev (takeWhile (\<lambda>c. c \<noteq> CHR ''/'') q))"

definition path_ext :: "string \<Rightarrow> string" where
  "path_ext p =
     (let last = rev (takeWhile (\<lambda>c. c \<noteq> CHR ''/'') (rev p))
      in case str_last_index last ''.'' of None \<Rightarrow> [] | Some i \<Rightarrow> drop i last)"

lemma path_examples:
  "path_dir ''pkg/a/x.go'' = ''pkg/a''" "path_dir ''x.go'' = ''.''" "path_dir ''/x.go'' = ''/''"
  "path_clean ''a/./b//../c/'' = ''a/c''" "path_clean ''/../a'' = ''/a''" "path_clean ''../a/..'' = ''..''"
  "path_base ''pkg/a.go/'' = ''a.go''" "path_ext ''a.b/x.test.ts'' = ''.ts''" "path_ext ''a.b/x'' = []"
  by code_simp+

record unicode =
  u_lower :: "string \<Rightarrow> string"
  u_upper1 :: "string \<Rightarrow> bool"

definition is_ascii :: "char \<Rightarrow> bool" where
  "is_ascii c \<longleftrightarrow> (of_char c :: nat) < 128"

definition ascii_upper :: "char \<Rightarrow> bool" where
  "ascii_upper c \<longleftrightarrow> 65 \<le> (of_char c :: nat) \<and> (of_char c :: nat) \<le> 90"

definition ascii_lower :: "char \<Rightarrow> char" where
  "ascii_lower c = (if ascii_upper c then char_of ((of_char c :: nat) + 32) else c)"

definition to_lower :: "unicode \<Rightarrow> string \<Rightarrow> string" where
  "to_lower u s = (if list_all is_ascii s then map ascii_lower s else u_lower u s)"

text \<open>\<open>unicode.IsUpper\<close> of the first rune of a name.\<close>

definition first_upper :: "unicode \<Rightarrow> string \<Rightarrow> bool" where
  "first_upper u s = (case s of [] \<Rightarrow> False | c # _ \<Rightarrow> if is_ascii c then ascii_upper c else u_upper1 u s)"

end
