(* ===== verification/LangUtil.thy ===== *)
theory LangUtil
  imports GoPath
begin

text \<open>
  The language helpers that the call graph uses: test-file recognition and caller kinds
  (\<open>internal/langutil\<close>), the language of a path (\<open>internal/parser/parser_lang.go\<close> over the
  extensions the registered handlers claim) and the builtin call names of
  \<open>internal/callgraph/builtins.go\<close>.
\<close>

subsection \<open>Test files\<close>

definition testSuffixes :: "string list" where
  "testSuffixes = [''_test.go'', ''_test.py'', ''_test.rs'']"

definition testInfixes :: "string list" where
  "testInfixes = [''.test.'', ''.spec.'']"

definition testExactNames :: "string list" where
  "testExactNames = [''tests.rs'']"

definition testPrefixes :: "string list" where
  "testPrefixes = [''test_'']"

definition testDirs :: "string list" where
  "testDirs = [''/test/'', ''/tests/'', ''/__tests__/'']"

definition testFileExtensions :: "string list" where
  "testFileExtensions = [''.ts'', ''.tsx'', ''.js'', ''.jsx'', ''.mjs'', ''.cjs'', ''.svelte'', ''.astro'', ''.vue'']"

fun test_stem_in :: "string \<Rightarrow> string list \<Rightarrow> string option" where
  "test_stem_in base [] = None"
| "test_stem_in base (infix' # rest) =
     (case str_index base infix' of
        Some idx \<Rightarrow>
          if 0 < idx then (if path_ext base \<in> set testFileExtensions then Some (take idx base) else None)
          else test_stem_in base rest
      | None \<Rightarrow> test_stem_in base rest)"

definition TestStem :: "string \<Rightarrow> string option" where
  "TestStem path = test_stem_in (path_base path) testInfixes"

definition IsTestFile :: "unicode \<Rightarrow> string \<Rightarrow> bool" where
  "IsTestFile u path =
     (let lower = to_lower u path; base = path_base lower in
        list_ex (\<lambda>suf. suffix suf base) testSuffixes \<or>
        list_ex (\<lambda>e. base = e) testExactNames \<or>
        list_ex (\<lambda>p. prefix p base) testPrefixes \<or>
        TestStem lower \<noteq> None \<or>
        list_ex (\<lambda>d. str_index lower d \<noteq> None) testDirs)"

definition CallerKind :: "unicode \<Rightarrow> string \<Rightarrow> string \<Rightarrow> string" where
  "CallerKind u name relPath =
     (if \<not> IsTestFile u relPath then ''production''
      else if prefix ''Example'' name then ''example''
      else if prefix ''Benchmark'' name then ''benchmark''
      else ''test'')"

definition IsExportedForDoc :: "string \<Rightarrow> string \<Rightarrow> bool \<Rightarrow> bool" where
  "IsExportedForDoc name language isPublic =
     (if isPublic then True
      else case name of
        [] \<Rightarrow> False
      | c # _ \<Rightarrow>
          if language \<in> set [''go'', ''java'', ''csharp'', ''cs''] then ascii_upper c
          else c \<noteq> CHR ''_'')"

subsection \<open>Languages\<close>

definition extLanguageOverride :: "(string \<times> string) list" where
  "extLanguageOverride =
     [(''.js'', ''javascript''), (''.jsx'', ''javascript''), (''.mjs'', ''javascript''), (''.cjs'', ''javascript'')]"

definition fallbackExtToLanguage :: "(string \<times> string) list" where
  "fallbackExtToLanguage =
     [(''.scala'', ''scala''), (''.sc'', ''scala''), (''.lua'', ''lua''), (''.pl'', ''perl''), (''.pm'', ''perl''),
      (''.dart'', ''dart''), (''.ex'', ''elixir''), (''.exs'', ''elixir'')]"

text \<open>The registry: the \<open>Extensions()\<close> and \<open>Language()\<close> of every handler that registers itself.\<close>

definition registry :: "(string \<times> string) list" where
  "registry =
     [(''.astro'', ''astro''), (''.c'', ''c''), (''.h'', ''c''), (''.cpp'', ''cpp''), (''.cc'', ''cpp''),
      (''.cxx'', ''cpp''), (''.hpp'', ''cpp''), (''.cs'', ''csharp''), (''.go'', ''go''), (''.html'', ''html''),
      (''.gohtml'', ''html''), (''.tmpl'', ''html''), (''.java'', ''java''), (''.kt'', ''kotlin''),
      (''.kts'', ''kotlin''), (''.php'', ''php''), (''.py'', ''python''), (''.rb'', ''ruby''), (''.rs'', ''rust''),
      (''.svelte'', ''svelte''), (''.swift'', ''swift''), (''.tsx'', ''typescript''), (''.jsx'', ''typescript''),
      (''.ts'', ''typescript''), (''.js'', ''typescript''), (''.mjs'', ''typescript''), (''.cjs'', ''typescript''),
      (''.cts'', ''typescript''), (''.mts'', ''typescript''), (''.vue'', ''vue'')]"

definition DetectLanguageFromPath :: "string \<Rightarrow> string" where
  "DetectLanguageFromPath path =
     (let ext = path_ext path in
        case map_of extLanguageOverride ext of
          Some lang \<Rightarrow> lang
        | None \<Rightarrow>
            (case map_of registry ext of
               Some lang \<Rightarrow> lang
             | None \<Rightarrow> (case map_of fallbackExtToLanguage ext of Some lang \<Rightarrow> lang | None \<Rightarrow> [])))"

definition jsBuiltinCallNames :: "string list" where
  "jsBuiltinCallNames =
     [''Array'', ''BigInt'', ''Boolean'', ''Number'', ''Object'', ''String'', ''Symbol'', ''decodeURI'',
      ''decodeURIComponent'', ''encodeURI'', ''encodeURIComponent'', ''eval'', ''isFinite'', ''isNaN'',
      ''parseFloat'', ''parseInt'', ''setTimeout'', ''setInterval'', ''clearTimeout'', ''clearInterval'',
      ''require'', ''queueMicrotask'']"

definition builtinCallNames :: "(string \<times> string list) list" where
  "builtinCallNames =
     [(''go'',
       [''append'', ''cap'', ''clear'', ''close'', ''complex'', ''copy'', ''delete'', ''imag'', ''len'', ''make'',
        ''new'', ''panic'', ''print'', ''println'', ''real'', ''recover'', ''any'', ''bool'', ''byte'',
        ''comparable'', ''complex64'', ''complex128'', ''error'', ''float32'', ''float64'', ''int'', ''int8'',
        ''int16'', ''int32'', ''int64'', ''rune'', ''string'', ''uint'', ''uint8'', ''uint16'', ''uint32'',
        ''uint64'', ''uintptr'']),
      (''python'',
       [''abs'', ''all'', ''any'', ''bin'', ''bool'', ''bytearray'', ''bytes'', ''callable'', ''chr'',
        ''complex'', ''dict'', ''dir'', ''divmod'', ''enumerate'', ''eval'', ''exec'', ''filter'', ''float'',
        ''format'', ''frozenset'', ''getattr'', ''hasattr'', ''hash'', ''hex'', ''id'', ''input'', ''int'',
        ''isinstance'', ''issubclass'', ''iter'', ''len'', ''list'', ''map'', ''max'', ''memoryview'', ''min'',
        ''next'', ''object'', ''oct'', ''open'', ''ord'', ''pow'', ''print'', ''range'', ''repr'', ''reversed'',
        ''round'', ''set'', ''setattr'', ''slice'', ''sorted'', ''str'', ''sum'', ''super'', ''tuple'', ''type'',
        ''vars'', ''zip'']),
      (''javascript'', jsBuiltinCallNames),
      (''typescript'', jsBuiltinCallNames)]"

definition isBuiltinCallName :: "string \<Rightarrow> string \<Rightarrow> bool" where
  "isBuiltinCallName lang name =
     (case map_of builtinCallNames lang of None \<Rightarrow> False | Some names \<Rightarrow> name \<in> set names)"

text \<open>
  The file is the gate of a caller's kind: it is \<open>production\<close> exactly when the path is no test file,
  whatever the name, and every file whose base name ends in a test suffix is one.
\<close>

lemma CallerKind_file_gate:
  "(CallerKind u name path = ''production'' \<longleftrightarrow> \<not> IsTestFile u path) \<and>
   (list_all is_ascii path \<and> suffix ''_test.go'' (path_base path) \<and> \<not> list_ex ascii_upper path
      \<longrightarrow> IsTestFile u path)"
proof (intro conjI impI)
  show "CallerKind u name path = ''production'' \<longleftrightarrow> \<not> IsTestFile u path" by (simp add: CallerKind_def)
  assume a: "list_all is_ascii path \<and> suffix ''_test.go'' (path_base path) \<and> \<not> list_ex ascii_upper path"
  then have "map ascii_lower path = path"
    by (intro map_idI) (auto simp: ascii_lower_def list_ex_iff)
  then show "IsTestFile u path" using a by (simp add: IsTestFile_def to_lower_def testSuffixes_def Let_def)
qed

end
