(* ===== verification/CallGraph.thy ===== *)
theory CallGraph
  imports LangUtil "HOL-Library.Word"
begin

text \<open>
  The construction of the call graph (\<open>internal/callgraph/graph.go\<close>, \<open>graph_go.go\<close>, the index
  functions of \<open>graph_hooks.go\<close>). A \<open>*parser.Symbol\<close> is a reference into a store of symbols, so
  that two symbols with equal fields stay distinct; \<open>None\<close> is the nil pointer. What reading the
  header of a Go file yields (\<open>readGoScope\<close>: file system and \<open>go/parser\<close>) is a field of the
  environment, as are the Unicode tables.
\<close>

type_synonym sym_ref = nat

record Symbol =
  sym_Name :: string
  sym_Kind :: string
  sym_File :: string
  sym_StartLine :: "32 word"
  sym_EndLine :: "32 word"
  sym_Receiver :: string

record CallSite =
  cs_Name :: string
  cs_Receiver :: string
  cs_Line :: "32 word"
  cs_File :: string
  cs_IsArgRef :: bool

record CallEdge =
  ce_Caller :: "sym_ref option"
  ce_Callee :: "sym_ref option"
  ce_CalleeName :: string
  ce_Receiver :: string
  ce_Line :: "32 word"

record goImport =
  imp_alias :: string
  imp_path :: string

record goFileScope =
  fs_pkg :: string
  fs_imports :: "goImport list"

record cg_env =
  store :: "sym_ref \<Rightarrow> Symbol"
  scope :: "string \<Rightarrow> goFileScope option"
  tables :: unicode

definition KindFunction :: string where "KindFunction = ''function''"
definition KindMethod :: string where "KindMethod = ''method''"

definition is_callable :: "Symbol \<Rightarrow> bool" where
  "is_callable s \<longleftrightarrow> sym_Kind s = KindFunction \<or> sym_Kind s = KindMethod"

subsection \<open>Indexes\<close>

definition indexByName :: "cg_env \<Rightarrow> sym_ref list \<Rightarrow> string \<Rightarrow> sym_ref list" where
  "indexByName E syms name = filter (\<lambda>r. is_callable (store E r) \<and> sym_Name (store E r) = name) syms"

definition indexByFile :: "cg_env \<Rightarrow> sym_ref list \<Rightarrow> string \<Rightarrow> sym_ref list" where
  "indexByFile E syms file = filter (\<lambda>r. sym_File (store E r) = file) syms"

definition indexByDir :: "cg_env \<Rightarrow> sym_ref list \<Rightarrow> string \<Rightarrow> sym_ref list" where
  "indexByDir E syms dir = filter (\<lambda>r. path_dir (sym_File (store E r)) = dir) syms"

definition findByNameWhere :: "cg_env \<Rightarrow> sym_ref list \<Rightarrow> string \<Rightarrow> (sym_ref \<Rightarrow> bool) \<Rightarrow> sym_ref option" where
  "findByNameWhere E syms name ok = find (\<lambda>r. sym_Name (store E r) = name \<and> ok r) syms"

definition findByName :: "cg_env \<Rightarrow> sym_ref list \<Rightarrow> string \<Rightarrow> sym_ref option" where
  "findByName E syms name = findByNameWhere E syms name (\<lambda>r. is_callable (store E r))"

subsection \<open>The enclosing function of a line\<close>

definition spans :: "32 word \<Rightarrow> Symbol \<Rightarrow> bool" where
  "spans line s \<longleftrightarrow> sym_StartLine s \<le> line \<and> line \<le> sym_EndLine s"

definition width :: "Symbol \<Rightarrow> 32 word" where
  "width s = sym_EndLine s - sym_StartLine s"

definition better_caller :: "cg_env \<Rightarrow> 32 word \<Rightarrow> sym_ref option \<Rightarrow> sym_ref \<Rightarrow> sym_ref option" where
  "better_caller E line best r =
     (if \<not> is_callable (store E r) then best
      else if spans line (store E r) then
        (case best of
           None \<Rightarrow> Some r
         | Some b \<Rightarrow> if width (store E r) < width (store E b) then Some r else best)
      else best)"

definition findCaller :: "cg_env \<Rightarrow> sym_ref list \<Rightarrow> 32 word \<Rightarrow> sym_ref option" where
  "findCaller E fileSyms line = foldl (better_caller E line) None fileSyms"

subsection \<open>Go's scoping rules\<close>

definition pkgName :: "cg_env \<Rightarrow> string \<Rightarrow> string" where
  "pkgName E file = (case scope E file of Some sc \<Rightarrow> fs_pkg sc | None \<Rightarrow> [])"

definition samePackage :: "cg_env \<Rightarrow> CallSite \<Rightarrow> sym_ref \<Rightarrow> bool" where
  "samePackage E cs r =
     (if path_dir (sym_File (store E r)) \<noteq> path_dir (cs_File cs) then False
      else let a = pkgName E (cs_File cs); b = pkgName E (sym_File (store E r))
           in a = [] \<or> b = [] \<or> a = b)"

definition samePackageFamily :: "cg_env \<Rightarrow> CallSite \<Rightarrow> sym_ref \<Rightarrow> bool" where
  "samePackageFamily E cs r =
     (if samePackage E cs r then True
      else if path_dir (sym_File (store E r)) \<noteq> path_dir (cs_File cs) then False
      else let a = pkgName E (cs_File cs); b = pkgName E (sym_File (store E r))
           in a = b @ ''_test'' \<or> b = a @ ''_test'')"

fun common_run :: "string list \<Rightarrow> string list \<Rightarrow> nat" where
  "common_run (x # xs) (y # ys) = (if x = y then Suc (common_run xs ys) else 0)"
| "common_run _ _ = 0"

definition dirMatchesImport :: "string \<Rightarrow> string \<Rightarrow> bool" where
  "dirMatchesImport dir importPath =
     (0 < common_run (rev (split_on CHR ''/'' dir)) (rev (split_on CHR ''/'' importPath)))"

definition isExported :: "cg_env \<Rightarrow> string \<Rightarrow> bool" where
  "isExported E name = first_upper (tables E) name"

text \<open>\<open>importNames\<close>: the specs of the file in order, the first that names the package wins.\<close>

definition import_binds :: "cg_env \<Rightarrow> sym_ref \<Rightarrow> string \<Rightarrow> goImport \<Rightarrow> bool" where
  "import_binds E r q imp =
     (let dir = path_dir (sym_File (store E r));
          declared = (if pkgName E (sym_File (store E r)) = [] then path_base dir
                      else pkgName E (sym_File (store E r)))
      in if imp_alias imp = ''.'' \<or> imp_alias imp = ''_'' \<or> \<not> dirMatchesImport dir (imp_path imp) then False
         else (if imp_alias imp = [] then declared else imp_alias imp) = q)"

definition importNames :: "cg_env \<Rightarrow> goFileScope \<Rightarrow> sym_ref \<Rightarrow> string \<Rightarrow> bool" where
  "importNames E sc r q = list_ex (import_binds E r q) (fs_imports sc)"

text \<open>
  A loop that keeps the last hit and gives up (\<open>Inl ()\<close>) on a second one: with \<open>same_ok\<close> a second
  hit on the same symbol is not a conflict.
\<close>

fun unique_hit :: "bool \<Rightarrow> sym_ref option \<Rightarrow> sym_ref list \<Rightarrow> unit + sym_ref option" where
  "unique_hit same_ok hit [] = Inr hit"
| "unique_hit same_ok hit (r # rs) =
     (case hit of
        None \<Rightarrow> unique_hit same_ok (Some r) rs
      | Some h \<Rightarrow> if same_ok \<and> h = r then unique_hit same_ok (Some r) rs else Inl ())"

definition resolveDotImported ::
    "cg_env \<Rightarrow> (string \<Rightarrow> sym_ref list) \<Rightarrow> CallSite \<Rightarrow> goFileScope option \<Rightarrow> sym_ref option" where
  "resolveDotImported E byName cs sc =
     (case sc of
        None \<Rightarrow> None
      | Some sc' \<Rightarrow>
          if \<not> isExported E (cs_Name cs) then None
          else
            let hits = concat (map (\<lambda>imp.
                  if imp_alias imp \<noteq> ''.'' then []
                  else filter (\<lambda>r. sym_Kind (store E r) = KindFunction \<and>
                                  dirMatchesImport (path_dir (sym_File (store E r))) (imp_path imp))
                         (byName (cs_Name cs))) (fs_imports sc'))
            in (case unique_hit True None hits of Inl _ \<Rightarrow> None | Inr h \<Rightarrow> h))"

definition resolveQualified ::
    "cg_env \<Rightarrow> (string \<Rightarrow> sym_ref list) \<Rightarrow> CallSite \<Rightarrow> goFileScope option \<Rightarrow> sym_ref option" where
  "resolveQualified E byName cs sc =
     (let callDir = path_dir (cs_File cs);
          cands = byName (cs_Name cs);
          imported = (case sc of
              None \<Rightarrow> Inr None
            | Some sc' \<Rightarrow> unique_hit False None
                (filter (\<lambda>r. sym_Kind (store E r) = KindFunction \<and> \<not> samePackage E cs r \<and>
                             importNames E sc' r (cs_Receiver cs)) cands))
      in case imported of
           Inl _ \<Rightarrow> None
         | Inr (Some h) \<Rightarrow> Some h
         | Inr None \<Rightarrow>
             (case cands of
                [r] \<Rightarrow>
                  if path_dir (sym_File (store E r)) = callDir then None
                  else if sym_Kind (store E r) = KindMethod then Some r
                  else if sym_Kind (store E r) = KindFunction \<and> sc = None then
                    (if \<not> cs_IsArgRef cs \<or> path_base (path_dir (sym_File (store E r))) = cs_Receiver cs
                     then Some r else None)
                  else None
              | _ \<Rightarrow> None))"

definition in_package :: "cg_env \<Rightarrow> CallSite \<Rightarrow> sym_ref \<Rightarrow> bool" where
  "in_package E cs r =
     (if cs_Receiver cs = [] then sym_Kind (store E r) = KindFunction \<and> samePackage E cs r
      else sym_Kind (store E r) = KindMethod \<and> samePackageFamily E cs r)"

definition go_resolve :: "cg_env \<Rightarrow> (string \<Rightarrow> sym_ref list) \<Rightarrow> (string \<Rightarrow> sym_ref list) \<Rightarrow>
    (string \<Rightarrow> sym_ref list) \<Rightarrow> CallSite \<Rightarrow> sym_ref option" where
  "go_resolve E byFile byDir byName cs =
     (case findByNameWhere E (byFile (cs_File cs)) (cs_Name cs) (in_package E cs) of
        Some r \<Rightarrow> Some r
      | None \<Rightarrow>
          (case findByNameWhere E (byDir (path_dir (cs_File cs))) (cs_Name cs) (in_package E cs) of
             Some r \<Rightarrow> Some r
           | None \<Rightarrow>
               if cs_Receiver cs = [] then resolveDotImported E byName cs (scope E (cs_File cs))
               else resolveQualified E byName cs (scope E (cs_File cs))))"

subsection \<open>Resolution and the graph\<close>

definition resolveCall :: "cg_env \<Rightarrow> (string \<Rightarrow> sym_ref list) \<Rightarrow> (string \<Rightarrow> sym_ref list) \<Rightarrow>
    (string \<Rightarrow> sym_ref list) \<Rightarrow> CallSite \<Rightarrow> sym_ref option" where
  "resolveCall E byFile byDir byName cs =
     (if DetectLanguageFromPath (cs_File cs) = ''go'' then go_resolve E byFile byDir byName cs
      else case findByName E (byFile (cs_File cs)) (cs_Name cs) of
        Some r \<Rightarrow> Some r
      | None \<Rightarrow>
          (case findByName E (byDir (path_dir (cs_File cs))) (cs_Name cs) of
             Some r \<Rightarrow> Some r
           | None \<Rightarrow>
               if cs_Receiver cs = [] \<and> isBuiltinCallName (DetectLanguageFromPath (cs_File cs)) (cs_Name cs) then None
               else (case byName (cs_Name cs) of [r] \<Rightarrow> Some r | _ \<Rightarrow> None)))"

definition build_edge :: "cg_env \<Rightarrow> bool \<Rightarrow> sym_ref list \<Rightarrow> CallSite \<Rightarrow> CallEdge list" where
  "build_edge E includeFieldAccess syms cs =
     (let caller = findCaller E (indexByFile E syms (cs_File cs)) (cs_Line cs);
          callee = resolveCall E (indexByFile E syms) (indexByDir E syms) (indexByName E syms) cs
      in if cs_IsArgRef cs \<and> callee = None \<and> \<not> includeFieldAccess then []
         else [\<lparr>ce_Caller = caller, ce_Callee = callee, ce_CalleeName = cs_Name cs,
                ce_Receiver = cs_Receiver cs, ce_Line = cs_Line cs\<rparr>])"

definition BuildCallGraphWithOpts :: "cg_env \<Rightarrow> sym_ref list \<Rightarrow> CallSite list \<Rightarrow> bool \<Rightarrow> CallEdge list" where
  "BuildCallGraphWithOpts E syms calls includeFieldAccess =
     concat (map (build_edge E includeFieldAccess syms) calls)"

definition BuildCallGraph :: "cg_env \<Rightarrow> sym_ref list \<Rightarrow> CallSite list \<Rightarrow> CallEdge list" where
  "BuildCallGraph E syms calls = BuildCallGraphWithOpts E syms calls False"


subsection \<open>The enclosing function is the narrowest\<close>

lemma width_unat:
  "spans line s \<Longrightarrow> unat (width s) = unat (sym_EndLine s) - unat (sym_StartLine s)"
  unfolding width_def spans_def by (meson order_trans unat_sub)

definition covers :: "cg_env \<Rightarrow> 32 word \<Rightarrow> sym_ref \<Rightarrow> bool" where
  "covers E line r \<longleftrightarrow> is_callable (store E r) \<and> spans line (store E r)"

text \<open>The best candidate among the symbols seen: none, or the first one of minimal width.\<close>

definition narrowest :: "cg_env \<Rightarrow> 32 word \<Rightarrow> sym_ref list \<Rightarrow> sym_ref option \<Rightarrow> bool" where
  "narrowest E line rs best \<longleftrightarrow>
     (case best of
        None \<Rightarrow> \<forall>r \<in> set rs. \<not> covers E line r
      | Some b \<Rightarrow> covers E line b \<and> (\<exists>us vs. rs = us @ b # vs \<and>
          (\<forall>r \<in> set us. covers E line r \<longrightarrow> width (store E b) < width (store E r)) \<and>
          (\<forall>r \<in> set vs. covers E line r \<longrightarrow> width (store E b) \<le> width (store E r))))"

lemma narrowest_SomeI:
  assumes "covers E line b" and "rs = us @ b # vs"
    and "\<And>r. r \<in> set us \<Longrightarrow> covers E line r \<Longrightarrow> width (store E b) < width (store E r)"
    and "\<And>r. r \<in> set vs \<Longrightarrow> covers E line r \<Longrightarrow> width (store E b) \<le> width (store E r)"
  shows "narrowest E line rs (Some b)"
  unfolding narrowest_def option.case using assms by blast

lemma better_caller_covers:
  "covers E line r \<Longrightarrow> better_caller E line best r =
     (case best of None \<Rightarrow> Some r | Some b \<Rightarrow> if width (store E r) < width (store E b) then Some r else best)"
  by (simp add: better_caller_def covers_def)

lemma narrowest_step:
  assumes "narrowest E line rs best"
  shows "narrowest E line (rs @ [r]) (better_caller E line best r)"
proof (cases "covers E line r")
  case False
  then have "better_caller E line best r = best"
    by (auto simp: better_caller_def covers_def)
  then show ?thesis using assms False by (force simp: narrowest_def split: option.splits)
next
  case True
  show ?thesis
  proof (cases best)
    case None
    then have "\<forall>x \<in> set rs. \<not> covers E line x" using assms by (simp add: narrowest_def)
    then show ?thesis using None True
      by (auto simp: better_caller_covers intro!: narrowest_SomeI [of _ _ _ _ rs "[]"])
  next
    case (Some b)
    with assms obtain us vs where b: "covers E line b" "rs = us @ b # vs"
      and u: "\<forall>x \<in> set us. covers E line x \<longrightarrow> width (store E b) < width (store E x)"
      and v: "\<forall>x \<in> set vs. covers E line x \<longrightarrow> width (store E b) \<le> width (store E x)"
      by (auto simp: narrowest_def)
    show ?thesis
    proof (cases "width (store E r) < width (store E b)")
      case True
      have "\<forall>x \<in> set rs. covers E line x \<longrightarrow> width (store E r) < width (store E x)"
        using True b u v by (auto intro: less_trans less_le_trans)
      then show ?thesis using True \<open>covers E line r\<close> Some
        by (auto simp: better_caller_covers intro!: narrowest_SomeI [of _ _ _ _ rs "[]"])
    next
      case False
      then have "narrowest E line (rs @ [r]) (Some b)"
        using b u v by (intro narrowest_SomeI [of _ _ _ _ us "vs @ [r]"]) auto
      then show ?thesis using False Some \<open>covers E line r\<close> by (simp add: better_caller_covers)
    qed
  qed
qed

lemma findCaller_narrow:
  "narrowest E line rs (findCaller E rs line) \<and>
   (\<forall>r. covers E line r \<longrightarrow>
      unat (width (store E r)) = unat (sym_EndLine (store E r)) - unat (sym_StartLine (store E r)))"
proof -
  have "narrowest E line (us @ rs) (foldl (better_caller E line) best rs)"
    if "narrowest E line us best" for us best
    using that
  proof (induction rs arbitrary: us best)
    case Nil
    then show ?case by simp
  next
    case (Cons r rs)
    from Cons.IH [OF narrowest_step [OF Cons.prems]] show ?case by simp
  qed
  moreover have "narrowest E line [] None" by (simp add: narrowest_def)
  ultimately have "narrowest E line ([] @ rs) (foldl (better_caller E line) None rs)" by blast
  then show ?thesis by (auto simp: findCaller_def covers_def intro: width_unat)
qed

text \<open>
  \<open>findCaller\<close> attributes a call to the narrowest function or method whose lines contain it (the
  first of minimal width), and to none exactly when no function contains the line; the unsigned
  subtraction of the line numbers does not wrap for the candidates it compares.
\<close>

lemma findCaller_narrowest:
  "narrowest E line rs (findCaller E rs line) \<and>
   (\<forall>r. covers E line r \<longrightarrow>
      unat (width (store E r)) = unat (sym_EndLine (store E r)) - unat (sym_StartLine (store E r)))"
  by (rule findCaller_narrow)

subsection \<open>Resolution\<close>

lemma findByNameWhere_Some:
  "findByNameWhere E rs name ok = Some r \<Longrightarrow> r \<in> set rs \<and> sym_Name (store E r) = name \<and> ok r"
  by (auto simp: findByNameWhere_def find_Some_iff)

lemma unique_hit_Some:
  "unique_hit b hit rs = Inr (Some r) \<Longrightarrow> (hit = Some r \<or> r \<in> set rs)"
  by (induction b hit rs rule: unique_hit.induct) (auto split: option.splits if_splits)

lemma unique_hit_only:
  "unique_hit True hit rs = Inr (Some r) \<Longrightarrow> set rs \<subseteq> {r} \<and> (\<forall>h. hit = Some h \<longrightarrow> h = r)"
  by (induction True hit rs rule: unique_hit.induct) (auto split: option.splits if_splits)

definition in_repo :: "cg_env \<Rightarrow> sym_ref list \<Rightarrow> string \<Rightarrow> sym_ref \<Rightarrow> bool" where
  "in_repo E syms name r \<longleftrightarrow> r \<in> set syms \<and> is_callable (store E r) \<and> sym_Name (store E r) = name"

definition dir_of :: "cg_env \<Rightarrow> sym_ref \<Rightarrow> string" where
  "dir_of E r = path_dir (sym_File (store E r))"

text \<open>
  What the resolver may bind a call site of a Go file to, by the language's scoping rules: a bare
  identifier names a function of its own package, or an exported function of a package that the
  file imports with a dot; a qualified name is a method of the same directory, a function of another package
  that the file imports under the qualifier, or the only repository symbol of that name, in
  another directory, that is a method (or, when the header of the file cannot be read, a function).
\<close>

definition go_rule :: "cg_env \<Rightarrow> sym_ref list \<Rightarrow> CallSite \<Rightarrow> sym_ref \<Rightarrow> bool" where
  "go_rule E syms cs r \<longleftrightarrow>
     (if cs_Receiver cs = [] then
        sym_Kind (store E r) = KindFunction \<and>
        (samePackage E cs r \<or>
         (isExported E (cs_Name cs) \<and>
          (\<exists>sc imp. scope E (cs_File cs) = Some sc \<and> imp \<in> set (fs_imports sc) \<and> imp_alias imp = ''.'' \<and>
             dirMatchesImport (dir_of E r) (imp_path imp))))
      else
        (sym_Kind (store E r) = KindMethod \<and> dir_of E r = path_dir (cs_File cs)) \<or>
        (sym_Kind (store E r) = KindFunction \<and> \<not> samePackage E cs r \<and>
           (\<exists>sc. scope E (cs_File cs) = Some sc \<and> importNames E sc r (cs_Receiver cs))) \<or>
        (indexByName E syms (cs_Name cs) = [r] \<and> dir_of E r \<noteq> path_dir (cs_File cs) \<and>
           (sym_Kind (store E r) = KindMethod \<or> scope E (cs_File cs) = None)))"

lemma samePackageFamily_dir: "samePackageFamily E cs r \<Longrightarrow> dir_of E r = path_dir (cs_File cs)"
  by (auto simp: samePackageFamily_def samePackage_def dir_of_def split: if_splits)

lemma in_package_rule:
  "in_package E cs r \<Longrightarrow> go_rule E syms cs r \<and> is_callable (store E r)"
  by (auto simp: in_package_def go_rule_def is_callable_def dest: samePackageFamily_dir split: if_splits)

lemma resolveDotImported_rule:
  assumes "resolveDotImported E (indexByName E syms) cs (scope E (cs_File cs)) = Some r"
    and "cs_Receiver cs = []"
  shows "in_repo E syms (cs_Name cs) r \<and> go_rule E syms cs r"
proof -
  from assms(1) obtain sc where sc: "scope E (cs_File cs) = Some sc" and ex: "isExported E (cs_Name cs)"
    by (auto simp: resolveDotImported_def split: option.splits if_splits)
  let ?hits = "concat (map (\<lambda>imp.
                  if imp_alias imp \<noteq> ''.'' then []
                  else filter (\<lambda>r. sym_Kind (store E r) = KindFunction \<and>
                                  dirMatchesImport (path_dir (sym_File (store E r))) (imp_path imp))
                         (indexByName E syms (cs_Name cs))) (fs_imports sc))"
  have "unique_hit True None ?hits = Inr (Some r)"
    using assms(1) sc ex by (auto simp: resolveDotImported_def Let_def split: sum.splits)
  then have "r \<in> set ?hits" using unique_hit_Some by fastforce
  then obtain imp where "imp \<in> set (fs_imports sc)" "imp_alias imp = ''.''"
    "r \<in> set (indexByName E syms (cs_Name cs))" "sym_Kind (store E r) = KindFunction"
    "dirMatchesImport (path_dir (sym_File (store E r))) (imp_path imp)"
    by (auto split: if_splits)
  then show ?thesis using sc ex assms(2)
    by (auto simp: in_repo_def go_rule_def indexByName_def dir_of_def)
qed

lemma resolveQualified_rule:
  assumes "resolveQualified E (indexByName E syms) cs (scope E (cs_File cs)) = Some r"
    and "cs_Receiver cs \<noteq> []"
  shows "in_repo E syms (cs_Name cs) r \<and> go_rule E syms cs r"
proof -
  let ?c = "indexByName E syms (cs_Name cs)"
  let ?imp = "case scope E (cs_File cs) of
              None \<Rightarrow> Inr None
            | Some sc' \<Rightarrow> unique_hit False None
                (filter (\<lambda>r. sym_Kind (store E r) = KindFunction \<and> \<not> samePackage E cs r \<and>
                             importNames E sc' r (cs_Receiver cs)) ?c)"
  consider "?imp = Inr (Some r)" | "?imp = Inr None" "?c = [r]" "path_dir (sym_File (store E r)) \<noteq> path_dir (cs_File cs)"
      "sym_Kind (store E r) = KindMethod \<or> scope E (cs_File cs) = None"
    using assms(1) unfolding resolveQualified_def Let_def
    by (auto split: sum.splits option.splits list.splits if_splits)
  then show ?thesis
  proof cases
    case 1
    then obtain sc where sc: "scope E (cs_File cs) = Some sc"
      and u: "unique_hit False None
                (filter (\<lambda>r. sym_Kind (store E r) = KindFunction \<and> \<not> samePackage E cs r \<and>
                             importNames E sc r (cs_Receiver cs)) ?c) = Inr (Some r)"
      by (cases "scope E (cs_File cs)") auto
    from unique_hit_Some [OF u] have "r \<in> set ?c" "sym_Kind (store E r) = KindFunction"
      "\<not> samePackage E cs r" "importNames E sc r (cs_Receiver cs)" by auto
    then show ?thesis using sc assms(2) by (auto simp: in_repo_def go_rule_def indexByName_def)
  next
    case 2
    have "r \<in> set ?c" using 2(2) by simp
    then show ?thesis using 2 assms(2) by (auto simp: in_repo_def go_rule_def indexByName_def dir_of_def)
  qed
qed

lemma go_resolve_rule:
  assumes "go_resolve E (indexByFile E syms) (indexByDir E syms) (indexByName E syms) cs = Some r"
  shows "in_repo E syms (cs_Name cs) r \<and> go_rule E syms cs r"
proof -
  consider "findByNameWhere E (indexByFile E syms (cs_File cs)) (cs_Name cs) (in_package E cs) = Some r"
    | "findByNameWhere E (indexByDir E syms (path_dir (cs_File cs))) (cs_Name cs) (in_package E cs) = Some r"
    | "cs_Receiver cs = []" "resolveDotImported E (indexByName E syms) cs (scope E (cs_File cs)) = Some r"
    | "cs_Receiver cs \<noteq> []" "resolveQualified E (indexByName E syms) cs (scope E (cs_File cs)) = Some r"
    using assms by (auto simp: go_resolve_def split: option.splits if_splits)
  then show ?thesis
  proof cases
    case 1
    from findByNameWhere_Some [OF this] have r: "r \<in> set syms" "sym_Name (store E r) = cs_Name cs"
      and p: "in_package E cs r"
      by (simp_all add: indexByFile_def)
    from in_package_rule [OF p, of syms] r show ?thesis unfolding in_repo_def by blast
  next
    case 2
    from findByNameWhere_Some [OF this] have r: "r \<in> set syms" "sym_Name (store E r) = cs_Name cs"
      and p: "in_package E cs r"
      by (simp_all add: indexByDir_def)
    from in_package_rule [OF p, of syms] r show ?thesis unfolding in_repo_def by blast
  next
    case 3
    then show ?thesis using resolveDotImported_rule by blast
  next
    case 4
    then show ?thesis using resolveQualified_rule by blast
  qed
qed

text \<open>
  C13: No edge over a wrong edge: a call is only ever bound to a function or method of the repository
  that carries the called name; in a Go file the language's scoping rules allow the binding; elsewhere
  the symbol is in the same file or directory, or its name is unique in the repository and the
  call is not an unqualified call of a builtin of the language.
\<close>

theorem resolveCall_sound:
  assumes "resolveCall E (indexByFile E syms) (indexByDir E syms) (indexByName E syms) cs = Some r"
  shows "in_repo E syms (cs_Name cs) r \<and>
     (if DetectLanguageFromPath (cs_File cs) = ''go'' then go_rule E syms cs r
      else sym_File (store E r) = cs_File cs \<or> dir_of E r = path_dir (cs_File cs) \<or>
        (indexByName E syms (cs_Name cs) = [r] \<and>
         \<not> (cs_Receiver cs = [] \<and> isBuiltinCallName (DetectLanguageFromPath (cs_File cs)) (cs_Name cs))))"
proof (cases "DetectLanguageFromPath (cs_File cs) = ''go''")
  case True
  then show ?thesis using assms go_resolve_rule [of E syms cs r] by (simp add: resolveCall_def)
next
  case False
  consider "findByName E (indexByFile E syms (cs_File cs)) (cs_Name cs) = Some r"
    | "findByName E (indexByDir E syms (path_dir (cs_File cs))) (cs_Name cs) = Some r"
    | "indexByName E syms (cs_Name cs) = [r]"
      "\<not> (cs_Receiver cs = [] \<and> isBuiltinCallName (DetectLanguageFromPath (cs_File cs)) (cs_Name cs))"
    using assms False unfolding resolveCall_def
    by (auto split: option.splits if_splits list.splits)
  then show ?thesis
  proof cases
    case 1
    from findByNameWhere_Some [OF 1 [unfolded findByName_def]] show ?thesis
      using False by (auto simp: in_repo_def indexByFile_def)
  next
    case 2
    from findByNameWhere_Some [OF 2 [unfolded findByName_def]] show ?thesis
      using False by (auto simp: in_repo_def indexByDir_def dir_of_def)
  next
    case 3
    have "r \<in> set (indexByName E syms (cs_Name cs))" using 3(1) by simp
    then show ?thesis using 3 False by (auto simp: in_repo_def indexByName_def)
  qed
qed

text \<open>A qualified call into an imported package, for the witness.\<close>

definition example_repo :: cg_env where
  "example_repo = \<lparr>store = (\<lambda>r. \<lparr>sym_Name = ''Load'', sym_Kind = ''function'',
       sym_File = (if r = 0 then ''cmd/main.go'' else ''internal/conf/conf.go''),
       sym_StartLine = 1, sym_EndLine = 9, sym_Receiver = []\<rparr>),
     scope = (\<lambda>f. Some \<lparr>fs_pkg = (if f = ''cmd/main.go'' then ''main'' else ''conf''), fs_imports = [\<lparr>imp_alias = [], imp_path = ''ex/internal/conf''\<rparr>]\<rparr>),
     tables = \<lparr>u_lower = id, u_upper1 = (\<lambda>_. False)\<rparr>\<rparr>"

definition example_call :: CallSite where
  "example_call = \<lparr>cs_Name = ''Load'', cs_Receiver = ''conf'', cs_Line = 3, cs_File = ''cmd/main.go'', cs_IsArgRef = False\<rparr>"

theorem resolveCall_sound_witness:
  "resolveCall example_repo (indexByFile example_repo [0, 1]) (indexByDir example_repo [0, 1])
     (indexByName example_repo [0, 1]) example_call = Some 1 \<and> go_rule example_repo [0, 1] example_call 1"
proof -
  have r: "resolveCall example_repo (indexByFile example_repo [0, 1]) (indexByDir example_repo [0, 1])
     (indexByName example_repo [0, 1]) example_call = Some 1"
    by code_simp
  have "DetectLanguageFromPath (cs_File example_call) = ''go''" by code_simp
  then show ?thesis using r resolveCall_sound [OF r] by simp
qed

definition resolved :: "cg_env \<Rightarrow> sym_ref list \<Rightarrow> CallSite \<Rightarrow> sym_ref option" where
  "resolved E syms cs = resolveCall E (indexByFile E syms) (indexByDir E syms) (indexByName E syms) cs"

text \<open>What an edge of the graph says about the call site it was built from.\<close>

definition edge_of :: "cg_env \<Rightarrow> sym_ref list \<Rightarrow> CallSite \<Rightarrow> CallEdge \<Rightarrow> bool" where
  "edge_of E syms cs e \<longleftrightarrow>
     ce_CalleeName e = cs_Name cs \<and> ce_Receiver e = cs_Receiver cs \<and> ce_Line e = cs_Line cs \<and>
     narrowest E (cs_Line cs) (filter (\<lambda>r. sym_File (store E r) = cs_File cs) syms) (ce_Caller e) \<and>
     (case ce_Callee e of None \<Rightarrow> resolved E syms cs = None | Some r \<Rightarrow> in_repo E syms (cs_Name cs) r)"

lemma resolveCall_in_repo:
  assumes "resolved E syms cs = Some r"
  shows "in_repo E syms (cs_Name cs) r"
proof (cases "DetectLanguageFromPath (cs_File cs) = ''go''")
  case True
  then show ?thesis using assms go_resolve_rule by (simp add: resolved_def resolveCall_def)
next
  case False
  have "find P rs = Some x \<Longrightarrow> x \<in> set rs \<and> P x" for P rs and x :: sym_ref by (auto simp: find_Some_iff)
  then show ?thesis using assms False
    unfolding resolved_def resolveCall_def findByName_def
    by (auto split: option.splits list.splits if_splits dest!: findByNameWhere_Some
        simp: in_repo_def indexByFile_def indexByDir_def indexByName_def filter_eq_Cons_iff)
qed

text \<open>
  C12: The graph has, in the order of the call sites, exactly one edge per site, attributed to the
  narrowest enclosing function and bound only to repository symbols of the called name; the only
  sites without an edge are the heuristic argument references that resolve to nothing.
\<close>

theorem BuildCallGraph_edges:
  "list_all2 (edge_of E syms)
     (filter (\<lambda>cs. \<not> (cs_IsArgRef cs \<and> resolved E syms cs = None)) calls) (BuildCallGraph E syms calls)"
proof (induction calls)
  case Nil
  then show ?case by (simp add: BuildCallGraph_def BuildCallGraphWithOpts_def)
next
  case (Cons cs calls)
  have c: "narrowest E (cs_Line cs) (filter (\<lambda>r. sym_File (store E r) = cs_File cs) syms)
      (findCaller E (indexByFile E syms (cs_File cs)) (cs_Line cs))"
    unfolding indexByFile_def by (rule conjunct1 [OF findCaller_narrow])
  show ?case using Cons c resolveCall_in_repo [of E syms cs]
    by (auto simp: BuildCallGraph_def BuildCallGraphWithOpts_def build_edge_def edge_of_def Let_def
        resolved_def split: option.splits)
qed

end
