(* ===== verification/Impact.thy ===== *)
theory Impact
  imports CallGraph Complex_Main
begin

text \<open>
  The blast radius of a symbol (\<open>internal/impact\<close>): a breadth-first search over the reversed calls,
  the classification of its result, the file-level callers of an Astro component, and the merge of
  the text-search hits. The community of a symbol (Louvain clustering in \<open>internal/ranking\<close>), the
  responses of the ox-codes service are arguments; the lookup of covering tests in the graph store is not
  part of the model. \<open>float64\<close> values are exact
  rationals here. \<open>af_ref\<close> keeps the pointer an entry was made from, which the source's struct does
  not hold.
\<close>

record AffectedSymbol =
  af_Name :: string
  af_File :: string
  af_Package :: string
  af_Distance :: nat
  af_Confidence :: rat
  af_Community :: int
  af_CallLine :: "32 word"
  af_ref :: "sym_ref option"

record HiddenCaller =
  hc_File :: string
  hc_Line :: int
  hc_Text :: string
  hc_Confidence :: rat

record Match =
  m_File :: string
  m_Line :: int
  m_Text :: string

record ImpactResult =
  im_Symbol :: string
  im_Found :: bool
  im_DirectCallers :: "AffectedSymbol list"
  im_TransitiveCallers :: "AffectedSymbol list"
  im_HiddenCallers :: "HiddenCaller list"
  im_TotalAffected :: nat
  im_AffectedPackages :: "string list"
  im_CommunitiesCrossed :: nat
  im_BlastRadius :: string
  im_RiskScore :: rat

definition findTarget :: "cg_env \<Rightarrow> sym_ref list \<Rightarrow> string \<Rightarrow> sym_ref option" where
  "findTarget E syms name = find (\<lambda>r. sym_Name (store E r) = name \<and> is_callable (store E r)) syms"

definition callerIndex :: "CallEdge list \<Rightarrow> sym_ref \<Rightarrow> CallEdge list" where
  "callerIndex edges r = filter (\<lambda>e. ce_Callee e = Some r) edges"

definition makeAffected :: "cg_env \<Rightarrow> (sym_ref \<Rightarrow> int) option \<Rightarrow> sym_ref \<Rightarrow> nat \<Rightarrow> 32 word \<Rightarrow> AffectedSymbol" where
  "makeAffected E comm r distance callLine =
     (let c = 1 - (of_nat distance - 1) * (2 / 10);
          confidence = (if c < 1 / 10 then 1 / 10 else c)
      in \<lparr>af_Name = sym_Name (store E r), af_File = sym_File (store E r),
          af_Package = path_dir (sym_File (store E r)), af_Distance = distance, af_Confidence = confidence,
          af_Community = (case comm of None \<Rightarrow> 0 | Some f \<Rightarrow> f r), af_CallLine = callLine, af_ref = Some r\<rparr>)"

definition classifyBlastRadius :: "nat \<Rightarrow> nat \<Rightarrow> string" where
  "classifyBlastRadius callers packages =
     (if callers = 0 then ''none''
      else if callers \<le> 5 \<and> packages \<le> 2 then ''low''
      else if callers \<le> 20 \<and> packages \<le> 5 then ''medium''
      else ''high'')"

record bfs_state =
  visited :: "sym_ref list"
  queue :: "(sym_ref \<times> nat) list"
  pkgSet :: "string list"
  direct :: "AffectedSymbol list"
  transitive :: "AffectedSymbol list"

definition visit_edge :: "cg_env \<Rightarrow> (sym_ref \<Rightarrow> int) option \<Rightarrow> nat \<Rightarrow> bfs_state \<Rightarrow> CallEdge \<Rightarrow> bfs_state" where
  "visit_edge E comm depth st e =
     (case ce_Caller e of
        None \<Rightarrow> st
      | Some c \<Rightarrow>
          if c \<in> set (visited st) then st
          else
            let distance = depth + 1; a = makeAffected E comm c distance (ce_Line e) in
            st\<lparr>visited := visited st @ [c],
               queue := queue st @ [(c, distance)],
               pkgSet := pkgSet st @ [af_Package a],
               direct := (if distance = 1 then direct st @ [a] else direct st),
               transitive := (if distance = 1 then transitive st else transitive st @ [a])\<rparr>)"

definition callers_in :: "CallEdge list \<Rightarrow> sym_ref set" where
  "callers_in es = {c. \<exists>e \<in> set es. ce_Caller e = Some c}"

lemma finite_callers_in [simp]: "finite (callers_in es)"
proof -
  have "callers_in es \<subseteq> the ` ce_Caller ` set es" by (force simp: callers_in_def)
  then show ?thesis by (rule finite_subset) simp
qed

text \<open>What following the edges of one item adds: the callers not seen before, in order.\<close>

fun fresh :: "sym_ref list \<Rightarrow> CallEdge list \<Rightarrow> (sym_ref \<times> 32 word) list" where
  "fresh vis [] = []"
| "fresh vis (e # es) =
     (case ce_Caller e of
        None \<Rightarrow> fresh vis es
      | Some c \<Rightarrow> if c \<in> set vis then fresh vis es else (c, ce_Line e) # fresh (vis @ [c]) es)"

lemma fresh_facts:
  "distinct (map fst (fresh vis es)) \<and> set (map fst (fresh vis es)) = callers_in es - set vis"
proof (induction vis es rule: fresh.induct)
  case (1 vis)
  then show ?case by (simp add: callers_in_def)
next
  case (2 vis e es)
  have c: "callers_in (e # es) = (case ce_Caller e of None \<Rightarrow> {} | Some c \<Rightarrow> {c}) \<union> callers_in es"
    by (auto simp: callers_in_def split: option.splits)
  show ?case using 2 unfolding c by (auto split: option.splits)
qed

lemma visit_edges:
  "foldl (visit_edge E comm d) st es =
     (let ns = fresh (visited st) es; as = map (\<lambda>(c, l). makeAffected E comm c (Suc d) l) ns in
      st\<lparr>visited := visited st @ map fst ns, queue := queue st @ map (\<lambda>c. (c, Suc d)) (map fst ns),
         pkgSet := pkgSet st @ map af_Package as,
         direct := (if d = 0 then direct st @ as else direct st),
         transitive := (if d = 0 then transitive st else transitive st @ as)\<rparr>)"
proof (induction es arbitrary: st)
  case Nil
  then show ?case by simp
next
  case (Cons e es)
  show ?case
  proof (cases "ce_Caller e")
    case None
    then have "visit_edge E comm d st e = st" by (simp add: visit_edge_def)
    then show ?thesis using None Cons.IH [of st] by simp
  next
    case (Some c)
    show ?thesis
    proof (cases "c \<in> set (visited st)")
      case True
      then have "visit_edge E comm d st e = st" using Some by (simp add: visit_edge_def)
      then show ?thesis using Some True Cons.IH [of st] by simp
    next
      case False
      let ?a = "makeAffected E comm c (Suc d) (ce_Line e)"
      have "visit_edge E comm d st e = st\<lparr>visited := visited st @ [c], queue := queue st @ [(c, Suc d)],
          pkgSet := pkgSet st @ [af_Package ?a], direct := (if d = 0 then direct st @ [?a] else direct st),
          transitive := (if d = 0 then transitive st else transitive st @ [?a])\<rparr>"
        using Some False by (simp add: visit_edge_def Let_def)
      then show ?thesis using Some False by (simp add: Cons.IH Let_def)
    qed
  qed
qed

lemma callerIndex_callers: "callers_in (callerIndex edges s) \<subseteq> callers_in edges"
  by (auto simp: callerIndex_def callers_in_def)

lemma traverse_weight:
  assumes "queue st = (s, d) # q"
  shows "2 * card (callers_in edges - set (visited (foldl (visit_edge E comm d) (st\<lparr>queue := q\<rparr>) (callerIndex edges s))))
           + length (queue (foldl (visit_edge E comm d) (st\<lparr>queue := q\<rparr>) (callerIndex edges s)))
         < 2 * card (callers_in edges - set (visited st)) + length (queue st)"
proof -
  let ?ns = "map fst (fresh (visited st) (callerIndex edges s))"
  have ns: "distinct ?ns" "set ?ns = callers_in (callerIndex edges s) - set (visited st)"
    using fresh_facts by blast+
  then have sub: "set ?ns \<subseteq> callers_in edges - set (visited st)" using callerIndex_callers by blast
  have "callers_in edges - set (visited st @ ?ns) = (callers_in edges - set (visited st)) - set ?ns" by auto
  then have "card (callers_in edges - set (visited st @ ?ns)) + length ?ns = card (callers_in edges - set (visited st))"
    using card_Diff_subset [OF _ sub] card_mono [OF _ sub] distinct_card [OF ns(1)] by simp
  then show ?thesis using assms by (simp add: visit_edges Let_def)
qed

function traverse :: "cg_env \<Rightarrow> CallEdge list \<Rightarrow> (sym_ref \<Rightarrow> int) option \<Rightarrow> nat \<Rightarrow> bfs_state \<Rightarrow> bfs_state" where
  "traverse E edges comm maxDepth st =
     (case queue st of
        [] \<Rightarrow> st
      | (s, d) # q \<Rightarrow>
          if d \<ge> maxDepth then traverse E edges comm maxDepth (st\<lparr>queue := q\<rparr>)
          else traverse E edges comm maxDepth
                 (foldl (visit_edge E comm d) (st\<lparr>queue := q\<rparr>) (callerIndex edges s)))"
  by pat_completeness auto
termination
  by (relation "measure (\<lambda>(E, edges, comm, m, st). 2 * card (callers_in edges - set (visited st)) + length (queue st))")
     (use traverse_weight in auto)

declare traverse.simps [simp del]

definition traverseCallers ::
    "cg_env \<Rightarrow> CallEdge list \<Rightarrow> (sym_ref \<Rightarrow> int) option \<Rightarrow> nat \<Rightarrow> sym_ref \<Rightarrow> bfs_state" where
  "traverseCallers E edges comm maxDepth t =
     traverse E edges comm maxDepth
       \<lparr>visited = [t], queue = [(t, 0)], pkgSet = [], direct = [], transitive = []\<rparr>"

text \<open>Hits of the two text searches, the scoped one first; a file and line is reported once.\<close>

fun merge_hits :: "rat \<Rightarrow> (string \<times> int) list \<Rightarrow> Match list \<Rightarrow> (string \<times> int) list \<times> HiddenCaller list" where
  "merge_hits conf seen [] = (seen, [])"
| "merge_hits conf seen (m # ms) =
     (if (m_File m, m_Line m) \<in> set seen then merge_hits conf seen ms
      else let (seen', hs) = merge_hits conf ((m_File m, m_Line m) # seen) ms
           in (seen', \<lparr>hc_File = m_File m, hc_Line = m_Line m, hc_Text = m_Text m, hc_Confidence = conf\<rparr> # hs))"

text \<open>
  \<open>FindHiddenCallers\<close>: \<open>scoped\<close> and \<open>literal\<close> are the responses of the service, \<open>None\<close> for a
  failed call; the scoped search is skipped when no language is given.
\<close>

definition FindHiddenCallers :: "Match list option \<Rightarrow> Match list option \<Rightarrow> string \<Rightarrow> HiddenCaller list" where
  "FindHiddenCallers scoped literal language =
     (let ms1 = (if language = [] then [] else case scoped of None \<Rightarrow> [] | Some ms \<Rightarrow> ms);
          ms2 = (case literal of None \<Rightarrow> [] | Some ms \<Rightarrow> ms);
          (seen, h1) = merge_hits (6 / 10) [] ms1;
          (_, h2) = merge_hits (4 / 10) seen ms2
      in h1 @ h2)"

definition no_result :: "string \<Rightarrow> ImpactResult" where
  "no_result name =
     \<lparr>im_Symbol = name, im_Found = False, im_DirectCallers = [], im_TransitiveCallers = [], im_HiddenCallers = [],
      im_TotalAffected = 0, im_AffectedPackages = [], im_CommunitiesCrossed = 0, im_BlastRadius = [],
      im_RiskScore = 0\<rparr>"

text \<open>The order of \<open>pkgs\<close> is the iteration order of a Go map: \<open>order\<close> is the one the runtime picks.\<close>

definition appendUsesCallers ::
    "(string list \<Rightarrow> string list) \<Rightarrow> (string \<Rightarrow> string list option) \<Rightarrow> string \<Rightarrow> ImpactResult \<Rightarrow> ImpactResult" where
  "appendUsesCallers order usesIndex symbolName result =
     (case usesIndex symbolName of
        None \<Rightarrow> result
      | Some callers \<Rightarrow>
          let as = map (\<lambda>c. \<lparr>af_Name = c, af_File = c, af_Package = path_dir c, af_Distance = 1,
                     af_Confidence = 1, af_Community = 0, af_CallLine = 0, af_ref = None\<rparr>) callers
          in result\<lparr>im_DirectCallers := im_DirectCallers result @ as,
                    im_TotalAffected := im_TotalAffected result + length callers,
                    im_AffectedPackages := im_AffectedPackages result @ order (remdups (map af_Package as))\<rparr>)"

record impact_env =
  ie_order :: "string list \<Rightarrow> string list"
  ie_uses :: "string \<Rightarrow> string list option"
  ie_communities :: "(sym_ref \<Rightarrow> int) option"
  ie_search :: "(Match list option \<times> Match list option) option"
  ie_language :: string

definition Analyze :: "cg_env \<Rightarrow> impact_env \<Rightarrow> sym_ref list \<Rightarrow> CallEdge list \<Rightarrow> string \<Rightarrow> int \<Rightarrow> ImpactResult" where
  "Analyze E I syms edges symbolName maxDepth =
     (let depth = (if maxDepth \<le> 0 then 5 else maxDepth); result = no_result symbolName in
      case findTarget E syms symbolName of
        None \<Rightarrow>
          let r1 = appendUsesCallers (ie_order I) (ie_uses I) symbolName result in
          if im_TotalAffected r1 = 0 then r1\<lparr>im_BlastRadius := ''none''\<rparr>
          else r1\<lparr>im_Found := True,
                  im_BlastRadius := classifyBlastRadius (im_TotalAffected r1) (length (im_AffectedPackages r1)),
                  im_RiskScore := of_nat (im_TotalAffected r1)\<rparr>
      | Some t \<Rightarrow>
          let st = traverseCallers E edges (ie_communities I) (nat depth) t;
              hidden = (case ie_search I of
                  None \<Rightarrow> []
                | Some (scoped, literal) \<Rightarrow> FindHiddenCallers scoped literal (ie_language I));
              total = length (direct st) + length (transitive st) + length hidden;
              packages = sort (remdups (pkgSet st));
              crossed = length (remdups (map af_Community (direct st @ transitive st)));
              communityRisk = (if crossed > 1 then of_nat (crossed - 1) * (15 / 100) else 0)
          in result\<lparr>im_Found := True, im_DirectCallers := direct st, im_TransitiveCallers := transitive st,
               im_HiddenCallers := hidden, im_TotalAffected := total, im_AffectedPackages := packages,
               im_CommunitiesCrossed := crossed,
               im_BlastRadius := classifyBlastRadius total (length packages),
               im_RiskScore := of_nat total * (1 + of_nat (length packages) * (1 / 10) + communityRisk)\<rparr>)"

subsection \<open>The search finds the callers within the depth, at their distance\<close>

definition calls :: "CallEdge list \<Rightarrow> sym_ref \<Rightarrow> sym_ref set" where
  "calls edges s = {c. \<exists>e \<in> set edges. ce_Caller e = Some c \<and> ce_Callee e = Some s}"

lemma callers_in_index: "callers_in (callerIndex edges s) = calls edges s"
  by (auto simp: callers_in_def callerIndex_def calls_def)

text \<open>The symbols from which at most \<open>n\<close> calls lead to the target.\<close>

fun upstream :: "CallEdge list \<Rightarrow> sym_ref \<Rightarrow> nat \<Rightarrow> sym_ref set" where
  "upstream edges t 0 = {t}"
| "upstream edges t (Suc n) = upstream edges t n \<union> (\<Union>s \<in> upstream edges t n. calls edges s)"

definition at_distance :: "CallEdge list \<Rightarrow> sym_ref \<Rightarrow> nat \<Rightarrow> sym_ref set" where
  "at_distance edges t n = {r. r \<in> upstream edges t n \<and> (\<forall>m < n. r \<notin> upstream edges t m)}"

lemma upstream_mono: "m \<le> n \<Longrightarrow> upstream edges t m \<subseteq> upstream edges t n"
  by (induction n) (auto simp: le_Suc_eq)

lemma upstream_stable:
  assumes "upstream edges t (Suc d) \<subseteq> upstream edges t d"
  shows "upstream edges t (d + k) = upstream edges t d"
proof (induction k)
  case (Suc k)
  then show ?case using assms by auto
qed simp

text \<open>The callers recorded so far, nearest first.\<close>

definition found :: "bfs_state \<Rightarrow> AffectedSymbol list" where
  "found st = direct st @ transitive st"

definition bfs_out :: "CallEdge list \<Rightarrow> sym_ref \<Rightarrow> bfs_state \<Rightarrow> bool" where
  "bfs_out edges t st \<longleftrightarrow> distinct (visited st) \<and>
     distinct (map af_ref (found st)) \<and> t \<in> set (visited st) \<and>
     af_ref ` set (found st) = Some ` (set (visited st) - {t}) \<and>
     (\<forall>a \<in> set (found st). \<exists>r. af_ref a = Some r \<and> r \<in> at_distance edges t (af_Distance a)) \<and>
     (\<forall>a \<in> set (direct st). af_Distance a = 1) \<and> (\<forall>a \<in> set (transitive st). 1 < af_Distance a) \<and>
     set (pkgSet st) = af_Package ` set (found st)"

definition bfs_level :: "CallEdge list \<Rightarrow> sym_ref \<Rightarrow> nat \<Rightarrow> sym_ref list \<Rightarrow> sym_ref list \<Rightarrow> bfs_state \<Rightarrow> bool" where
  "bfs_level edges t d R B st \<longleftrightarrow>
     queue st = map (\<lambda>r. (r, d)) R @ map (\<lambda>r. (r, Suc d)) B \<and>
     set (visited st) = upstream edges t d \<union> set B \<and> set B \<inter> upstream edges t d = {} \<and>
     set R \<subseteq> upstream edges t d \<and>
     upstream edges t d \<union> set B \<subseteq> upstream edges t (Suc d) \<and>
     upstream edges t (Suc d) \<subseteq> upstream edges t d \<union> set B \<union> \<Union> (calls edges ` set R)"

lemma bfs_level_next:
  assumes "bfs_level edges t d [] B st"
  shows "bfs_level edges t (Suc d) B [] st"
proof -
  have w: "upstream edges t (Suc d) = upstream edges t d \<union> set B" using assms by (auto simp: bfs_level_def)
  have "c \<in> upstream edges t (Suc d) \<union> \<Union> (calls edges ` set B)" if c: "c \<in> upstream edges t (Suc (Suc d))" for c
  proof -
    consider "c \<in> upstream edges t (Suc d)" | s where "s \<in> upstream edges t (Suc d)" "c \<in> calls edges s"
      using c by (auto simp del: upstream.simps simp: upstream.simps(2) [of _ _ "Suc d"])
    then show ?thesis
    proof cases
      case (2 s)
      then show ?thesis using w by auto
    qed simp
  qed
  then show ?thesis using assms w upstream_mono [of "Suc d" "Suc (Suc d)" edges t]
    unfolding bfs_level_def by (auto simp del: upstream.simps)
qed

lemma makeAffected_simps [simp]:
  "af_ref (makeAffected E comm c d l) = Some c" "af_Distance (makeAffected E comm c d l) = d"
  "af_Package (makeAffected E comm c d l) = path_dir (sym_File (store E c))"
  by (simp_all add: makeAffected_def Let_def)

lemma bfs_visit:
  assumes out: "bfs_out edges t st" and lev: "bfs_level edges t d (s # R) B st"
    and q: "q = map (\<lambda>r. (r, d)) R @ map (\<lambda>r. (r, Suc d)) B"
    and st': "st' = foldl (visit_edge E comm d) (st\<lparr>queue := q\<rparr>) (callerIndex edges s)"
  shows "bfs_out edges t st' \<and> (\<exists>B'. bfs_level edges t d R B' st')"
proof -
  define ns where "ns = fresh (visited st) (callerIndex edges s)"
  define new where "new = map fst ns"
  define as where "as = map (\<lambda>(c, l). makeAffected E comm c (Suc d) l) ns"
  have nf: "distinct new" "set new = calls edges s - set (visited st)"
    using fresh_facts [of "visited st" "callerIndex edges s"]
    by (simp_all add: new_def ns_def callers_in_index)
  have refs: "map af_ref as = map Some new" by (auto simp: as_def new_def)
  have dist: "af_Distance a = Suc d" if "a \<in> set as" for a using that by (auto simp: as_def)
  have e: "st' = st\<lparr>visited := visited st @ new, queue := q @ map (\<lambda>c. (c, Suc d)) new,
         pkgSet := pkgSet st @ map af_Package as,
         direct := (if d = 0 then direct st @ as else direct st),
         transitive := (if d = 0 then transitive st else transitive st @ as)\<rparr>"
    unfolding st' visit_edges by (simp add: Let_def ns_def new_def as_def)
  have up: "upstream edges t d \<subseteq> set (visited st)" and s: "s \<in> upstream edges t d"
    using lev by (auto simp: bfs_level_def)
  have new_up: "set new \<subseteq> upstream edges t (Suc d)" using nf(2) s by auto
  have at: "c \<in> at_distance edges t (Suc d)" if "c \<in> set new" for c
  proof -
    have "c \<notin> upstream edges t d" using that nf(2) up by blast
    then have "c \<notin> upstream edges t m" if "m < Suc d" for m
      using that upstream_mono [of m d edges t] by auto
    then show ?thesis using that new_up \<open>c \<in> set new\<close> by (auto simp: at_distance_def)
  qed
  have found: "set (found st') = set (found st) \<union> set as"
    by (auto simp: e found_def)
  have dis: "distinct (map af_ref (found st'))"
  proof -
    have "set (map af_ref as) \<inter> set (map af_ref (found st)) = {}"
      using out nf(2) by (auto simp: refs bfs_out_def)
    moreover have "distinct (map af_ref as)" using nf(1) by (simp add: refs distinct_map)
    ultimately show ?thesis using out by (auto simp: e found_def bfs_out_def)
  qed
  have "af_ref ` set (found st') = Some ` (set (visited st) - {t}) \<union> Some ` set new"
    using out refs [THEN arg_cong, of set] by (simp add: found image_Un bfs_out_def)
  also have "\<dots> = Some ` (set (visited st') - {t})"
    using out nf(2) by (auto simp: e bfs_out_def)
  finally have im: "af_ref ` set (found st') = Some ` (set (visited st') - {t})" .
  have ref_at: "\<exists>r. af_ref a = Some r \<and> r \<in> at_distance edges t (af_Distance a)" if "a \<in> set as" for a
  proof -
    from that obtain c l where cl: "(c, l) \<in> set ns" "a = makeAffected E comm c (Suc d) l"
      by (auto simp: as_def)
    then have "c \<in> set new" by (force simp: new_def)
    then show ?thesis using at [of c] cl(2) by simp
  qed
  have "bfs_out edges t st'"
    unfolding bfs_out_def
  proof (intro conjI)
    show "distinct (visited st')" using out nf by (simp add: e bfs_out_def)
    show "\<forall>a \<in> set (found st'). \<exists>r. af_ref a = Some r \<and> r \<in> at_distance edges t (af_Distance a)"
      using out ref_at by (auto simp: found bfs_out_def)
    show "\<forall>a \<in> set (direct st'). af_Distance a = 1" using out dist by (auto simp: e bfs_out_def)
    show "\<forall>a \<in> set (transitive st'). 1 < af_Distance a" using out dist by (auto simp: e bfs_out_def)
    show "set (pkgSet st') = af_Package ` set (found st')"
      using out by (simp add: found bfs_out_def image_Un) (simp add: e)
  qed (use out dis im in \<open>simp_all add: e bfs_out_def\<close>)
  moreover have "bfs_level edges t d R (B @ new) st'"
  proof -
    have "calls edges s \<subseteq> set (visited st) \<union> set new" using nf(2) by blast
    then have "upstream edges t (Suc d) \<subseteq> upstream edges t d \<union> set (B @ new) \<union> \<Union> (calls edges ` set R)"
      using lev by (auto simp: bfs_level_def simp del: upstream.simps)
    then show ?thesis using lev nf(2) new_up q
      by (auto simp: bfs_level_def e simp del: upstream.simps)
  qed
  ultimately show ?thesis by blast
qed

lemma bfs_level_fields:
  "bfs_level edges t d R B (st\<lparr>queue := map (\<lambda>r. (r, d)) R @ map (\<lambda>r. (r, Suc d)) B\<rparr>) \<longleftrightarrow>
     set (visited st) = upstream edges t d \<union> set B \<and> set B \<inter> upstream edges t d = {} \<and>
     set R \<subseteq> upstream edges t d \<and> upstream edges t d \<union> set B \<subseteq> upstream edges t (Suc d) \<and>
     upstream edges t (Suc d) \<subseteq> upstream edges t d \<union> set B \<union> \<Union> (calls edges ` set R)"
  by (auto simp: bfs_level_def simp del: upstream.simps)

lemma bfs_out_queue [simp]: "bfs_out edges t (st\<lparr>queue := q\<rparr>) \<longleftrightarrow> bfs_out edges t st"
  by (simp add: bfs_out_def found_def)

text \<open>At the depth limit the rest of the queue is dropped.\<close>

lemma traverse_drain:
  "\<forall>(r, d) \<in> set (queue st). maxDepth \<le> d \<Longrightarrow> traverse E edges comm maxDepth st = st\<lparr>queue := []\<rparr>"
proof (induction "queue st" arbitrary: st)
  case Nil
  then show ?case using traverse.simps [of E edges comm maxDepth st] by (cases st) simp
next
  case (Cons x q)
  obtain s d where x: "x = (s, d)" by (cases x)
  have qs: "queue st = (s, d) # q" using Cons(2) x by simp
  have "traverse E edges comm maxDepth (st\<lparr>queue := q\<rparr>) = st\<lparr>queue := q\<rparr>\<lparr>queue := []\<rparr>"
    using Cons(3) qs by (intro Cons(1)) auto
  then show ?case using qs Cons(3) traverse.simps [of E edges comm maxDepth st] by simp
qed

lemma traverse_correct:
  assumes "bfs_out edges t st" and "bfs_level edges t d R B st" and "d \<le> maxDepth" and "d = maxDepth \<longrightarrow> B = []"
  shows "bfs_out edges t (traverse E edges comm maxDepth st) \<and>
         set (visited (traverse E edges comm maxDepth st)) = upstream edges t maxDepth"
  using assms
proof (induction E edges comm maxDepth st arbitrary: d R B rule: traverse.induct)
  case (1 E edges comm maxDepth st)
  show ?case
  proof (cases "d = maxDepth")
    case True
    then have "traverse E edges comm maxDepth st = st\<lparr>queue := []\<rparr>"
      using 1(4,6) by (intro traverse_drain) (auto simp: bfs_level_def)
    then show ?thesis using 1(3,4,6) True by (simp add: bfs_level_def)
  next
    case False
    then have d: "d < maxDepth" using 1(5) by simp
    show ?thesis
    proof (cases "queue st")
      case Nil
      then have RB: "R = []" "B = []" using 1(4) by (simp_all add: bfs_level_def)
      then have v: "set (visited st) = upstream edges t d" and "upstream edges t (Suc d) \<subseteq> upstream edges t d"
        using 1(4) by (auto simp: bfs_level_def simp del: upstream.simps)
      then have "upstream edges t maxDepth = upstream edges t d"
        using upstream_stable [of edges t d "maxDepth - d"] d by simp
      then show ?thesis using Nil 1(3) v traverse.simps [of E edges comm maxDepth st] by simp
    next
      case (Cons x q)
      obtain s k where x: "x = (s, k)" by (cases x)
      have step: "\<And>d' R' B'. bfs_level edges t d' (s # R') B' st \<Longrightarrow> k = d' \<Longrightarrow> d' < maxDepth \<Longrightarrow>
          q = map (\<lambda>r. (r, d')) R' @ map (\<lambda>r. (r, Suc d')) B' \<Longrightarrow> ?thesis"
      proof -
        fix d' R' B'
        assume lev: "bfs_level edges t d' (s # R') B' st" and k: "k = d'" and lt: "d' < maxDepth"
          and q: "q = map (\<lambda>r. (r, d')) R' @ map (\<lambda>r. (r, Suc d')) B'"
        let ?st = "foldl (visit_edge E comm d') (st\<lparr>queue := q\<rparr>) (callerIndex edges s)"
        obtain B2 where "bfs_out edges t ?st" and "bfs_level edges t d' R' B2 ?st"
          using bfs_visit [OF 1(3) lev q refl] by blast
        then have "bfs_out edges t (traverse E edges comm maxDepth ?st) \<and>
            set (visited (traverse E edges comm maxDepth ?st)) = upstream edges t maxDepth"
          using 1(2) [OF Cons x [symmetric], of d' R' B2] k lt by simp
        then show "bfs_out edges t (traverse E edges comm maxDepth st) \<and>
            set (visited (traverse E edges comm maxDepth st)) = upstream edges t maxDepth"
          using Cons x k lt traverse.simps [of E edges comm maxDepth st] by simp
      qed
      show ?thesis
      proof (cases R)
        case (Cons r R')
        then show ?thesis using step [of d R' B] 1(4) \<open>queue st = x # q\<close> x d by (auto simp: bfs_level_def)
      next
        case Nil
        then obtain b B' where B: "B = b # B'" using \<open>queue st = x # q\<close> 1(4) by (cases B) (auto simp: bfs_level_def)
        have lev: "bfs_level edges t (Suc d) B [] st" using bfs_level_next 1(4) Nil by blast
        show ?thesis
        proof (cases "Suc d = maxDepth")
          case True
          then have "traverse E edges comm maxDepth st = st\<lparr>queue := []\<rparr>"
            using lev by (intro traverse_drain) (auto simp: bfs_level_def)
          then show ?thesis using 1(3) lev True by (simp add: bfs_level_def)
        next
          case False
          then show ?thesis using step [of "Suc d" B' "[]"] lev \<open>queue st = x # q\<close> x d B
            by (auto simp: bfs_level_def)
        qed
      qed
    qed
  qed
qed

definition search_depth :: "int \<Rightarrow> nat" where
  "search_depth maxDepth = nat (if maxDepth \<le> 0 then 5 else maxDepth)"

lemma traverseCallers_correct:
  assumes "st = traverseCallers E edges comm maxDepth t"
  shows "bfs_out edges t st \<and> set (visited st) = upstream edges t maxDepth"
proof -
  let ?s = "\<lparr>visited = [t], queue = [(t, 0)], pkgSet = [], direct = [], transitive = []\<rparr> :: bfs_state"
  have "bfs_out edges t ?s" by (simp add: bfs_out_def found_def)
  moreover have "bfs_level edges t 0 [t] [] ?s" by (simp add: bfs_level_def)
  ultimately show ?thesis using traverse_correct [of edges t ?s 0 "[t]" "[]" maxDepth E comm] assms
    by (simp add: traverseCallers_def)
qed

text \<open>What a result says: each affected symbol once, at the length of a shortest chain of calls.\<close>

definition exact_impact :: "cg_env \<Rightarrow> CallEdge list \<Rightarrow> sym_ref \<Rightarrow> nat \<Rightarrow> ImpactResult \<Rightarrow> bool" where
  "exact_impact E edges t depth r \<longleftrightarrow>
     (let as = im_DirectCallers r @ im_TransitiveCallers r in
        distinct (map af_ref as) \<and>
        af_ref ` set as = Some ` (upstream edges t depth - {t}) \<and>
        (\<forall>a \<in> set as. \<exists>c. af_ref a = Some c \<and> c \<in> at_distance edges t (af_Distance a)) \<and>
        filter (\<lambda>a. af_Distance a = 1) as = im_DirectCallers r \<and>
        sorted (im_AffectedPackages r) \<and> distinct (im_AffectedPackages r) \<and>
        set (im_AffectedPackages r) = af_Package ` set as)"

text \<open>
  C7: For a symbol of the graph the analysis reports exactly the symbols from which at most the given
  number of calls lead to it, each once and with the length of a shortest such chain, the direct ones
  apart, together with the sorted packages they live in.
\<close>

theorem Analyze_exact:
  "case findTarget E syms name of
     None \<Rightarrow> True
   | Some t \<Rightarrow> exact_impact E edges t (search_depth maxDepth) (Analyze E I syms edges name maxDepth)"
proof (cases "findTarget E syms name")
  case (Some t)
  define st where "st = traverseCallers E edges (ie_communities I) (search_depth maxDepth) t"
  define r where "r = Analyze E I syms edges name maxDepth"
  have r: "im_DirectCallers r = direct st" "im_TransitiveCallers r = transitive st"
    "im_AffectedPackages r = sort (remdups (pkgSet st))"
    unfolding r_def Analyze_def Let_def Some option.case st_def search_depth_def by simp_all
  have out: "bfs_out edges t st" and vis: "set (visited st) = upstream edges t (search_depth maxDepth)"
    using traverseCallers_correct [OF st_def] by blast+
  have "filter (\<lambda>a. af_Distance a = 1) (direct st @ transitive st) = direct st"
    using out by (auto simp: bfs_out_def filter_empty_conv)
  then have "exact_impact E edges t (search_depth maxDepth) r"
    using out vis unfolding exact_impact_def Let_def r bfs_out_def found_def by simp
  then show ?thesis using Some by (simp add: r_def)
qed simp

end
