(* ===== verification/CallTrace.thy ===== *)
theory CallTrace
  imports CallGraph
begin

text \<open>
  The traversal of the call graph (\<open>internal/callgraph/trace.go\<close>): \<open>Trace\<close> finds the named symbol
  and builds the tree of the call chains that start (or end) in it. The map \<open>visited\<close> and the
  counters of the result are threaded through the recursion the way the source mutates them. The
  cross-language pass, which runs only with a \<open>CrossRefs\<close> provider, is not part of this theory.
\<close>

datatype node_sym = Known sym_ref | External string

text \<open>The fields of \<open>CallChainNode\<close>: symbol, children, call line, cycle flag, caller kind.\<close>

datatype CallChainNode =
  Node (cn_Symbol: node_sym) (cn_Children: "CallChainNode list") (cn_CallLine: "32 word")
       (cn_Cycle: bool) (cn_CallerKind: string)

record counters =
  MaxDepth :: nat
  TotalNodes :: nat
  Resolved :: nat
  Unresolved :: nat

definition defaultMaxDepth :: int where "defaultMaxDepth = 5"
definition maxAllowedDepth :: int where "maxAllowedDepth = 10"

fun nodeCallerKind :: "cg_env \<Rightarrow> node_sym \<Rightarrow> string" where
  "nodeCallerKind E (External name) = ''unresolved''"
| "nodeCallerKind E (Known r) =
     (if sym_File (store E r) = [] \<or> sym_Kind (store E r) = ''external'' then ''unresolved''
      else CallerKind (tables E) (sym_Name (store E r)) (sym_File (store E r)))"

definition FindSymbols :: "cg_env \<Rightarrow> sym_ref list \<Rightarrow> string \<Rightarrow> sym_ref list" where
  "FindSymbols E syms name =
     filter (\<lambda>r. let s = store E r in
        is_callable s \<and>
        (if CHR ''.'' \<in> set name then sym_Receiver s \<noteq> [] \<and> sym_Receiver s @ ''.'' @ sym_Name s = name
         else sym_Name s = name)) syms"

definition buildCalleeIndex :: "CallEdge list \<Rightarrow> sym_ref \<Rightarrow> CallEdge list" where
  "buildCalleeIndex edges r = filter (\<lambda>e. ce_Caller e = Some r) edges"

definition buildCallerIndex :: "CallEdge list \<Rightarrow> sym_ref \<Rightarrow> CallEdge list" where
  "buildCallerIndex edges r = filter (\<lambda>e. ce_Callee e = Some r) edges"

definition target :: "sym_ref \<Rightarrow> CallEdge \<Rightarrow> sym_ref option" where
  "target s e = (if ce_Caller e = Some s then ce_Callee e else ce_Caller e)"

definition with_line :: "32 word \<Rightarrow> CallChainNode \<Rightarrow> CallChainNode" where
  "with_line l n = Node (cn_Symbol n) (cn_Children n) l (cn_Cycle n) (cn_CallerKind n)"

text \<open>
  \<open>traceNode\<close> and its loop over the edges of the symbol. The last argument but one is
  \<open>maxDepth - depth\<close>, so that \<open>depth >= maxDepth\<close> is the case 0.
\<close>

function (sequential)
  traceNode :: "cg_env \<Rightarrow> (sym_ref \<Rightarrow> CallEdge list) \<Rightarrow> sym_ref \<Rightarrow> (sym_ref \<Rightarrow> bool) \<Rightarrow> nat \<Rightarrow> nat \<Rightarrow>
      counters \<Rightarrow> CallChainNode \<times> (sym_ref \<Rightarrow> bool) \<times> counters"
  and traceEdges :: "cg_env \<Rightarrow> (sym_ref \<Rightarrow> CallEdge list) \<Rightarrow> sym_ref \<Rightarrow> CallEdge list \<Rightarrow> (sym_ref \<Rightarrow> bool) \<Rightarrow>
      nat \<Rightarrow> nat \<Rightarrow> counters \<Rightarrow> CallChainNode list \<times> (sym_ref \<Rightarrow> bool) \<times> counters"
where
  "traceNode E adj s visited depth 0 res =
     (Node (Known s) [] 0 False (nodeCallerKind E (Known s)), visited,
      res\<lparr>TotalNodes := TotalNodes res + 1, MaxDepth := max (MaxDepth res) depth\<rparr>)"
| "traceNode E adj s visited depth (Suc k) res =
     (let (children, visited', res') =
            traceEdges E adj s (adj s) (visited(s := True)) depth k
              (res\<lparr>TotalNodes := TotalNodes res + 1, MaxDepth := max (MaxDepth res) depth\<rparr>)
      in (Node (Known s) children 0 False (nodeCallerKind E (Known s)), visited'(s := False), res'))"
| "traceEdges E adj s [] visited depth k res = ([], visited, res)"
| "traceEdges E adj s (e # es) visited depth k res =
     (case target s e of
        None \<Rightarrow>
          let (ns, visited', res') = traceEdges E adj s es visited depth k (res\<lparr>Unresolved := Unresolved res + 1\<rparr>)
          in (Node (External (ce_CalleeName e)) [] (ce_Line e) False ''unresolved'' # ns, visited', res')
      | Some t \<Rightarrow>
          if visited t then
            let (ns, visited', res') = traceEdges E adj s es visited depth k (res\<lparr>Resolved := Resolved res + 1\<rparr>)
            in (Node (Known t) [] (ce_Line e) True (nodeCallerKind E (Known t)) # ns, visited', res')
          else
            let (child, visited1, res1) =
                  traceNode E adj t visited (depth + 1) k (res\<lparr>Resolved := Resolved res + 1\<rparr>);
                (ns, visited', res') = traceEdges E adj s es visited1 depth k res1
            in (with_line (ce_Line e) child # ns, visited', res'))"
  by pat_completeness auto
termination
  by (relation "measures [\<lambda>a. case a of Inl (_, _, _, _, _, k, _) \<Rightarrow> 2 * k
                                      | Inr (_, _, _, _, _, _, k, _) \<Rightarrow> 2 * k + 1,
                          \<lambda>a. case a of Inl _ \<Rightarrow> 0 | Inr (_, _, _, es, _) \<Rightarrow> length es]") auto

record TraceResult =
  tr_Root :: "sym_ref option"
  tr_Tree :: "CallChainNode list"
  tr_Counts :: counters
  tr_Ambiguous :: "sym_ref list"

definition no_counts :: counters where
  "no_counts = \<lparr>MaxDepth = 0, TotalNodes = 0, Resolved = 0, Unresolved = 0\<rparr>"

definition effective_depth :: "int \<Rightarrow> nat" where
  "effective_depth d =
     (let d1 = (if d \<le> 0 then defaultMaxDepth else d);
          d2 = (if d1 > maxAllowedDepth then maxAllowedDepth else d1) in nat d2)"

definition adjacency :: "string \<Rightarrow> CallEdge list \<Rightarrow> sym_ref \<Rightarrow> CallEdge list" where
  "adjacency direction edges =
     (if direction = ''callers'' then buildCallerIndex edges else buildCalleeIndex edges)"

definition Trace :: "cg_env \<Rightarrow> CallEdge list \<Rightarrow> sym_ref list \<Rightarrow> string \<Rightarrow> string \<Rightarrow> int \<Rightarrow> TraceResult" where
  "Trace E edges syms symbolName direction maxDepth =
     (case FindSymbols E syms symbolName of
        [] \<Rightarrow> \<lparr>tr_Root = None, tr_Tree = [], tr_Counts = no_counts, tr_Ambiguous = []\<rparr>
      | [root] \<Rightarrow>
          let (node, _, counts) =
                traceNode E (adjacency direction edges) root (\<lambda>_. False) 0 (effective_depth maxDepth) no_counts
          in \<lparr>tr_Root = Some root, tr_Tree = [node], tr_Counts = counts, tr_Ambiguous = []\<rparr>
      | matches \<Rightarrow> \<lparr>tr_Root = None, tr_Tree = [], tr_Counts = no_counts, tr_Ambiguous = matches\<rparr>)"

subsection \<open>The tree without the threaded state\<close>

text \<open>The reference: the tree of call chains, cut where a symbol is its own ancestor.\<close>

definition child_node :: "cg_env \<Rightarrow> sym_ref set \<Rightarrow> sym_ref \<Rightarrow> (sym_ref \<Rightarrow> CallChainNode) \<Rightarrow> CallEdge \<Rightarrow> CallChainNode" where
  "child_node E anc s sub e =
     (case target s e of
        None \<Rightarrow> Node (External (ce_CalleeName e)) [] (ce_Line e) False ''unresolved''
      | Some t \<Rightarrow>
          if t \<in> anc then Node (Known t) [] (ce_Line e) True (nodeCallerKind E (Known t))
          else with_line (ce_Line e) (sub t))"

fun chain_tree :: "cg_env \<Rightarrow> (sym_ref \<Rightarrow> CallEdge list) \<Rightarrow> sym_ref set \<Rightarrow> nat \<Rightarrow> sym_ref \<Rightarrow> CallChainNode" where
  "chain_tree E adj anc 0 s = Node (Known s) [] 0 False (nodeCallerKind E (Known s))"
| "chain_tree E adj anc (Suc k) s =
     Node (Known s) (map (child_node E (insert s anc) s (\<lambda>t. chain_tree E adj (insert s anc) k t)) (adj s))
       0 False (nodeCallerKind E (Known s))"

text \<open>What the counters count: expanded nodes, all resolved nodes, external nodes, greatest depth.\<close>

fun expanded :: "CallChainNode \<Rightarrow> nat" where
  "expanded (Node (Known s) cs l c kd) = (if c then 0 else 1) + sum_list (map expanded cs)"
| "expanded (Node (External n) cs l c kd) = 0"

fun knowns :: "CallChainNode \<Rightarrow> nat" where
  "knowns (Node (Known s) cs l c kd) = 1 + sum_list (map knowns cs)"
| "knowns (Node (External n) cs l c kd) = 0"

fun externals :: "CallChainNode \<Rightarrow> nat" where
  "externals (Node (Known s) cs l c kd) = sum_list (map externals cs)"
| "externals (Node (External n) cs l c kd) = 1"

fun deepest :: "nat \<Rightarrow> CallChainNode \<Rightarrow> nat" where
  "deepest d (Node (Known s) cs l c kd) = (if c then 0 else foldr max (map (deepest (Suc d)) cs) d)"
| "deepest d (Node (External n) cs l c kd) = 0"

lemma node_stats_with_line [simp]:
  "expanded (with_line l n) = expanded n" "knowns (with_line l n) = knowns n"
  "externals (with_line l n) = externals n" "deepest d (with_line l n) = deepest d n"
  by (cases n; cases "cn_Symbol n"; simp add: with_line_def)+

lemma knowns_chain_tree: "knowns (chain_tree E adj anc k s) \<ge> 1"
  by (cases k) simp_all

definition add_counts :: "counters \<Rightarrow> nat \<Rightarrow> CallChainNode list \<Rightarrow> counters" where
  "add_counts res d ns =
     \<lparr>MaxDepth = max (MaxDepth res) (foldr max (map (deepest d) ns) 0),
      TotalNodes = TotalNodes res + sum_list (map expanded ns),
      Resolved = Resolved res + sum_list (map knowns ns),
      Unresolved = Unresolved res + sum_list (map externals ns)\<rparr>"

lemma add_counts_Nil [simp]: "add_counts res d [] = res"
  by (simp add: add_counts_def)

definition add_node :: "counters \<Rightarrow> nat \<Rightarrow> CallChainNode \<Rightarrow> counters" where
  "add_node res d n =
     \<lparr>MaxDepth = max (MaxDepth res) (deepest d n), TotalNodes = TotalNodes res + expanded n,
      Resolved = Resolved res + (knowns n - 1), Unresolved = Unresolved res + externals n\<rparr>"

lemma add_node_resolved:
  "1 \<le> knowns n \<Longrightarrow> add_node (res\<lparr>Resolved := Resolved res + 1\<rparr>) d n = add_counts res d [n]"
  by (simp add: add_node_def add_counts_def)

lemma add_counts_Cons: "add_counts res d (n # ns) = add_counts (add_counts res d [n]) d ns"
  by (simp add: add_counts_def max.assoc)

lemma foldr_max_start: "foldr max xs (d::nat) = max d (foldr max xs 0)"
  by (induction xs) auto

lemma trace_is_chain_tree:
  "\<not> visited s \<Longrightarrow>
     traceNode E adj s visited depth k res =
       (chain_tree E adj (Collect visited) k s, visited, add_node res depth (chain_tree E adj (Collect visited) k s))"
  "visited s \<Longrightarrow>
     traceEdges E adj s es visited depth k res =
       (let ns = map (child_node E (Collect visited) s (\<lambda>t. chain_tree E adj (Collect visited) k t)) es
        in (ns, visited, add_counts res (Suc depth) ns))"
proof (induction E adj s visited depth k res and E adj s es visited depth k res
    rule: traceNode_traceEdges.induct)
  case (1 E adj s visited depth res)
  then show ?case by (simp add: add_node_def)
next
  case (2 E adj s visited depth k res)
  have c: "Collect (visited(s := True)) = insert s (Collect visited)" by auto
  have p: "(visited(s := True)) s" by simp
  have v: "visited(s := False) = visited" using 2(2) by (simp add: fun_upd_idem)
  let ?ns = "map (child_node E (insert s (Collect visited)) s
                 (\<lambda>t. chain_tree E adj (insert s (Collect visited)) k t)) (adj s)"
  have e: "traceEdges E adj s (adj s) (visited(s := True)) depth k
        (res\<lparr>TotalNodes := TotalNodes res + 1, MaxDepth := max (MaxDepth res) depth\<rparr>) =
      (?ns, visited(s := True), add_counts (res\<lparr>TotalNodes := TotalNodes res + 1,
         MaxDepth := max (MaxDepth res) depth\<rparr>) (Suc depth) ?ns)"
    using "2.IH" [OF p] unfolding c Let_def .
  show ?case unfolding traceNode.simps e Let_def prod.case chain_tree.simps fun_upd_upd v
    by (simp add: add_node_def add_counts_def foldr_max_start [of _ depth] max.assoc del: map_map)
next
  case (3 E adj s visited depth k res)
  then show ?case by simp
next
  case (4 E adj s e es visited depth k res)
  show ?case
  proof (cases "target s e")
    case None
    then show ?thesis using "4.IH"(1) [OF None 4(5)]
      by (simp add: Let_def add_counts_def child_node_def del: map_map)
  next
    case (Some t)
    show ?thesis
    proof (cases "visited t")
      case True
      then show ?thesis using Some "4.IH"(2) [OF Some True 4(5)]
        by (simp add: Let_def add_counts_def child_node_def del: map_map)
    next
      case False
      let ?n = "chain_tree E adj (Collect visited) k t"
      have n: "traceNode E adj t visited (depth + 1) k (res\<lparr>Resolved := Resolved res + 1\<rparr>)
          = (?n, visited, add_counts res (depth + 1) [?n])"
        unfolding "4.IH"(3) [OF Some False False] by (simp only: add_node_resolved knowns_chain_tree)
      show ?thesis
        unfolding traceEdges.simps Some option.case if_not_P [OF False] n
        unfolding Let_def prod.case "4.IH"(4) [OF Some False n [symmetric] refl refl 4(5)]
        using Some False by (simp add: child_node_def add_counts_def max.assoc del: map_map)
    qed
  qed
qed

definition trace_tree :: "cg_env \<Rightarrow> CallEdge list \<Rightarrow> string \<Rightarrow> int \<Rightarrow> sym_ref \<Rightarrow> CallChainNode" where
  "trace_tree E edges direction maxDepth root =
     chain_tree E (adjacency direction edges) {} (effective_depth maxDepth) root"

lemma traceNode_root:
  "traceNode E adj root (\<lambda>_. False) 0 k no_counts =
     (let n = chain_tree E adj {} k root
      in (n, \<lambda>_. False, \<lparr>MaxDepth = deepest 0 n, TotalNodes = expanded n,
            Resolved = knowns n - 1, Unresolved = externals n\<rparr>))"
  using trace_is_chain_tree(1) [of "\<lambda>_. False" root E adj 0 k no_counts]
  by (simp add: no_counts_def add_node_def Let_def)

text \<open>
  \<open>Trace\<close> refuses an ambiguous name with the list of its candidates, and for a unique symbol returns
  the tree of call chains of the reference, with counters that are functions of that tree: the
  expanded nodes, the resolved and the external children, and the depth of the deepest expanded node.
\<close>

lemma Trace_result:
  "Trace E edges syms name direction maxDepth =
     (case FindSymbols E syms name of
        [root] \<Rightarrow>
          let n = trace_tree E edges direction maxDepth root
          in \<lparr>tr_Root = Some root, tr_Tree = [n],
              tr_Counts = \<lparr>MaxDepth = deepest 0 n, TotalNodes = expanded n,
                           Resolved = knowns n - 1, Unresolved = externals n\<rparr>,
              tr_Ambiguous = []\<rparr>
      | matches \<Rightarrow> \<lparr>tr_Root = None, tr_Tree = [], tr_Counts = no_counts, tr_Ambiguous = matches\<rparr>)"
  by (simp add: Trace_def traceNode_root trace_tree_def Let_def split: list.split)

subsection \<open>The chains of the tree\<close>

text \<open>The chains from the root through expanded nodes.\<close>

fun paths :: "CallChainNode \<Rightarrow> sym_ref list set" where
  "paths (Node (Known s) cs l c kd) = (if c then {} else insert [s] ((#) s ` \<Union> (set (map paths cs))))"
| "paths (Node (External n) cs l c kd) = {}"

definition next_in :: "(sym_ref \<Rightarrow> CallEdge list) \<Rightarrow> sym_ref \<Rightarrow> sym_ref \<Rightarrow> bool" where
  "next_in adj a b \<longleftrightarrow> (\<exists>e \<in> set (adj a). target a e = Some b)"

definition simple_paths :: "(sym_ref \<Rightarrow> CallEdge list) \<Rightarrow> sym_ref set \<Rightarrow> nat \<Rightarrow> sym_ref \<Rightarrow> sym_ref list set" where
  "simple_paths adj anc k s =
     {p. p \<noteq> [] \<and> hd p = s \<and> distinct p \<and> set (tl p) \<inter> anc = {} \<and> successively (next_in adj) p \<and>
         length p \<le> Suc k}"

lemma paths_with_line [simp]: "paths (with_line l n) = paths n"
  by (cases n; cases "cn_Symbol n"; simp add: with_line_def)

lemma paths_children:
  "(\<Union>e \<in> set es. paths (child_node E anc s sub e)) =
     (\<Union>t \<in> {t. t \<notin> anc \<and> (\<exists>e \<in> set es. target s e = Some t)}. paths (sub t))"
  by (fastforce simp: child_node_def split: option.splits if_splits)

lemma simple_paths_Suc:
  "simple_paths adj anc (Suc k) s =
     insert [s] ((#) s ` \<Union> (simple_paths adj (insert s anc) k ` {t. t \<notin> insert s anc \<and> next_in adj s t}))"
  (is "?L = ?R")
proof
  show "?L \<subseteq> ?R"
  proof
    fix p assume p: "p \<in> ?L"
    then obtain q where q: "p = s # q" by (cases p) (auto simp: simple_paths_def)
    show "p \<in> ?R"
    proof (cases q)
      case Nil
      then show ?thesis using q by simp
    next
      case (Cons t r)
      then have "q \<in> simple_paths adj (insert s anc) k t" "t \<notin> insert s anc" "next_in adj s t"
        using p q by (auto simp: simple_paths_def)
      then show ?thesis using q by blast
    qed
  qed
  show "?R \<subseteq> ?L"
  proof
    fix p assume "p \<in> ?R"
    then consider "p = [s]"
      | t q where "p = s # q" "q \<in> simple_paths adj (insert s anc) k t" "t \<notin> insert s anc" "next_in adj s t"
      by blast
    then show "p \<in> ?L"
    proof cases
      case 2
      then obtain r where "q = t # r" by (cases q) (auto simp: simple_paths_def)
      then show ?thesis using 2 by (auto simp: simple_paths_def)
    qed (simp add: simple_paths_def)
  qed
qed

lemma paths_chain_tree: "paths (chain_tree E adj anc k s) = simple_paths adj anc k s"
proof (induction k arbitrary: anc s)
  case 0
  have "simple_paths adj anc 0 s = {[s]}" by (auto simp: simple_paths_def length_Suc_conv le_Suc_eq)
  then show ?case by simp
next
  case (Suc k)
  have "\<Union> (set (map paths (map (child_node E (insert s anc) s (\<lambda>t. chain_tree E adj (insert s anc) k t)) (adj s))))
      = \<Union> (simple_paths adj (insert s anc) k ` {t. t \<notin> insert s anc \<and> next_in adj s t})"
    unfolding set_map image_image paths_children Suc.IH next_in_def by (rule refl)
  then show ?case by (simp only: chain_tree.simps paths.simps if_False simple_paths_Suc)
qed

text \<open>One call, seen in the direction of the trace.\<close>

definition call_step :: "string \<Rightarrow> CallEdge list \<Rightarrow> sym_ref \<Rightarrow> sym_ref \<Rightarrow> bool" where
  "call_step direction edges a b \<longleftrightarrow>
     (\<exists>e \<in> set edges. if direction = ''callers'' then ce_Callee e = Some a \<and> ce_Caller e = Some b
                       else ce_Caller e = Some a \<and> ce_Callee e = Some b)"

lemma next_in_adjacency: "next_in (adjacency direction edges) = call_step direction edges"
  by (intro ext) (auto simp: next_in_def adjacency_def call_step_def target_def buildCallerIndex_def
      buildCalleeIndex_def split: if_splits)

lemma effective_depth_bounds: "1 \<le> effective_depth d \<and> effective_depth d \<le> 10"
  by (auto simp: effective_depth_def defaultMaxDepth_def maxAllowedDepth_def Let_def Suc_le_eq nat_le_iff)

text \<open>
  C6: For a name that no symbol or more than one has, \<open>Trace\<close> builds no tree and returns all the candidates. For the name of one
  symbol it returns one tree with that root, the one that the reference builds without shared state. The chains of the tree through expanded nodes are exactly the simple call
  chains of the graph: a sequence of symbols is one iff it starts at the root, repeats no symbol, follows the calls in the
  requested direction and has at most as many calls as the depth asked for, which is 5 by default and never above 10. The
  counters are those of the tree: its expanded nodes, its resolved and its external children, and its deepest expanded node.
\<close>

theorem Trace_chains:
  "effective_depth maxDepth \<le> 10 \<and>
   (case FindSymbols E syms name of
      [root] \<Rightarrow>
        (let n = trace_tree E edges direction maxDepth root in
            Trace E edges syms name direction maxDepth =
              \<lparr>tr_Root = Some root, tr_Tree = [n],
               tr_Counts = \<lparr>MaxDepth = deepest 0 n, TotalNodes = expanded n,
                            Resolved = knowns n - 1, Unresolved = externals n\<rparr>,
               tr_Ambiguous = []\<rparr> \<and>
            paths n = {p. p \<noteq> [] \<and> hd p = root \<and> distinct p \<and> successively (call_step direction edges) p \<and>
                         length p \<le> Suc (effective_depth maxDepth)})
    | matches \<Rightarrow>
        Trace E edges syms name direction maxDepth =
          \<lparr>tr_Root = None, tr_Tree = [], tr_Counts = no_counts, tr_Ambiguous = matches\<rparr>)"
proof -
  have "paths (trace_tree E edges direction maxDepth root) =
      {p. p \<noteq> [] \<and> hd p = root \<and> distinct p \<and> successively (call_step direction edges) p \<and>
          length p \<le> Suc (effective_depth maxDepth)}" for root
    by (simp add: trace_tree_def paths_chain_tree simple_paths_def next_in_adjacency)
  then show ?thesis using effective_depth_bounds by (auto simp: Trace_result Let_def split: list.split)
qed

subsection \<open>A caller without a name\<close>

text \<open>
  Towards the callers, a call outside every function (no caller) shows as an external node that
  bears the name of the callee, that is of the symbol whose callers are listed.
\<close>

lemma callers_external_name:
  assumes "e \<in> set (buildCallerIndex edges s)" and "ce_Caller e = None"
  shows "cn_Symbol (child_node E anc s sub e) = External (ce_CalleeName e)"
  using assms by (simp add: child_node_def target_def)

end
