(* ===== verification/Slug.thy ===== *)
theory Slug
  imports GoPath
begin

text \<open>
  The parser of repository slugs, \<open>internal/slugparse\<close>: it reduces the forms in which a user names a
  repository to \<open>owner/repo\<close>. An error is the input that \<open>"invalid repo slug or url: %q"\<close> quotes.
  The Prometheus counter is not modelled; its label function \<open>classifyForm\<close> is.
\<close>

datatype slug_error = InvalidSlug string

definition seg_char :: "char \<Rightarrow> bool" where
  "seg_char c \<longleftrightarrow>
     (let n = (of_char c :: nat) in
        (48 \<le> n \<and> n \<le> 57) \<or> (65 \<le> n \<and> n \<le> 90) \<or> (97 \<le> n \<and> n \<le> 122) \<or>
        c = CHR ''.'' \<or> c = CHR ''_'' \<or> c = CHR ''-'')"

text \<open>The regular expression \<open>^[A-Za-z0-9._-]+$\<close>.\<close>

definition ownerRepoSeg :: "string \<Rightarrow> bool" where
  "ownerRepoSeg seg \<longleftrightarrow> seg \<noteq> [] \<and> list_all seg_char seg"

definition knownSSHHosts :: "string list" where
  "knownSSHHosts = [''github.com'', ''gitlab.com'']"

definition knownForgeHosts :: "string list" where
  "knownForgeHosts = [''github.com/'', ''gitlab.com/'']"

definition isLocalPath :: "string \<Rightarrow> bool" where
  "isLocalPath s \<longleftrightarrow> prefix ''/'' s \<or> prefix ''./'' s \<or> prefix ''../'' s"

definition SSHHostKind :: "string \<Rightarrow> string option" where
  "SSHHostKind input =
     (if \<not> prefix ''git@'' input then None
      else case str_index input '':'' of
        None \<Rightarrow> None
      | Some colon \<Rightarrow>
          let h = drop 4 (take colon input) in if h \<in> set knownSSHHosts then Some h else None)"

text \<open>The first listed prefix that matches is stripped.\<close>

fun strip_first :: "string list \<Rightarrow> string \<Rightarrow> string" where
  "strip_first [] s = s"
| "strip_first (p # ps) s = (if prefix p s then drop (length p) s else strip_first ps s)"

definition stripPrefix :: "string \<Rightarrow> slug_error + string" where
  "stripPrefix s =
     (if prefix ''git@'' s then
        (case SSHHostKind s of
           None \<Rightarrow> Inl (InvalidSlug s)
         | Some _ \<Rightarrow> (case str_index s '':'' of None \<Rightarrow> Inr s | Some colon \<Rightarrow> Inr (drop (colon + 1) s)))
      else Inr (strip_first knownForgeHosts (strip_first [''https://'', ''http://''] s)))"

definition ParseWithOptions :: "string \<Rightarrow> bool \<Rightarrow> slug_error + string" where
  "ParseWithOptions input allowSubgroups =
     (if input = [] \<or> isLocalPath input then Inl (InvalidSlug input)
      else case stripPrefix input of
        Inl e \<Rightarrow> Inl e
      | Inr s0 \<Rightarrow>
          let s = trim_suffix s0 ''.git'' in
          if suffix ''.git'' s then Inl (InvalidSlug input)
          else
            let parts = split_on CHR ''/'' s in
            if allowSubgroups \<and> length parts < 2 then Inl (InvalidSlug input)
            else if \<not> allowSubgroups \<and> length parts \<noteq> 2 then Inl (InvalidSlug input)
            else if \<not> list_all ownerRepoSeg parts then Inl (InvalidSlug input)
            else Inr (str_join ''/'' parts))"

definition Parse :: "string \<Rightarrow> slug_error + string" where
  "Parse input = ParseWithOptions input False"

definition classifyForm :: "string \<Rightarrow> string" where
  "classifyForm input =
     (if input = [] \<or> isLocalPath input then ''invalid''
      else if 4 < length input \<and> take 4 input = ''git@'' then
        (case SSHHostKind input of
           None \<Rightarrow> ''invalid''
         | Some host \<Rightarrow>
             if host = ''github.com'' then ''github_ssh''
             else if host = ''gitlab.com'' then ''gitlab_ssh'' else ''invalid'')
      else if list_ex (\<lambda>p. prefix p input) [''https://github.com'', ''http://github.com'', ''github.com/'']
      then ''github_url''
      else if list_ex (\<lambda>p. prefix p input) [''https://gitlab.com'', ''http://gitlab.com'', ''gitlab.com/'']
      then ''gitlab_url''
      else ''bare'')"

subsection \<open>The shape of an accepted slug\<close>

definition slug_shape :: "bool \<Rightarrow> string \<Rightarrow> bool" where
  "slug_shape allowSubgroups s \<longleftrightarrow>
     (let parts = split_on CHR ''/'' s in
        (if allowSubgroups then 2 \<le> length parts else length parts = 2) \<and>
        list_all ownerRepoSeg parts \<and> \<not> suffix ''.git'' s)"

text \<open>
  An accepted slug is well formed: exactly two segments (at least two with subgroups), each a
  non-empty word of letters, digits, dots, underscores and dashes, and no \<open>.git\<close> is left at its end;
  everything else is an error that quotes the input.
\<close>

lemma ParseWithOptions_shape:
  "case ParseWithOptions input sub of Inr s \<Rightarrow> slug_shape sub s | Inl e \<Rightarrow> e = InvalidSlug input"
proof (cases "ParseWithOptions input sub")
  case (Inl e)
  then show ?thesis
    by (auto simp: ParseWithOptions_def stripPrefix_def Let_def split: if_splits sum.splits option.splits)
next
  case (Inr s)
  then obtain s0 where s: "stripPrefix input = Inr s0" "s = str_join ''/'' (split_on CHR ''/'' (trim_suffix s0 ''.git''))"
    and p: "\<not> suffix ''.git'' (trim_suffix s0 ''.git'')" "list_all ownerRepoSeg (split_on CHR ''/'' (trim_suffix s0 ''.git''))"
    "if sub then 2 \<le> length (split_on CHR ''/'' (trim_suffix s0 ''.git''))
     else length (split_on CHR ''/'' (trim_suffix s0 ''.git'')) = 2"
    by (auto simp: ParseWithOptions_def Let_def split: if_splits sum.splits)
  have "s = trim_suffix s0 ''.git''" using s(2) by (simp add: str_join_split_on)
  then show ?thesis using Inr p by (simp add: slug_shape_def Let_def)
qed

subsection \<open>Every documented form names the same slug\<close>

definition slug_of :: "string \<Rightarrow> string \<Rightarrow> string" where
  "slug_of owner repo = owner @ ''/'' @ repo"

definition host_forms :: "string list" where
  "host_forms =
     [''github.com/'', ''gitlab.com/'', ''https://github.com/'', ''https://gitlab.com/'',
      ''http://github.com/'', ''http://gitlab.com/'', ''git@github.com:'', ''git@gitlab.com:'']"

lemma seg_char_not: "\<not> seg_char CHR ''/''" "\<not> seg_char CHR '':''" "\<not> seg_char CHR ''@''"
  by (simp_all add: seg_char_def)

lemma seg_no_slash: "ownerRepoSeg s \<Longrightarrow> CHR ''/'' \<notin> set s"
  using seg_char_not(1) by (auto simp: ownerRepoSeg_def list_all_iff)

lemma slug_git_suffix:
  assumes "suffix ''.git'' (slug_of owner repo)"
  shows "suffix ''.git'' repo"
proof -
  from assms obtain zs where z: "owner @ ''/'' @ repo = zs @ ''.git''" by (auto simp: slug_of_def suffix_def)
  have "suffix repo (zs @ ''.git'')" unfolding suffix_def z [symmetric] by (metis append_assoc)
  then consider "suffix ''.git'' repo" | "suffix repo ''.git''" "repo \<noteq> ''.git''"
    using suffix_same_cases [of repo "zs @ ''.git''" "''.git''"] by (auto simp: suffix_def)
  then show ?thesis
  proof cases
    case 2
    then have "repo \<in> set [''git'', ''it'', ''t'', []]" by (auto simp: suffix_Cons)
    then show ?thesis using z by (auto simp: append_eq_append_conv2 Cons_eq_append_conv)
  qed
qed

lemma parse_path:
  assumes "ownerRepoSeg owner" "ownerRepoSeg repo" "\<not> suffix ''.git'' repo"
    and "s0 = slug_of owner repo \<or> s0 = slug_of owner repo @ ''.git''"
    and "stripPrefix input = Inr s0" and "input \<noteq> []" and "\<not> isLocalPath input"
  shows "ParseWithOptions input sub = Inr (slug_of owner repo)"
proof -
  have ns: "\<not> suffix ''.git'' (slug_of owner repo)" using slug_git_suffix assms(3) by blast
  then have t: "trim_suffix s0 ''.git'' = slug_of owner repo"
    using assms(4) by (auto simp: trim_suffix_not)
  have sp: "split_on CHR ''/'' (slug_of owner repo) = [owner, repo]"
    using seg_no_slash assms(1,2) by (simp add: slug_of_def split_on_append_sep split_on_id)
  have "str_join ''/'' [owner, repo] = slug_of owner repo" by (simp add: slug_of_def)
  then show ?thesis using assms(1,2,5-7) ns t sp by (simp add: ParseWithOptions_def Let_def)
qed

lemma strip_ssh:
  "SSHHostKind (''git@github.com:'' @ s) = Some ''github.com''"
  "SSHHostKind (''git@gitlab.com:'' @ s) = Some ''gitlab.com''"
  by (simp_all add: SSHHostKind_def knownSSHHosts_def)

lemma strip_ssh_forms:
  "stripPrefix (''git@github.com:'' @ s) = Inr s"
  "stripPrefix (''git@gitlab.com:'' @ s) = Inr s"
  unfolding stripPrefix_def strip_ssh by simp_all

lemma strip_url_forms:
  "stripPrefix (''github.com/'' @ s) = Inr s"
  "stripPrefix (''gitlab.com/'' @ s) = Inr s"
  "stripPrefix (''https://github.com/'' @ s) = Inr s"
  "stripPrefix (''https://gitlab.com/'' @ s) = Inr s"
  "stripPrefix (''http://github.com/'' @ s) = Inr s"
  "stripPrefix (''http://gitlab.com/'' @ s) = Inr s"
  by (simp_all add: stripPrefix_def knownForgeHosts_def)

lemma strip_host:
  assumes "h \<in> set host_forms"
  shows "stripPrefix (h @ s) = Inr s" and "\<not> isLocalPath (h @ s)"
proof -
  show "stripPrefix (h @ s) = Inr s"
    using assms unfolding host_forms_def set_simps insert_iff empty_iff
    by (elim disjE) (simp_all only: strip_ssh_forms strip_url_forms)
  have "\<exists>c cs. h = c # cs \<and> c \<noteq> CHR ''/'' \<and> c \<noteq> CHR ''.''"
    using assms unfolding host_forms_def set_simps insert_iff empty_iff by (elim disjE) simp_all
  then show "\<not> isLocalPath (h @ s)" by (auto simp: isLocalPath_def)
qed

text \<open>
  Every documented form with a host (bare host, http, https, SSH; with or without a trailing
  \<open>.git\<close>) of a valid owner and repository name parses to the canonical \<open>owner/repo\<close>.
\<close>

lemma Parse_forms:
  assumes "ownerRepoSeg owner" and "ownerRepoSeg repo" and "\<not> suffix ''.git'' repo" and "h \<in> set host_forms"
  shows "Parse (h @ slug_of owner repo) = Inr (slug_of owner repo) \<and>
         Parse (h @ slug_of owner repo @ ''.git'') = Inr (slug_of owner repo)"
proof -
  have "h @ x \<noteq> []" for x using assms(4) by (auto simp: host_forms_def)
  then show ?thesis
    using parse_path [OF assms(1-3), of "slug_of owner repo" "h @ slug_of owner repo" False]
      parse_path [OF assms(1-3), of "slug_of owner repo @ ''.git''" "h @ slug_of owner repo @ ''.git''" False]
      strip_host [OF assms(4)]
    by (simp add: Parse_def)
qed

text \<open>Whatever the input, \<open>Parse\<close> returns two valid segments joined by a slash and without a \<open>.git\<close> at the end, or the
  error that quotes the input.\<close>

lemma Parse_well_formed:
  "case Parse input of
     Inr s \<Rightarrow> (\<exists>owner repo. s = owner @ ''/'' @ repo \<and> ownerRepoSeg owner \<and> ownerRepoSeg repo \<and> \<not> suffix ''.git'' repo)
   | Inl e \<Rightarrow> e = InvalidSlug input"
proof (cases "Parse input")
  case (Inl e)
  then show ?thesis using ParseWithOptions_shape [of input False] by (simp add: Parse_def)
next
  case (Inr s)
  then have "slug_shape False s" using ParseWithOptions_shape [of input False] by (simp add: Parse_def)
  then have l: "length (split_on CHR ''/'' s) = 2" and v: "list_all ownerRepoSeg (split_on CHR ''/'' s)" and g: "\<not> suffix ''.git'' s"
    by (simp_all add: slug_shape_def Let_def)
  from l obtain a b where ab: "split_on CHR ''/'' s = [a, b]"
    by (cases "split_on CHR ''/'' s"; cases "tl (split_on CHR ''/'' s)") auto
  then have s: "s = a @ ''/'' @ b" using str_join_split_on [of "CHR ''/''" s] by simp
  then have "\<not> suffix ''.git'' b" using g by (auto simp: suffix_def)
  with ab v s Inr show ?thesis by auto
qed

text \<open>
  A slug need not parse to itself: an owner that is named like a forge host is taken for the host.
\<close>

lemma Parse_not_idempotent:
  "Parse ''github.com/github.com/x'' = Inr ''github.com/x''"
  "Parse ''github.com/x'' = Inl (InvalidSlug ''github.com/x'')"
  by code_simp+

text \<open>Segments of dots pass the segment check.\<close>

lemma Parse_accepts_dots: "Parse ''owner/..'' = Inr ''owner/..''"
  by code_simp

end
