(* ===== verification/Cypher.thy ===== *)
theory Cypher
  imports GoStrings "HOL-Library.Word"
begin

unbundle bit_operations_syntax

text \<open>
  The assembly of SQL and Cypher text, \<open>internal/strutil\<close>: escaping of a value for a single-quoted
  Cypher literal, of a name for an SQL literal, the choice of a dollar-quote tag and the statement
  that carries a Cypher body to PostgreSQL; and the FNV-1a hashes that name graphs. What the
  receiving lexers do with the text is stated here as functions on the text (\<open>cypher_literal\<close>,
  \<open>sql_literal\<close>, \<open>dollar_body\<close>), so that the theorems say what the database reads.
\<close>

definition nul :: char where "nul = CHR 0x00"
definition newline :: char where "newline = CHR 0x0A"
definition cret :: char where "cret = CHR 0x0D"
definition tab :: char where "tab = CHR 0x09"
definition backslash :: char where "backslash = CHR 0x5C"
definition squote :: char where "squote = CHR 0x27"

lemmas char_defs = nul_def newline_def cret_def tab_def backslash_def squote_def

definition EscapeCypher :: "string \<Rightarrow> string" where
  "EscapeCypher s0 =
     (let s1 = replace_char backslash [backslash, backslash] s0;
          s2 = replace_char squote [backslash, squote] s1;
          s3 = replace_char nul [] s2;
          s4 = replace_char newline [backslash, CHR ''n''] s3;
          s5 = replace_char cret [backslash, CHR ''r''] s4
      in replace_char tab [backslash, CHR ''t''] s5)"

definition SQLLiteral :: "string \<Rightarrow> string" where
  "SQLLiteral s = replace_char squote [squote, squote] s"

text \<open>\<open>rnd i\<close> is the result of the \<open>i\<close>-th call of \<open>rand.Int64\<close>.\<close>

definition cq_tag :: "(nat \<Rightarrow> nat) \<Rightarrow> nat \<Rightarrow> string" where
  "cq_tag rnd i = (if i = 0 then ''$cq$'' else ''$cq'' @ nat_dec (rnd (i - 1)) @ ''$'')"

fun quote_from :: "(nat \<Rightarrow> nat) \<Rightarrow> string \<Rightarrow> nat \<Rightarrow> nat \<Rightarrow> string option" where
  "quote_from rnd cypher 0 i = None"
| "quote_from rnd cypher (Suc n) i =
     (if \<not> sublist (cq_tag rnd i) cypher then Some (cq_tag rnd i) else quote_from rnd cypher n (Suc i))"

definition CypherDollarQuote :: "(nat \<Rightarrow> nat) \<Rightarrow> string \<Rightarrow> string option" where
  "CypherDollarQuote rnd cypher = quote_from rnd cypher 64 0"

definition select_head :: string where
  "select_head = ''SELECT * FROM ag_catalog.cypher('' @ [squote]"

definition WrapCypherSQL :: "(nat \<Rightarrow> nat) \<Rightarrow> string \<Rightarrow> string \<Rightarrow> string \<Rightarrow> string option" where
  "WrapCypherSQL rnd graphName cypher colDefs =
     (case CypherDollarQuote rnd cypher of
        None \<Rightarrow> None
      | Some tag \<Rightarrow>
          Some (select_head @ SQLLiteral graphName @ [squote] @ '', '' @ tag @ '' '' @ cypher @ '' '' @ tag @
                '') AS ('' @ colDefs @ '')''))"

definition UnquoteAgtype :: "string \<Rightarrow> string" where
  "UnquoteAgtype s0 =
     (let s = trim_space s0 in
        if 2 \<le> length s \<and> hd s = CHR 0x22 \<and> last s = CHR 0x22 then butlast (tl s) else s)"

fun CommonPrefixLen :: "string \<Rightarrow> string \<Rightarrow> nat" where
  "CommonPrefixLen (x # xs) (y # ys) = (if x = y then Suc (CommonPrefixLen xs ys) else 0)"
| "CommonPrefixLen _ _ = 0"

definition fnv64a_step :: "64 word \<Rightarrow> char \<Rightarrow> 64 word" where
  "fnv64a_step h c = (h XOR of_nat (of_char c)) * 1099511628211"

definition TextHash :: "string \<Rightarrow> 64 word" where
  "TextHash text = foldl fnv64a_step 14695981039346656037 text"

definition fnv32a_step :: "32 word \<Rightarrow> char \<Rightarrow> 32 word" where
  "fnv32a_step h c = (h XOR of_nat (of_char c)) * 16777619"

definition hex_digit :: "nat \<Rightarrow> char" where
  "hex_digit d = ''0123456789abcdef'' ! (d mod 16)"

text \<open>The big-endian bytes of a hash in hexadecimal: its eight nibbles, highest first.\<close>

definition hex32 :: "32 word \<Rightarrow> string" where
  "hex32 w = map (\<lambda>i. hex_digit (unat (drop_bit (4 * (7 - i)) w))) [0..<8]"

definition RepoKey :: "string \<Rightarrow> string" where
  "RepoKey repoPath = ''code_'' @ hex32 (foldl fnv32a_step 2166136261 repoPath)"

subsection \<open>What a Cypher lexer reads\<close>

text \<open>
  The content of a single-quoted literal, from the character after the opening quote: a backslash
  takes the next character with it, an unescaped quote ends the literal; the result is the decoded
  content and the text after the closing quote.
\<close>

definition unescaped :: "char \<Rightarrow> char" where
  "unescaped c = (if c = CHR ''n'' then newline else if c = CHR ''r'' then cret
                  else if c = CHR ''t'' then tab else c)"

fun cypher_literal :: "string \<Rightarrow> (string \<times> string) option" where
  "cypher_literal [] = None"
| "cypher_literal (c # s) =
     (if c = squote then Some ([], s)
      else if c = backslash then
        (case s of [] \<Rightarrow> None | d # s' \<Rightarrow> map_option (\<lambda>(x, r). (unescaped d # x, r)) (cypher_literal s'))
      else map_option (\<lambda>(x, r). (c # x, r)) (cypher_literal s))"

definition esc1 :: "char \<Rightarrow> string" where
  "esc1 c =
     (if c = nul then []
      else if c = newline then [backslash, CHR ''n'']
      else if c = cret then [backslash, CHR ''r'']
      else if c = tab then [backslash, CHR ''t'']
      else if c = squote then [backslash, squote]
      else if c = backslash then [backslash, backslash]
      else [c])"

text \<open>The six replacements in their order amount to one substitution of the characters.\<close>

lemma EscapeCypher_chars: "EscapeCypher s = concat (map esc1 s)"
proof (induction s)
  case Nil
  then show ?case by (simp add: EscapeCypher_def)
next
  case (Cons c s)
  have "EscapeCypher (c # s) = EscapeCypher [c] @ EscapeCypher s"
    by (simp add: EscapeCypher_def Let_def)
  moreover have "EscapeCypher [c] = esc1 c"
    by (simp add: EscapeCypher_def esc1_def char_defs)
  ultimately show ?case using Cons by simp
qed

text \<open>
  No value can leave its Cypher literal: whatever follows the closing quote, a lexer that reads the
  escaped value gets back exactly the value without its NUL bytes and goes on at that text.
\<close>

lemma EscapeCypher_roundtrip:
  "cypher_literal (EscapeCypher s @ squote # rest) = Some (filter (\<lambda>c. c \<noteq> nul) s, rest)"
proof -
  have "cypher_literal (concat (map esc1 s) @ squote # rest) = Some (filter (\<lambda>c. c \<noteq> nul) s, rest)"
  proof (induction s)
    case Nil
    then show ?case by simp
  next
    case (Cons c s)
    have e: "cypher_literal (esc1 c @ t) =
        (if c = nul then cypher_literal t else map_option (\<lambda>(x, r). (c # x, r)) (cypher_literal t))" for t
      by (simp add: esc1_def unescaped_def) (simp add: char_defs)
    show ?case using Cons by (simp add: e)
  qed
  then show ?thesis by (simp add: EscapeCypher_chars)
qed

subsection \<open>What PostgreSQL reads\<close>

text \<open>An SQL literal ends at a quote that is not doubled.\<close>

fun sql_literal :: "string \<Rightarrow> (string \<times> string) option" where
  "sql_literal [] = None"
| "sql_literal (c # s) =
     (if c = squote then
        (case s of
           d # s' \<Rightarrow> if d = squote then map_option (\<lambda>(x, r). (squote # x, r)) (sql_literal s') else Some ([], s)
         | [] \<Rightarrow> Some ([], []))
      else map_option (\<lambda>(x, r). (c # x, r)) (sql_literal s))"

lemma SQLLiteral_roundtrip:
  assumes "rest = [] \<or> hd rest \<noteq> squote"
  shows "sql_literal (SQLLiteral s @ squote # rest) = Some (s, rest)"
proof (induction s)
  case Nil
  then show ?case using assms by (cases rest) (simp_all add: SQLLiteral_def)
next
  case (Cons c s)
  then show ?case by (simp add: SQLLiteral_def)
qed

text \<open>A dollar-quoted body ends at the first occurrence of its tag.\<close>

definition dollar_body :: "string \<Rightarrow> string \<Rightarrow> (string \<times> string) option" where
  "dollar_body tag s =
     (if prefix tag s then
        (let t = drop (length tag) s in
           map_option (\<lambda>i. (take i t, drop (i + length tag) t)) (str_index t tag))
      else None)"

lemma cq_tag_no_space: "CHR '' '' \<notin> set (cq_tag rnd i)"
proof -
  have "CHR '' '' \<notin> set (nat_dec n)" for n using nat_dec_digits [of "CHR '' ''" n] by auto
  then show ?thesis by (simp add: cq_tag_def)
qed

lemma quote_from_Some:
  "quote_from rnd cypher n i = Some tag \<Longrightarrow> \<not> sublist tag cypher \<and> (\<exists>j. tag = cq_tag rnd j)"
  by (induction n arbitrary: i) (auto split: if_splits)

lemma str_index_leftmost:
  assumes "prefix p (drop i s)" and "i \<le> length s" and "\<And>j. j < i \<Longrightarrow> \<not> prefix p (drop j s)"
  shows "str_index s p = Some i"
proof (cases "str_index s p")
  case None
  then show ?thesis using assms(1) by (metis append_take_drop_id prefix_def str_index_None_iff sublist_def)
next
  case (Some k)
  then show ?thesis using assms str_index_SomeD [OF Some] by (metis linorder_neqE_nat)
qed

lemma tag_leftmost:
  assumes "\<not> sublist tag body" and "CHR '' '' \<notin> set tag" and "tag \<noteq> []"
  shows "str_index ('' '' @ body @ '' '' @ tag @ rest) tag = Some (length body + 2)"
proof (rule str_index_leftmost)
  let ?s = "'' '' @ body @ '' '' @ tag @ rest"
  fix j assume j: "j < length body + 2"
  show "\<not> prefix tag (drop j ?s)"
  proof
    assume "prefix tag (drop j ?s)"
    then obtain r where r: "drop j ?s = tag @ r" by (auto simp: prefix_def)
    consider "j = 0 \<or> j = Suc (length body)" | i where "j = Suc i" "i < length body"
      using j by (cases j) (auto simp: less_Suc_eq)
    then show False
    proof cases
      case 1
      then have "hd (drop j ?s) = CHR '' ''" by (auto simp: nth_append hd_drop_conv_nth)
      then show False using r assms(2,3) by (cases tag) auto
    next
      case 2
      then have d: "drop i body @ '' '' @ tag @ rest = tag @ r" using r by simp
      then have "length tag \<le> length (drop i body)"
      proof (rule contrapos_pp)
        assume "\<not> length tag \<le> length (drop i body)"
        then have "tag ! length (drop i body) = CHR '' ''"
          using arg_cong [OF d, of "\<lambda>l. l ! length (drop i body)"] by (simp add: nth_append)
        then show "drop i body @ '' '' @ tag @ rest \<noteq> tag @ r"
          using assms(2) \<open>\<not> length tag \<le> length (drop i body)\<close> by (metis not_le nth_mem)
      qed
      then have "prefix tag (drop i body)"
        using d by (metis prefix_def prefix_length_prefix)
      then have "sublist tag (drop i body)" by (rule prefix_imp_sublist)
      moreover have "sublist (drop i body) body" by (rule sublist_drop)
      ultimately show False using assms(1) sublist_order.order_trans by blast
    qed
  qed
qed (simp_all add: prefix_def)

text \<open>
  The statement that \<open>WrapCypherSQL\<close> builds is read by PostgreSQL as intended: the literal is the
  graph name, and the dollar quote that follows contains exactly the Cypher body between two blanks,
  whatever the name and the body are.
\<close>

lemma WrapCypherSQL_reads_back:
  "case WrapCypherSQL rnd graphName cypher colDefs of
     None \<Rightarrow> CypherDollarQuote rnd cypher = None
   | Some sql \<Rightarrow>
       \<exists>tag rest. sql = select_head @ SQLLiteral graphName @ squote # '', '' @ rest \<and>
         sql_literal (drop (length select_head) sql) = Some (graphName, '', '' @ rest) \<and>
         dollar_body tag rest = Some ('' '' @ cypher @ '' '', '') AS ('' @ colDefs @ '')'')"
proof (cases "CypherDollarQuote rnd cypher")
  case None
  then show ?thesis by (simp add: WrapCypherSQL_def)
next
  case (Some tag)
  let ?cols = "'') AS ('' @ colDefs @ '')''"
  let ?rest = "tag @ '' '' @ cypher @ '' '' @ tag @ ?cols"
  have sql: "WrapCypherSQL rnd graphName cypher colDefs =
      Some (select_head @ SQLLiteral graphName @ squote # '', '' @ ?rest)"
    using Some by (simp add: WrapCypherSQL_def)
  from Some obtain j where t: "\<not> sublist tag cypher" "tag = cq_tag rnd j"
    unfolding CypherDollarQuote_def using quote_from_Some by blast
  have ne: "tag \<noteq> []" using t(2) by (simp add: cq_tag_def)
  have "sql_literal (SQLLiteral graphName @ squote # '', '' @ ?rest) = Some (graphName, '', '' @ ?rest)"
    by (rule SQLLiteral_roundtrip) (simp add: squote_def)
  moreover have "str_index ('' '' @ cypher @ '' '' @ tag @ ?cols) tag = Some (length cypher + 2)"
    by (rule tag_leftmost [OF t(1) _ ne]) (simp add: t(2) cq_tag_no_space)
  then have "dollar_body tag ?rest = Some ('' '' @ cypher @ '' '', ?cols)"
    by (simp add: dollar_body_def)
  ultimately show ?thesis unfolding sql option.case
    by (intro exI [of _ tag] exI [of _ ?rest]) simp
qed

subsection \<open>Graph names\<close>

lemma hex_digit_range: "hex_digit d \<in> set ''0123456789abcdef''"
  unfolding hex_digit_def by (rule nth_mem) simp

text \<open>A repository key is a fixed-length identifier of lower-case letters, digits and an underscore.\<close>

lemma RepoKey_identifier:
  "length (RepoKey p) = 13 \<and> prefix ''code_'' (RepoKey p) \<and>
   set (drop 5 (RepoKey p)) \<subseteq> set ''0123456789abcdef''"
  using hex_digit_range by (auto simp: RepoKey_def hex32_def)

lemma CommonPrefixLen_take:
  "take (CommonPrefixLen a b) a = take (CommonPrefixLen a b) b \<and>
   CommonPrefixLen a b \<le> length a \<and> CommonPrefixLen a b \<le> length b \<and>
   (CommonPrefixLen a b < length a \<longrightarrow> CommonPrefixLen a b < length b \<longrightarrow>
      a ! CommonPrefixLen a b \<noteq> b ! CommonPrefixLen a b)"
  by (induction a b rule: CommonPrefixLen.induct) auto

end
