(* ===== verification/Budget.thy ===== *)
theory Budget
  imports GoStrings
begin

text \<open>
  Response budgets, \<open>internal/mcpmeta/budget.go\<close>: the truncation of a tool's answer with a
  continuation footer, the marker that keeps the wrapper from shaping twice, the \<open>took_ms\<close> footer and
  the ladder of ever cheaper renderings. Lengths are in bytes; \<open>None\<close> is a run-time panic (a slice
  bound out of range). A rung is its name and what its closure renders; \<open>PickFitting\<close> also returns the
  rungs whose closures it called, in order.
\<close>

definition mdash :: string where
  "mdash = [CHR 0xE2, CHR 0x80, CHR 0x94]"

definition lf :: string where
  "lf = [CHR 0x0A]"

definition DefaultBudget :: int where "DefaultBudget = 8192"
definition MaxBudget :: int where "MaxBudget = 9000"
definition MinBudget :: int where "MinBudget = 512"

definition truncationFooterPrefix :: string where
  "truncationFooterPrefix = lf @ ''[truncated:''"

definition budgetAppliedMarker :: string where
  "budgetAppliedMarker = lf @ ''[budget-applied]''"

definition tookFooterPrefix :: string where
  "tookFooterPrefix = lf @ ''took_ms=''"

definition footer_text :: "nat \<Rightarrow> string \<Rightarrow> string" where
  "footer_text remaining continuationHint =
     (let hint = (if continuationHint = [] then ''narrow your query or pass a tighter limit'' else continuationHint)
      in truncationFooterPrefix @ '' '' @ nat_dec remaining @ '' more chars '' @ mdash @ '' '' @ hint @ '']'')"

text \<open>The place of the cut, for a budget within the text: \<open>strings.LastIndex\<close> gives -1 for no newline.\<close>

definition cut_at :: "string \<Rightarrow> nat \<Rightarrow> nat" where
  "cut_at text b =
     (case str_last_index (take b text) lf of
        None \<Rightarrow> b
      | Some lastNL \<Rightarrow> if lastNL > b div 2 then lastNL else b)"

definition Shape :: "string \<Rightarrow> int \<Rightarrow> string \<Rightarrow> string option" where
  "Shape text budget continuationHint =
     (if budget \<le> 0 \<or> int (length text) \<le> budget then Some text
      else
        let b = nat (if budget < MinBudget then MinBudget else budget) in
        if length text < b then None
        else let cut = cut_at text b
             in Some (take cut text @ footer_text (length text - cut) continuationHint))"

definition ShapeWithHint :: "string \<Rightarrow> int \<Rightarrow> string \<Rightarrow> string option" where
  "ShapeWithHint text budget continuationHint =
     (if budget \<le> 0 \<or> int (length text) \<le> budget then
        (if budget > 0 then Some (text @ budgetAppliedMarker) else Some text)
      else Shape text budget continuationHint)"

definition IsShaped :: "string \<Rightarrow> bool" where
  "IsShaped text \<longleftrightarrow> sublist truncationFooterPrefix text \<or> sublist budgetAppliedMarker text"

definition HasTookFooter :: "string \<Rightarrow> bool" where
  "HasTookFooter text \<longleftrightarrow> sublist tookFooterPrefix text"

definition StripBudgetMarker :: "string \<Rightarrow> string" where
  "StripBudgetMarker text = trim_suffix text budgetAppliedMarker"

definition MarkBudgetApplied :: "string \<Rightarrow> string" where
  "MarkBudgetApplied text = text @ budgetAppliedMarker"

text \<open>\<open>elapsed\<close> in milliseconds.\<close>

definition TookFooter :: "int \<Rightarrow> string" where
  "TookFooter elapsed = tookFooterPrefix @ int_dec (if elapsed < 1 then 1 else elapsed)"

definition AppendTook :: "string \<Rightarrow> int \<Rightarrow> string" where
  "AppendTook text elapsed = (if HasTookFooter text then text else text @ TookFooter elapsed)"

definition ResolveBudget :: "int \<Rightarrow> int \<Rightarrow> int" where
  "ResolveBudget override defaultBudget =
     (if override \<le> 0 then defaultBudget
      else if override < MinBudget then MinBudget
      else if override > MaxBudget then MaxBudget
      else override)"










subsection \<open>Truncation\<close>

lemma cut_at_bounds:
  assumes "b \<le> length text"
  shows "b div 2 < cut_at text b \<or> cut_at text b = b" and "cut_at text b \<le> b"
proof -
  show "b div 2 < cut_at text b \<or> cut_at text b = b"
    by (simp add: cut_at_def split: option.splits)
  show "cut_at text b \<le> b"
    using str_last_index_single_SomeD [of "take b text" "CHR 0x0A"]
    by (fastforce simp: cut_at_def lf_def split: option.splits)
qed

lemma Shape_None_iff:
  "Shape text budget hint = None \<longleftrightarrow>
     0 < budget \<and> budget < int (length text) \<and> length text < 512"
  by (auto simp: Shape_def Let_def MinBudget_def)

text \<open>
  \<open>Shape\<close> returns a text that fits unchanged; a longer one is cut at a line end or at the budget (which
  is raised to 512), keeping at least half of the budget, and the footer tells how much is missing.
  It panics exactly for a text that exceeds its budget but is shorter than the 512 bytes the budget is raised to.
\<close>

lemma Shape_spec:
  "case Shape text budget hint of
     None \<Rightarrow> 0 < budget \<and> budget < int (length text) \<and> length text < 512
   | Some out \<Rightarrow>
       if budget \<le> 0 \<or> int (length text) \<le> budget then out = text
       else \<exists>cut. out = take cut text @ footer_text (length text - cut) hint \<and>
              int cut \<le> max 512 budget \<and> max 512 budget \<le> 2 * int cut \<and> cut \<le> length text"
proof (cases "Shape text budget hint")
  case None
  then show ?thesis using Shape_None_iff [of "text" budget hint] by simp
next
  case (Some out)
  show ?thesis
  proof (cases "budget \<le> 0 \<or> int (length text) \<le> budget")
    case True
    then show ?thesis using Some by (auto simp: Shape_def)
  next
    case False
    let ?b = "nat (max 512 budget)"
    have b: "nat (if budget < MinBudget then MinBudget else budget) = ?b"
      by (simp add: MinBudget_def max_def)
    have len: "?b \<le> length text" and out: "out = take (cut_at text ?b) text @ footer_text (length text - cut_at text ?b) hint"
      using Some False by (auto simp: Shape_def b Let_def split: if_splits)
    have "?b \<le> 2 * cut_at text ?b" using cut_at_bounds(1) [OF len] by linarith
    then have "max 512 budget \<le> 2 * int (cut_at text ?b)" by linarith
    moreover have "int (cut_at text ?b) \<le> max 512 budget" using cut_at_bounds(2) [OF len] by linarith
    moreover have "cut_at text ?b \<le> length text" using cut_at_bounds(2) [OF len] len by linarith
    ultimately show ?thesis using Some False out by auto
  qed
qed

subsection \<open>Shaping once\<close>

lemma footer_shaped: "IsShaped (s @ footer_text n hint)"
proof -
  obtain rest where "footer_text n hint = truncationFooterPrefix @ rest"
    by (simp add: footer_text_def Let_def)
  then have "sublist truncationFooterPrefix (s @ footer_text n hint)" by (auto simp: sublist_def)
  then show ?thesis by (simp add: IsShaped_def)
qed

text \<open>
  A tool that shapes with its own budget is never shaped again by the wrapper, and a text that fits that
  budget reaches the agent unchanged once the wrapper has stripped the marker.
\<close>

lemma ShapeWithHint_once:
  "case ShapeWithHint text budget hint of
     None \<Rightarrow> Shape text budget hint = None
   | Some out \<Rightarrow>
       if budget \<le> 0 then out = text
       else IsShaped out \<and> (if int (length text) \<le> budget then StripBudgetMarker out = text
                             else Shape text budget hint = Some out)"
proof (cases "budget \<le> 0 \<or> int (length text) \<le> budget")
  case True
  have "IsShaped (text @ budgetAppliedMarker)" unfolding IsShaped_def by (simp add: suffix_imp_sublist)
  then show ?thesis using True by (auto simp: ShapeWithHint_def StripBudgetMarker_def)
next
  case False
  then have "ShapeWithHint text budget hint = Shape text budget hint" by (simp add: ShapeWithHint_def)
  moreover have "IsShaped out" if "Shape text budget hint = Some out" for out
    using that False footer_shaped by (auto simp: Shape_def Let_def split: if_splits)
  ultimately show ?thesis using False by (auto split: option.splits)
qed

text \<open>The \<open>took_ms\<close> footer is appended once; a resolved budget stays in its range.\<close>

lemma AppendTook_idempotent: "AppendTook (AppendTook text e) e' = AppendTook text e"
proof -
  have "sublist tookFooterPrefix (text @ TookFooter e)" by (auto simp: TookFooter_def sublist_def)
  then show ?thesis by (simp add: AppendTook_def HasTookFooter_def)
qed

lemma ResolveBudget_range:
  "512 \<le> d \<Longrightarrow> d \<le> 9000 \<Longrightarrow> 512 \<le> ResolveBudget override d \<and> ResolveBudget override d \<le> 9000"
  by (simp add: ResolveBudget_def MinBudget_def MaxBudget_def)

subsection \<open>The ladder\<close>







end
