(* ===== verification/EditDistance.thy ===== *)
theory EditDistance
  imports GoPath
begin

text \<open>
  The two Levenshtein distances of the repository: \<open>internal/argnorm/aliases.go\<close> (bytes, ASCII case
  folded, common prefix and suffix trimmed) and \<open>internal/compare/strutil.go\<close> (runes). Both fill the
  matrix row by row in two slices; the rows are lists here. The specification is the least cost of an
  edit script (\<open>edits\<close>).
\<close>

subsection \<open>The rows of the matrix\<close>

text \<open>
  One row: \<open>ps\<close> is the rest of the previous row, \<open>diag\<close> and \<open>left\<close> are \<open>prev[j-1]\<close> and \<open>curr[j-1]\<close>.
\<close>

definition cell :: "'a \<Rightarrow> 'a \<Rightarrow> nat \<Rightarrow> nat \<Rightarrow> nat \<Rightarrow> nat" where
  "cell x y p diag left =
     (let cost = (if x = y then 0 else 1);
          del = p + 1; ins = left + 1; sub = diag + cost;
          m = (if ins < del then ins else del)
      in if sub < m then sub else m)"

fun row_rest :: "'a \<Rightarrow> 'a list \<Rightarrow> nat list \<Rightarrow> nat \<Rightarrow> nat \<Rightarrow> nat list" where
  "row_rest x (y # ys) (p # ps) diag left =
     cell x y p diag left # row_rest x ys ps p (cell x y p diag left)"
| "row_rest x _ _ diag left = []"

definition next_row :: "'a \<Rightarrow> 'a list \<Rightarrow> nat list \<Rightarrow> nat \<Rightarrow> nat list" where
  "next_row x ys prev i = i # row_rest x ys (tl prev) (hd prev) i"

fun rows :: "'a list \<Rightarrow> 'a list \<Rightarrow> nat \<Rightarrow> nat list \<Rightarrow> nat list" where
  "rows [] ys i prev = prev"
| "rows (x # xs) ys i prev = rows xs ys (i + 1) (next_row x ys prev i)"

definition matrix_distance :: "'a list \<Rightarrow> 'a list \<Rightarrow> nat" where
  "matrix_distance a b = last (rows a b 1 [0..<length b + 1])"

definition compare_levenshtein :: "'a list \<Rightarrow> 'a list \<Rightarrow> nat" where
  "compare_levenshtein a b =
     (if a = [] then length b else if b = [] then length a else matrix_distance a b)"

definition foldASCII :: "string \<Rightarrow> string" where
  "foldASCII s = map ascii_lower s"

fun trim_common :: "'a list \<Rightarrow> 'a list \<Rightarrow> 'a list \<times> 'a list" where
  "trim_common (x # xs) (y # ys) = (if x = y then trim_common xs ys else (x # xs, y # ys))"
| "trim_common xs ys = (xs, ys)"

definition levenshtein :: "string \<Rightarrow> string \<Rightarrow> nat" where
  "levenshtein a0 b0 =
     (let a = foldASCII a0; b = foldASCII b0 in
        if a = [] then length b else if b = [] then length a
        else
          let (a1, b1) = trim_common a b;
              (ra, rb) = trim_common (rev a1) (rev b1);
              a2 = rev ra; b2 = rev rb
          in if a2 = [] then length b2 else if b2 = [] then length a2 else matrix_distance a2 b2)"

subsection \<open>Edit scripts\<close>

inductive edits :: "nat \<Rightarrow> 'a list \<Rightarrow> 'a list \<Rightarrow> bool" where
  none: "edits 0 [] []"
| keep: "edits n a b \<Longrightarrow> edits n (x # a) (x # b)"
| delete: "edits n a b \<Longrightarrow> edits (Suc n) (x # a) b"
| insert: "edits n a b \<Longrightarrow> edits (Suc n) a (y # b)"
| subst: "edits n a b \<Longrightarrow> edits (Suc n) (x # a) (y # b)"

inductive_cases edits_ConsE: "edits n (x # a) (y # b)"
inductive_cases edits_NilE: "edits n [] b"
inductive_cases edits_Nil2E: "edits n a []"

lemma edits_append: "edits n a b \<Longrightarrow> edits m c d \<Longrightarrow> edits (n + m) (a @ c) (b @ d)"
  by (induction rule: edits.induct) (auto intro: edits.intros)

lemma edits_rev: "edits n a b \<Longrightarrow> edits n (rev a) (rev b)"
proof (induction rule: edits.induct)
  case none
  then show ?case by (simp add: edits.none)
next
  case (keep n a b x)
  then show ?case using edits_append [OF keep.IH edits.keep [OF edits.none]] by simp
next
  case (delete n a b x)
  then show ?case using edits_append [OF delete.IH edits.delete [OF edits.none]] by simp
next
  case (insert n a b y)
  then show ?case using edits_append [OF insert.IH edits.insert [OF edits.none]] by simp
next
  case (subst n a b x y)
  then show ?case using edits_append [OF subst.IH edits.subst [OF edits.none]] by simp
qed

lemma edits_rev_iff: "edits n (rev a) (rev b) \<longleftrightarrow> edits n a b"
  using edits_rev [of n a b] edits_rev [of n "rev a" "rev b"] by auto

text \<open>The recursive distance, from the front.\<close>

fun lev :: "'a list \<Rightarrow> 'a list \<Rightarrow> nat" where
  "lev [] b = length b"
| "lev a [] = length a"
| "lev (x # a) (y # b) = min (lev a (y # b) + 1) (min (lev (x # a) b + 1) (lev a b + (if x = y then 0 else 1)))"

lemma lev_Nil2 [simp]: "lev a [] = length a"
  by (cases a) simp_all

lemma edits_lev: "edits (lev a b) a b"
proof (induction a b rule: lev.induct)
  case (1 b)
  have "edits (length b) [] b" by (induction b) (auto intro: edits.intros)
  then show ?case by simp
next
  case (2 x a)
  have "edits (length c) c []" for c :: "'a list" by (induction c) (auto intro: edits.intros)
  from this [of "x # a"] show ?case by simp
next
  case (3 x a y b)
  show ?case
    using edits.delete [OF 3(1), of x] edits.insert [OF 3(2), of y] edits.keep [OF 3(3), of x]
      edits.subst [OF 3(3), of x y]
    by (auto simp: min_def)
qed

lemma lev_length: "length b \<le> lev a b + length a \<and> length a \<le> lev a b + length b"
  by (induction a b rule: lev.induct) (auto simp: min_def)

lemma lev_Cons_le: "lev a b \<le> lev (x # a) b + 1 \<and> lev a b \<le> lev a (y # b) + 1 \<and>
    lev (x # a) b \<le> lev a b + 1 \<and> lev a (y # b) \<le> lev a b + 1"
proof (induction "length a + length b" arbitrary: a b x y rule: less_induct)
  case less
  show ?case
  proof (cases a)
    case Nil
    then show ?thesis using lev_length [of b "[x]"] by (cases b) (auto simp: min_def)
  next
    case (Cons u a')
    show ?thesis
    proof (cases b)
      case Nil
      then show ?thesis using Cons lev_length [of "[y]" a'] by (auto simp: min_def)
    next
      case (Cons v b')
      have a: "a = u # a'" by fact
      have "lev a b' \<le> lev (x # a) b' + 1" "lev a b \<le> lev a b' + 1"
        "lev a b \<le> lev a' b + 1" "lev a' b \<le> lev a' (y # b) + 1"
        using less [of a b' x v] less [of a' b u y] unfolding a Cons by (simp_all del: lev.simps)
      have e1: "lev (x # a) b = min (lev a b + 1) (min (lev (x # a) b' + 1) (lev a b' + (if x = v then 0 else 1)))"
        by (simp add: Cons)
      have e2: "lev a (y # b) = min (lev a' (y # b) + 1) (min (lev a b + 1) (lev a' b + (if u = y then 0 else 1)))"
        by (simp add: a)
      have "lev a b \<le> lev (x # a) b + 1" unfolding e1
        using \<open>lev a b' \<le> lev (x # a) b' + 1\<close> \<open>lev a b \<le> lev a b' + 1\<close> by linarith
      moreover have "lev a b \<le> lev a (y # b) + 1" unfolding e2
        using \<open>lev a' b \<le> lev a' (y # b) + 1\<close> \<open>lev a b \<le> lev a' b + 1\<close> by linarith
      moreover have "lev (x # a) b \<le> lev a b + 1" unfolding e1 by simp
      moreover have "lev a (y # b) \<le> lev a b + 1" unfolding e2 by simp
      ultimately show ?thesis by blast
    qed
  qed
qed

lemma lev_least: "edits n a b \<Longrightarrow> lev a b \<le> n"
proof (induction rule: edits.induct)
  case none
  then show ?case by simp
next
  case (keep n a b x)
  then show ?case by (auto simp: min_def)
next
  case (delete n a b x)
  then show ?case using lev_Cons_le [of a b x x] by simp
next
  case (insert n a b y)
  then show ?case using lev_Cons_le [of a b y y] by simp
next
  case (subst n a b x y)
  then show ?case by (auto simp: min_def)
qed

lemma lev_is_least: "lev a b = (LEAST n. edits n a b)"
  by (rule Least_equality [symmetric]) (simp_all add: edits_lev lev_least)

lemma lev_rev: "lev (rev a) (rev b) = lev a b"
  by (simp add: lev_is_least edits_rev_iff)

lemma lev_keep: "lev (x # a) (x # b) = lev a b"
  using lev_Cons_le [of a b x x] by (auto simp: min_def)

lemma lev_trim: "trim_common a b = (c, d) \<Longrightarrow> lev a b = lev c d"
  by (induction a b rule: trim_common.induct) (auto simp: lev_keep simp del: lev.simps(3) split: if_splits)

subsection \<open>The matrix computes the distance\<close>

text \<open>A row of the matrix for a prefix \<open>u\<close>: the distances to the prefixes of \<open>ys\<close> that extend \<open>v\<close>.\<close>

fun dist_row :: "'a list \<Rightarrow> 'a list \<Rightarrow> 'a list \<Rightarrow> nat list" where
  "dist_row u v [] = []"
| "dist_row u v (y # ys) = lev u (y # v) # dist_row u (y # v) ys"

lemma row_rest_dist:
  "row_rest x ys (dist_row u v ys) (lev u v) (lev (x # u) v) = dist_row (x # u) v ys"
proof (induction ys arbitrary: v)
  case Nil
  then show ?case by simp
next
  case (Cons y ys)
  have "cell x y (lev u (y # v)) (lev u v) (lev (x # u) v) = lev (x # u) (y # v)"
    by (auto simp: cell_def Let_def min_def)
  then show ?case using Cons [of "y # v"] by (simp del: lev.simps)
qed

lemma next_row_dist:
  "i = Suc (length u) \<Longrightarrow>
     next_row x ys (length u # dist_row u [] ys) i = Suc (length u) # dist_row (x # u) [] ys"
  using row_rest_dist [of x ys u "[]"] by (simp add: next_row_def)

lemma rows_dist:
  "rows xs ys (Suc (length u)) (length u # dist_row u [] ys) =
     length (rev xs @ u) # dist_row (rev xs @ u) [] ys"
proof (induction xs arbitrary: u)
  case Nil
  then show ?case by simp
next
  case (Cons x xs)
  show ?case using Cons [of "x # u"] by (simp add: next_row_dist)
qed

lemma dist_row_Nil: "dist_row [] v ys = [Suc (length v)..<Suc (length v + length ys)]"
  by (induction ys arbitrary: v) (simp_all add: upt_conv_Cons del: upt_Suc)

lemma last_dist_row: "last (lev u v # dist_row u v ys) = lev u (rev ys @ v)"
proof (induction ys arbitrary: v)
  case Nil
  then show ?case by simp
next
  case (Cons y ys)
  from Cons [of "y # v"] show ?case by simp
qed

lemma matrix_distance_lev: "matrix_distance a b = lev a b"
proof -
  have "[0..<length b + 1] = length [] # dist_row [] [] b"
    by (simp add: dist_row_Nil upt_conv_Cons del: upt_Suc)
  then have "matrix_distance a b = last (lev (rev a) [] # dist_row (rev a) [] b)"
    using rows_dist [of a b "[]"] by (simp add: matrix_distance_def)
  also have "\<dots> = lev (rev a) (rev b)" unfolding last_dist_row by simp
  finally show ?thesis by (simp add: lev_rev)
qed

text \<open>
  C15: Both edit distances compute the least number of insertions, deletions and substitutions between
  their arguments: the two-row matrix of the comparison tool on its runes, and the one behind the
  tool-name suggestions, prefix and suffix trimming included, on the case-folded names.
\<close>

theorem levenshtein_least_edits:
  "levenshtein a b = (LEAST n. edits n (foldASCII a) (foldASCII b)) \<and>
   compare_levenshtein u v = (LEAST n. edits n u v)"
proof
  show "compare_levenshtein u v = (LEAST n. edits n u v)"
    by (simp add: compare_levenshtein_def matrix_distance_lev flip: lev_is_least)
  let ?a = "foldASCII a" and ?b = "foldASCII b"
  obtain a1 b1 where t1: "trim_common ?a ?b = (a1, b1)" by (cases "trim_common ?a ?b")
  obtain ra rb where t2: "trim_common (rev a1) (rev b1) = (ra, rb)" by (cases "trim_common (rev a1) (rev b1)")
  have l: "lev ?a ?b = lev (rev ra) (rev rb)"
    using lev_trim [OF t1] lev_trim [OF t2] lev_rev [of a1 b1] lev_rev [of ra rb] by simp
  have "levenshtein a b = lev ?a ?b"
    unfolding levenshtein_def Let_def t1 prod.case t2 matrix_distance_lev
    using l by (auto simp del: lev.simps(3))
  then show "levenshtein a b = (LEAST n. edits n ?a ?b)" by (simp add: lev_is_least)
qed

end
