(* ===== verification/ArgNorm.thy ===== *)
theory ArgNorm
  imports EditDistance "HOL-Library.Multiset"
begin

text \<open>
  The tolerant reader in front of the tool calls, \<open>internal/argnorm\<close>: tool-name aliases and
  suggestions, argument aliases, the stripping of unknown arguments and the middleware that puts them
  together. A JSON object is an association list with distinct keys; its order stands for the
  iteration order of the Go map. The framework behind the middleware (\<open>next\<close>) and the JSON codec are
  arguments. The log and the reflection that fills the registry are not modelled.
\<close>

subsection \<open>Tool names\<close>

definition toolNameAliases :: "(string \<times> string) list" where
  "toolNameAliases = [(''github_repo_search'', ''github_code_search''), (''find_bugs'', ''dataflow_analyze'')]"

definition ResolveToolName :: "string \<Rightarrow> string \<times> bool" where
  "ResolveToolName name =
     (case map_of toolNameAliases name of Some dst \<Rightarrow> (dst, True) | None \<Rightarrow> (name, False))"

definition didYouMeanHints :: "(string \<times> string) list" where
  "didYouMeanHints =
     [(''flaky_tests'', ''not implemented: detecting flaky tests needs test-run history across CI runs, which this server does not index (it analyses code, not runs)''),
      (''test_reliability'', ''not implemented: test reliability needs test-run history across CI runs, which this server does not index (it analyses code, not runs)'')]"

definition DidYouMeanHint :: "string \<Rightarrow> string" where
  "DidYouMeanHint name = (case map_of didYouMeanHints name of Some r \<Rightarrow> r | None \<Rightarrow> [])"

definition hasPrefixFold :: "string \<Rightarrow> string \<Rightarrow> bool" where
  "hasPrefixFold a b =
     (let n = (if length b < length a then length b else length a) in
        n \<noteq> 0 \<and> list_all (\<lambda>i. ascii_lower (a ! i) = ascii_lower (b ! i)) [0..<n])"

definition containsFold :: "string \<Rightarrow> string \<Rightarrow> bool" where
  "containsFold haystack needle =
     (needle \<noteq> [] \<and> length needle \<le> length haystack \<and>
      list_ex (\<lambda>i. list_all (\<lambda>j. ascii_lower (haystack ! (i + j)) = ascii_lower (needle ! j)) [0..<length needle])
        [0..<length haystack - length needle + 1])"

type_synonym cand = "bool \<times> nat \<times> string"

text \<open>
  A candidate in the order of the sort: prefix matches first, then by score, then by name. The first
  component is true for a candidate that is not a prefix match.
\<close>

definition rank :: "string \<Rightarrow> string \<Rightarrow> cand" where
  "rank name c = (\<not> (hasPrefixFold name c \<or> containsFold c name), levenshtein name c, c)"

fun pick :: "nat \<Rightarrow> nat \<Rightarrow> string list \<Rightarrow> cand list \<Rightarrow> string list" where
  "pick len maxSuggest out [] = out"
| "pick len maxSuggest out ((distant, score, c) # rs) =
     (if c \<in> set out then pick len maxSuggest out rs
      else if distant \<and> score > len then pick len maxSuggest out rs
      else if length (out @ [c]) \<ge> maxSuggest then out @ [c]
      else pick len maxSuggest (out @ [c]) rs)"

definition DidYouMean :: "string \<Rightarrow> string list \<Rightarrow> int \<Rightarrow> string list" where
  "DidYouMean name candidates maxSuggest =
     (if maxSuggest \<le> 0 then []
      else pick (length name) (nat maxSuggest) [] (sort (map (rank name) candidates)))"

definition eligible :: "string \<Rightarrow> string \<Rightarrow> bool" where
  "eligible name c \<longleftrightarrow>
     hasPrefixFold name c \<or> containsFold c name \<or> levenshtein name c \<le> length name"

lemma pick_spec:
  assumes "sorted rs" and "\<forall>r \<in> set rs. r = rank name (snd (snd r))" and "length out < m"
    and "distinct out" and "sorted (map (rank name) out)"
    and "\<forall>c \<in> set out. \<forall>r \<in> set rs. rank name c \<le> r"
  shows "let p = pick (length name) m out rs in
     distinct p \<and> length p \<le> m \<and> sorted (map (rank name) p) \<and>
     set p \<subseteq> set out \<union> {c. rank name c \<in> set rs \<and> eligible name c} \<and>
     (length p = m \<or> set p = set out \<union> {c. rank name c \<in> set rs \<and> eligible name c})"
  using assms
proof (induction rs arbitrary: out)
  case Nil
  then show ?case by simp
next
  case (Cons r rs)
  obtain d sc c where r: "r = (d, sc, c)" by (cases r)
  have rk: "r = rank name c" using Cons.prems(2) r by simp
  have inj: "rank name x = r \<longleftrightarrow> x = c" for x using rk by (auto simp: rank_def)
  have split: "{x. rank name x \<in> set (r # rs) \<and> eligible name x} =
      (if eligible name c then {c} else {}) \<union> {x. rank name x \<in> set rs \<and> eligible name x}"
    using inj by auto
  have el: "eligible name c \<longleftrightarrow> \<not> (d \<and> sc > length name)"
    using rk r by (auto simp: eligible_def rank_def)
  have rest: "sorted rs" "\<forall>x \<in> set rs. x = rank name (snd (snd x))" "\<forall>x \<in> set rs. r \<le> x"
    "\<forall>x \<in> set out. \<forall>y \<in> set rs. rank name x \<le> y"
    using Cons.prems by auto
  consider "c \<in> set out" | "c \<notin> set out" "\<not> eligible name c" | "c \<notin> set out" "eligible name c" by blast
  then show ?case
  proof cases
    case 1
    then have "pick (length name) m out (r # rs) = pick (length name) m out rs" by (simp add: r)
    then show ?thesis
      using Cons.IH [OF rest(1,2) Cons.prems(3,4,5) rest(4)] 1 unfolding split Let_def by auto
  next
    case 2
    then have "pick (length name) m out (r # rs) = pick (length name) m out rs" using el by (simp add: r)
    then show ?thesis
      using Cons.IH [OF rest(1,2) Cons.prems(3,4,5) rest(4)] 2 unfolding split Let_def by auto
  next
    case 3
    have s: "sorted (map (rank name) (out @ [c]))" using Cons.prems(5,6) rk by (auto simp: sorted_append)
    show ?thesis
    proof (cases "m \<le> length (out @ [c])")
      case True
      then have "pick (length name) m out (r # rs) = out @ [c]" using 3 el by (auto simp: r)
      then show ?thesis using True 3 s Cons.prems(3,4) unfolding split Let_def by auto
    next
      case False
      then have p: "pick (length name) m out (r # rs) = pick (length name) m (out @ [c]) rs" using 3 el by (auto simp: r)
      have "distinct (out @ [c])" using Cons.prems(4) 3 by simp
      moreover have "\<forall>x \<in> set (out @ [c]). \<forall>y \<in> set rs. rank name x \<le> y" using rest(3,4) rk by auto
      ultimately show ?thesis
        using Cons.IH [OF rest(1,2) _ _ s] False 3 unfolding split p Let_def by auto
    qed
  qed
qed

text \<open>
  The suggestions for an unknown tool are distinct registered names, at most as many as asked for, in
  the order of the ranking; only prefix or substring matches and names within as many edits as the query has
  characters qualify, and every one that qualifies is listed unless the list is full.
\<close>

lemma DidYouMean_spec:
  "let p = DidYouMean name candidates maxSuggest; good = {c \<in> set candidates. eligible name c} in
     distinct p \<and> length p \<le> nat maxSuggest \<and> sorted (map (rank name) p) \<and> set p \<subseteq> good \<and>
     (length p = nat maxSuggest \<or> set p = good)"
proof (cases "maxSuggest \<le> 0")
  case True
  then show ?thesis by (simp add: DidYouMean_def)
next
  case False
  let ?rs = "sort (map (rank name) candidates)"
  have inj: "rank name x = rank name y \<longleftrightarrow> x = y" for x y by (auto simp: rank_def)
  have "{c. rank name c \<in> set ?rs \<and> eligible name c} = {c \<in> set candidates. eligible name c}"
    by (auto simp: inj)
  moreover have "\<forall>r \<in> set ?rs. r = rank name (snd (snd r))" by (auto simp: rank_def)
  ultimately show ?thesis
    using pick_spec [of ?rs name "[]" "nat maxSuggest"] False by (simp add: DidYouMean_def Let_def)
qed

text \<open>The order in which the registry lists its names does not matter.\<close>

lemma DidYouMean_order: "mset c1 = mset c2 \<Longrightarrow> DidYouMean name c1 m = DidYouMean name c2 m"
proof -
  assume "mset c1 = mset c2"
  then have "sort (map (rank name) c1) = sort (map (rank name) c2)"
    by (intro properties_for_sort) simp_all
  then show ?thesis by (simp add: DidYouMean_def)
qed

definition joinOr :: "string list \<Rightarrow> string" where
  "joinOr items =
     (case items of
        [] \<Rightarrow> []
      | [a] \<Rightarrow> a
      | [a, b] \<Rightarrow> a @ '' or '' @ b
      | _ \<Rightarrow> str_join '', '' (butlast items) @ '' or '' @ last items)"

subsection \<open>Arguments\<close>

definition arrow :: string where
  "arrow = [CHR 0xE2, CHR 0x86, CHR 0x92]"

definition ellipsis :: string where
  "ellipsis = [CHR 0xE2, CHR 0x80, CHR 0xA6]"

definition em_dash :: string where
  "em_dash = [CHR 0xE2, CHR 0x80, CHR 0x94]"

definition aliasTargetsFor :: "string \<Rightarrow> string list \<Rightarrow> (string \<times> string) list" where
  "aliasTargetsFor toolName accepted =
     (if ''limit'' \<in> set accepted then []
      else if ''max_results'' \<in> set accepted then [(''limit'', ''max_results'')]
      else if toolName = ''semantic_search'' \<and> ''top_k'' \<in> set accepted then [(''limit'', ''top_k'')]
      else if toolName = ''impact_analysis'' \<and> ''max_callers'' \<in> set accepted then [(''limit'', ''max_callers'')]
      else [])"

record 'v NormalizeResult =
  nr_Args :: "(string \<times> 'v) list option"
  nr_Stripped :: "string list"
  nr_Aliased :: "string list"

definition del_key :: "string \<Rightarrow> (string \<times> 'v) list \<Rightarrow> (string \<times> 'v) list" where
  "del_key k m = filter (\<lambda>p. fst p \<noteq> k) m"

fun apply_aliases :: "(string \<times> string) list \<Rightarrow> (string \<times> 'v) list \<Rightarrow> (string \<times> 'v) list \<times> string list" where
  "apply_aliases [] out = (out, [])"
| "apply_aliases ((src, dst) # rest) out =
     (case map_of out src of
        None \<Rightarrow> apply_aliases rest out
      | Some v \<Rightarrow>
          if map_of out dst \<noteq> None then apply_aliases rest (del_key src out)
          else
            let (out', al) = apply_aliases rest (del_key src ((dst, v) # out))
            in (out', (src @ arrow @ dst) # al))"

text \<open>\<open>accepted\<close> is \<open>None\<close> for the nil set of an open schema; the aliases are visited sorted by source.\<close>

definition NormalizeArgs ::
    "string \<Rightarrow> (string \<times> 'v) list option \<Rightarrow> string list option \<Rightarrow> 'v NormalizeResult" where
  "NormalizeArgs toolName raw accepted =
     (case raw of
        None \<Rightarrow> \<lparr>nr_Args = None, nr_Stripped = [], nr_Aliased = []\<rparr>
      | Some m \<Rightarrow>
          (case accepted of
             None \<Rightarrow> \<lparr>nr_Args = Some m, nr_Stripped = [], nr_Aliased = []\<rparr>
           | Some acc \<Rightarrow>
               let (out, al) = apply_aliases (sort (aliasTargetsFor toolName acc)) m
               in \<lparr>nr_Args = Some (filter (\<lambda>p. fst p \<in> set acc) out),
                   nr_Stripped = sort (map fst (filter (\<lambda>p. fst p \<notin> set acc) out)),
                   nr_Aliased = al\<rparr>))"

definition quoteList :: "string list \<Rightarrow> string" where
  "quoteList items = ''['' @ str_join '', '' (map (\<lambda>s. [CHR 0x22] @ s @ [CHR 0x22]) items) @ '']''"

definition Note :: "'v NormalizeResult \<Rightarrow> string list \<Rightarrow> string" where
  "Note nr accepted =
     (if nr_Stripped nr = [] then []
      else
        let stripped = sort (nr_Stripped nr); supported0 = sort (remdups accepted);
            supported = (if length supported0 > 12 then take 12 supported0 @ [ellipsis] else supported0)
        in ''note: ignored unknown params '' @ quoteList stripped @ '' '' @ em_dash @ '' supported: '' @
           quoteList supported)"

definition strippedParamHints :: "(string \<times> (string \<times> string) list) list" where
  "strippedParamHints =
     [(''remember_graph_insights'',
       [(''insights'', ''this tool does not store free-text notes '' @ em_dash @
          '' it analyzes a repo'' @ [CHR 0x27] @ ''s code graph and persists the findings itself; pass '' @
          [CHR 0x22] @ ''repo'' @ [CHR 0x22] @ '' (owner/repo or absolute path)'')])]"

definition StrippedHint :: "string \<Rightarrow> string \<Rightarrow> string" where
  "StrippedHint toolName param =
     (case map_of strippedParamHints toolName of
        None \<Rightarrow> []
      | Some ps \<Rightarrow> (case map_of ps param of None \<Rightarrow> [] | Some h \<Rightarrow> h))"

subsection \<open>The registry\<close>

record toolSpec =
  ts_accepted :: "string list"
  ts_open :: bool

type_synonym Registry = "string \<Rightarrow> toolSpec option"

definition NewRegistry :: Registry where
  "NewRegistry = (\<lambda>_. None)"

definition Register :: "Registry \<Rightarrow> string \<Rightarrow> string list \<Rightarrow> Registry" where
  "Register r name accepted =
     r(name \<mapsto> \<lparr>ts_accepted = remdups (filter (\<lambda>p. p \<noteq> [] \<and> p \<noteq> ''-'') accepted), ts_open = False\<rparr>)"

definition RegisterOpen :: "Registry \<Rightarrow> string \<Rightarrow> Registry" where
  "RegisterOpen r name = r(name \<mapsto> \<lparr>ts_accepted = [], ts_open = True\<rparr>)"

definition Has :: "Registry \<Rightarrow> string \<Rightarrow> bool" where
  "Has r name \<longleftrightarrow> r name \<noteq> None"

definition Accepted :: "Registry \<Rightarrow> string \<Rightarrow> string list \<times> bool \<times> bool" where
  "Accepted r name =
     (case r name of None \<Rightarrow> ([], False, False) | Some spec \<Rightarrow> (ts_accepted spec, ts_open spec, True))"

subsection \<open>The middleware\<close>

text \<open>
  The arguments of a request as the codec sees them: absent, not a JSON object, \<open>null\<close>, or an object.
  A response is its error flag and its text blocks; the framework may fail instead (\<open>Inl\<close>).
\<close>

datatype 'v raw_args = RawEmpty | RawBad string | RawNull | RawObject "(string \<times> 'v) list"

definition normalizeRawMessage ::
    "string \<Rightarrow> 'v raw_args \<Rightarrow> string list \<Rightarrow> 'v raw_args \<times> 'v NormalizeResult" where
  "normalizeRawMessage toolName raw accepted =
     (case raw of
        RawObject m \<Rightarrow>
          let res = NormalizeArgs toolName (Some m) (Some accepted) in
          if nr_Aliased res = [] \<and> nr_Stripped res = [] then (raw, res)
          else (case nr_Args res of Some out \<Rightarrow> (RawObject out, res) | None \<Rightarrow> (raw, res))
      | _ \<Rightarrow> (raw, \<lparr>nr_Args = None, nr_Stripped = [], nr_Aliased = []\<rparr>))"

record tool_result =
  tr_IsError :: bool
  tr_Content :: "string list"

definition appendNote :: "tool_result \<Rightarrow> string \<Rightarrow> tool_result" where
  "appendNote r note = (if note = [] then r else r\<lparr>tr_Content := tr_Content r @ [note]\<rparr>)"

text \<open>\<open>quoted\<close> is the rendering of the name by the verb \<open>%q\<close>.\<close>

definition didYouMeanResult :: "(string \<Rightarrow> string) \<Rightarrow> string \<Rightarrow> string list \<Rightarrow> tool_result" where
  "didYouMeanResult quoted name candidates =
     (let msg = ''unknown tool '' @ quoted name;
          reason = DidYouMeanHint name;
          suggestions = DidYouMean name candidates 2
      in \<lparr>tr_IsError = True,
          tr_Content =
            [if reason \<noteq> [] then msg @ '' '' @ em_dash @ '' '' @ reason
             else if suggestions \<noteq> [] then
               msg @ '' '' @ em_dash @ '' did you mean '' @
               joinOr (map (\<lambda>s. [CHR 0x22] @ s @ [CHR 0x22]) suggestions) @ ''?''
             else msg]\<rparr>)"

definition hints_for :: "string \<Rightarrow> string list \<Rightarrow> string" where
  "hints_for toolName stripped =
     concat (map (\<lambda>p. let h = StrippedHint toolName p in if h \<noteq> [] then '' '' @ em_dash @ '' '' @ h else [])
       stripped)"

definition Middleware ::
    "(string \<Rightarrow> string) \<Rightarrow> Registry \<Rightarrow> string list \<Rightarrow> (string \<Rightarrow> 'v raw_args \<Rightarrow> 'e + tool_result) \<Rightarrow>
     string \<Rightarrow> 'v raw_args \<Rightarrow> 'e + tool_result" where
  "Middleware quoted reg names next requested args =
     (let name = fst (ResolveToolName requested) in
      if \<not> Has reg name then Inr (didYouMeanResult quoted name names)
      else
        let (accepted, is_open, _) = Accepted reg name in
        if is_open then next name args
        else
          let (newArgs, nres) = normalizeRawMessage name args accepted in
          case next name newArgs of
            Inl e \<Rightarrow> Inl e
          | Inr result \<Rightarrow>
              if nr_Stripped nres = [] then Inr result
              else
                let hintNote = hints_for name (nr_Stripped nres) in
                if tr_IsError result then
                  (if hintNote \<noteq> [] then Inr (appendNote result (''note'' @ hintNote)) else Inr result)
                else Inr (appendNote result (Note nres accepted @ hintNote)))"

subsection \<open>What normalisation does to the arguments\<close>

text \<open>The argument that a misnamed \<open>limit\<close> is promoted to, if the tool has one.\<close>

definition limit_target :: "string \<Rightarrow> string list \<Rightarrow> string option" where
  "limit_target toolName acc = map_of (aliasTargetsFor toolName acc) ''limit''"

lemma aliasTargets_cases:
  "aliasTargetsFor toolName acc =
     (case limit_target toolName acc of None \<Rightarrow> [] | Some dst \<Rightarrow> [(''limit'', dst)])"
  by (simp add: limit_target_def aliasTargetsFor_def)

lemma limit_target_facts:
  "limit_target toolName acc = Some dst \<Longrightarrow> dst \<in> set acc \<and> ''limit'' \<notin> set acc \<and> dst \<noteq> ''limit''"
  by (auto simp: limit_target_def aliasTargetsFor_def split: if_splits)

lemma map_of_del_key: "map_of (del_key k m) = (map_of m)(k := None)"
  unfolding del_key_def by (rule map_of_filter_neq)

definition normal_value :: "string \<Rightarrow> string list \<Rightarrow> (string \<times> 'v) list \<Rightarrow> string \<Rightarrow> 'v option" where
  "normal_value toolName acc m k =
     (if k \<notin> set acc then None
      else case map_of m k of
        Some v \<Rightarrow> Some v
      | None \<Rightarrow> if limit_target toolName acc = Some k then map_of m ''limit'' else None)"

lemma keys_filter_notin: "fst ` set (filter (\<lambda>p. fst p \<notin> A) m) = fst ` set m - A"
  by force

lemma keys_del_key: "fst ` set (del_key k m) = fst ` set m - {k}"
  by (force simp: del_key_def)

lemma map_of_filter_keys: "map_of (filter (\<lambda>p. fst p \<in> A) m) k = (if k \<in> A then map_of m k else None)"
  by (induction m) auto

text \<open>
  C16: Normalising the arguments of a closed tool keeps exactly its declared arguments with the values they
  were sent with, fills the one a misnamed \<open>limit\<close> stands for when it is absent, and reports
  as stripped, in order, every other argument that was sent.
\<close>

theorem NormalizeArgs_spec:
  "case NormalizeArgs toolName (Some m) (Some acc) of res \<Rightarrow>
     (case nr_Args res of
        None \<Rightarrow> False
      | Some out \<Rightarrow> map_of out = normal_value toolName acc m) \<and>
     sorted (nr_Stripped res) \<and>
     set (nr_Stripped res) = fst ` set m - set acc - (if limit_target toolName acc = None then {} else {''limit''})"
proof -
  let ?t = "limit_target toolName acc"
  show ?thesis
  proof (cases ?t)
    case None
    then show ?thesis
      by (auto simp: NormalizeArgs_def aliasTargets_cases normal_value_def map_of_filter_keys fun_eq_iff
          split: option.splits)
  next
    case (Some dst)
    note f = limit_target_facts [OF Some]
    show ?thesis
    proof (cases "map_of m ''limit''")
      case None
      then have nl: "''limit'' \<notin> fst ` set m" by (simp add: map_of_eq_None_iff)
      show ?thesis using Some None f nl
        by (auto simp: NormalizeArgs_def aliasTargets_cases normal_value_def map_of_filter_keys fun_eq_iff
            split: option.splits)
    next
      case (Some v)
      have l: "map_of m ''limit'' = Some v" by fact
      show ?thesis
      proof (cases "map_of m dst")
        case None
        then show ?thesis using \<open>?t = Some dst\<close> l f
          by (auto simp: NormalizeArgs_def aliasTargets_cases normal_value_def map_of_filter_keys fun_eq_iff
              map_of_del_key keys_filter_notin keys_del_key simp del: set_filter split: option.splits)
      next
        case (Some w)
        then show ?thesis using \<open>?t = Some dst\<close> l f
          by (auto simp: NormalizeArgs_def aliasTargets_cases normal_value_def map_of_filter_keys fun_eq_iff
              map_of_del_key keys_filter_notin keys_del_key simp del: set_filter split: option.splits)
      qed
    qed
  qed
qed

end
