(* ===== verification/FleetDiff.thy ===== *)
theory FleetDiff
  imports GoPath "HOL-Library.Multiset"
begin

text \<open>
  Drift between the images a repository pins and the ones a fleet runs: \<open>internal/fleet/diff.go\<close>,
  \<open>imageref.go\<close>, \<open>filter.go\<close>, and the label parsing of \<open>ssh/parse.go\<close>. An explanation is kept as the
  format and arguments it is printed from. A start time is an integer. Maps of the source that are
  only iterated to build a list that is then sorted by unique keys are written as the sorted list.
\<close>

record PinnedImage =
  p_Image :: string
  p_Tag :: string
  p_Digest :: string
  p_Source :: string
  p_Line :: int
  p_Service :: string
  p_Unresolved :: string

record RuntimeImage =
  r_Container :: string
  r_Image :: string
  r_Tag :: string
  r_Digest :: string
  r_State :: string
  r_StartedAt :: int
  r_Service :: string

datatype DiffStatus =
  DiffMatch | DiffTagDrift | DiffDigestDrift | DiffOnlySource | DiffOnlyRuntime | DiffUnresolved

datatype explanation =
    NoExplanation | ExUnresolved string | ExNotRunning string string | ExNotPinned string string
  | ExTagDrift string string | ExDigestDrift string string

record ImageDiff =
  d_Image :: string
  d_Pinned :: "PinnedImage option"
  d_Runtime :: "RuntimeImage option"
  d_Status :: DiffStatus
  d_Explanation :: explanation

fun DiffStatusPriority :: "DiffStatus \<Rightarrow> nat" where
  "DiffStatusPriority DiffTagDrift = 0"
| "DiffStatusPriority DiffDigestDrift = 1"
| "DiffStatusPriority DiffUnresolved = 2"
| "DiffStatusPriority DiffOnlySource = 3"
| "DiffStatusPriority DiffOnlyRuntime = 4"
| "DiffStatusPriority DiffMatch = 5"

fun SummaryStatusPriority :: "DiffStatus \<Rightarrow> nat" where
  "SummaryStatusPriority DiffTagDrift = 0"
| "SummaryStatusPriority DiffDigestDrift = 1"
| "SummaryStatusPriority DiffUnresolved = 2"
| "SummaryStatusPriority DiffOnlyRuntime = 3"
| "SummaryStatusPriority DiffOnlySource = 4"
| "SummaryStatusPriority DiffMatch = 5"

definition sortedPinned :: "PinnedImage list \<Rightarrow> PinnedImage list" where
  "sortedPinned ps = sort_key (\<lambda>p. (p_Service p, p_Source p, p_Line p)) ps"

definition sortedRuntime :: "RuntimeImage list \<Rightarrow> RuntimeImage list" where
  "sortedRuntime rs = sort_key (\<lambda>r. (r_Container r, r_StartedAt r)) rs"

definition classifyPair :: "string \<Rightarrow> PinnedImage \<Rightarrow> RuntimeImage \<Rightarrow> ImageDiff" where
  "classifyPair img p r =
     (if p_Tag p \<noteq> r_Tag r then
        \<lparr>d_Image = img, d_Pinned = Some p, d_Runtime = Some r, d_Status = DiffTagDrift,
         d_Explanation = ExTagDrift (p_Tag p) (r_Tag r)\<rparr>
      else if p_Digest p \<noteq> [] \<and> r_Digest r \<noteq> [] \<and> p_Digest p \<noteq> r_Digest r then
        \<lparr>d_Image = img, d_Pinned = Some p, d_Runtime = Some r, d_Status = DiffDigestDrift,
         d_Explanation = ExDigestDrift (p_Digest p) (r_Digest r)\<rparr>
      else
        \<lparr>d_Image = img, d_Pinned = Some p, d_Runtime = Some r, d_Status = DiffMatch,
         d_Explanation = NoExplanation\<rparr>)"

fun pair_rows :: "string \<Rightarrow> PinnedImage list \<Rightarrow> RuntimeImage list \<Rightarrow> ImageDiff list" where
  "pair_rows img (p # ps) (r # rs) =
     (if p_Unresolved p \<noteq> [] then
        \<lparr>d_Image = img, d_Pinned = Some p, d_Runtime = Some r, d_Status = DiffUnresolved,
         d_Explanation = ExUnresolved (p_Unresolved p)\<rparr>
      else classifyPair img p r) # pair_rows img ps rs"
| "pair_rows img (p # ps) [] =
     (if p_Unresolved p \<noteq> [] then
        \<lparr>d_Image = img, d_Pinned = Some p, d_Runtime = None, d_Status = DiffUnresolved,
         d_Explanation = ExUnresolved (p_Unresolved p)\<rparr>
      else
        \<lparr>d_Image = img, d_Pinned = Some p, d_Runtime = None, d_Status = DiffOnlySource,
         d_Explanation = ExNotRunning img (p_Tag p)\<rparr>) # pair_rows img ps []"
| "pair_rows img [] (r # rs) =
     \<lparr>d_Image = img, d_Pinned = None, d_Runtime = Some r, d_Status = DiffOnlyRuntime,
      d_Explanation = ExNotPinned img (r_Tag r)\<rparr> # pair_rows img [] rs"
| "pair_rows img [] [] = []"

definition pinnedService :: "ImageDiff \<Rightarrow> string" where
  "pinnedService d = (case d_Pinned d of Some p \<Rightarrow> p_Service p | None \<Rightarrow> [])"

definition runtimeContainer :: "ImageDiff \<Rightarrow> string" where
  "runtimeContainer d = (case d_Runtime d of Some r \<Rightarrow> r_Container r | None \<Rightarrow> [])"

definition row_key :: "ImageDiff \<Rightarrow> nat \<times> string \<times> string \<times> string" where
  "row_key d = (DiffStatusPriority (d_Status d), d_Image d, pinnedService d, runtimeContainer d)"

definition Diff :: "PinnedImage list \<Rightarrow> RuntimeImage list \<Rightarrow> ImageDiff list" where
  "Diff pinnedImgs runtimeImgs =
     (let keys = sort (remdups (map p_Image pinnedImgs @ map r_Image runtimeImgs));
          rows = concat (map (\<lambda>img.
              pair_rows img (sortedPinned (filter (\<lambda>p. p_Image p = img) pinnedImgs))
                (sortedRuntime (filter (\<lambda>r. r_Image r = img) runtimeImgs))) keys)
      in sort_key row_key rows)"

subsection \<open>No image is lost\<close>

lemma pair_rows_pinned: "List.map_filter d_Pinned (pair_rows img ps rs) = ps"
  by (induction img ps rs rule: pair_rows.induct) (auto simp: List.map_filter_def classifyPair_def)

lemma pair_rows_runtime: "List.map_filter d_Runtime (pair_rows img ps rs) = rs"
  by (induction img ps rs rule: pair_rows.induct) (auto simp: List.map_filter_def classifyPair_def)

definition pinned_of :: "ImageDiff list \<Rightarrow> PinnedImage multiset" where
  "pinned_of rows = mset (List.map_filter d_Pinned rows)"

definition runtime_of :: "ImageDiff list \<Rightarrow> RuntimeImage multiset" where
  "runtime_of rows = mset (List.map_filter d_Runtime rows)"

lemma mset_map_filter: "mset (List.map_filter f xs) = image_mset (the \<circ> f) (filter_mset (\<lambda>x. f x \<noteq> None) (mset xs))"
  by (simp add: List.map_filter_def)

lemma map_filter_Nil: "List.map_filter f [] = []"
  by (simp add: List.map_filter_def)

lemma map_filter_append: "List.map_filter f (xs @ ys) = List.map_filter f xs @ List.map_filter f ys"
  by (simp add: List.map_filter_def)

lemma pinned_of_sort: "pinned_of (sort_key k rows) = pinned_of rows"
  by (simp add: pinned_of_def mset_map_filter)

lemma runtime_of_sort: "runtime_of (sort_key k rows) = runtime_of rows"
  by (simp add: runtime_of_def mset_map_filter)

lemma mset_partition:
  "distinct ks \<Longrightarrow> f ` set xs \<subseteq> set ks \<Longrightarrow> (\<Sum>k\<leftarrow>ks. mset (filter (\<lambda>x. f x = k) xs)) = mset xs"
proof (induction ks arbitrary: xs)
  case Nil
  then show ?case by simp
next
  case (Cons k ks)
  have e: "filter (\<lambda>x. f x = j) (filter (\<lambda>x. f x \<noteq> k) xs) = filter (\<lambda>x. f x = j) xs"
    if "j \<in> set ks" for j
    using that Cons.prems(1) unfolding filter_filter by (intro filter_cong) auto
  have "map (\<lambda>j. mset (filter (\<lambda>x. f x = j) xs)) ks =
      map (\<lambda>j. mset (filter (\<lambda>x. f x = j) (filter (\<lambda>x. f x \<noteq> k) xs))) ks"
    by (intro map_cong refl arg_cong [of _ _ mset]) (simp only: e)
  then have "(\<Sum>j\<leftarrow>ks. mset (filter (\<lambda>x. f x = j) xs)) =
      (\<Sum>j\<leftarrow>ks. mset (filter (\<lambda>x. f x = j) (filter (\<lambda>x. f x \<noteq> k) xs)))"
    by (rule arg_cong)
  also have "\<dots> = mset (filter (\<lambda>x. f x \<noteq> k) xs)"
    using Cons.prems by (intro Cons.IH) auto
  finally show ?case using multiset_partition [of "mset xs" "\<lambda>x. f x = k"] by simp
qed

text \<open>The meaning of a status, as the documentation of \<open>Diff\<close> gives it per image group.\<close>

definition status_ok :: "ImageDiff \<Rightarrow> bool" where
  "status_ok d \<longleftrightarrow>
     (case (d_Pinned d, d_Runtime d) of
        (None, None) \<Rightarrow> False
      | (None, Some r) \<Rightarrow> d_Status d = DiffOnlyRuntime \<and> d_Image d = r_Image r
      | (Some p, rt) \<Rightarrow> d_Image d = p_Image p \<and>
          (if p_Unresolved p \<noteq> [] then d_Status d = DiffUnresolved
           else case rt of
             None \<Rightarrow> d_Status d = DiffOnlySource
           | Some r \<Rightarrow> d_Image d = r_Image r \<and>
               (d_Status d = DiffTagDrift \<longleftrightarrow> p_Tag p \<noteq> r_Tag r) \<and>
               (d_Status d = DiffDigestDrift \<longleftrightarrow>
                  p_Tag p = r_Tag r \<and> p_Digest p \<noteq> [] \<and> r_Digest r \<noteq> [] \<and> p_Digest p \<noteq> r_Digest r) \<and>
               (d_Status d = DiffMatch \<longleftrightarrow>
                  p_Tag p = r_Tag r \<and> (p_Digest p = [] \<or> r_Digest r = [] \<or> p_Digest p = r_Digest r))))"

lemma classifyPair_status:
  "p_Image p = img \<Longrightarrow> r_Image r = img \<Longrightarrow> p_Unresolved p = [] \<Longrightarrow> status_ok (classifyPair img p r)"
  by (simp add: status_ok_def classifyPair_def)

lemma pair_rows_status:
  "\<forall>p \<in> set ps. p_Image p = img \<Longrightarrow> \<forall>r \<in> set rs. r_Image r = img \<Longrightarrow>
     d \<in> set (pair_rows img ps rs) \<Longrightarrow> status_ok d"
  by (induction img ps rs rule: pair_rows.induct)
     (auto simp: classifyPair_status, simp_all add: status_ok_def)

text \<open>
  The report lists every pinned image and every running one exactly once (paired or alone), each row
  has the status its two sides call for, and the rows are in the documented order.
\<close>

lemma Diff_complete:
  "pinned_of (Diff ps rs) = mset ps \<and> runtime_of (Diff ps rs) = mset rs \<and>
   list_all status_ok (Diff ps rs) \<and> sorted (map row_key (Diff ps rs))"
proof -
  let ?keys = "sort (remdups (map p_Image ps @ map r_Image rs))"
  let ?rows = "\<lambda>img. pair_rows img (sortedPinned (filter (\<lambda>p. p_Image p = img) ps))
                (sortedRuntime (filter (\<lambda>r. r_Image r = img) rs))"
  have d: "Diff ps rs = sort_key row_key (concat (map ?rows ?keys))" by (simp add: Diff_def Let_def)
  have k: "distinct ?keys" "p_Image ` set ps \<subseteq> set ?keys" "r_Image ` set rs \<subseteq> set ?keys" by auto
  have "pinned_of (concat (map ?rows ks)) = (\<Sum>img\<leftarrow>ks. mset (filter (\<lambda>p. p_Image p = img) ps))" for ks
    by (induction ks) (simp_all add: pinned_of_def map_filter_append pair_rows_pinned sortedPinned_def map_filter_Nil)
  then have P: "pinned_of (Diff ps rs) = mset ps"
    unfolding d pinned_of_sort using mset_partition [OF k(1,2)] by simp
  have "runtime_of (concat (map ?rows ks)) = (\<Sum>img\<leftarrow>ks. mset (filter (\<lambda>r. r_Image r = img) rs))" for ks
    by (induction ks) (simp_all add: runtime_of_def map_filter_append pair_rows_runtime sortedRuntime_def map_filter_Nil)
  then have R: "runtime_of (Diff ps rs) = mset rs"
    unfolding d runtime_of_sort using mset_partition [OF k(1,3)] by simp
  have "status_ok x" if "x \<in> set (?rows img)" for x img
    using pair_rows_status [OF _ _ that] by (simp add: sortedPinned_def sortedRuntime_def)
  then have "list_all status_ok (Diff ps rs)" unfolding d by (auto simp: list_all_iff)
  moreover have "sorted (map row_key (Diff ps rs))" unfolding d by simp
  ultimately show ?thesis using P R by blast
qed

subsection \<open>Drift between hosts\<close>

record TargetReport =
  t_Target :: string
  t_Diffs :: "ImageDiff list"

record SiblingVariant =
  v_Target :: string
  v_Tag :: string
  v_Digest :: string
  v_Container :: string
  v_State :: string

record SiblingDriftRow =
  s_Image :: string
  s_Variants :: "SiblingVariant list"

definition variant_of :: "string \<Rightarrow> RuntimeImage \<Rightarrow> SiblingVariant" where
  "variant_of tgt r = \<lparr>v_Target = tgt, v_Tag = r_Tag r, v_Digest = r_Digest r, v_Container = r_Container r,
     v_State = r_State r\<rparr>"

text \<open>The observations of all reports in order: image, target and variant of every running row.\<close>

definition observations :: "TargetReport list \<Rightarrow> ((string \<times> string) \<times> SiblingVariant) list" where
  "observations reports =
     concat (map (\<lambda>t. concat (map (\<lambda>d. case d_Runtime d of
          None \<Rightarrow> []
        | Some r \<Rightarrow> [((d_Image d, t_Target t), variant_of (t_Target t) r)]) (t_Diffs t))) reports)"

definition keep_best :: "((string \<times> string) \<Rightarrow> SiblingVariant option) \<Rightarrow> (string \<times> string) \<times> SiblingVariant \<Rightarrow>
    (string \<times> string) \<Rightarrow> SiblingVariant option" where
  "keep_best best kv =
     (case best (fst kv) of
        None \<Rightarrow> best(fst kv \<mapsto> snd kv)
      | Some prev \<Rightarrow> if v_Container (snd kv) < v_Container prev then best(fst kv \<mapsto> snd kv) else best)"

definition best_variants :: "TargetReport list \<Rightarrow> (string \<times> string) \<Rightarrow> SiblingVariant option" where
  "best_variants reports = foldl keep_best (\<lambda>_. None) (observations reports)"

definition drifts :: "SiblingVariant \<Rightarrow> SiblingVariant \<Rightarrow> bool" where
  "drifts a b \<longleftrightarrow> (if v_Tag a \<noteq> v_Tag b then True
     else v_Digest a \<noteq> [] \<and> v_Digest b \<noteq> [] \<and> v_Digest a \<noteq> v_Digest b)"

fun hasSiblingDrift :: "SiblingVariant list \<Rightarrow> bool" where
  "hasSiblingDrift [] = False"
| "hasSiblingDrift (a # vs) = (list_ex (drifts a) vs \<or> hasSiblingDrift vs)"

definition variants_for :: "TargetReport list \<Rightarrow> string \<Rightarrow> SiblingVariant list" where
  "variants_for reports img =
     map (\<lambda>t. the (best_variants reports (img, t)))
       (filter (\<lambda>t. best_variants reports (img, t) \<noteq> None) (sort (remdups (map t_Target reports))))"

definition SiblingDiff :: "TargetReport list \<Rightarrow> SiblingDriftRow list" where
  "SiblingDiff reports =
     (if length reports < 2 then []
      else
        map (\<lambda>img. \<lparr>s_Image = img, s_Variants = variants_for reports img\<rparr>)
          (filter (\<lambda>img. hasSiblingDrift (variants_for reports img))
             (sort (remdups (map (fst \<circ> fst) (observations reports))))))"

lemma keep_best_foldl:
  "foldl keep_best b0 obs k =
     (case (case b0 k of None \<Rightarrow> [] | Some v \<Rightarrow> [v]) @ map snd (filter (\<lambda>o'. fst o' = k) obs) of
        [] \<Rightarrow> None
      | v # vs \<Rightarrow> Some (foldl (\<lambda>p x. if v_Container x < v_Container p then x else p) v vs))"
proof (induction obs arbitrary: b0)
  case Nil
  then show ?case by (simp split: option.splits)
next
  case (Cons ov obs)
  then show ?case by (auto simp: keep_best_def split: option.splits)
qed

lemma foldl_least:
  "foldl (\<lambda>p x. if v_Container x < v_Container p then x else p) v vs \<in> set (v # vs) \<and>
   (\<forall>w \<in> set (v # vs). v_Container (foldl (\<lambda>p x. if v_Container x < v_Container p then x else p) v vs) \<le> v_Container w)"
proof (induction vs arbitrary: v)
  case Nil
  then show ?case by simp
next
  case (Cons x vs)
  show ?case
  proof (cases "v_Container x < v_Container v")
    case True
    then show ?thesis using Cons [of x] by (force simp del: foldl_Cons simp: foldl_Cons [of _ v])
  next
    case False
    then show ?thesis using Cons [of v] by force
  qed
qed

text \<open>The representative of an image on a target: a running container with the least name.\<close>

definition representative :: "TargetReport list \<Rightarrow> string \<Rightarrow> string \<Rightarrow> SiblingVariant \<Rightarrow> bool" where
  "representative reports img tgt v \<longleftrightarrow>
     ((img, tgt), v) \<in> set (observations reports) \<and>
     (\<forall>w. ((img, tgt), w) \<in> set (observations reports) \<longrightarrow> v_Container v \<le> v_Container w)"

lemma best_variants_representative:
  "best_variants reports (img, tgt) = Some v \<Longrightarrow> representative reports img tgt v"
  "best_variants reports (img, tgt) = None \<Longrightarrow> ((img, tgt), w) \<notin> set (observations reports)"
proof -
  let ?vs = "map snd (filter (\<lambda>o'. fst o' = (img, tgt)) (observations reports))"
  have mem: "((img, tgt), w) \<in> set (observations reports) \<longleftrightarrow> w \<in> set ?vs" for w by force
  have b: "best_variants reports (img, tgt) = (case ?vs of [] \<Rightarrow> None
      | v # vs \<Rightarrow> Some (foldl (\<lambda>p x. if v_Container x < v_Container p then x else p) v vs))"
    unfolding best_variants_def keep_best_foldl by simp
  show "representative reports img tgt v" if "best_variants reports (img, tgt) = Some v"
    using that foldl_least [of "hd ?vs" "tl ?vs"] unfolding b representative_def mem
    by (cases ?vs) auto
  show "((img, tgt), w) \<notin> set (observations reports)" if "best_variants reports (img, tgt) = None"
    using that unfolding b mem by (cases ?vs) auto
qed

lemma hasSiblingDrift_iff:
  "hasSiblingDrift vs \<longleftrightarrow> (\<exists>i j. i < j \<and> j < length vs \<and> drifts (vs ! i) (vs ! j))"
proof (induction vs)
  case Nil
  then show ?case by simp
next
  case (Cons a vs)
  have "(\<exists>i j. i < j \<and> j < length (a # vs) \<and> drifts ((a # vs) ! i) ((a # vs) ! j)) \<longleftrightarrow>
      (\<exists>j < length vs. drifts a (vs ! j)) \<or> (\<exists>i j. i < j \<and> j < length vs \<and> drifts (vs ! i) (vs ! j))"
    (is "?L \<longleftrightarrow> ?A \<or> ?B")
  proof
    assume ?L
    then obtain i j where ij: "i < j" "j < Suc (length vs)" "drifts ((a # vs) ! i) ((a # vs) ! j)" by auto
    then obtain j' where j: "j = Suc j'" by (cases j) auto
    show "?A \<or> ?B" using ij j by (cases i) auto
  next
    assume "?A \<or> ?B"
    then show ?L
    proof
      assume ?A
      then obtain j where "j < length vs" "drifts a (vs ! j)" by blast
      then show ?L by (intro exI [of _ 0] exI [of _ "Suc j"]) simp
    next
      assume ?B
      then obtain i j where "i < j" "j < length vs" "drifts (vs ! i) (vs ! j)" by blast
      then show ?L by (intro exI [of _ "Suc i"] exI [of _ "Suc j"]) simp
    qed
  qed
  moreover have "list_ex (drifts a) vs \<longleftrightarrow> (\<exists>j < length vs. drifts a (vs ! j))"
    unfolding list_ex_iff by (metis in_set_conv_nth)
  ultimately show ?case using Cons by simp
qed

lemma drifts_sym: "drifts v w \<longleftrightarrow> drifts w v" and drifts_irrefl: "\<not> drifts v v"
  by (auto simp: drifts_def)

lemma hasSiblingDrift_set:
  "hasSiblingDrift vs \<longleftrightarrow> (\<exists>v w. v \<in> set vs \<and> w \<in> set vs \<and> drifts v w)"
proof
  assume "hasSiblingDrift vs"
  then show "\<exists>v w. v \<in> set vs \<and> w \<in> set vs \<and> drifts v w"
    unfolding hasSiblingDrift_iff by (meson less_trans nth_mem)
next
  assume "\<exists>v w. v \<in> set vs \<and> w \<in> set vs \<and> drifts v w"
  then obtain i j where ij: "i < length vs" "j < length vs" "drifts (vs ! i) (vs ! j)"
    by (auto simp: in_set_conv_nth)
  then have "i \<noteq> j" using drifts_irrefl by auto
  then show "hasSiblingDrift vs" unfolding hasSiblingDrift_iff
    using ij drifts_sym by (metis linorder_neqE_nat)
qed

lemma opt_list_mem: "x \<in> set (case r of None \<Rightarrow> [] | Some y \<Rightarrow> [f y]) \<longleftrightarrow> (\<exists>y. r = Some y \<and> x = f y)"
  by (cases r) auto

lemma observations_mem:
  "((img, t), v) \<in> set (observations reports) \<longleftrightarrow>
     (\<exists>T \<in> set reports. \<exists>d \<in> set (t_Diffs T). \<exists>r. d_Runtime d = Some r \<and> img = d_Image d \<and>
        t = t_Target T \<and> v = variant_of t r)"
  unfolding observations_def set_concat set_map UN_iff bex_simps opt_list_mem by auto

lemma best_target: "best_variants reports (img, t) = Some v \<Longrightarrow>
    t \<in> t_Target ` set reports \<and> v_Target v = t \<and> img \<in> (fst \<circ> fst) ` set (observations reports)"
proof -
  assume "best_variants reports (img, t) = Some v"
  then have "((img, t), v) \<in> set (observations reports)"
    using best_variants_representative(1) by (simp add: representative_def)
  note o = this
  obtain T r where "T \<in> set reports" "t = t_Target T" "v = variant_of t r"
    using o unfolding observations_mem by blast
  then have "t \<in> t_Target ` set reports" and "v_Target v = t" by (simp_all add: variant_of_def)
  moreover have "img \<in> (fst \<circ> fst) ` set (observations reports)"
    using o by (rule rev_image_eqI) simp
  ultimately show ?thesis by blast
qed

lemma variants_for_set: "set (variants_for reports img) = {v. \<exists>t. best_variants reports (img, t) = Some v}"
proof (intro set_eqI iffI)
  fix v assume "v \<in> set (variants_for reports img)"
  then obtain t where "v = the (best_variants reports (img, t))" "best_variants reports (img, t) \<noteq> None"
    unfolding variants_for_def by auto
  then show "v \<in> {v. \<exists>t. best_variants reports (img, t) = Some v}" by auto
next
  fix v assume "v \<in> {v. \<exists>t. best_variants reports (img, t) = Some v}"
  then obtain t where t: "best_variants reports (img, t) = Some v" by blast
  then have "t \<in> t_Target ` set reports" using best_target by blast
  then show "v \<in> set (variants_for reports img)" using t unfolding variants_for_def
    by (auto intro!: image_eqI [of _ _ t])
qed

definition drifting :: "TargetReport list \<Rightarrow> string \<Rightarrow> bool" where
  "drifting reports img \<longleftrightarrow>
     (\<exists>t1 t2 v1 v2. best_variants reports (img, t1) = Some v1 \<and> best_variants reports (img, t2) = Some v2 \<and>
        drifts v1 v2)"

definition sibling_row_ok :: "TargetReport list \<Rightarrow> SiblingDriftRow \<Rightarrow> bool" where
  "sibling_row_ok reports row \<longleftrightarrow>
     sorted_wrt (<) (map v_Target (s_Variants row)) \<and>
     (\<forall>v. v \<in> set (s_Variants row) \<longleftrightarrow> best_variants reports (s_Image row, v_Target v) = Some v) \<and>
     (\<forall>v. v \<in> set (s_Variants row) \<longrightarrow> representative reports (s_Image row) (v_Target v) v)"

lemma variants_for_ok: "sibling_row_ok reports \<lparr>s_Image = img, s_Variants = variants_for reports img\<rparr>"
proof -
  have m: "map v_Target (variants_for reports img) =
      filter (\<lambda>t. best_variants reports (img, t) \<noteq> None) (sort (remdups (map t_Target reports)))"
    unfolding variants_for_def map_map by (rule map_idI) (use best_target in fastforce)
  have "sorted_wrt (<) (map v_Target (variants_for reports img))"
    unfolding m by (rule sorted_wrt_filter) (simp add: strict_sorted_iff)
  then show ?thesis using best_target best_variants_representative(1)
    by (auto simp: sibling_row_ok_def variants_for_set)
qed

text \<open>
  With at least two reports the drift rows are, sorted by image, exactly the images whose
  representatives (per target, the running container with the least name) differ between two targets in
  the tag, or in a digest known on both sides; a row lists the representative of every target that runs the image,
  sorted by target.
\<close>

lemma SiblingDiff_exact:
  "list_all (sibling_row_ok reports) (SiblingDiff reports) \<and>
   sorted_wrt (<) (map s_Image (SiblingDiff reports)) \<and>
   set (map s_Image (SiblingDiff reports)) = (if length reports < 2 then {} else {img. drifting reports img})"
proof (cases "length reports < 2")
  case True
  then show ?thesis by (simp add: SiblingDiff_def)
next
  case False
  let ?imgs = "filter (\<lambda>img. hasSiblingDrift (variants_for reports img))
             (sort (remdups (map (fst \<circ> fst) (observations reports))))"
  have d: "hasSiblingDrift (variants_for reports img) \<longleftrightarrow> drifting reports img" for img
    by (auto simp: hasSiblingDrift_set variants_for_set drifting_def)
  have "drifting reports img \<Longrightarrow> img \<in> (fst \<circ> fst) ` set (observations reports)" for img
    using best_target by (fastforce simp: drifting_def)
  then have "set ?imgs = {img. drifting reports img}" unfolding d by auto
  moreover have "map s_Image (SiblingDiff reports) = ?imgs" using False by (simp add: SiblingDiff_def comp_def)
  moreover have "sorted_wrt (<) ?imgs" by (rule sorted_wrt_filter) (simp add: strict_sorted_iff)
  ultimately show ?thesis using False variants_for_ok by (auto simp: SiblingDiff_def list_all_iff)
qed

end
