(* ===== verification/FleetSSH.thy ===== *)
theory FleetSSH
  imports FleetDiff
begin

text \<open>
  The ssh probe of the fleet: image references and filters (\<open>internal/fleet/imageref.go\<close>,
  \<open>filter.go\<close>), the allowlist, the quoting of the remote command and the driver (\<open>ssh/allowlist.go\<close>,
  \<open>ssh/quote.go\<close>, \<open>ssh/parse.go\<close>, \<open>ssh/driver.go\<close>). Running ssh, decoding a JSON line and parsing a
  date are arguments. How the remote shell splits a command into words is stated as \<open>sh_words\<close>.
\<close>

subsection \<open>Image references\<close>

definition splitImageTagCanonical :: "string \<Rightarrow> string \<times> string" where
  "splitImageTagCanonical ref =
     (case str_last_index ref '':'' of
        None \<Rightarrow> (ref, [])
      | Some lastColon \<Rightarrow>
          let suffix' = drop (lastColon + 1) ref in
          if CHR ''/'' \<in> set suffix' then (ref, []) else (take lastColon ref, suffix'))"

definition ParseImageRef :: "string \<Rightarrow> string \<times> string \<times> string \<times> string" where
  "ParseImageRef ref0 =
     (let (ref, digest, reason) =
            (case str_index ref0 ''@'' of
               None \<Rightarrow> (ref0, [], [])
             | Some atIdx \<Rightarrow>
                 let candidate = drop (atIdx + 1) ref0 in
                 if prefix ''sha256:'' candidate then (take atIdx ref0, candidate, [])
                 else (take atIdx ref0, [], ''invalid digest format (expected sha256:): '' @ candidate));
          (img, tag0) = splitImageTagCanonical ref;
          tag = (if tag0 = [] \<and> digest = [] then ''latest'' else tag0)
      in (img, tag, digest, reason))"

definition filter_char :: "char \<Rightarrow> bool" where
  "filter_char c \<longleftrightarrow>
     (let n = (of_char c :: nat) in
        (97 \<le> n \<and> n \<le> 122) \<or> (65 \<le> n \<and> n \<le> 90) \<or> (48 \<le> n \<and> n \<le> 57) \<or>
        c = CHR ''.'' \<or> c = CHR ''_'' \<or> c = CHR ''-'')"

definition IsValidFilter :: "string \<Rightarrow> bool" where
  "IsValidFilter s \<longleftrightarrow> list_all filter_char s"

definition MatchesFilter :: "string \<Rightarrow> RuntimeImage \<Rightarrow> bool" where
  "MatchesFilter s r \<longleftrightarrow> (if s = [] then True else r_Container r = s \<or> r_Service r = s)"

text \<open>
  A reference with a tag and a digest is taken apart into exactly its parts, a registry port
  is not mistaken for a tag, and a reference with neither gets the tag \<open>latest\<close>.
\<close>

lemma ParseImageRef_parts:
  assumes "CHR ''@'' \<notin> set img" and "CHR ''@'' \<notin> set tag" and "CHR '':'' \<notin> set tag" and "CHR ''/'' \<notin> set tag"
    and "CHR ''@'' \<notin> set host" and "CHR ''/'' \<in> set path" and "CHR '':'' \<notin> set path" and "CHR ''@'' \<notin> set path"
    and "tag \<noteq> []"
  shows "ParseImageRef (img @ '':'' @ tag) = (img, tag, [], []) \<and>
    ParseImageRef (img @ '':'' @ tag @ ''@sha256:'' @ hash) = (img, tag, ''sha256:'' @ hash, []) \<and>
    ParseImageRef (host @ '':'' @ path) = (host @ '':'' @ path, ''latest'', [], [])"
proof -
  have n: "str_index s ''@'' = None" if "CHR ''@'' \<notin> set s" for s using that by simp
  have s: "splitImageTagCanonical (img @ '':'' @ tag) = (img, tag)"
    using assms(3,4) str_last_index_single_append [of "CHR '':''" tag img]
    by (simp add: splitImageTagCanonical_def)
  have h: "splitImageTagCanonical (host @ '':'' @ path) = (host @ '':'' @ path, [])"
    using assms(6,7) str_last_index_single_append [of "CHR '':''" path host]
    by (simp add: splitImageTagCanonical_def)
  have a: "str_index ((img @ '':'' @ tag) @ CHR ''@'' # ''sha256:'' @ hash) ''@'' = Some (length (img @ '':'' @ tag))"
    by (rule str_index_single_append) (use assms(1,2) in auto)
  have "ParseImageRef (img @ '':'' @ tag) = (img, tag, [], [])"
    using assms(1,2,9) s unfolding ParseImageRef_def by (simp add: n)
  moreover have "ParseImageRef ((img @ '':'' @ tag) @ CHR ''@'' # ''sha256:'' @ hash) = (img, tag, ''sha256:'' @ hash, [])"
    unfolding ParseImageRef_def a using s by simp
  moreover have "ParseImageRef (host @ '':'' @ path) = (host @ '':'' @ path, ''latest'', [], [])"
    using assms(5,8) h unfolding ParseImageRef_def by (simp add: n)
  ultimately show ?thesis by simp
qed

subsection \<open>The allowlist\<close>

datatype ssh_error =
    EmptyArgs | ForbiddenSubstring string string | BadPort string | WrongArity nat | BadHost string | WrongArg nat string
  | SSHDisabled | InvalidTarget string | InvalidFilter string | SSHError | OutputTooLarge

definition allowedDockerArgs :: "string list" where
  "allowedDockerArgs = [''docker'', ''ps'', ''--no-trunc'', ''--format={{json .}}'']"

definition forbiddenSubstrings :: "string list" where
  "forbiddenSubstrings =
     ['';'', ''|'', ''$('', [CHR 0x60], ''&&'', ''||'', ''>'', ''<'', [CHR 0x0A], [CHR 0x0D]]"

definition isHostChar :: "char \<Rightarrow> bool" where
  "isHostChar c \<longleftrightarrow>
     (let n = (of_char c :: nat) in
        (97 \<le> n \<and> n \<le> 122) \<or> (65 \<le> n \<and> n \<le> 90) \<or> (48 \<le> n \<and> n \<le> 57) \<or>
        c = CHR ''.'' \<or> c = CHR ''_'' \<or> c = CHR ''@'' \<or> c = CHR ''-'')"

definition isValidHost :: "string \<Rightarrow> bool" where
  "isValidHost s \<longleftrightarrow> s \<noteq> [] \<and> hd s \<noteq> CHR ''-'' \<and> list_all isHostChar s"

definition isAllDigits :: "string \<Rightarrow> bool" where
  "isAllDigits s \<longleftrightarrow> s \<noteq> [] \<and> list_all (\<lambda>c. 48 \<le> (of_char c :: nat) \<and> (of_char c :: nat) \<le> 57) s"

fun find_forbidden :: "string list \<Rightarrow> ssh_error option" where
  "find_forbidden [] = None"
| "find_forbidden (a # as) =
     (case find (\<lambda>bad. str_index a bad \<noteq> None) forbiddenSubstrings of
        Some bad \<Rightarrow> Some (ForbiddenSubstring a bad)
      | None \<Rightarrow> find_forbidden as)"

fun check_docker :: "nat \<Rightarrow> string list \<Rightarrow> string list \<Rightarrow> ssh_error option" where
  "check_docker i (want # ws) (got # gs) =
     (if got \<noteq> want then Some (WrongArg i got) else check_docker (i + 1) ws gs)"
| "check_docker i _ _ = None"

text \<open>\<open>None\<close> is acceptance.\<close>

definition validate_rest :: "string list \<Rightarrow> ssh_error option" where
  "validate_rest rest =
     (if length rest \<noteq> 5 then Some (WrongArity (length rest))
      else if \<not> isValidHost (rest ! 0) then Some (BadHost (rest ! 0))
      else check_docker 0 allowedDockerArgs (tl rest))"

definition Validate :: "string list \<Rightarrow> ssh_error option" where
  "Validate args =
     (if args = [] then Some EmptyArgs
      else case find_forbidden args of
        Some e \<Rightarrow> Some e
      | None \<Rightarrow>
          if 2 \<le> length args \<and> args ! 0 = ''-p'' then
            (if \<not> isAllDigits (args ! 1) then Some (BadPort (args ! 1)) else validate_rest (drop 2 args))
          else validate_rest args)"

lemma check_docker_None: "length xs = length ys \<Longrightarrow> check_docker i xs ys = None \<longleftrightarrow> ys = xs"
  by (induction i xs ys rule: check_docker.induct) auto

lemma validate_rest_None:
  "validate_rest rest = None \<longleftrightarrow> (\<exists>host. isValidHost host \<and> rest = host # allowedDockerArgs)"
proof -
  have l: "length allowedDockerArgs = 4" by (simp add: allowedDockerArgs_def)
  show ?thesis
  proof (cases rest)
    case Nil
    then show ?thesis by (simp add: validate_rest_def)
  next
    case (Cons h t)
    then show ?thesis using check_docker_None [of allowedDockerArgs t 0] l
      by (auto simp: validate_rest_def)
  qed
qed

lemma find_forbidden_None:
  "find_forbidden as = None \<longleftrightarrow> (\<forall>a \<in> set as. \<forall>bad \<in> set forbiddenSubstrings. \<not> sublist bad a)"
proof (induction as)
  case Nil
  then show ?case by simp
next
  case (Cons a as)
  have "find (\<lambda>bad. str_index a bad \<noteq> None) forbiddenSubstrings = None \<longleftrightarrow>
      (\<forall>bad \<in> set forbiddenSubstrings. \<not> sublist bad a)"
    by (auto simp: find_None_iff str_index_None_iff)
  then show ?case using Cons by (auto split: option.splits)
qed

text \<open>Every forbidden substring contains one of these characters.\<close>

definition bad_chars :: "char set" where
  "bad_chars = {CHR '';'', CHR ''|'', CHR ''$'', CHR 0x60, CHR ''&'', CHR ''>'', CHR ''<'', CHR 0x0A, CHR 0x0D}"

lemma find_forbidden_clean:
  assumes "\<forall>a \<in> set as. set a \<inter> bad_chars = {}"
  shows "find_forbidden as = None"
  unfolding find_forbidden_None
proof (intro ballI notI)
  fix a bad
  assume a: "a \<in> set as" and bad: "bad \<in> set forbiddenSubstrings" and "sublist bad a"
  then have "set bad \<subseteq> set a" by (simp add: set_mono_sublist)
  moreover have "\<forall>b \<in> set forbiddenSubstrings. set b \<inter> bad_chars \<noteq> {}"
    by (simp add: forbiddenSubstrings_def bad_chars_def)
  ultimately show False using assms a bad by blast
qed

definition ssh_shape :: "string list \<Rightarrow> bool" where
  "ssh_shape args \<longleftrightarrow>
     (\<exists>host. isValidHost host \<and>
        (args = host # allowedDockerArgs \<or>
         (\<exists>port. isAllDigits port \<and> args = ''-p'' # port # host # allowedDockerArgs)))"

lemma host_no_meta: "isValidHost h \<Longrightarrow> set h \<inter> bad_chars = {}"
proof -
  have "\<forall>c \<in> bad_chars. \<not> isHostChar c" by (simp add: bad_chars_def isHostChar_def)
  then show "isValidHost h \<Longrightarrow> set h \<inter> bad_chars = {}" by (auto simp: isValidHost_def list_all_iff)
qed

lemma digits_no_meta: "isAllDigits p \<Longrightarrow> set p \<inter> bad_chars = {}"
proof -
  have "\<forall>c \<in> bad_chars. \<not> (48 \<le> (of_char c :: nat) \<and> (of_char c :: nat) \<le> 57)"
    by (simp add: bad_chars_def)
  then show "isAllDigits p \<Longrightarrow> set p \<inter> bad_chars = {}" unfolding isAllDigits_def list_all_iff by blast
qed

lemma fixed_no_meta: "\<forall>a \<in> set (''-p'' # allowedDockerArgs). set a \<inter> bad_chars = {}"
  by (simp add: allowedDockerArgs_def bad_chars_def)

lemma Validate_iff: "Validate args = None \<longleftrightarrow> ssh_shape args"
proof
  assume v: "Validate args = None"
  then have ff: "find_forbidden args = None" and ne: "args \<noteq> []"
    by (auto simp: Validate_def split: if_splits option.splits)
  show "ssh_shape args"
  proof (cases "2 \<le> length args \<and> args ! 0 = ''-p''")
    case True
    then obtain port rest where a: "args = ''-p'' # port # rest"
      by (cases args; cases "tl args") auto
    then show ?thesis using v ff validate_rest_None [of rest]
      by (auto simp: Validate_def ssh_shape_def split: if_splits)
  next
    case False
    then show ?thesis using v ff ne validate_rest_None [of args]
      by (auto simp: Validate_def ssh_shape_def split: if_splits)
  qed
next
  assume "ssh_shape args"
  then obtain host where h: "isValidHost host"
    and "args = host # allowedDockerArgs \<or> (\<exists>port. isAllDigits port \<and> args = ''-p'' # port # host # allowedDockerArgs)"
    unfolding ssh_shape_def by blast
  then consider "args = host # allowedDockerArgs"
    | port where "isAllDigits port" "args = ''-p'' # port # host # allowedDockerArgs" by blast
  then show "Validate args = None"
  proof cases
    case 1
    have "find_forbidden args = None"
      using host_no_meta [OF h] fixed_no_meta unfolding 1 by (intro find_forbidden_clean) simp
    moreover have "host \<noteq> ''-p''" using h by (auto simp: isValidHost_def)
    ultimately show ?thesis using 1 h validate_rest_None [of args] by (auto simp: Validate_def)
  next
    case 2
    have "find_forbidden args = None"
      using host_no_meta [OF h] digits_no_meta [OF 2(1)] fixed_no_meta unfolding 2(2)
      by (intro find_forbidden_clean) simp
    then show ?thesis using 2 h validate_rest_None [of "host # allowedDockerArgs"] by (auto simp: Validate_def)
  qed
qed

text \<open>
  The allowlist accepts an argument vector iff it is a valid host name that does not look like a flag,
  optionally preceded by \<open>-p\<close> and digits, followed by the one fixed docker command.
\<close>

lemma Validate_exact: "Validate args = None \<longleftrightarrow> ssh_shape args"
  by (rule Validate_iff)

subsection \<open>Quoting for the remote shell\<close>

definition quote :: char where "quote = CHR 0x27"
definition bslash :: char where "bslash = CHR 0x5C"

definition safeArgChars :: string where
  "safeArgChars = ''_-./=,abcdefghijklmnopqrstuvwxyzABCDEFGHIJKLMNOPQRSTUVWXYZ0123456789''"

definition isSafeArg :: "string \<Rightarrow> bool" where
  "isSafeArg s \<longleftrightarrow> list_all (\<lambda>c. c \<in> set safeArgChars) s"

definition shellQuote :: "string \<Rightarrow> string" where
  "shellQuote s =
     (if s = [] then [quote, quote]
      else if isSafeArg s then s
      else [quote] @ replace_char quote [quote, bslash, quote, quote] s @ [quote])"

text \<open>
  The words of a POSIX shell command line without expansions: blanks separate words, single quotes
  take everything literally, a backslash takes the next character; any other character that the shell
  interprets makes the result undefined (\<open>None\<close>). \<open>cur\<close> is the word being read, if one has begun.
\<close>

definition shell_special :: "char \<Rightarrow> bool" where
  "shell_special c \<longleftrightarrow>
     c \<in> set '';|&$<>()*?[]#~!{}%^'' \<or> c \<in> {CHR 0x60, CHR 0x22, CHR 0x0A, CHR 0x0D, CHR 0x09}"

definition grow :: "string option \<Rightarrow> char \<Rightarrow> string option" where
  "grow cur c = Some ((case cur of None \<Rightarrow> [] | Some w \<Rightarrow> w) @ [c])"

fun sh_words :: "bool \<Rightarrow> string option \<Rightarrow> string \<Rightarrow> string list option" where
  "sh_words False None [] = Some []"
| "sh_words False (Some w) [] = Some [w]"
| "sh_words True cur [] = None"
| "sh_words True cur (c # s) = (if c = quote then sh_words False cur s else sh_words True (grow cur c) s)"
| "sh_words False cur (c # s) =
     (if c = quote then sh_words True (Some (case cur of None \<Rightarrow> [] | Some w \<Rightarrow> w)) s
      else if c = bslash then (case s of [] \<Rightarrow> None | d # s' \<Rightarrow> sh_words False (grow cur d) s')
      else if c = CHR '' '' then
        (case cur of None \<Rightarrow> sh_words False None s | Some w \<Rightarrow> map_option ((#) w) (sh_words False None s))
      else if shell_special c then None
      else sh_words False (grow cur c) s)"

lemma safe_not_special:
  assumes "c \<in> set safeArgChars"
  shows "c \<noteq> quote \<and> c \<noteq> bslash \<and> c \<noteq> CHR '' '' \<and> \<not> shell_special c"
proof -
  have "\<forall>c \<in> set safeArgChars. c \<noteq> quote \<and> c \<noteq> bslash \<and> c \<noteq> CHR '' '' \<and> \<not> shell_special c"
    unfolding safeArgChars_def by (simp add: quote_def bslash_def shell_special_def)
  then show ?thesis using assms by blast
qed

lemma sh_words_safe:
  "isSafeArg s \<Longrightarrow> sh_words False (Some w) (s @ t) = sh_words False (Some (w @ s)) t"
proof (induction s arbitrary: w)
  case Nil
  then show ?case by simp
next
  case (Cons c s)
  then have "c \<in> set safeArgChars" and "isSafeArg s" by (simp_all add: isSafeArg_def)
  then show ?case using Cons.IH [of "w @ [c]"] safe_not_special [of c] by (simp add: grow_def)
qed

lemma sh_words_quoted:
  "sh_words True (Some w) (replace_char quote [quote, bslash, quote, quote] s @ quote # t) =
     sh_words False (Some (w @ s)) t"
proof (induction s arbitrary: w)
  case Nil
  then show ?case by simp
next
  case (Cons c s)
  show ?case
  proof (cases "c = quote")
    case True
    have "sh_words True (Some w) (replace_char quote [quote, bslash, quote, quote] (c # s) @ quote # t)
        = sh_words True (Some (w @ [quote])) (replace_char quote [quote, bslash, quote, quote] s @ quote # t)"
      using True by (simp add: quote_def bslash_def grow_def)
    then show ?thesis using Cons [of "w @ [quote]"] True by simp
  next
    case False
    then show ?thesis using Cons [of "w @ [c]"] by (simp add: grow_def)
  qed
qed

lemma sh_words_shellQuote:
  "sh_words False None (shellQuote s @ t) = sh_words False (Some s) t"
proof -
  consider "s = []" | c s' where "s = c # s'" "isSafeArg s" | "s \<noteq> []" "\<not> isSafeArg s"
    by (cases s) auto
  then show ?thesis
  proof cases
    case 1
    then show ?thesis by (simp add: shellQuote_def)
  next
    case 2
    then have "c \<in> set safeArgChars" and "isSafeArg s'" by (simp_all add: isSafeArg_def)
    then show ?thesis using 2 sh_words_safe [of s' "[c]" t] safe_not_special [of c]
      by (simp add: shellQuote_def grow_def)
  next
    case 3
    then show ?thesis using sh_words_quoted [of "[]" s t] by (simp add: shellQuote_def)
  qed
qed

lemma shellQuote_words: "sh_words False None (str_join '' '' (map shellQuote args)) = Some args"
proof (induction args)
  case Nil
  then show ?case by simp
next
  case (Cons a as)
  show ?case
  proof (cases as)
    case Nil
    then show ?thesis using sh_words_shellQuote [of a "[]"] by simp
  next
    case (Cons b bs)
    then have j: "str_join '' '' (map shellQuote (a # as)) = shellQuote a @ CHR '' '' # str_join '' '' (map shellQuote as)"
      by simp
    show ?thesis unfolding j sh_words_shellQuote using Cons.IH
      by (simp add: quote_def bslash_def)
  qed
qed

text \<open>
  C10: Whatever the arguments contain, the remote shell that splits the blank-separated quoted
  arguments gets back exactly the arguments.
\<close>

theorem shellQuote_roundtrip: "sh_words False None (str_join '' '' (map shellQuote args)) = Some args"
  by (rule shellQuote_words)

subsection \<open>The driver\<close>

definition buildSSHArgv :: "string \<Rightarrow> string list \<Rightarrow> string \<Rightarrow> string list" where
  "buildSSHArgv host args homeDst =
     (let (opts, rest) = (if 2 \<le> length args \<and> args ! 0 = ''-p'' then (take 2 args, drop 2 args) else ([], args))
      in (if homeDst \<noteq> [] then [''-F'', path_clean (homeDst @ ''/.ssh/config'')] else []) @ opts @ [''--'', host] @
         map shellQuote rest)"

definition resolveContainer :: "string \<Rightarrow> string \<Rightarrow> string" where
  "resolveContainer names ident = (if names \<noteq> [] then names else take 12 ident)"

fun compose_service :: "string list \<Rightarrow> string" where
  "compose_service [] = []"
| "compose_service (p # ps) =
     (let pair = trim_space p in
        case str_index pair ''='' of
          None \<Rightarrow> compose_service ps
        | Some eqIdx \<Rightarrow>
            if take eqIdx pair = ''com.docker.compose.service'' then drop (eqIdx + 1) pair else compose_service ps)"

definition ParseComposeService :: "string \<Rightarrow> string" where
  "ParseComposeService labels = (if labels = [] then [] else compose_service (split_on CHR '','' labels))"

record dockerPSRecord =
  ps_ID :: string
  ps_Names :: string
  ps_Image :: string
  ps_State :: string
  ps_Labels :: string
  ps_CreatedAt :: string

text \<open>
  The environment of the driver: the JSON decoder of a line, the date parser (with the zero time for
  what it rejects), the Unicode tables, and the outcome of running ssh on a host and arguments.
\<close>

record ssh_env =
  se_decode :: "string \<Rightarrow> dockerPSRecord option"
  se_time :: "string \<Rightarrow> int"
  se_unicode :: unicode
  se_run :: "string \<Rightarrow> string list \<Rightarrow> string option"

definition mapRecord :: "ssh_env \<Rightarrow> dockerPSRecord \<Rightarrow> RuntimeImage" where
  "mapRecord E rec =
     (let (img, tag, digest, _) = ParseImageRef (ps_Image rec) in
        \<lparr>r_Container = resolveContainer (ps_Names rec) (ps_ID rec), r_Image = img, r_Tag = tag, r_Digest = digest,
         r_State = to_lower (se_unicode E) (ps_State rec), r_StartedAt = se_time E (ps_CreatedAt rec),
         r_Service = ParseComposeService (ps_Labels rec)\<rparr>)"

definition ParseDockerPSLine :: "ssh_env \<Rightarrow> string \<Rightarrow> RuntimeImage option" where
  "ParseDockerPSLine E line = map_option (mapRecord E) (se_decode E line)"

record Target =
  tg_Scheme :: string
  tg_Host :: string
  tg_User :: string
  tg_Port :: int

definition host_arg :: "Target \<Rightarrow> string" where
  "host_arg t = (if tg_User t \<noteq> [] then tg_User t @ ''@'' @ tg_Host t else tg_Host t)"

definition port_args :: "Target \<Rightarrow> string list" where
  "port_args t = (if tg_Port t > 0 then [''-p'', int_dec (tg_Port t)] else [])"

definition maxStdoutBytes :: nat where
  "maxStdoutBytes = 1048576"

text \<open>\<open>Driver.List\<close>: the result, and the host and arguments ssh was run with, if it was.\<close>

definition parse_output :: "ssh_env \<Rightarrow> string \<Rightarrow> string \<Rightarrow> RuntimeImage list" where
  "parse_output E service stdout =
     (let lines = filter (\<lambda>l. l \<noteq> []) (map trim_space (split_on CHR 0x0A stdout));
          imgs = List.map_filter (ParseDockerPSLine E) lines
      in if service = [] then imgs else filter (MatchesFilter service) imgs)"

definition SSH_List :: "ssh_env \<Rightarrow> bool \<Rightarrow> Target \<Rightarrow> string \<Rightarrow>
    (ssh_error + RuntimeImage list) \<times> (string \<times> string list) option" where
  "SSH_List E enabled t service =
     (if \<not> enabled then (Inl SSHDisabled, None)
      else if tg_Scheme t \<noteq> ''ssh'' then (Inl (InvalidTarget (tg_Scheme t)), None)
      else if tg_Host t = [] then (Inl (InvalidTarget []), None)
      else if \<not> IsValidFilter service then (Inl (InvalidFilter service), None)
      else case Validate (port_args t @ host_arg t # allowedDockerArgs) of
        Some e \<Rightarrow> (Inl e, None)
      | None \<Rightarrow>
          let execArgs = port_args t @ allowedDockerArgs in
          (case se_run E (host_arg t) execArgs of
             None \<Rightarrow> (Inl SSHError, Some (host_arg t, execArgs))
           | Some stdout \<Rightarrow>
               if length stdout > maxStdoutBytes then (Inl OutputTooLarge, Some (host_arg t, execArgs))
               else (Inr (parse_output E service stdout), Some (host_arg t, execArgs))))"

text \<open>
  What the ssh process does with its argument vector: \<open>-F\<close> and \<open>-p\<close> take the next word as
  their value, \<open>--\<close> ends the options, then come the host and the words of the command.
\<close>

fun ssh_command :: "string list \<Rightarrow> (string list \<times> string \<times> string) option" where
  "ssh_command (w # v # rest) =
     (if w = ''--'' then Some ([], v, str_join '' '' rest)
      else if w = ''-F'' \<or> w = ''-p'' then
        (case ssh_command rest of
           None \<Rightarrow> None
         | Some (opts, host, cmd) \<Rightarrow> Some (w # v # opts, host, cmd))
      else None)"
| "ssh_command _ = None"

lemma validate_port_args:
  assumes "Validate (port_args t @ host # allowedDockerArgs) = None"
  shows "isValidHost host \<and> (port_args t = [] \<or> (\<exists>port. isAllDigits port \<and> port_args t = [''-p'', port]))"
proof -
  have l: "length allowedDockerArgs = 4" by (simp add: allowedDockerArgs_def)
  from assms obtain h where h: "isValidHost h" and "port_args t @ host # allowedDockerArgs = h # allowedDockerArgs \<or>
      (\<exists>port. isAllDigits port \<and> port_args t @ host # allowedDockerArgs = ''-p'' # port # h # allowedDockerArgs)"
    unfolding Validate_iff ssh_shape_def by blast
  then consider "port_args t @ host # allowedDockerArgs = h # allowedDockerArgs"
    | port where "isAllDigits port" "port_args t @ host # allowedDockerArgs = ''-p'' # port # h # allowedDockerArgs"
    by blast
  then show ?thesis
  proof cases
    case 1
    then have "port_args t = []" using arg_cong [OF 1, of length] l by (simp add: port_args_def split: if_splits)
    then show ?thesis using 1 h by simp
  next
    case 2
    have "tg_Port t > 0" using arg_cong [OF 2(2), of length] by (simp add: port_args_def split: if_splits)
    then show ?thesis using 2 h by (auto simp: port_args_def)
  qed
qed

text \<open>
  C9: The driver runs nothing but the fixed listing on a remote host: whenever it starts ssh, the
  process is given only a config file and a numeric port as options, then a host that is no flag, and
  the words the remote shell reads are \<open>docker ps --no-trunc --format={{json .}}\<close>.
\<close>

theorem List_runs_only_docker_ps:
  "case snd (SSH_List E enabled t service) of
     None \<Rightarrow> True
   | Some (host, args) \<Rightarrow>
       isValidHost host \<and>
       (\<exists>opts cmd. ssh_command (buildSSHArgv host args homeDst) = Some (opts, host, cmd) \<and>
          sh_words False None cmd = Some allowedDockerArgs \<and>
          opts \<in> {cfg @ port | cfg port. (cfg = [] \<or> (\<exists>path. cfg = [''-F'', path])) \<and>
                                    (port = [] \<or> (\<exists>p. isAllDigits p \<and> port = [''-p'', p]))})"
proof (cases "snd (SSH_List E enabled t service)")
  case None
  then show ?thesis by simp
next
  case (Some ha)
  then have v: "Validate (port_args t @ host_arg t # allowedDockerArgs) = None"
    and ha: "ha = (host_arg t, port_args t @ allowedDockerArgs)"
    by (auto simp: SSH_List_def Let_def split: if_splits option.splits)
  note p = validate_port_args [OF v]
  define cfg where "cfg = (if homeDst \<noteq> [] then [''-F'', path_clean (homeDst @ ''/.ssh/config'')] else [])"
  have argv: "buildSSHArgv (host_arg t) (port_args t @ allowedDockerArgs) homeDst =
      (cfg @ port_args t) @ ''--'' # host_arg t # map shellQuote allowedDockerArgs"
    using p by (auto simp: buildSSHArgv_def cfg_def allowedDockerArgs_def)
  have "ssh_command (buildSSHArgv (host_arg t) (port_args t @ allowedDockerArgs) homeDst) =
      Some (cfg @ port_args t, host_arg t, str_join '' '' (map shellQuote allowedDockerArgs))"
    unfolding argv using p by (auto simp: cfg_def)
  moreover have "cfg = [] \<or> (\<exists>path. cfg = [''-F'', path])" by (simp add: cfg_def)
  ultimately show ?thesis unfolding Some option.case ha prod.case
    using p shellQuote_words by blast
qed

end
