(* ===== verification/WarmRegistry.thy ===== *)
theory WarmRegistry
  imports Prelude
begin

text \<open>
  The lifecycle of the background go/types enrichment of a repository
  (\<open>internal/callgraph/warm_registry.go\<close> and its use in \<open>repo.go\<close>). The registry is a concurrent map
  from repository roots to immutable records; goroutines claim a root with \<open>LoadOrStore\<close> and
  \<open>CompareAndSwap\<close> and settle it when they are done. The map compares pointers, so a record carries
  the identity of its allocation. A state holds the registry, the clock and the goroutines that call
  \<open>warmGoTypesCache\<close>, each at a point between two atomic steps; \<open>warm_exec\<close> is one step.

  The lemmas show that a root is claimed by one goroutine at a time, but for one more with every stamp of the synchronous
  path, that a fresh failure is not retried, and what a cache hit reports; the synchronous path
  of \<open>BuildFromRepo\<close>, which stamps a root as done without a claim, admits a second claimant.
\<close>

datatype WarmState = WarmNone | WarmPending | WarmDone | WarmFailed

datatype WarmCause = NoCause | WarmCausePriming | WarmCauseBudget

definition enrichment_warming :: string where
  "enrichment_warming = ''type-aware enrichment is warming in the background''"

definition retry_hint :: string where
  "retry_hint = ''; retry for the enhanced tier (go/types interface dispatch resolution)''"

fun WarmNote :: "WarmState \<Rightarrow> WarmCause \<Rightarrow> string" where
  "WarmNote WarmPending cause = enrichment_warming @
     (case cause of
        WarmCausePriming \<Rightarrow> '': the repo'' @ [char_of (39 :: nat)] @
          ''s export data is still being built (cold GOCACHE prime, not a memory problem)''
      | WarmCauseBudget \<Rightarrow> '': the typed-load memory budget is busy with other module loads''
      | NoCause \<Rightarrow> []) @ retry_hint"
| "WarmNote WarmFailed cause =
     ''type-aware enrichment is unavailable for this repo (go/types load failed); '' @
     ''the tree-sitter tier shown is final for the warm backoff window''"
| "WarmNote _ cause = []"

record warmRecord =
  rec_id :: nat
  phase :: WarmState
  at :: int
  err :: string

type_synonym registry = "string \<Rightarrow> warmRecord option"

text \<open>The live phase of a root; \<open>ttl\<close> is \<open>cgCacheTTL\<close>, the zero time is \<open>None\<close>.\<close>

definition warmStatus :: "int \<Rightarrow> int \<Rightarrow> registry \<Rightarrow> string \<Rightarrow> WarmState \<times> int option" where
  "warmStatus ttl now reg root =
     (case reg root of
        None \<Rightarrow> (WarmNone, None)
      | Some r \<Rightarrow>
          if phase r = WarmFailed \<and> now - at r \<ge> ttl then (WarmNone, None) else (phase r, Some (at r)))"

text \<open>
  A goroutine in \<open>warmGoTypesCache\<close>: in the loop of \<open>claimWarm\<close> before \<open>LoadOrStore\<close>, before the test of
  the record it met, before \<open>CompareAndSwap\<close>; then loading with the claim, or finished.
\<close>

datatype warm_pc =
    WLoad warmRecord | WCheck warmRecord warmRecord | WSwap warmRecord warmRecord
  | WWarming | WSkipped | WSettled

record warm_state =
  reg :: registry
  clock :: int
  next_id :: nat
  warms :: "(string \<times> warm_pc) list"

datatype warm_action =
    Spawn string | LoadOrStore nat | Check nat | CompareAndSwap nat
  | Settle nat "string option" | SyncDone string | Tick nat

definition goroutine :: "warm_state \<Rightarrow> nat \<Rightarrow> (string \<times> warm_pc) option" where
  "goroutine s i = (if i < length (warms s) then Some (warms s ! i) else None)"

definition goto :: "nat \<Rightarrow> string \<Rightarrow> warm_pc \<Rightarrow> warm_state \<Rightarrow> warm_state" where
  "goto i root pc s = s\<lparr>warms := (warms s)[i := (root, pc)]\<rparr>"

definition claim_denied :: "int \<Rightarrow> int \<Rightarrow> warmRecord \<Rightarrow> bool" where
  "claim_denied ttl now r \<longleftrightarrow> phase r = WarmPending \<or> (phase r = WarmFailed \<and> now - at r < ttl)"

text \<open>A fresh record: the one \<open>claimWarm\<close> tries to install, or those of \<open>setWarmDone\<close> and \<open>setWarmFailed\<close>.\<close>

definition new_record :: "WarmState \<Rightarrow> string \<Rightarrow> warm_state \<Rightarrow> warmRecord" where
  "new_record p e s = \<lparr>rec_id = next_id s, phase = p, at = clock s, err = e\<rparr>"

definition store_record :: "string \<Rightarrow> WarmState \<Rightarrow> string \<Rightarrow> warm_state \<Rightarrow> warm_state" where
  "store_record root p e s = s\<lparr>reg := (reg s)(root \<mapsto> new_record p e s), next_id := next_id s + 1\<rparr>"

definition setWarmDone :: "string \<Rightarrow> warm_state \<Rightarrow> warm_state" where
  "setWarmDone root = store_record root WarmDone []"

definition setWarmFailed :: "string \<Rightarrow> string \<Rightarrow> warm_state \<Rightarrow> warm_state" where
  "setWarmFailed root e = store_record root WarmFailed e"

fun warm_exec :: "int \<Rightarrow> warm_action \<Rightarrow> warm_state \<Rightarrow> warm_state option" where
  "warm_exec ttl (Spawn root) s =
     Some (s\<lparr>warms := warms s @ [(root, WLoad (new_record WarmPending [] s))], next_id := next_id s + 1\<rparr>)"
| "warm_exec ttl (LoadOrStore i) s =
     (case goroutine s i of
        Some (root, WLoad r) \<Rightarrow>
          (case reg s root of
             None \<Rightarrow> Some (goto i root WWarming (s\<lparr>reg := (reg s)(root \<mapsto> r)\<rparr>))
           | Some old \<Rightarrow> Some (goto i root (WCheck r old) s))
      | _ \<Rightarrow> None)"
| "warm_exec ttl (Check i) s =
     (case goroutine s i of
        Some (root, WCheck r old) \<Rightarrow>
          Some (goto i root (if claim_denied ttl (clock s) old then WSkipped else WSwap r old) s)
      | _ \<Rightarrow> None)"
| "warm_exec ttl (CompareAndSwap i) s =
     (case goroutine s i of
        Some (root, WSwap r old) \<Rightarrow>
          if reg s root = Some old then Some (goto i root WWarming (s\<lparr>reg := (reg s)(root \<mapsto> r)\<rparr>))
          else Some (goto i root (WLoad r) s)
      | _ \<Rightarrow> None)"
| "warm_exec ttl (Settle i res) s =
     (case goroutine s i of
        Some (root, WWarming) \<Rightarrow>
          Some (goto i root WSettled (case res of None \<Rightarrow> setWarmDone root s | Some e \<Rightarrow> setWarmFailed root e s))
      | _ \<Rightarrow> None)"
| "warm_exec ttl (SyncDone root) s = Some (setWarmDone root s)"
| "warm_exec ttl (Tick n) s = Some (s\<lparr>clock := clock s + int n\<rparr>)"

definition start_registry :: "int \<Rightarrow> warm_state" where
  "start_registry t = \<lparr>reg = (\<lambda>_. None), clock = t, next_id = 0, warms = []\<rparr>"

text \<open>The reachable states; \<open>sync\<close> tells whether the synchronous path may stamp roots as done.\<close>

inductive warm_reach :: "int \<Rightarrow> bool \<Rightarrow> warm_state \<Rightarrow> bool" for ttl sync where
  init: "warm_reach ttl sync (start_registry t)"
| step: "warm_reach ttl sync s \<Longrightarrow> warm_exec ttl a s = Some s' \<Longrightarrow> sync \<or> (\<forall>root. a \<noteq> SyncDone root) \<Longrightarrow>
    warm_reach ttl sync s'"

fun warm_run :: "int \<Rightarrow> warm_action list \<Rightarrow> warm_state \<Rightarrow> warm_state option" where
  "warm_run ttl [] s = Some s"
| "warm_run ttl (a # as) s = (case warm_exec ttl a s of None \<Rightarrow> None | Some s' \<Rightarrow> warm_run ttl as s')"

lemma warm_run_reach:
  assumes "warm_reach ttl sync s" and "warm_run ttl as s = Some s'"
    and "sync \<or> list_all (\<lambda>a. case a of SyncDone _ \<Rightarrow> False | _ \<Rightarrow> True) as"
  shows "warm_reach ttl sync s'"
  using assms
proof (induction as arbitrary: s)
  case Nil
  then show ?case by simp
next
  case (Cons a as)
  obtain t where t: "warm_exec ttl a s = Some t" "warm_run ttl as t = Some s'"
    using Cons.prems(2) by (auto split: option.splits)
  have "warm_reach ttl sync t"
    using Cons.prems(3) by (intro warm_reach.step [OF Cons.prems(1) t(1)]) auto
  then show ?case using Cons.IH t(2) Cons.prems(3) by auto
qed

subsection \<open>One claimant per root\<close>

definition pending_root :: "warm_state \<Rightarrow> string \<Rightarrow> bool" where
  "pending_root s root \<longleftrightarrow> (case reg s root of None \<Rightarrow> False | Some r \<Rightarrow> phase r = WarmPending)"

fun pc_ok :: "warm_pc \<Rightarrow> bool" where
  "pc_ok (WLoad r) \<longleftrightarrow> phase r = WarmPending"
| "pc_ok (WCheck r old) \<longleftrightarrow> phase r = WarmPending"
| "pc_ok (WSwap r old) \<longleftrightarrow> phase r = WarmPending \<and> phase old \<noteq> WarmPending"
| "pc_ok _ \<longleftrightarrow> True"

lemma count_list_update:
  "i < length xs \<Longrightarrow>
   count_list (xs[i := y]) z + (if xs ! i = z then 1 else 0) = count_list xs z + (if y = z then 1 else 0)"
proof (induction xs arbitrary: i)
  case Nil
  then show ?case by simp
next
  case (Cons x xs)
  show ?case
  proof (cases i)
    case 0
    then show ?thesis by simp
  next
    case (Suc j)
    then show ?thesis using Cons.IH [of j] Cons.prems by (simp split: if_splits)
  qed
qed

lemma goroutine_SomeD:
  "goroutine s i = Some gr \<Longrightarrow> i < length (warms s) \<and> warms s ! i = gr \<and> gr \<in> set (warms s)"
  by (auto simp: goroutine_def split: if_splits)

text \<open>
  A pending root has a loader, and there is no other loader but for those that lost their pending record to a stamp of the
  synchronous path, after which the root can be claimed again. \<open>k root\<close> counts the stamps of a root.
\<close>

definition loads_ok :: "(string \<Rightarrow> nat) \<Rightarrow> warm_state \<Rightarrow> bool" where
  "loads_ok k s \<longleftrightarrow> list_all (pc_ok \<circ> snd) (warms s) \<and>
     (\<forall>root. (if pending_root s root then 1 else 0) \<le> count_list (warms s) (root, WWarming) \<and>
             count_list (warms s) (root, WWarming) \<le> (if pending_root s root then 1 else 0) + k root)"

lemma loads_goto:
  assumes "loads_ok k s" and "goroutine s i = Some (root, pc)" and "pc_ok pc'"
    and "reg s' = reg s \<or> (\<exists>r. reg s' = (reg s)(root \<mapsto> r))" and "warms s' = warms s"
    and "pc \<noteq> WWarming \<Longrightarrow> pc' = WWarming \<Longrightarrow> \<not> pending_root s root \<and> pending_root s' root"
    and "pc \<noteq> WWarming \<Longrightarrow> pc' \<noteq> WWarming \<Longrightarrow> pending_root s' root = pending_root s root"
    and "pc = WWarming \<Longrightarrow> pc' \<noteq> WWarming \<and> \<not> pending_root s' root"
  shows "loads_ok k (goto i root pc' s')"
proof -
  have i: "i < length (warms s)" "warms s ! i = (root, pc)"
    using assms(2) by (auto simp: goroutine_def split: if_splits)
  have "list_all (pc_ok \<circ> snd) ((warms s)[i := (root, pc')])"
    using assms(1,3) set_update_subset_insert [of "warms s" i "(root, pc')"]
    by (auto simp: loads_ok_def list_all_iff)
  moreover have "(if pending_root s' x then 1 else 0) \<le> count_list ((warms s)[i := (root, pc')]) (x, WWarming) \<and>
      count_list ((warms s)[i := (root, pc')]) (x, WWarming) \<le> (if pending_root s' x then 1 else 0) + k x" for x
  proof (cases "x = root")
    case True
    have "(if pending_root s root then 1 else 0) \<le> count_list (warms s) (root, WWarming) \<and>
        count_list (warms s) (root, WWarming) \<le> (if pending_root s root then 1 else 0) + k root"
      using assms(1) by (simp add: loads_ok_def)
    then show ?thesis
      using True count_list_update [OF i(1), of "(root, pc')" "(root, WWarming)"] i(2) assms(6-8)
      by (auto split: if_splits)
  next
    case False
    then have "pending_root s' x = pending_root s x" using assms(4) by (auto simp: pending_root_def)
    then show ?thesis
      using False count_list_update [OF i(1), of "(root, pc')" "(x, WWarming)"] i(2) assms(1)
      by (auto simp: loads_ok_def)
  qed
  ultimately show ?thesis by (simp add: loads_ok_def goto_def assms(5) pending_root_def)
qed

lemma loads_ok_pc: "loads_ok k s \<Longrightarrow> goroutine s i = Some (root, pc) \<Longrightarrow> pc_ok pc"
  using goroutine_SomeD [of s i "(root, pc)"] by (fastforce simp: loads_ok_def list_all_iff)

lemma loads_ok_step:
  assumes ok: "loads_ok k s" and step: "warm_exec ttl a s = Some s'"
  shows "loads_ok (\<lambda>root. k root + (if a = SyncDone root then 1 else 0)) s'"
proof (cases a)
  case (Spawn root)
  then have "pending_root s' = pending_root s" "warms s' = warms s @ [(root, WLoad (new_record WarmPending [] s))]"
    using step by (auto simp: pending_root_def fun_eq_iff)
  with Spawn ok show ?thesis by (simp add: loads_ok_def new_record_def)
next
  case (LoadOrStore i)
  then obtain root r where g: "goroutine s i = Some (root, WLoad r)"
    using step by (auto split: option.splits prod.splits warm_pc.splits)
  have r: "phase r = WarmPending" using loads_ok_pc [OF ok g] by simp
  show ?thesis using step LoadOrStore g r
    by (cases "reg s root") (auto intro!: loads_goto [OF ok g] simp: pending_root_def)
next
  case (Check i)
  then obtain root r old where g: "goroutine s i = Some (root, WCheck r old)"
    using step by (auto split: option.splits prod.splits warm_pc.splits)
  have r: "phase r = WarmPending" using loads_ok_pc [OF ok g] by simp
  have "s' = goto i root (if claim_denied ttl (clock s) old then WSkipped else WSwap r old) s"
    using step Check g by simp
  then show ?thesis using Check by (auto intro!: loads_goto [OF ok g] simp: r claim_denied_def)
next
  case (CompareAndSwap i)
  then obtain root r old where g: "goroutine s i = Some (root, WSwap r old)"
    using step by (auto split: option.splits prod.splits warm_pc.splits)
  have r: "phase r = WarmPending" "phase old \<noteq> WarmPending" using loads_ok_pc [OF ok g] by simp_all
  show ?thesis using step CompareAndSwap g r
    by (cases "reg s root = Some old") (auto intro!: loads_goto [OF ok g] simp: pending_root_def)
next
  case (Settle i res)
  then obtain root where g: "goroutine s i = Some (root, WWarming)"
    using step by (auto split: option.splits prod.splits warm_pc.splits)
  have s': "s' = goto i root WSettled (case res of None \<Rightarrow> setWarmDone root s | Some e \<Rightarrow> setWarmFailed root e s)"
    using step Settle g by simp
  show ?thesis unfolding s' using Settle
    by (cases res) (auto intro!: loads_goto [OF ok g]
      simp: setWarmDone_def setWarmFailed_def store_record_def new_record_def pending_root_def)
next
  case (SyncDone root)
  then have s': "s' = setWarmDone root s" using step by simp
  have "(if pending_root s' x then 1 else 0) \<le> count_list (warms s') (x, WWarming) \<and>
      count_list (warms s') (x, WWarming) \<le> (if pending_root s' x then 1 else 0) + (k x + (if a = SyncDone x then 1 else 0))" for x
  proof -
    have "(if pending_root s x then 1 else 0) \<le> count_list (warms s) (x, WWarming) \<and>
        count_list (warms s) (x, WWarming) \<le> (if pending_root s x then 1 else 0) + k x"
      using ok by (simp add: loads_ok_def)
    then show ?thesis using SyncDone
      by (auto simp: s' setWarmDone_def store_record_def new_record_def pending_root_def split: if_splits)
  qed
  then show ?thesis using ok by (simp add: loads_ok_def s' setWarmDone_def store_record_def)
next
  case (Tick n)
  then have "pending_root s' = pending_root s" "warms s' = warms s"
    using step by (auto simp: pending_root_def fun_eq_iff)
  with Tick ok show ?thesis by (simp add: loads_ok_def)
qed

lemma loads_ok_run:
  "loads_ok k s \<Longrightarrow> warm_run ttl as s = Some s' \<Longrightarrow> loads_ok (\<lambda>root. k root + count_list as (SyncDone root)) s'"
proof (induction as arbitrary: k s)
  case (Cons a as)
  then obtain t where t: "warm_exec ttl a s = Some t" "warm_run ttl as t = Some s'" by (auto split: option.splits)
  have "(\<lambda>root. k root + (if a = SyncDone root then 1 else 0) + count_list as (SyncDone root)) =
      (\<lambda>root. k root + count_list (a # as) (SyncDone root))" by auto
  with Cons.IH [OF loads_ok_step [OF Cons.prems(1) t(1)] t(2)] show ?case by simp
qed simp

text \<open>
  C21: After every interleaving of the atomic steps of requests, background loads and the synchronous path, a root whose live status is
  pending has a goroutine that is loading it and will settle it, and at most one goroutine loads a root, plus one for
  each time the synchronous path has stamped that very root as done in between. So the claims alone are a single-flight
  guard: without such a stamp exactly one goroutine loads a pending root, and none any other.
\<close>

theorem WarmRegistry_single_flight:
  assumes "warm_run ttl as (start_registry t) = Some s"
  shows "let loading = count_list (warms s) (root, WWarming);
             pending = (if fst (warmStatus ttl (clock s) (reg s) root) = WarmPending then 1 else 0)
         in pending \<le> loading \<and> loading \<le> pending + count_list as (SyncDone root)"
proof -
  have "loads_ok (\<lambda>_. 0) (start_registry t)" by (simp add: loads_ok_def start_registry_def pending_root_def)
  from loads_ok_run [OF this assms] have "loads_ok (\<lambda>root. count_list as (SyncDone root)) s" by simp
  moreover have "fst (warmStatus ttl (clock s) (reg s) root) = WarmPending \<longleftrightarrow> pending_root s root"
    by (simp add: warmStatus_def pending_root_def split: option.split)
  ultimately show ?thesis by (simp add: loads_ok_def Let_def)
qed

text \<open>Two requests for one root race; the second meets the claim of the first and is turned away.\<close>

definition racing_requests :: "warm_action list" where
  "racing_requests = [Spawn ''r'', Spawn ''r'', LoadOrStore 0, LoadOrStore 1, Tick 5, Check 1]"

definition after_race :: warm_state where
  "after_race = \<lparr>reg = [''r'' \<mapsto> \<lparr>rec_id = 0, phase = WarmPending, at = 0, err = []\<rparr>], clock = 5, next_id = 2,
     warms = [(''r'', WWarming), (''r'', WSkipped)]\<rparr>"

lemma racing_requests_run: "warm_run ttl racing_requests (start_registry 0) = Some after_race"
  by (simp add: racing_requests_def after_race_def start_registry_def goroutine_def goto_def new_record_def
      claim_denied_def)

theorem WarmRegistry_single_flight_witness:
  "count_list (warms after_race) (''r'', WWarming) = 1 \<and> length (warms after_race) = 2"
proof -
  have "count_list racing_requests (SyncDone ''r'') = 0" by (simp add: racing_requests_def)
  with WarmRegistry_single_flight [OF racing_requests_run [of 300], of "''r''"] show ?thesis
    by (simp add: after_race_def warmStatus_def Let_def)
qed

text \<open>
  The synchronous path of \<open>BuildFromRepo\<close> stores a done record without a claim. When it does so while a
  warm is in flight for the same root (another scope), the pending record is lost and a second goroutine
  can claim the root: two loads run at once.
\<close>

lemma sync_done_admits_second_warm:
  "\<exists>s. warm_reach ttl True s \<and> count_list (warms s) (''r'', WWarming) = 2"
proof -
  let ?acts = "[Spawn ''r'', LoadOrStore 0, SyncDone ''r'', Spawn ''r'', LoadOrStore 1, Check 1, CompareAndSwap 1]"
  let ?s = "\<lparr>reg = [''r'' \<mapsto> \<lparr>rec_id = 2, phase = WarmPending, at = 0, err = []\<rparr>], clock = 0, next_id = 3,
     warms = [(''r'', WWarming), (''r'', WWarming)]\<rparr> :: warm_state"
  have "warm_run ttl ?acts (start_registry 0) = Some ?s"
    by (simp add: start_registry_def goroutine_def goto_def new_record_def claim_denied_def setWarmDone_def
        store_record_def numeral_2_eq_2 numeral_3_eq_3)
  then have "warm_reach ttl True ?s" by (rule warm_run_reach [OF warm_reach.init]) simp
  then show ?thesis by (intro exI [of _ ?s]) simp
qed

subsection \<open>What a cache hit reports\<close>

text \<open>
  \<open>BuildFromRepo\<close> on a cached graph: it is rebuilt, or served with a stamp (a shallow copy when it is not
  the stamp the entry was written with), possibly with a new warm started in the background.
\<close>

datatype cache_read = Rebuild | Serve WarmState bool

definition read_hit :: "WarmState \<times> int option \<Rightarrow> WarmState \<Rightarrow> int \<Rightarrow> cache_read" where
  "read_hit live stamp entryAt =
     (if fst live = WarmDone \<and> stamp \<noteq> WarmNone \<and> (case snd live of None \<Rightarrow> False | Some t \<Rightarrow> entryAt < t) then Rebuild
      else if fst live = WarmPending \<and> stamp \<noteq> WarmPending then Serve WarmPending False
      else if fst live = WarmFailed \<and> stamp \<noteq> WarmFailed then Serve WarmFailed False
      else if fst live = WarmNone \<and> stamp \<noteq> WarmNone then Serve stamp True
      else Serve stamp False)"

text \<open>The stamp of a graph that was just built, and what is done about the root before it is cached.\<close>

datatype stamp_action = NoAction | KickWarm | PublishDone

definition stamp_built :: "bool \<Rightarrow> bool \<Rightarrow> WarmState \<Rightarrow> WarmState \<Rightarrow> WarmState \<times> stamp_action" where
  "stamp_built hasGoModule goTypesBackend live stamp =
     (if hasGoModule \<and> \<not> goTypesBackend then
        if stamp = WarmPending then
          (if live = WarmFailed then (WarmFailed, NoAction) else (stamp, KickWarm))
        else (stamp, PublishDone)
      else (stamp, NoAction))"

fun pc_records :: "warm_pc \<Rightarrow> warmRecord set" where
  "pc_records (WLoad r) = {r}"
| "pc_records (WCheck r old) = {r}"
| "pc_records (WSwap r old) = {r}"
| "pc_records _ = {}"

definition times_ok :: "warm_state \<Rightarrow> bool" where
  "times_ok s \<longleftrightarrow> (\<forall>root r. reg s root = Some r \<longrightarrow> at r \<le> clock s) \<and>
     (\<forall>gr \<in> set (warms s). \<forall>r \<in> pc_records (snd gr). at r \<le> clock s)"

lemma times_ok_goto:
  assumes "times_ok s" and "\<forall>r \<in> pc_records pc. at r \<le> clock s" and "warms s' = warms s" and "clock s' = clock s"
    and "\<forall>root r. reg s' root = Some r \<longrightarrow> at r \<le> clock s"
  shows "times_ok (goto i root pc s')"
  using assms set_update_subset_insert [of "warms s" i "(root, pc)"]
  by (auto simp: times_ok_def goto_def)

lemma times_ok_pc: "times_ok s \<Longrightarrow> goroutine s i = Some (root, pc) \<Longrightarrow> r \<in> pc_records pc \<Longrightarrow> at r \<le> clock s"
  using goroutine_SomeD [of s i "(root, pc)"] by (fastforce simp: times_ok_def)

lemma times_ok_reg: "times_ok s \<Longrightarrow> reg s root = Some r \<Longrightarrow> at r \<le> clock s"
  by (simp add: times_ok_def)

lemma times_ok_step:
  assumes ok: "times_ok s" and step: "warm_exec ttl a s = Some s'"
  shows "times_ok s'"
proof (cases a)
  case (Spawn root)
  then show ?thesis using ok step by (auto simp: times_ok_def new_record_def)
next
  case (LoadOrStore i)
  then obtain root r where g: "goroutine s i = Some (root, WLoad r)"
    using step by (auto split: option.splits prod.splits warm_pc.splits)
  then show ?thesis using step LoadOrStore times_ok_pc [OF ok g] times_ok_reg [OF ok]
    by (auto intro!: times_ok_goto [OF ok] split: option.splits if_splits)
next
  case (Check i)
  then obtain root r old where g: "goroutine s i = Some (root, WCheck r old)"
    using step by (auto split: option.splits prod.splits warm_pc.splits)
  then show ?thesis using step Check times_ok_pc [OF ok g] times_ok_reg [OF ok]
    by (auto intro!: times_ok_goto [OF ok] split: if_splits)
next
  case (CompareAndSwap i)
  then obtain root r old where g: "goroutine s i = Some (root, WSwap r old)"
    using step by (auto split: option.splits prod.splits warm_pc.splits)
  then show ?thesis using step CompareAndSwap times_ok_pc [OF ok g] times_ok_reg [OF ok]
    by (auto intro!: times_ok_goto [OF ok] split: if_splits)
next
  case (Settle i res)
  then obtain root where g: "goroutine s i = Some (root, WWarming)"
    using step by (auto split: option.splits prod.splits warm_pc.splits)
  then show ?thesis using step Settle times_ok_reg [OF ok]
    by (auto intro!: times_ok_goto [OF ok] simp: setWarmDone_def setWarmFailed_def store_record_def new_record_def
        split: option.splits if_splits)
next
  case (SyncDone root)
  then show ?thesis using ok step by (auto simp: times_ok_def setWarmDone_def store_record_def new_record_def split: if_splits)
next
  case (Tick n)
  then show ?thesis using ok step by (fastforce simp: times_ok_def)
qed

lemma times_ok_reach: "warm_reach ttl sync s \<Longrightarrow> times_ok s"
proof (induction rule: warm_reach.induct)
  case (init t)
  then show ?case by (simp add: times_ok_def start_registry_def)
next
  case (step s a s')
  then show ?case using times_ok_step by blast
qed

text \<open>
  A cache hit never reports a stale phase: while a warm is pending, or its failure is in backoff, the graph is
  served with exactly that stamp whatever the entry says; a background warm is started only for an entry
  that hopes for one when nothing is on record; and a hit is diverted to a rebuild only for an entry
  older than the completed warm, after which the rebuilt entry is not diverted again.
\<close>

lemma WarmRegistry_read_is_live:
  assumes "warm_reach ttl sync s"
  shows "let live = warmStatus ttl (clock s) (reg s) root in
    case read_hit live stamp entryAt of
      Rebuild \<Rightarrow> fst live = WarmDone \<and> stamp \<noteq> WarmNone \<and> entryAt < clock s \<and>
        (\<forall>w. read_hit live w (clock s) \<noteq> Rebuild)
    | Serve st kick \<Rightarrow>
        if fst live = WarmPending \<or> fst live = WarmFailed then st = fst live \<and> \<not> kick
        else st = stamp \<and> (kick \<longleftrightarrow> fst live = WarmNone \<and> stamp \<noteq> WarmNone)"
proof -
  have "at r \<le> clock s" if "reg s root = Some r" for r using times_ok_reg [OF times_ok_reach [OF assms] that] .
  then show ?thesis
    by (cases "reg s root") (force simp: Let_def warmStatus_def read_hit_def)+
qed

end
