(* ===== verification/GraphDiff.thy ===== *)
theory GraphDiff
  imports GoStrings "HOL-Library.Multiset"
begin

text \<open>
  The comparison of two snapshots of a code graph (\<open>internal/codegraph/diff.go\<close>, the records of
  \<open>snapshot.go\<close>). A snapshot is indexed by the key of its symbols and of its edges, the last entry with a
  key winning; the diff lists what is on one side only and what changed for the symbols on both, each
  list sorted by key. Go iterates over the maps in no fixed order; here an index is visited in the order of
  its first entries, which the final sort makes irrelevant, since the keys of an index are distinct.

  The lemmas show that every list of the diff holds exactly the entries it stands for, strictly sorted, and
  that the summary says \<open>no changes\<close> exactly for snapshots that agree.
\<close>

record SnapshotSymbol =
  ss_Name :: string
  ss_Kind :: string
  ss_File :: string
  ss_Community :: int
  ss_Complexity :: int

record SnapshotEdge =
  se_From :: string
  se_To :: string
  se_Label :: string

record Snapshot =
  sn_RepoKey :: string
  sn_Symbols :: "SnapshotSymbol list"
  sn_Edges :: "SnapshotEdge list"

record CommunityChange =
  cc_Name :: string
  cc_File :: string
  cc_OldCommunity :: int
  cc_NewCommunity :: int

record ComplexityChange =
  xc_Name :: string
  xc_File :: string
  xc_OldComplexity :: int
  xc_NewComplexity :: int

record GraphDiff =
  gd_AddedSymbols :: "SnapshotSymbol list"
  gd_RemovedSymbols :: "SnapshotSymbol list"
  gd_AddedEdges :: "SnapshotEdge list"
  gd_RemovedEdges :: "SnapshotEdge list"
  gd_CommunityMigrations :: "CommunityChange list"
  gd_ComplexityChanges :: "ComplexityChange list"
  gd_Summary :: string

definition symKey :: "SnapshotSymbol \<Rightarrow> string" where
  "symKey s = ss_Name s @ '':'' @ ss_File s"

definition edgeKey :: "SnapshotEdge \<Rightarrow> string" where
  "edgeKey e = se_From e @ ''|'' @ se_Label e @ ''|'' @ se_To e"

text \<open>A Go map filled from a slice, and its entries.\<close>

definition index_by :: "('a \<Rightarrow> string) \<Rightarrow> 'a list \<Rightarrow> string \<Rightarrow> 'a option" where
  "index_by key xs = map_of (rev (map (\<lambda>x. (key x, x)) xs))"

definition entries :: "('a \<Rightarrow> string) \<Rightarrow> 'a list \<Rightarrow> 'a list" where
  "entries key xs = map (\<lambda>k. the (index_by key xs k)) (remdups (map key xs))"

definition only_in :: "('a \<Rightarrow> string) \<Rightarrow> 'a list \<Rightarrow> 'a list \<Rightarrow> 'a list" where
  "only_in key xs ys = sort_key key (filter (\<lambda>x. index_by key ys (key x) = None) (entries key xs))"

definition community_change :: "SnapshotSymbol \<Rightarrow> SnapshotSymbol \<Rightarrow> CommunityChange" where
  "community_change a b = \<lparr>cc_Name = ss_Name a, cc_File = ss_File a,
     cc_OldCommunity = ss_Community a, cc_NewCommunity = ss_Community b\<rparr>"

definition complexity_change :: "SnapshotSymbol \<Rightarrow> SnapshotSymbol \<Rightarrow> ComplexityChange" where
  "complexity_change a b = \<lparr>xc_Name = ss_Name a, xc_File = ss_File a,
     xc_OldComplexity = ss_Complexity a, xc_NewComplexity = ss_Complexity b\<rparr>"

text \<open>The symbols on both sides whose attribute differs.\<close>

definition changed :: "(SnapshotSymbol \<Rightarrow> int) \<Rightarrow> SnapshotSymbol list \<Rightarrow> SnapshotSymbol list \<Rightarrow>
    (SnapshotSymbol \<times> SnapshotSymbol) list" where
  "changed attr old new =
     sort_key (\<lambda>p. symKey (fst p))
       (List.map_filter (\<lambda>a. case index_by symKey new (symKey a) of
            None \<Rightarrow> None
          | Some b \<Rightarrow> if attr a \<noteq> attr b then Some (a, b) else None) (entries symKey old))"

definition plural :: "nat \<Rightarrow> string" where
  "plural n = (if n = 1 then [] else ''s'')"

definition part :: "nat \<Rightarrow> (string \<Rightarrow> string) \<Rightarrow> string list" where
  "part n phrase = (if n > 0 then [nat_dec n @ phrase (plural n)] else [])"

definition buildDiffSummary :: "nat \<Rightarrow> nat \<Rightarrow> nat \<Rightarrow> nat \<Rightarrow> nat \<Rightarrow> nat \<Rightarrow> string" where
  "buildDiffSummary added removed addedEdges removedEdges migrations complexityChg =
     (if added = 0 \<and> removed = 0 \<and> addedEdges = 0 \<and> removedEdges = 0 \<and> migrations = 0 \<and> complexityChg = 0
      then ''no changes''
      else str_join '', ''
        (part added (\<lambda>p. '' new symbol'' @ p) @ part removed (\<lambda>p. '' symbol'' @ p @ '' removed'') @
         part addedEdges (\<lambda>p. '' new edge'' @ p) @ part removedEdges (\<lambda>p. '' edge'' @ p @ '' removed'') @
         part migrations (\<lambda>p. '' community migration'' @ p) @
         part complexityChg (\<lambda>p. '' complexity change'' @ p)))"

definition DiffGraphs :: "Snapshot \<Rightarrow> Snapshot \<Rightarrow> GraphDiff" where
  "DiffGraphs old new =
     (let addedS = only_in symKey (sn_Symbols new) (sn_Symbols old);
          removedS = only_in symKey (sn_Symbols old) (sn_Symbols new);
          addedE = only_in edgeKey (sn_Edges new) (sn_Edges old);
          removedE = only_in edgeKey (sn_Edges old) (sn_Edges new);
          migrations = map (\<lambda>(a, b). community_change a b)
            (changed ss_Community (sn_Symbols old) (sn_Symbols new));
          complexity = map (\<lambda>(a, b). complexity_change a b)
            (changed ss_Complexity (sn_Symbols old) (sn_Symbols new))
      in \<lparr>gd_AddedSymbols = addedS, gd_RemovedSymbols = removedS, gd_AddedEdges = addedE,
          gd_RemovedEdges = removedE, gd_CommunityMigrations = migrations, gd_ComplexityChanges = complexity,
          gd_Summary = buildDiffSummary (length addedS) (length removedS) (length addedE) (length removedE)
            (length migrations) (length complexity)\<rparr>)"

subsection \<open>Indexes and their entries\<close>

lemma index_by_Some:
  assumes "index_by key xs k = Some x"
  shows "key x = k \<and> x \<in> set xs"
  using map_of_SomeD [OF assms [unfolded index_by_def]] by auto

lemma index_by_None_iff: "index_by key xs k = None \<longleftrightarrow> k \<notin> key ` set xs"
  by (simp add: index_by_def map_of_eq_None_iff image_image)

lemma entries_mem: "x \<in> set (entries key xs) \<longleftrightarrow> (\<exists>k. index_by key xs k = Some x)"
proof
  assume "x \<in> set (entries key xs)"
  then obtain k where k: "k \<in> key ` set xs" "x = the (index_by key xs k)" by (auto simp: entries_def)
  then have "index_by key xs k \<noteq> None" by (simp add: index_by_None_iff)
  then show "\<exists>k. index_by key xs k = Some x" using k(2) by auto
next
  assume "\<exists>k. index_by key xs k = Some x"
  then obtain k where k: "index_by key xs k = Some x" by blast
  then have "k \<in> key ` set xs" using index_by_None_iff [of key xs k] by auto
  then show "x \<in> set (entries key xs)" using k by (force simp: entries_def)
qed

lemma map_key_entries: "map key (entries key xs) = remdups (map key xs)"
proof -
  have "key (the (index_by key xs k)) = k" if "k \<in> key ` set xs" for k
  proof -
    have "index_by key xs k \<noteq> None" using that by (simp add: index_by_None_iff)
    then obtain x where "index_by key xs k = Some x" by blast
    then show ?thesis using index_by_Some by fastforce
  qed
  then show ?thesis by (auto simp: entries_def intro!: map_idI)
qed

text \<open>A list of the diff: strictly sorted by key, and with exactly the given entries.\<close>

definition sorted_rows :: "('a \<Rightarrow> string) \<Rightarrow> 'a list \<Rightarrow> 'a set \<Rightarrow> bool" where
  "sorted_rows key rows A \<longleftrightarrow> sorted_wrt (<) (map key rows) \<and> set rows = A"

lemma sorted_rows_sort_key:
  assumes "distinct (map key rows)"
  shows "sorted_rows key (sort_key key rows) (set rows)"
proof -
  have "mset (map key (sort_key key rows)) = mset (map key rows)" by (simp add: mset_map)
  then have "distinct (map key (sort_key key rows))" using assms mset_eq_imp_distinct_iff by blast
  then show ?thesis by (simp add: sorted_rows_def strict_sorted_iff)
qed

lemma only_in_rows:
  "sorted_rows key (only_in key xs ys) {x. \<exists>k. index_by key xs k = Some x \<and> index_by key ys k = None}"
proof -
  have "distinct (map key (filter (\<lambda>x. index_by key ys (key x) = None) (entries key xs)))"
    by (rule distinct_map_filter) (simp add: map_key_entries)
  from sorted_rows_sort_key [OF this] have "sorted_rows key (only_in key xs ys)
      {x \<in> set (entries key xs). index_by key ys (key x) = None}" by (simp add: only_in_def)
  moreover have "{x \<in> set (entries key xs). index_by key ys (key x) = None} =
      {x. \<exists>k. index_by key xs k = Some x \<and> index_by key ys k = None}"
    by (auto simp: entries_mem dest: index_by_Some)
  ultimately show ?thesis by simp
qed

lemma changed_rows:
  "sorted_wrt (<) (map (symKey \<circ> fst) (changed attr old new)) \<and>
   set (changed attr old new) =
     {(a, b). \<exists>k. index_by symKey old k = Some a \<and> index_by symKey new k = Some b \<and> attr a \<noteq> attr b}"
proof -
  let ?f = "\<lambda>a. case index_by symKey new (symKey a) of
      None \<Rightarrow> None | Some b \<Rightarrow> if attr a \<noteq> attr b then Some (a, b) else None"
  let ?rows = "List.map_filter ?f (entries symKey old)"
  have fst_f: "fst p = a" if "?f a = Some p" for a p using that by (auto split: option.splits if_splits)
  have "map (symKey \<circ> fst) (List.map_filter ?f xs) = map symKey (filter (\<lambda>a. ?f a \<noteq> None) xs)" for xs
    by (induction xs) (auto simp: List.map_filter_simps fst_f split: option.split)
  then have "distinct (map (\<lambda>p. symKey (fst p)) ?rows)"
    using distinct_map_filter [of symKey "entries symKey old"] by (simp add: map_key_entries comp_def)
  from sorted_rows_sort_key [OF this]
  have "sorted_rows (\<lambda>p. symKey (fst p)) (changed attr old new) (set ?rows)" by (simp add: changed_def)
  moreover have "set ?rows =
      {(a, b). \<exists>k. index_by symKey old k = Some a \<and> index_by symKey new k = Some b \<and> attr a \<noteq> attr b}"
    (is "_ = ?pairs")
  proof (intro set_eqI iffI)
    fix p assume "p \<in> set ?rows"
    then obtain a where "a \<in> set (entries symKey old)" and f: "?f a = Some p"
      by (auto simp: List.map_filter_def)
    then obtain k where k: "index_by symKey old k = Some a" by (auto simp: entries_mem)
    then have "symKey a = k" by (auto dest: index_by_Some)
    then show "p \<in> ?pairs" using f k by (auto split: option.splits if_splits)
  next
    fix p assume "p \<in> ?pairs"
    then obtain a b k where p: "p = (a, b)" "index_by symKey old k = Some a" "index_by symKey new k = Some b"
        "attr a \<noteq> attr b" by auto
    then have "symKey a = k" and "a \<in> set (entries symKey old)" by (auto simp: entries_mem dest: index_by_Some)
    then have "?f a = Some p" and "a \<in> set (entries symKey old)" using p by simp_all
    then show "p \<in> set ?rows" by (force simp: List.map_filter_def)
  qed
  ultimately show ?thesis by (simp add: sorted_rows_def comp_def)
qed

subsection \<open>The summary\<close>

lemma str_join_hd: "xs \<noteq> [] \<Longrightarrow> hd xs \<noteq> [] \<Longrightarrow> str_join sep xs \<noteq> [] \<and> hd (str_join sep xs) = hd (hd xs)"
  by (cases xs; cases "tl xs") (auto simp: str_join_Cons)

lemma parts_hd:
  assumes "p \<in> set (part n phrase)"
  shows "p \<noteq> [] \<and> hd p \<in> set ''0123456789''"
proof -
  have "p = nat_dec n @ phrase (plural n)" using assms by (simp add: part_def split: if_splits)
  then have "p \<noteq> []" and "hd p \<in> set (nat_dec n)" by (simp_all add: hd_append)
  then show ?thesis using nat_dec_digits by blast
qed

lemma buildDiffSummary_none:
  "buildDiffSummary a r ae re m x = ''no changes'' \<longleftrightarrow>
     a = 0 \<and> r = 0 \<and> ae = 0 \<and> re = 0 \<and> m = 0 \<and> x = 0"
proof (cases "a = 0 \<and> r = 0 \<and> ae = 0 \<and> re = 0 \<and> m = 0 \<and> x = 0")
  case True
  then show ?thesis by (simp add: buildDiffSummary_def)
next
  case False
  let ?parts = "part a (\<lambda>p. '' new symbol'' @ p) @ part r (\<lambda>p. '' symbol'' @ p @ '' removed'') @
         part ae (\<lambda>p. '' new edge'' @ p) @ part re (\<lambda>p. '' edge'' @ p @ '' removed'') @
         part m (\<lambda>p. '' community migration'' @ p) @ part x (\<lambda>p. '' complexity change'' @ p)"
  have ne: "?parts \<noteq> []" using False by (auto simp: part_def)
  then have "hd ?parts \<in> set ?parts" by (rule hd_in_set)
  then have "hd ?parts \<noteq> []" and d: "hd (hd ?parts) \<in> set ''0123456789''"
    by (auto simp only: set_append Un_iff dest!: parts_hd)
  then have "hd (str_join '', '' ?parts) \<in> set ''0123456789''" using str_join_hd [OF ne] by simp
  then have "str_join '', '' ?parts \<noteq> ''no changes''" by auto
  then show ?thesis using False by (simp only: buildDiffSummary_def if_False simp_thms)
qed

text \<open>
  C22: The diff of two snapshots lists, each strictly sorted by key, exactly the symbols and the edges that only one
  side has, and for the symbols of both sides exactly those whose community or complexity differs, with both
  values; its summary reads \<open>no changes\<close> exactly when all of these lists are empty.
\<close>

theorem DiffGraphs_exact:
  "case DiffGraphs old new of d \<Rightarrow>
     let o' = index_by symKey (sn_Symbols old); n' = index_by symKey (sn_Symbols new);
         oe = index_by edgeKey (sn_Edges old); ne = index_by edgeKey (sn_Edges new) in
     sorted_rows symKey (gd_AddedSymbols d) {s. \<exists>k. n' k = Some s \<and> o' k = None} \<and>
     sorted_rows symKey (gd_RemovedSymbols d) {s. \<exists>k. o' k = Some s \<and> n' k = None} \<and>
     sorted_rows edgeKey (gd_AddedEdges d) {e. \<exists>k. ne k = Some e \<and> oe k = None} \<and>
     sorted_rows edgeKey (gd_RemovedEdges d) {e. \<exists>k. oe k = Some e \<and> ne k = None} \<and>
     sorted_rows (\<lambda>c. cc_Name c @ '':'' @ cc_File c) (gd_CommunityMigrations d)
       {community_change a b |a b k. o' k = Some a \<and> n' k = Some b \<and> ss_Community a \<noteq> ss_Community b} \<and>
     sorted_rows (\<lambda>c. xc_Name c @ '':'' @ xc_File c) (gd_ComplexityChanges d)
       {complexity_change a b |a b k. o' k = Some a \<and> n' k = Some b \<and> ss_Complexity a \<noteq> ss_Complexity b} \<and>
     (gd_Summary d = ''no changes'' \<longleftrightarrow>
        gd_AddedSymbols d = [] \<and> gd_RemovedSymbols d = [] \<and> gd_AddedEdges d = [] \<and> gd_RemovedEdges d = [] \<and>
        gd_CommunityMigrations d = [] \<and> gd_ComplexityChanges d = [])"
proof -
  have migrations: "sorted_rows (\<lambda>c. cc_Name c @ '':'' @ cc_File c)
      (map (\<lambda>(a, b). community_change a b) (changed ss_Community os ns))
      {community_change a b |a b k. index_by symKey os k = Some a \<and> index_by symKey ns k = Some b \<and>
         ss_Community a \<noteq> ss_Community b}" for os ns
    using changed_rows [of ss_Community os ns]
    by (force simp: sorted_rows_def comp_def community_change_def symKey_def case_prod_beta)
  have complexity: "sorted_rows (\<lambda>c. xc_Name c @ '':'' @ xc_File c)
      (map (\<lambda>(a, b). complexity_change a b) (changed ss_Complexity os ns))
      {complexity_change a b |a b k. index_by symKey os k = Some a \<and> index_by symKey ns k = Some b \<and>
         ss_Complexity a \<noteq> ss_Complexity b}" for os ns
    using changed_rows [of ss_Complexity os ns]
    by (force simp: sorted_rows_def comp_def complexity_change_def symKey_def case_prod_beta)
  show ?thesis
    using migrations [of "sn_Symbols old" "sn_Symbols new"] complexity [of "sn_Symbols old" "sn_Symbols new"]
    by (simp add: DiffGraphs_def Let_def only_in_rows buildDiffSummary_none)
qed

end
