(* ===== verification/GoStrconv.thy ===== *)
theory GoStrconv
  imports GoStrings
begin

text \<open>
  The number parsers of Go's package \<open>strconv\<close> in base 10, on 64 bits, and \<open>strings.SplitN\<close>, with their
  round trips. The digits are scanned from the left: the scan stops with a syntax error at a byte that is no
  digit and with a range error at the digit that takes the value out of 64 bits, whichever comes first.
\<close>

subsection \<open>Unsigned and signed numbers\<close>

datatype num_parse = NumOk nat | NumSyntax | NumRange

definition is_digit :: "char \<Rightarrow> bool" where
  "is_digit c \<longleftrightarrow> 48 \<le> (of_char c :: nat) \<and> (of_char c :: nat) \<le> 57"

definition digit_val :: "char \<Rightarrow> nat" where
  "digit_val c = of_char c - 48"

definition maxUint64 :: nat where "maxUint64 = 18446744073709551615"
definition maxInt64 :: int where "maxInt64 = 9223372036854775807"
definition minInt64 :: int where "minInt64 = - 9223372036854775808"

fun scan_uint :: "nat \<Rightarrow> string \<Rightarrow> num_parse" where
  "scan_uint n [] = NumOk n"
| "scan_uint n (c # s) =
     (if \<not> is_digit c then NumSyntax
      else if 10 * n + digit_val c > maxUint64 then NumRange
      else scan_uint (10 * n + digit_val c) s)"

text \<open>\<open>ParseUint(s, 10, 64)\<close>.\<close>

definition parse_uint :: "string \<Rightarrow> num_parse" where
  "parse_uint s = (if s = [] then NumSyntax else scan_uint 0 s)"

text \<open>\<open>Atoi\<close>: the value, also where there is an error, and whether there is none.\<close>

definition atoi :: "string \<Rightarrow> int \<times> bool" where
  "atoi s =
     (let neg = (s \<noteq> [] \<and> hd s = CHR ''-'');
          digits = (if s \<noteq> [] \<and> (hd s = CHR ''-'' \<or> hd s = CHR ''+'') then tl s else s)
      in case parse_uint digits of
           NumSyntax \<Rightarrow> (0, False)
         | NumRange \<Rightarrow> (if neg then minInt64 else maxInt64, False)
         | NumOk n \<Rightarrow>
             if \<not> neg \<and> int n > maxInt64 then (maxInt64, False)
             else if neg \<and> - int n < minInt64 then (minInt64, False)
             else (if neg then - int n else int n, True))"

lemma scan_uint_append:
  "scan_uint n (s @ t) = (case scan_uint n s of NumOk m \<Rightarrow> scan_uint m t | r \<Rightarrow> r)"
  by (induction s arbitrary: n) simp_all

lemma digit_char_digit: "d < 10 \<Longrightarrow> is_digit (digit_char d) \<and> digit_val (digit_char d) = d"
proof -
  assume "d < 10"
  then have "d = 0 \<or> d = 1 \<or> d = 2 \<or> d = 3 \<or> d = 4 \<or> d = 5 \<or> d = 6 \<or> d = 7 \<or> d = 8 \<or> d = 9" by arith
  then show ?thesis
    by (elim disjE) (simp_all add: digit_char_def is_digit_def digit_val_def nth_Cons' of_char_def)
qed

lemma scan_uint_nat_dec: "m \<le> maxUint64 \<Longrightarrow> scan_uint 0 (nat_dec m) = NumOk m"
proof (induction m rule: nat_dec.induct)
  case (1 m)
  show ?case
  proof (cases "m < 10")
    case True
    then show ?thesis using digit_char_digit [of m] "1.prems" by (simp add: nat_dec.simps [of m])
  next
    case False
    have "m div 10 \<le> maxUint64" using "1.prems" by linarith
    then have "scan_uint 0 (nat_dec (m div 10)) = NumOk (m div 10)" using "1.IH" False by simp
    moreover have "10 * (m div 10) + m mod 10 = m" by simp
    ultimately show ?thesis
      using False digit_char_digit [of "m mod 10"] "1.prems"
      by (simp add: nat_dec.simps [of m] scan_uint_append)
  qed
qed

lemma parse_uint_nat_dec: "m \<le> maxUint64 \<Longrightarrow> parse_uint (nat_dec m) = NumOk m"
  by (simp add: parse_uint_def scan_uint_nat_dec)

lemma nat_dec_hd: "is_digit (hd (nat_dec n))"
proof -
  have "hd (nat_dec n) \<in> set (nat_dec n)" by simp
  then have "hd (nat_dec n) \<in> set ''0123456789''" by (rule nat_dec_digits)
  then show ?thesis by (auto simp: is_digit_def of_char_def)
qed

lemma atoi_nat_dec: "int n \<le> maxInt64 \<Longrightarrow> atoi (nat_dec n) = (int n, True)"
proof -
  assume n: "int n \<le> maxInt64"
  then have "n \<le> maxUint64" by (simp add: maxInt64_def maxUint64_def)
  moreover have "hd (nat_dec n) \<noteq> CHR ''-''" "hd (nat_dec n) \<noteq> CHR ''+''"
    using nat_dec_hd [of n] by (auto simp: is_digit_def of_char_def)
  ultimately show ?thesis using n by (simp add: atoi_def Let_def parse_uint_nat_dec)
qed

lemma nat_dec_no_char: "\<not> is_digit c \<Longrightarrow> c \<notin> set (nat_dec n)"
  using nat_dec_digits [of c n] by (auto simp: is_digit_def of_char_def)

subsection \<open>SplitN\<close>

text \<open>At most \<open>n\<close> parts, the last of which may contain the separator.\<close>

fun split_n :: "nat \<Rightarrow> 'a \<Rightarrow> 'a list \<Rightarrow> 'a list list" where
  "split_n 0 c s = []"
| "split_n (Suc 0) c s = [s]"
| "split_n (Suc (Suc n)) c s =
     (case str_index s [c] of
        None \<Rightarrow> [s]
      | Some i \<Rightarrow> take i s # split_n (Suc n) c (drop (i + 1) s))"

lemma split_n_append: "c \<notin> set a \<Longrightarrow> split_n (Suc (Suc n)) c (a @ c # s) = a # split_n (Suc n) c s"
  by (simp add: str_index_single_append)

lemma split_n_id: "c \<notin> set s \<Longrightarrow> split_n (Suc n) c s = [s]"
proof (cases n)
  case (Suc m)
  assume "c \<notin> set s"
  then have "str_index s [c] = None" by simp
  then show ?thesis using Suc by (simp del: str_index_single_None)
qed simp

end
