(* ===== verification/ReviewDiff.thy ===== *)
theory ReviewDiff
  imports GoStrconv CallGraph
begin

text \<open>
  The changed symbols of a review (\<open>internal/review/diff.go\<close>, \<open>symbols.go\<close>). The output of
  \<open>git diff --numstat\<close> gives the files with their counts, the output of \<open>git diff --unified=0\<close> the changed
  line ranges of the new version of each file; a symbol counts as changed when its lines meet a range. The
  git process is a parameter: the two functions take its output.

  \<open>unified\<close> prints a diff the way git does; the lemmas show what the range parser reads from any such diff: exactly the
  ranges of every file, unless an added line prints like the header of a file, which takes the hunks that follow. The
  symbols reported are those with a changed line.
\<close>

record LineRange =
  lr_Start :: int
  lr_End :: int

record FileDiff =
  fd_Path :: string
  fd_Added :: int
  fd_Removed :: int
  fd_LineRanges :: "LineRange list"

definition newline :: char where "newline = CHR 0x0A"
definition tab :: char where "tab = CHR 0x09"

definition numstat_line :: "string \<Rightarrow> FileDiff option" where
  "numstat_line line =
     (if line = [] then None
      else case split_n 3 tab line of
        added # removed # path # _ \<Rightarrow>
          Some \<lparr>fd_Path = path, fd_Added = fst (atoi added), fd_Removed = fst (atoi removed), fd_LineRanges = []\<rparr>
      | _ \<Rightarrow> None)"

definition parseNumstat :: "string \<Rightarrow> FileDiff list" where
  "parseNumstat out = List.map_filter numstat_line (split_on newline (trim_space out))"

definition parseHunkHeader :: "string \<Rightarrow> LineRange option" where
  "parseHunkHeader line =
     (case str_index line ''+'' of
        None \<Rightarrow> None
      | Some idx \<Rightarrow>
          let rest0 = drop (idx + 1) line;
              rest = (case str_index rest0 '' '' of None \<Rightarrow> rest0 | Some e \<Rightarrow> take e rest0);
              parts = split_n 2 CHR '','' rest
          in if parts = [] \<or> hd parts = [] then None
             else case atoi (hd parts) of
               (_, False) \<Rightarrow> None
             | (start, True) \<Rightarrow>
                 let len = (if length parts > 1 then fst (atoi (parts ! 1)) else 1)
                 in if len = 0 then None else Some \<lparr>lr_Start = start, lr_End = start + len - 1\<rparr>)"

definition file_mark :: string where
  "file_mark = ''+++ b/''"

text \<open>The loop over the lines: the current file and the ranges found so far.\<close>

definition range_step :: "string \<times> (string \<Rightarrow> LineRange list) \<Rightarrow> string \<Rightarrow> string \<times> (string \<Rightarrow> LineRange list)" where
  "range_step st line =
     (let (cur, res) = st in
      if prefix file_mark line then (trim_prefix line file_mark, res)
      else if prefix ''@@'' line \<and> cur \<noteq> [] then
        (case parseHunkHeader line of None \<Rightarrow> st | Some r \<Rightarrow> (cur, res(cur := res cur @ [r])))
      else st)"

definition parseUnifiedRanges :: "string \<Rightarrow> string \<Rightarrow> LineRange list" where
  "parseUnifiedRanges out = snd (foldl range_step ([], \<lambda>_. []) (split_on newline out))"

text \<open>The two outputs combined, as \<open>diffBaseRewrite\<close> and \<open>diffCachedRewrite\<close> do.\<close>

definition diff_files :: "string \<Rightarrow> string \<Rightarrow> FileDiff list" where
  "diff_files numstat unified_out =
     map (\<lambda>f. f\<lparr>fd_LineRanges := parseUnifiedRanges unified_out (fd_Path f)\<rparr>) (parseNumstat numstat)"

datatype ChangeType = ChangeAdded | ChangeModified | ChangeRemoved

record ChangedSymbol =
  cs_Symbol :: sym_ref
  cs_ChangeType :: ChangeType
  cs_FileDiff :: FileDiff

definition overlaps :: "Symbol \<Rightarrow> LineRange list \<Rightarrow> bool" where
  "overlaps sy ranges \<longleftrightarrow>
     list_ex (\<lambda>r. int (unat (sym_StartLine sy)) \<le> lr_End r \<and> lr_Start r \<le> int (unat (sym_EndLine sy))) ranges"

text \<open>\<open>relp\<close> is \<open>langutil.RelPath\<close> for the repository root.\<close>

definition ChangedSymbols :: "(sym_ref \<Rightarrow> Symbol) \<Rightarrow> (string \<Rightarrow> string) \<Rightarrow> sym_ref list \<Rightarrow> FileDiff list \<Rightarrow>
    ChangedSymbol list" where
  "ChangedSymbols st relp symbols diffs =
     concat (map (\<lambda>d.
       let fileSymbols = filter (\<lambda>r. relp (sym_File (st r)) = fd_Path d) symbols;
           isNewFile = (fd_Removed d = 0 \<and> fd_Added d > 0 \<and> length (fd_LineRanges d) \<ge> 1)
       in map (\<lambda>r. \<lparr>cs_Symbol = r, cs_ChangeType = (if isNewFile then ChangeAdded else ChangeModified), cs_FileDiff = d\<rparr>)
            (filter (\<lambda>r. overlaps (st r) (fd_LineRanges d)) fileSymbols)) diffs)"

subsection \<open>What git prints\<close>

record Hunk =
  h_OldStart :: nat
  h_OldLen :: nat
  h_NewStart :: nat
  h_NewLen :: nat
  h_Context :: string
  h_Body :: "string list"

text \<open>A file of a diff: its path in the new version, if it has one, and the lines before the hunks.\<close>

record DiffFile =
  df_Path :: "string option"
  df_Header :: "string list"
  df_Hunks :: "Hunk list"

definition span :: "nat \<Rightarrow> nat \<Rightarrow> string" where
  "span start len = nat_dec start @ (if len = 1 then [] else '','' @ nat_dec len)"

definition hunk_header :: "Hunk \<Rightarrow> string" where
  "hunk_header h = ''@@ -'' @ span (h_OldStart h) (h_OldLen h) @ '' +'' @ span (h_NewStart h) (h_NewLen h) @ '' @@'' @ h_Context h"

definition hunk_lines :: "Hunk \<Rightarrow> string list" where
  "hunk_lines h = hunk_header h # h_Body h"

definition file_lines :: "DiffFile \<Rightarrow> string list" where
  "file_lines f = df_Header f @
     (case df_Path f of None \<Rightarrow> ''+++ /dev/null'' | Some p \<Rightarrow> file_mark @ p) # concat (map hunk_lines (df_Hunks f))"

definition unified :: "DiffFile list \<Rightarrow> string" where
  "unified fs = concat (map (\<lambda>l. l @ [newline]) (concat (map file_lines fs)))"

text \<open>
  Lines before the hunks neither start like a hunk nor read like the name of the new file. A line of a hunk starts with its
  mark; a deleted file has no new lines.
\<close>

definition quiet :: "string \<Rightarrow> bool" where
  "quiet l \<longleftrightarrow> \<not> prefix file_mark l \<and> \<not> prefix ''@@'' l \<and> newline \<notin> set l"

definition body_line :: "string \<Rightarrow> bool" where
  "body_line l \<longleftrightarrow> (prefix ''-'' l \<or> prefix ''+'' l \<or> prefix [CHR 0x5C] l) \<and> newline \<notin> set l"

definition good_hunk :: "Hunk \<Rightarrow> bool" where
  "good_hunk h \<longleftrightarrow> list_all body_line (h_Body h) \<and> newline \<notin> set (h_Context h) \<and>
     int (h_NewStart h) \<le> maxInt64 \<and> int (h_NewLen h) \<le> maxInt64"

definition good_file :: "DiffFile \<Rightarrow> bool" where
  "good_file f \<longleftrightarrow> list_all quiet (df_Header f) \<and> list_all good_hunk (df_Hunks f) \<and>
     (case df_Path f of
        None \<Rightarrow> list_all (\<lambda>h. h_NewLen h = 0 \<and> list_all (\<lambda>l. \<not> prefix ''+'' l) (h_Body h)) (df_Hunks f)
      | Some p \<Rightarrow> p \<noteq> [] \<and> newline \<notin> set p)"

definition hunk_range :: "Hunk \<Rightarrow> LineRange list" where
  "hunk_range h = (if h_NewLen h = 0 then []
     else [\<lparr>lr_Start = int (h_NewStart h), lr_End = int (h_NewStart h) + int (h_NewLen h) - 1\<rparr>])"

definition ranges_of :: "DiffFile list \<Rightarrow> string \<Rightarrow> LineRange list" where
  "ranges_of fs p = concat (map (\<lambda>f. if df_Path f = Some p then concat (map hunk_range (df_Hunks f)) else []) fs)"

text \<open>
  An added line whose text starts with \<open>++ b/\<close> prints like the name of a new file. The file that is named last before a hunk, and the
  ranges that go to a file when the names are taken that way.
\<close>

definition spoofs :: "Hunk \<Rightarrow> bool" where
  "spoofs h = list_ex (prefix file_mark) (h_Body h)"

definition named_after :: "string \<Rightarrow> string list \<Rightarrow> string" where
  "named_after cur body = foldl (\<lambda>c l. if prefix file_mark l then drop (length file_mark) l else c) cur body"

fun attributed :: "string \<Rightarrow> Hunk list \<Rightarrow> string \<Rightarrow> LineRange list" where
  "attributed cur [] p = []"
| "attributed cur (h # hs) p = (if p = cur \<and> cur \<noteq> [] then hunk_range h else []) @ attributed (named_after cur (h_Body h)) hs p"

definition attributed_ranges :: "DiffFile list \<Rightarrow> string \<Rightarrow> LineRange list" where
  "attributed_ranges fs p = concat (map (\<lambda>f. case df_Path f of None \<Rightarrow> [] | Some q \<Rightarrow> attributed q (df_Hunks f) p) fs)"

subsection \<open>The parser reads it back\<close>

lemma span_no_char: "c \<noteq> CHR '','' \<Longrightarrow> \<not> is_digit c \<Longrightarrow> c \<notin> set (span a n)"
  by (auto simp: span_def nat_dec_no_char)

lemma split_on_lines:
  "\<forall>l \<in> set ls. newline \<notin> set l \<Longrightarrow> split_on newline (concat (map (\<lambda>l. l @ [newline]) ls)) = ls @ [[]]"
  by (induction ls) (simp_all add: split_on_append_sep)

lemma not_digits [simp]:
  "\<not> is_digit CHR ''+''" "\<not> is_digit CHR '' ''" "\<not> is_digit CHR '',''" "\<not> is_digit newline" "\<not> is_digit CHR 0x0A"
  by (simp_all add: is_digit_def newline_def of_char_def)

lemma parse_header:
  assumes "int (h_NewStart h) \<le> maxInt64" and "int (h_NewLen h) \<le> maxInt64"
  shows "parseHunkHeader (hunk_header h) = (if h_NewLen h = 0 then None else Some (hd (hunk_range h)))"
proof -
  let ?new = "span (h_NewStart h) (h_NewLen h)"
  let ?pre = "''@@ -'' @ span (h_OldStart h) (h_OldLen h) @ '' ''"
  let ?post = "''@@'' @ h_Context h"
  have hd: "hunk_header h = ?pre @ CHR ''+'' # ?new @ CHR '' '' # ?post" by (simp add: hunk_header_def)
  have "CHR ''+'' \<notin> set ?pre" by (simp add: span_no_char)
  then have i: "str_index (hunk_header h) [CHR ''+''] = Some (length ?pre)"
    unfolding hd by (rule str_index_single_append)
  have d: "drop (length ?pre + 1) (hunk_header h) = ?new @ CHR '' '' # ?post" unfolding hd by simp
  have e: "str_index (?new @ CHR '' '' # ?post) [CHR '' ''] = Some (length ?new)"
    by (rule str_index_single_append) (simp add: span_no_char)
  have comma: "CHR '','' \<notin> set (nat_dec n)" for n by (simp add: nat_dec_no_char)
  have parts: "split_n 2 CHR '','' ?new =
      (if h_NewLen h = 1 then [nat_dec (h_NewStart h)] else [nat_dec (h_NewStart h), nat_dec (h_NewLen h)])"
    using split_n_append [OF comma, of 0] split_n_id [OF comma, of 1]
    by (simp add: span_def numeral_2_eq_2 split_n.simps(2) del: split_n.simps(3))
  have t: "take (length ?new) (?new @ CHR '' '' # ?post) = ?new" by simp
  show ?thesis
    unfolding parseHunkHeader_def i option.case Let_def d e t parts
    using assms by (simp add: atoi_nat_dec hunk_range_def)
qed

lemma quiet_step: "quiet l \<Longrightarrow> range_step st l = st"
  by (cases st) (simp add: quiet_def range_step_def)

lemma quiet_steps: "list_all quiet ls \<Longrightarrow> foldl range_step st ls = st"
  by (induction ls) (simp_all add: quiet_step)

lemma body_steps: "list_all body_line ls \<Longrightarrow> foldl range_step (cur, res) ls = (named_after cur ls, res)"
proof (induction ls arbitrary: cur)
  case (Cons l ls)
  have "\<not> prefix ''@@'' l" using Cons.prems by (cases l) (auto simp: body_line_def)
  then have "range_step (cur, res) l = (named_after cur [l], res)"
    by (auto simp: range_step_def named_after_def trim_prefix_def)
  with Cons show ?case by (simp add: named_after_def)
qed (simp add: named_after_def)

lemma hunk_step:
  assumes "good_hunk h"
  shows "foldl range_step (cur, res) (hunk_lines h) =
    (named_after cur (h_Body h), \<lambda>p. res p @ (if p = cur \<and> cur \<noteq> [] then hunk_range h else []))"
proof -
  have "\<not> prefix file_mark (hunk_header h)" "prefix ''@@'' (hunk_header h)"
    by (simp_all add: hunk_header_def file_mark_def)
  then have "range_step (cur, res) (hunk_header h) = (cur, \<lambda>p. res p @ (if p = cur \<and> cur \<noteq> [] then hunk_range h else []))"
    using assms parse_header [of h] by (auto simp: range_step_def good_hunk_def hunk_range_def fun_eq_iff)
  then show ?thesis using assms by (simp add: hunk_lines_def good_hunk_def body_steps)
qed

lemma hunks_step:
  "list_all good_hunk hs \<Longrightarrow>
   \<exists>cur'. foldl range_step (cur, res) (concat (map hunk_lines hs)) = (cur', \<lambda>p. res p @ attributed cur hs p)"
proof (induction hs arbitrary: cur res)
  case (Cons h hs)
  let ?cur = "named_after cur (h_Body h)" and ?res = "\<lambda>p. res p @ (if p = cur \<and> cur \<noteq> [] then hunk_range h else [])"
  from Cons.prems have "list_all good_hunk hs" by simp
  from Cons.IH [OF this, of ?cur ?res] obtain cur' where
    "foldl range_step (?cur, ?res) (concat (map hunk_lines hs)) = (cur', \<lambda>p. ?res p @ attributed ?cur hs p)" ..
  with Cons.prems show ?case by (simp add: hunk_step)
qed simp

lemma named_after_quiet: "list_all (\<lambda>l. \<not> prefix file_mark l) body \<Longrightarrow> named_after cur body = cur"
  by (induction body) (simp_all add: named_after_def)

lemma no_new_lines:
  "list_all (\<lambda>h. h_NewLen h = 0 \<and> list_all (\<lambda>l. \<not> prefix ''+'' l) (h_Body h)) hs \<Longrightarrow> attributed cur hs p = []"
proof (induction hs)
  case (Cons h hs)
  have "\<not> prefix file_mark l" if "\<not> prefix ''+'' l" for l using that by (cases l) (auto simp: file_mark_def)
  with Cons.prems have "list_all (\<lambda>l. \<not> prefix file_mark l) (h_Body h)" by (auto simp: list_all_iff)
  with Cons show ?case by (simp add: named_after_quiet hunk_range_def)
qed simp

lemma file_step:
  assumes "good_file f"
  shows "\<exists>cur'. foldl range_step (cur, res) (file_lines f) = (cur', \<lambda>p. res p @ attributed_ranges [f] p)"
proof (cases "df_Path f")
  case None
  then have "quiet ''+++ /dev/null''" by (simp add: quiet_def file_mark_def newline_def)
  then show ?thesis
    using assms None hunks_step [of "df_Hunks f" cur res] no_new_lines [of "df_Hunks f"]
    by (simp add: good_file_def file_lines_def quiet_steps quiet_step attributed_ranges_def)
next
  case (Some p)
  have "range_step (cur, res) (file_mark @ p) = (p, res)" by (simp add: range_step_def)
  then show ?thesis
    using assms Some hunks_step [of "df_Hunks f" p res]
    by (simp add: good_file_def file_lines_def quiet_steps attributed_ranges_def)
qed

lemma files_step:
  "list_all good_file fs \<Longrightarrow>
   \<exists>cur'. foldl range_step (cur, res) (concat (map file_lines fs)) = (cur', \<lambda>p. res p @ attributed_ranges fs p)"
proof (induction fs arbitrary: cur res)
  case Nil
  then show ?case by (simp add: attributed_ranges_def)
next
  case (Cons f fs)
  obtain cur1 where "foldl range_step (cur, res) (file_lines f) = (cur1, \<lambda>p. res p @ attributed_ranges [f] p)"
    using file_step [of f cur res] Cons.prems by auto
  moreover obtain cur2 where "foldl range_step (cur1, \<lambda>p. res p @ attributed_ranges [f] p) (concat (map file_lines fs)) =
      (cur2, \<lambda>p. (res p @ attributed_ranges [f] p) @ attributed_ranges fs p)"
    using Cons.IH [of cur1 "\<lambda>p. res p @ attributed_ranges [f] p"] Cons.prems by auto
  ultimately show ?case by (simp add: attributed_ranges_def)
qed

lemma span_no_newline: "newline \<notin> set (span a n)"
  by (rule span_no_char) (simp_all add: newline_def)

lemma hunk_no_newline:
  assumes "good_hunk h" and "l \<in> set (hunk_lines h)"
  shows "newline \<notin> set l"
proof (cases "l = hunk_header h")
  case True
  have "newline \<notin> set (h_Context h)" using assms(1) by (simp add: good_hunk_def)
  then show ?thesis using span_no_newline unfolding True hunk_header_def by (simp add: newline_def)
next
  case False
  then have "l \<in> set (h_Body h)" using assms(2) by (simp add: hunk_lines_def)
  then show ?thesis using assms(1) by (simp add: good_hunk_def list_all_iff body_line_def)
qed

lemma lines_no_newline:
  assumes "list_all good_file fs" and "l \<in> set (concat (map file_lines fs))"
  shows "newline \<notin> set l"
proof -
  obtain f where f: "good_file f" and "l \<in> set (file_lines f)" using assms by (auto simp: list_all_iff)
  then consider "l \<in> set (df_Header f)" | "l = (case df_Path f of None \<Rightarrow> ''+++ /dev/null'' | Some p \<Rightarrow> file_mark @ p)"
    | h where "h \<in> set (df_Hunks f)" "l \<in> set (hunk_lines h)"
    by (auto simp: file_lines_def)
  then show ?thesis
  proof cases
    case 1
    then show ?thesis using f by (simp add: good_file_def list_all_iff quiet_def)
  next
    case 2
    then show ?thesis using f by (cases "df_Path f") (simp_all add: good_file_def file_mark_def newline_def)
  next
    case 3
    then show ?thesis using f hunk_no_newline by (auto simp: good_file_def list_all_iff)
  qed
qed

lemma parseUnifiedRanges_attributed:
  assumes "list_all good_file fs"
  shows "parseUnifiedRanges (unified fs) p = attributed_ranges fs p"
proof -
  have "split_on newline (unified fs) = concat (map file_lines fs) @ [[]]"
    unfolding unified_def using lines_no_newline [OF assms] by (intro split_on_lines) blast
  moreover obtain cur where
    "foldl range_step ([], \<lambda>_. []) (concat (map file_lines fs)) = (cur, \<lambda>p. [] @ attributed_ranges fs p)"
    using files_step [OF assms] by blast
  moreover have "quiet []" by (simp add: quiet_def file_mark_def)
  ultimately show ?thesis by (simp add: parseUnifiedRanges_def quiet_step)
qed

lemma attributed_honest:
  "list_all (\<lambda>h. \<not> spoofs h) hs \<Longrightarrow> q \<noteq> [] \<Longrightarrow> attributed q hs p = (if p = q then concat (map hunk_range hs) else [])"
proof (induction hs)
  case (Cons h hs)
  then have "named_after q (h_Body h) = q" by (intro named_after_quiet) (auto simp: spoofs_def list_all_iff list_ex_iff)
  with Cons show ?case by auto
qed simp

lemma parseUnifiedRanges_facts:
  assumes "list_all good_file fs" and "list_all (\<lambda>f. list_all (\<lambda>h. \<not> spoofs h) (df_Hunks f)) fs"
  shows "parseUnifiedRanges (unified fs) p = ranges_of fs p"
proof -
  have "attributed_ranges fs p = ranges_of fs p"
    using assms
  proof (induction fs)
    case (Cons f fs)
    then show ?case
      using attributed_honest [of "df_Hunks f"] by (cases "df_Path f") (auto simp: attributed_ranges_def ranges_of_def good_file_def)
  qed (simp add: attributed_ranges_def ranges_of_def)
  then show ?thesis using parseUnifiedRanges_attributed [OF assms(1)] by simp
qed

text \<open>
  C23: For every diff as git prints it (header lines that read neither like a hunk nor like the name of a new file, hunk lines that start
  with their mark, paths printed as they are, line numbers of 64 bits), the changed ranges read for a path are the new-side
  spans of the hunks that follow a line reading like the name of that path, in order and without the hunks that only
  delete. An added line whose text starts with \<open>++ b/\<close> reads like a name; when the diff has no such line, the ranges of every
  path are exactly the spans of its own hunks.
\<close>

theorem parseUnifiedRanges_reads_back:
  assumes "list_all good_file fs"
  shows "parseUnifiedRanges (unified fs) p = attributed_ranges fs p \<and>
    (list_all (\<lambda>f. list_all (\<lambda>h. \<not> spoofs h) (df_Hunks f)) fs \<longrightarrow> parseUnifiedRanges (unified fs) p = ranges_of fs p)"
  using parseUnifiedRanges_attributed [OF assms] parseUnifiedRanges_facts [OF assms] by blast

text \<open>A change in one file, and a deleted file.\<close>

definition small_diff :: "DiffFile list" where
  "small_diff =
     [\<lparr>df_Path = Some ''a.go'', df_Header = [''diff --git a/a.go b/a.go'', ''--- a/a.go''],
       df_Hunks = [\<lparr>h_OldStart = 3, h_OldLen = 1, h_NewStart = 3, h_NewLen = 2, h_Context = '' func f()'',
                    h_Body = [''-x'', ''+y'', ''+z'']\<rparr>,
                   \<lparr>h_OldStart = 9, h_OldLen = 2, h_NewStart = 9, h_NewLen = 0, h_Context = [], h_Body = [''-u'', ''-v'']\<rparr>]\<rparr>,
      \<lparr>df_Path = None, df_Header = [''--- a/b.go''],
       df_Hunks = [\<lparr>h_OldStart = 1, h_OldLen = 1, h_NewStart = 0, h_NewLen = 0, h_Context = [], h_Body = [''-w'']\<rparr>]\<rparr>]"

theorem parseUnifiedRanges_reads_back_witness:
  "parseUnifiedRanges (unified small_diff) ''a.go'' = [\<lparr>lr_Start = 3, lr_End = 4\<rparr>]"
proof -
  have "list_all good_file small_diff" "list_all (\<lambda>f. list_all (\<lambda>h. \<not> spoofs h) (df_Hunks f)) small_diff"
    by (simp_all add: small_diff_def good_file_def good_hunk_def quiet_def body_line_def spoofs_def file_mark_def newline_def maxInt64_def)
  with parseUnifiedRanges_reads_back have "parseUnifiedRanges (unified small_diff) ''a.go'' = ranges_of small_diff ''a.go''" by blast
  then show ?thesis by (simp add: small_diff_def ranges_of_def hunk_range_def)
qed

text \<open>
  An added line whose content starts with \<open>++ b/\<close> prints as the header of a file, and the hunks after it are
  attributed to that file: the parser does not count the lines of a hunk.
\<close>

definition spoofing :: DiffFile where
  "spoofing = \<lparr>df_Path = Some ''a.go'', df_Header = [],
     df_Hunks = [\<lparr>h_OldStart = 1, h_OldLen = 0, h_NewStart = 1, h_NewLen = 1, h_Context = [], h_Body = [''+++ b/x'']\<rparr>,
                 \<lparr>h_OldStart = 5, h_OldLen = 0, h_NewStart = 6, h_NewLen = 1, h_Context = [], h_Body = [''+q'']\<rparr>]\<rparr>"

lemma body_line_spoofs_header:
  "parseUnifiedRanges (unified [spoofing]) ''x'' = [\<lparr>lr_Start = 6, lr_End = 6\<rparr>]"
  "ranges_of [spoofing] ''x'' = []"
proof -
  let ?h1 = "(df_Hunks spoofing) ! 0" and ?h2 = "(df_Hunks spoofing) ! 1"
  have lines: "concat (map file_lines [spoofing]) = [''+++ b/a.go'', hunk_header ?h1, ''+++ b/x'', hunk_header ?h2, ''+q'']"
    by (simp add: file_lines_def spoofing_def hunk_lines_def file_mark_def)
  have nl: "newline \<notin> set (hunk_header h)" if "h_Context h = []" for h
    using span_no_newline that by (simp add: hunk_header_def newline_def)
  have "split_on newline (unified [spoofing]) =
      [''+++ b/a.go'', hunk_header ?h1, ''+++ b/x'', hunk_header ?h2, ''+q'', []]"
    unfolding unified_def lines by (subst split_on_lines) (auto simp: newline_def [symmetric] nl spoofing_def, auto simp: newline_def)
  moreover have "\<not> prefix file_mark (hunk_header h)" "prefix ''@@'' (hunk_header h)" for h
    by (simp_all add: hunk_header_def file_mark_def)
  moreover have "parseHunkHeader (hunk_header ?h1) = Some \<lparr>lr_Start = 1, lr_End = 1\<rparr>"
    "parseHunkHeader (hunk_header ?h2) = Some \<lparr>lr_Start = 6, lr_End = 6\<rparr>"
    by (subst parse_header; simp add: spoofing_def maxInt64_def hunk_range_def)+
  ultimately show "parseUnifiedRanges (unified [spoofing]) ''x'' = [\<lparr>lr_Start = 6, lr_End = 6\<rparr>]"
    by (simp add: parseUnifiedRanges_def range_step_def file_mark_def trim_prefix_def)
  show "ranges_of [spoofing] ''x'' = []" by (simp add: ranges_of_def spoofing_def)
qed

subsection \<open>The changed symbols\<close>

definition line_changed :: "FileDiff \<Rightarrow> int \<Rightarrow> bool" where
  "line_changed d n \<longleftrightarrow> (\<exists>r \<in> set (fd_LineRanges d). lr_Start r \<le> n \<and> n \<le> lr_End r)"

definition has_line :: "Symbol \<Rightarrow> int \<Rightarrow> bool" where
  "has_line s n \<longleftrightarrow> int (unat (sym_StartLine s)) \<le> n \<and> n \<le> int (unat (sym_EndLine s))"

lemma overlaps_iff:
  assumes "sym_StartLine s \<le> sym_EndLine s" and "\<forall>r \<in> set (fd_LineRanges d). lr_Start r \<le> lr_End r"
  shows "overlaps s (fd_LineRanges d) \<longleftrightarrow> (\<exists>n. has_line s n \<and> line_changed d n)"
proof
  assume "overlaps s (fd_LineRanges d)"
  then obtain r where r: "r \<in> set (fd_LineRanges d)" "int (unat (sym_StartLine s)) \<le> lr_End r"
      "lr_Start r \<le> int (unat (sym_EndLine s))" by (auto simp: overlaps_def list_ex_iff)
  let ?n = "max (int (unat (sym_StartLine s))) (lr_Start r)"
  have "has_line s ?n" using assms(1) r(3) by (simp add: has_line_def word_le_def)
  moreover have "line_changed d ?n"
    unfolding line_changed_def by (rule bexI [OF _ r(1)]) (use r assms(2) in auto)
  ultimately show "\<exists>n. has_line s n \<and> line_changed d n" by blast
next
  assume "\<exists>n. has_line s n \<and> line_changed d n"
  then obtain n r where n: "int (unat (sym_StartLine s)) \<le> n" "n \<le> int (unat (sym_EndLine s))"
    and r: "r \<in> set (fd_LineRanges d)" "lr_Start r \<le> n" "n \<le> lr_End r"
    by (auto simp: has_line_def line_changed_def)
  then have "int (unat (sym_StartLine s)) \<le> lr_End r \<and> lr_Start r \<le> int (unat (sym_EndLine s))" by linarith
  then show "overlaps s (fd_LineRanges d)" using r(1) by (auto simp: overlaps_def list_ex_iff)
qed

lemma hunk_range_ordered: "r \<in> set (hunk_range h) \<Longrightarrow> lr_Start r \<le> lr_End r"
  by (auto simp: hunk_range_def split: if_splits)

lemma ranges_ordered: "r \<in> set (ranges_of fs p) \<Longrightarrow> lr_Start r \<le> lr_End r"
  by (auto simp: ranges_of_def hunk_range_ordered split: if_splits)

text \<open>
  For a diff as git prints it and without an added line that reads like the name of a file, the symbols reported as changed are exactly those of a file of the diff that
  contain a line in the new span of a hunk of that file, each with the record of its file.
\<close>

lemma ChangedSymbols_exact:
  assumes "list_all good_file fs" and "list_all (\<lambda>f. list_all (\<lambda>h. \<not> spoofs h) (df_Hunks f)) fs"
    and "\<forall>r \<in> set symbols. sym_StartLine (st r) \<le> sym_EndLine (st r)"
  shows "(r, d) \<in> (\<lambda>c. (cs_Symbol c, cs_FileDiff c)) ` set (ChangedSymbols st relp symbols (diff_files numstat (unified fs)))
    \<longleftrightarrow> r \<in> set symbols \<and> d \<in> set (diff_files numstat (unified fs)) \<and> relp (sym_File (st r)) = fd_Path d \<and>
      (\<exists>n. has_line (st r) n \<and> (\<exists>g \<in> set (ranges_of fs (fd_Path d)). lr_Start g \<le> n \<and> n \<le> lr_End g))"
proof -
  have rng: "fd_LineRanges d = ranges_of fs (fd_Path d)" if "d \<in> set (diff_files numstat (unified fs))" for d
    using that parseUnifiedRanges_facts [OF assms(1,2)] by (auto simp: diff_files_def)
  have "(r, d) \<in> (\<lambda>c. (cs_Symbol c, cs_FileDiff c)) ` set (ChangedSymbols st relp symbols diffs) \<longleftrightarrow>
      r \<in> set symbols \<and> d \<in> set diffs \<and> relp (sym_File (st r)) = fd_Path d \<and> overlaps (st r) (fd_LineRanges d)" for diffs
    by (force simp: ChangedSymbols_def Let_def)
  then show ?thesis
    using overlaps_iff [of "st r" d] assms(3) rng [of d] ranges_ordered [of _ fs "fd_Path d"]
    by (auto simp: line_changed_def)
qed

definition one_symbol :: "sym_ref \<Rightarrow> Symbol" where
  "one_symbol r = \<lparr>sym_Name = ''f'', sym_Kind = ''function'', sym_File = ''a.go'', sym_StartLine = 1, sym_EndLine = 3,
     sym_Receiver = []\<rparr>"

definition small_numstat :: string where
  "small_numstat = ''2'' @ [tab] @ ''3'' @ [tab] @ ''a.go''"

end
