(* ===== verification/PreprocScan.thy ===== *)
theory PreprocScan
  imports GoStrings
begin

text \<open>
  The byte scanners of the template preprocessors (\<open>internal/parser/preproc\<close>: \<open>quotes.go\<close>, \<open>braces.go\<close>,
  \<open>astro.go\<close>, \<open>astro_refs.go\<close>, \<open>markup_exprs.go\<close>, \<open>svelte_exprs.go\<close>). A scanner walks an index through
  the source; an index is a natural number, -1 is \<^const>\<open>None\<close>. Each loop comes with the bound on what it returns,
  which gives the termination of the loop that calls it and, at the end, that every range a scanner
  reports lies in the source.
\<close>

definition nl :: char where "nl = CHR 0x0A"
definition quote1 :: char where "quote1 = char_of (39 :: nat)"
definition quote2 :: char where "quote2 = CHR 0x22"
definition backtick :: char where "backtick = CHR 0x60"
definition bslash :: char where "bslash = CHR 0x5C"

definition lineNumber :: "string \<Rightarrow> nat \<Rightarrow> nat" where
  "lineNumber src pos = 1 + count_list (take pos src) nl"

text \<open>The line of \<open>lineColAt\<close> is \<open>lineNumber\<close>; the column counts from the last line break.\<close>

fun line_col :: "nat \<times> nat \<Rightarrow> string \<Rightarrow> nat \<times> nat" where
  "line_col lc [] = lc"
| "line_col (l, c) (x # xs) = (if x = nl then line_col (l + 1, 1) xs else line_col (l, c + 1) xs)"

definition lineColAt :: "string \<Rightarrow> nat \<Rightarrow> nat \<times> nat" where
  "lineColAt src pos = line_col (1, 1) (take pos src)"

lemma line_col_line: "fst (line_col (l, c) xs) = l + count_list xs nl"
  by (induction xs arbitrary: l c) simp_all

lemma lineColAt_line: "fst (lineColAt src pos) = lineNumber src pos"
  by (simp add: lineColAt_def lineNumber_def line_col_line)

lemma lineNumber_mono: "a \<le> b \<Longrightarrow> lineNumber src a \<le> lineNumber src b"
proof -
  assume "a \<le> b"
  then have "take b src = take a src @ take (b - a) (drop a src)" by (metis le_add_diff_inverse take_add)
  then show ?thesis by (simp add: lineNumber_def)
qed

subsection \<open>Quotes and braces\<close>

function skipQuoted :: "string \<Rightarrow> nat \<Rightarrow> char \<Rightarrow> bool \<Rightarrow> nat" where
  "skipQuoted src i q escaped =
     (if i < length src then
        if escaped \<and> src ! i = bslash then skipQuoted src (i + 2) q escaped
        else if src ! i = q then i + 1
        else skipQuoted src (i + 1) q escaped
      else length src)"
  by pat_completeness auto
termination by (relation "measure (\<lambda>(src, i, q, e). length src - i)") auto

declare skipQuoted.simps [simp del]

lemma skipQuoted_bounds: "min i (length src) \<le> skipQuoted src i q e \<and> skipQuoted src i q e \<le> length src"
proof (induction src i q e rule: skipQuoted.induct)
  case (1 src i q e)
  then show ?case by (subst (1 2) skipQuoted.simps) auto
qed

definition quotes :: "char set" where
  "quotes = {quote1, quote2, backtick}"

function match_from :: "string \<Rightarrow> nat \<Rightarrow> int \<Rightarrow> nat option" where
  "match_from src i depth =
     (if i < length src then
        if src ! i \<in> quotes then match_from src (skipQuoted src (i + 1) (src ! i) True) depth
        else if src ! i = CHR ''{'' then match_from src (i + 1) (depth + 1)
        else if src ! i = CHR ''}'' then (if depth - 1 = 0 then Some i else match_from src (i + 1) (depth - 1))
        else match_from src (i + 1) depth
      else None)"
  by pat_completeness auto
termination
proof (relation "measure (\<lambda>(src, i, d). length src - i)", goal_cases)
  case (2 src i depth)
  then show ?case using skipQuoted_bounds [of "i + 1" src "src ! i" True] by auto
qed auto

declare match_from.simps [simp del]

definition matchBrace :: "string \<Rightarrow> nat \<Rightarrow> nat option" where
  "matchBrace src open = match_from src open 0"

lemma match_from_bounds: "match_from src i d = Some j \<Longrightarrow> i \<le> j \<and> j < length src \<and> src ! j = CHR ''}''"
proof (induction src i d rule: match_from.induct)
  case (1 src i d)
  show ?case
  proof (cases "i < length src \<and> src ! i \<in> quotes")
    case True
    then have "match_from src (skipQuoted src (i + 1) (src ! i) True) d = Some j"
      using "1.prems" by (subst (asm) match_from.simps) simp
    then show ?thesis using "1.IH"(1) True skipQuoted_bounds [of "i + 1" src "src ! i" True] by auto
  next
    case False
    then show ?thesis using "1.prems" "1.IH"(2-4)
      by (subst (asm) match_from.simps) (auto split: if_splits)
  qed
qed

lemma matchBrace_bounds:
  assumes "matchBrace src a = Some b" and "src ! a = CHR ''{''"
  shows "a < b \<and> b < length src \<and> src ! b = CHR ''}''"
proof -
  have "a \<le> b" "b < length src" "src ! b = CHR ''}''"
    using match_from_bounds assms(1) by (auto simp: matchBrace_def)
  moreover have "a \<noteq> b" using assms(2) calculation(3) by auto
  ultimately show ?thesis by simp
qed

subsection \<open>Script and style blocks, frontmatter\<close>

record byte_range =
  br_start :: nat
  br_end :: nat

function skip_blocks :: "string \<Rightarrow> string \<Rightarrow> nat \<Rightarrow> byte_range list" where
  "skip_blocks src tag pos =
     (if pos < length src then
        case str_index (drop pos src) (''<'' @ tag) of
          None \<Rightarrow> []
        | Some idx \<Rightarrow>
            (case str_index (drop (pos + idx) src) ''>'' of
               None \<Rightarrow> []
             | Some gt \<Rightarrow>
                 let start = pos + idx; cs = start + gt + 1 in
                 (case str_index (drop cs src) (''</'' @ tag @ ''>'') of
                    None \<Rightarrow> [\<lparr>br_start = start, br_end = length src\<rparr>]
                  | Some ci \<Rightarrow>
                      let e = cs + ci + length (''</'' @ tag @ ''>'')
                      in \<lparr>br_start = start, br_end = e\<rparr> # skip_blocks src tag e))
      else [])"
  by pat_completeness auto
termination by (relation "measure (\<lambda>(src, tag, pos). length src - pos)") auto

declare skip_blocks.simps [simp del]

definition collectSkipRanges :: "string \<Rightarrow> byte_range list" where
  "collectSkipRanges src = skip_blocks src ''script'' 0 @ skip_blocks src ''style'' 0"

definition inSkipRanges :: "nat \<Rightarrow> byte_range list \<Rightarrow> bool" where
  "inSkipRanges i ranges \<longleftrightarrow> list_ex (\<lambda>r. br_start r \<le> i \<and> i < br_end r) ranges"

text \<open>The first line from \<open>from\<close> on that starts with a prefix; \<open>from\<close> itself counts as a line start.\<close>

function next_line_prefix :: "string \<Rightarrow> nat \<Rightarrow> string \<Rightarrow> nat option" where
  "next_line_prefix src from p =
     (case str_index (drop from src) [nl] of
        None \<Rightarrow> None
      | Some k \<Rightarrow>
          if prefix p (drop (from + k + 1) src) then Some (from + k + 1)
          else next_line_prefix src (from + k + 1) p)"
  by pat_completeness auto
termination
proof (relation "measure (\<lambda>(src, from, p). length src - from)", goal_cases)
  case (2 src b p k)
  then show ?case using str_index_single_notin [of "drop b src" nl k] by auto
qed auto

declare next_line_prefix.simps [simp del]

definition findLinePrefix :: "string \<Rightarrow> nat \<Rightarrow> string \<Rightarrow> nat option" where
  "findLinePrefix src from p =
     (if from \<le> length src \<and> prefix p (drop from src) then Some from else next_line_prefix src from p)"

definition is_blank :: "char \<Rightarrow> bool" where
  "is_blank c \<longleftrightarrow> c = CHR '' '' \<or> c = CHR 0x09 \<or> c = CHR 0x0D \<or> c = nl"

definition has_frontmatter :: "string \<Rightarrow> bool" where
  "has_frontmatter src \<longleftrightarrow> prefix ''---'' (dropWhile is_blank src)"

definition skip_byte :: "string \<Rightarrow> char \<Rightarrow> nat \<Rightarrow> nat" where
  "skip_byte src c i = (if i < length src \<and> src ! i = c then i + 1 else i)"

text \<open>The offset after the opening dashes and their line break.\<close>

definition after_dashes :: "string \<Rightarrow> nat" where
  "after_dashes src = skip_byte src nl (skip_byte src CHR 0x0D (the (str_index src ''---'') + 3))"

definition line_after :: "string \<Rightarrow> nat \<Rightarrow> nat" where
  "line_after src i = (case str_index (drop i src) [nl] of None \<Rightarrow> length src | Some k \<Rightarrow> i + k + 1)"

definition findTemplateStart :: "string \<Rightarrow> nat" where
  "findTemplateStart src =
     (if \<not> has_frontmatter src then 0
      else case findLinePrefix src (after_dashes src) ''---'' of
        None \<Rightarrow> length src
      | Some cl \<Rightarrow> line_after src cl)"

subsection \<open>Plain expressions\<close>

function markup_ranges :: "string \<Rightarrow> byte_range list \<Rightarrow> nat \<Rightarrow> byte_range list" where
  "markup_ranges src skips i =
     (if i < length src then
        if src ! i \<noteq> CHR ''{'' \<or> inSkipRanges i skips then markup_ranges src skips (i + 1)
        else (case matchBrace src i of
                None \<Rightarrow> []
              | Some close \<Rightarrow>
                  (if close > i + 1 then [\<lparr>br_start = i + 1, br_end = close\<rparr>] else []) @
                  markup_ranges src skips (close + 1))
      else [])"
  by pat_completeness auto
termination
proof (relation "measure (\<lambda>(src, skips, i). length src - i)", goal_cases)
  case (3 src skips i close)
  then show ?case using match_from_bounds [of src i 0 close] by (auto simp: matchBrace_def)
qed auto

declare markup_ranges.simps [simp del]

definition scanMarkupExprRanges :: "string \<Rightarrow> byte_range list" where
  "scanMarkupExprRanges src = markup_ranges src (collectSkipRanges src) (findTemplateStart src)"

subsection \<open>Svelte expressions\<close>

definition isWordByte :: "char \<Rightarrow> bool" where
  "isWordByte c \<longleftrightarrow> (let n = of_char c :: nat in
     (97 \<le> n \<and> n \<le> 122) \<or> (65 \<le> n \<and> n \<le> 90) \<or> (48 \<le> n \<and> n \<le> 57) \<or> c = CHR ''_'' \<or> c = CHR ''$'')"

text \<open>\<open>scanIdent\<close> and \<open>skipSpace\<close>: the first index from \<open>from\<close> to \<open>end\<close> whose byte fails the test.\<close>

function scan_while :: "(char \<Rightarrow> bool) \<Rightarrow> string \<Rightarrow> nat \<Rightarrow> nat \<Rightarrow> nat" where
  "scan_while P src i e = (if i < e \<and> P (src ! i) then scan_while P src (i + 1) e else i)"
  by pat_completeness auto
termination by (relation "measure (\<lambda>(P, src, i, e). e - i)") auto

declare scan_while.simps [simp del]

definition scanIdent :: "string \<Rightarrow> nat \<Rightarrow> nat \<Rightarrow> nat" where
  "scanIdent = scan_while isWordByte"

definition skipSpace :: "string \<Rightarrow> nat \<Rightarrow> nat \<Rightarrow> nat" where
  "skipSpace = scan_while is_blank"

definition bytes_of :: "string \<Rightarrow> nat \<Rightarrow> nat \<Rightarrow> string" where
  "bytes_of src a b = take (b - a) (drop a src)"

definition matchKeywordAt :: "string \<Rightarrow> nat \<Rightarrow> nat \<Rightarrow> string \<Rightarrow> bool" where
  "matchKeywordAt src i e kw \<longleftrightarrow>
     i + length kw \<le> e \<and> \<not> (i > 0 \<and> isWordByte (src ! (i - 1))) \<and> bytes_of src i (i + length kw) = kw \<and>
     \<not> (i + length kw < e \<and> isWordByte (src ! (i + length kw)))"

function keyword_from :: "string \<Rightarrow> nat \<Rightarrow> nat \<Rightarrow> string \<Rightarrow> nat \<Rightarrow> nat option" where
  "keyword_from src i e kw depth =
     (if i < e then
        if src ! i \<in> quotes then
          (if i < length src then keyword_from src (skipQuoted src (i + 1) (src ! i) True) e kw depth else None)
        else if src ! i \<in> {CHR ''('', CHR ''['', CHR ''{''} then keyword_from src (i + 1) e kw (depth + 1)
        else if src ! i \<in> {CHR '')'', CHR '']'', CHR ''}''} then keyword_from src (i + 1) e kw (depth - 1)
        else if depth = 0 \<and> matchKeywordAt src i e kw then Some i
        else keyword_from src (i + 1) e kw depth
      else None)"
  by pat_completeness auto
termination
proof (relation "measure (\<lambda>(src, i, e, kw, d). e - i)", goal_cases)
  case (2 src i e kw depth)
  then show ?case using skipQuoted_bounds [of "i + 1" src "src ! i" True] by auto
qed auto

declare keyword_from.simps [simp del]

definition scanToKeyword :: "string \<Rightarrow> nat \<Rightarrow> nat \<Rightarrow> string \<Rightarrow> nat option" where
  "scanToKeyword src from e kw = keyword_from src from e kw 0"

text \<open>An \<open>=\<close> that is no part of a comparison or an arrow.\<close>

definition plain_assign :: "string \<Rightarrow> nat \<Rightarrow> nat \<Rightarrow> nat \<Rightarrow> bool" where
  "plain_assign src from i e \<longleftrightarrow>
     \<not> (i + 1 < e \<and> src ! (i + 1) \<in> {CHR ''='', CHR ''>''}) \<and>
     \<not> (i > from \<and> src ! (i - 1) \<in> {CHR ''!'', CHR ''<'', CHR ''>'', CHR ''=''})"

function assign_from :: "string \<Rightarrow> nat \<Rightarrow> nat \<Rightarrow> nat \<Rightarrow> nat \<Rightarrow> nat option" where
  "assign_from src from i e depth =
     (if i < e then
        if src ! i \<in> quotes then
          (if i < length src then assign_from src from (skipQuoted src (i + 1) (src ! i) True) e depth else None)
        else if src ! i \<in> {CHR ''('', CHR ''['', CHR ''{''} then assign_from src from (i + 1) e (depth + 1)
        else if src ! i \<in> {CHR '')'', CHR '']'', CHR ''}''} then assign_from src from (i + 1) e (depth - 1)
        else if src ! i = CHR ''='' \<and> depth = 0 \<and> plain_assign src from i e then Some i
        else assign_from src from (i + 1) e depth
      else None)"
  by pat_completeness auto
termination
proof (relation "measure (\<lambda>(src, from, i, e, d). e - i)", goal_cases)
  case (2 src b i e depth)
  then show ?case using skipQuoted_bounds [of "i + 1" src "src ! i" True] by auto
qed auto

declare assign_from.simps [simp del]

definition scanToAssign :: "string \<Rightarrow> nat \<Rightarrow> nat \<Rightarrow> nat option" where
  "scanToAssign src from e = assign_from src from from e 0"

definition trimmedRange :: "string \<Rightarrow> nat \<Rightarrow> nat \<Rightarrow> byte_range option" where
  "trimmedRange src a b =
     (let e = a + length (rev (dropWhile is_blank (rev (bytes_of src a b))))
      in if a < e then Some \<lparr>br_start = a, br_end = e\<rparr> else None)"

definition svelteBlockOpenExpr :: "string \<Rightarrow> nat \<Rightarrow> nat \<Rightarrow> byte_range option" where
  "svelteBlockOpenExpr src open close =
     (let kwStart = open + 2; kwEnd = scanIdent src kwStart close; exprStart = skipSpace src kwEnd close;
          kw = bytes_of src kwStart kwEnd
      in if kw = ''if'' \<or> kw = ''key'' then trimmedRange src exprStart close
         else if kw = ''each'' then
           trimmedRange src exprStart (case scanToKeyword src exprStart close ''as'' of None \<Rightarrow> close | Some e \<Rightarrow> e)
         else if kw = ''await'' then
           trimmedRange src exprStart (case scanToKeyword src exprStart close ''then'' of
               Some e \<Rightarrow> e
             | None \<Rightarrow> (case scanToKeyword src exprStart close ''catch'' of None \<Rightarrow> close | Some e \<Rightarrow> e))
         else None)"

definition svelteContinuationExpr :: "string \<Rightarrow> nat \<Rightarrow> nat \<Rightarrow> byte_range option" where
  "svelteContinuationExpr src open close =
     (let kwStart = open + 2; kwEnd = scanIdent src kwStart close; p = skipSpace src kwEnd close
      in if bytes_of src kwStart kwEnd \<noteq> ''else'' then None
         else if \<not> matchKeywordAt src p close ''if'' then None
         else trimmedRange src (skipSpace src (p + 2) close) close)"

definition svelteSpecialExpr :: "string \<Rightarrow> nat \<Rightarrow> nat \<Rightarrow> byte_range option" where
  "svelteSpecialExpr src open close =
     (let kwStart = open + 2; kwEnd = scanIdent src kwStart close; kw = bytes_of src kwStart kwEnd
      in if kw = ''html'' \<or> kw = ''render'' \<or> kw = ''debug'' then trimmedRange src (skipSpace src kwEnd close) close
         else if kw = ''const'' then
           (case scanToAssign src (skipSpace src kwEnd close) close of
              None \<Rightarrow> None
            | Some eq \<Rightarrow> trimmedRange src (skipSpace src (eq + 1) close) close)
         else None)"

definition svelteHeaderExpr :: "string \<Rightarrow> nat \<Rightarrow> nat \<Rightarrow> byte_range option" where
  "svelteHeaderExpr src open close =
     (let inner = open + 1 in
      if inner \<ge> close then None
      else if src ! inner = CHR ''/'' then None
      else if src ! inner = CHR ''#'' then svelteBlockOpenExpr src open close
      else if src ! inner = CHR '':'' then svelteContinuationExpr src open close
      else if src ! inner = CHR ''@'' then svelteSpecialExpr src open close
      else Some \<lparr>br_start = inner, br_end = close\<rparr>)"

function svelte_ranges :: "string \<Rightarrow> byte_range list \<Rightarrow> nat \<Rightarrow> byte_range list" where
  "svelte_ranges src skips i =
     (if i < length src then
        if src ! i \<noteq> CHR ''{'' \<or> inSkipRanges i skips then svelte_ranges src skips (i + 1)
        else (case matchBrace src i of
                None \<Rightarrow> []
              | Some close \<Rightarrow>
                  (case svelteHeaderExpr src i close of
                     None \<Rightarrow> []
                   | Some r \<Rightarrow> if br_end r > br_start r then [r] else []) @
                  svelte_ranges src skips (close + 1))
      else [])"
  by pat_completeness auto
termination
proof (relation "measure (\<lambda>(src, skips, i). length src - i)", goal_cases)
  case (3 src skips i close)
  then show ?case using match_from_bounds [of src i 0 close] by (auto simp: matchBrace_def)
qed auto

declare svelte_ranges.simps [simp del]

definition scanSvelteExprRanges :: "string \<Rightarrow> byte_range list" where
  "scanSvelteExprRanges src = svelte_ranges src (collectSkipRanges src) 0"

subsection \<open>Every range lies in the source, in order\<close>

text \<open>The ranges of a scan: non-empty, disjoint, ascending, and within the bounds.\<close>

fun ranges_in :: "nat \<Rightarrow> nat \<Rightarrow> byte_range list \<Rightarrow> bool" where
  "ranges_in lo hi [] = True"
| "ranges_in lo hi (r # rs) \<longleftrightarrow> lo \<le> br_start r \<and> br_start r < br_end r \<and> br_end r \<le> hi \<and> ranges_in (br_end r) hi rs"

lemma ranges_in_mono: "lo \<le> lo' \<Longrightarrow> ranges_in lo' hi rs \<Longrightarrow> ranges_in lo hi rs"
  by (cases rs) auto

lemma ranges_in_mem: "ranges_in lo hi rs \<Longrightarrow> r \<in> set rs \<Longrightarrow> lo \<le> br_start r \<and> br_start r < br_end r \<and> br_end r \<le> hi"
  by (induction rs arbitrary: lo) fastforce+

lemma scan_while_ge: "i \<le> scan_while P src i e"
proof (induction P src i e rule: scan_while.induct)
  case (1 P src i e)
  then show ?case by (subst scan_while.simps) auto
qed

lemma length_bytes_of: "length (bytes_of src a b) \<le> b - a"
  by (simp add: bytes_of_def)

lemma length_bytes_of_in: "a \<le> e \<Longrightarrow> e \<le> length src \<Longrightarrow> length (bytes_of src a e) = e - a"
  by (simp add: bytes_of_def)

lemma trimmedRange_bounds:
  "trimmedRange src a b = Some r \<Longrightarrow> a = br_start r \<and> br_start r < br_end r \<and> br_end r \<le> b"
proof -
  assume r: "trimmedRange src a b = Some r"
  have "length (dropWhile is_blank (rev (bytes_of src a b))) \<le> length (bytes_of src a b)"
    by (metis length_dropWhile_le length_rev)
  then have "length (dropWhile is_blank (rev (bytes_of src a b))) \<le> b - a" using length_bytes_of le_trans by blast
  then obtain n where "n \<le> b - a" and "length (dropWhile is_blank (rev (bytes_of src a b))) = n" by blast
  then have "n > 0 \<and> r = \<lparr>br_start = a, br_end = a + n\<rparr>"
    using r unfolding trimmedRange_def Let_def length_rev by (simp split: if_splits)
  then show ?thesis using \<open>n \<le> b - a\<close> by auto
qed

lemma keyword_from_lt: "keyword_from src i e kw d = Some j \<Longrightarrow> j < e"
proof (induction src i e kw d rule: keyword_from.induct)
  case (1 src i e kw d)
  from "1.prems" show ?case
    by (subst (asm) keyword_from.simps) (use "1.IH" in \<open>auto split: if_splits\<close>)
qed

lemma scanToKeyword_lt: "scanToKeyword src a e kw = Some j \<Longrightarrow> j < e"
  by (simp add: scanToKeyword_def keyword_from_lt)

lemma assign_from_ge: "assign_from src b i e d = Some j \<Longrightarrow> i \<le> j"
proof (induction src b i e d rule: assign_from.induct)
  case (1 src b i e d)
  show ?case
  proof (cases "i < e \<and> src ! i \<in> quotes")
    case True
    then have "i < length src" and "assign_from src b (skipQuoted src (i + 1) (src ! i) True) e d = Some j"
      using "1.prems" by (subst (asm) assign_from.simps; simp split: if_splits)+
    then show ?thesis using "1.IH"(1) True skipQuoted_bounds [of "i + 1" src "src ! i" True] by auto
  next
    case False
    then show ?thesis using "1.prems" "1.IH"(2-4)
      by (subst (asm) assign_from.simps) (auto split: if_splits)
  qed
qed

lemma skipSpace_ge: "i \<le> skipSpace src i e"
  by (simp add: skipSpace_def scan_while_ge)

lemma scanIdent_ge: "i \<le> scanIdent src i e"
  by (simp add: scanIdent_def scan_while_ge)

lemma svelteBlockOpenExpr_bounds:
  assumes "svelteBlockOpenExpr src a b = Some r"
  shows "a < br_start r \<and> br_start r < br_end r \<and> br_end r \<le> b"
proof -
  let ?s = "skipSpace src (scanIdent src (a + 2) b) b"
  have "a + 2 \<le> ?s" using scanIdent_ge skipSpace_ge le_trans by blast
  moreover obtain e where "trimmedRange src ?s e = Some r" and "e \<le> b"
    using assms by (auto simp: svelteBlockOpenExpr_def Let_def split: if_splits option.splits
        dest: scanToKeyword_lt less_imp_le)
  ultimately show ?thesis using trimmedRange_bounds by fastforce
qed

lemma svelteContinuationExpr_bounds:
  assumes "svelteContinuationExpr src a b = Some r"
  shows "a < br_start r \<and> br_start r < br_end r \<and> br_end r \<le> b"
proof -
  let ?p = "skipSpace src (scanIdent src (a + 2) b) b"
  have "a + 2 \<le> ?p" using scanIdent_ge skipSpace_ge le_trans by blast
  moreover have "?p + 2 \<le> skipSpace src (?p + 2) b" by (rule skipSpace_ge)
  moreover have "trimmedRange src (skipSpace src (?p + 2) b) b = Some r"
    using assms by (auto simp: svelteContinuationExpr_def Let_def split: if_splits)
  ultimately show ?thesis using trimmedRange_bounds by fastforce
qed

lemma svelteSpecialExpr_bounds:
  assumes "svelteSpecialExpr src a b = Some r"
  shows "a < br_start r \<and> br_start r < br_end r \<and> br_end r \<le> b"
proof -
  let ?k = "scanIdent src (a + 2) b"
  have k: "a + 2 \<le> ?k" by (rule scanIdent_ge)
  obtain x where "trimmedRange src x b = Some r" and "?k \<le> x"
  proof -
    show thesis
    proof (cases "scanToAssign src (skipSpace src ?k b) b")
      case None
      then show ?thesis using assms that skipSpace_ge [of ?k src b]
        by (auto simp: svelteSpecialExpr_def Let_def split: if_splits)
    next
      case (Some eq)
      then have "skipSpace src ?k b \<le> eq" by (simp add: scanToAssign_def assign_from_ge)
      then have "?k \<le> skipSpace src (eq + 1) b"
        using skipSpace_ge [of ?k src b] skipSpace_ge [of "eq + 1" src b] by linarith
      then show ?thesis using assms that Some skipSpace_ge [of ?k src b]
        by (auto simp: svelteSpecialExpr_def Let_def split: if_splits)
    qed
  qed
  then show ?thesis using trimmedRange_bounds [of src x b r] k by simp
qed

lemma svelteHeaderExpr_bounds:
  assumes "svelteHeaderExpr src a b = Some r"
  shows "a < br_start r \<and> br_start r < br_end r \<and> br_end r \<le> b"
  using assms svelteBlockOpenExpr_bounds svelteContinuationExpr_bounds svelteSpecialExpr_bounds
  by (auto simp: svelteHeaderExpr_def Let_def split: if_splits)

lemma markup_ranges_in: "ranges_in i (length src) (markup_ranges src skips i)"
proof (induction src skips i rule: markup_ranges.induct)
  case (1 src skips i)
  show ?case
  proof (cases "i < length src \<and> src ! i = CHR ''{'' \<and> \<not> inSkipRanges i skips")
    case True
    show ?thesis
    proof (cases "matchBrace src i")
      case None
      then show ?thesis using True by (subst markup_ranges.simps) simp
    next
      case (Some b)
      then have "i < b" "b < length src" using matchBrace_bounds True by blast+
      moreover have "ranges_in (b + 1) (length src) (markup_ranges src skips (b + 1))" using "1.IH"(2) True Some by simp
      ultimately show ?thesis using True Some
        by (subst markup_ranges.simps) (auto intro: ranges_in_mono [of _ "b + 1"])
    qed
  next
    case False
    then show ?thesis using "1.IH"(1)
      by (subst markup_ranges.simps) (auto intro: ranges_in_mono [of i "i + 1"])
  qed
qed

lemma svelte_ranges_in: "ranges_in i (length src) (svelte_ranges src skips i)"
proof (induction src skips i rule: svelte_ranges.induct)
  case (1 src skips i)
  show ?case
  proof (cases "i < length src \<and> src ! i = CHR ''{'' \<and> \<not> inSkipRanges i skips")
    case True
    show ?thesis
    proof (cases "matchBrace src i")
      case None
      then show ?thesis using True by (subst svelte_ranges.simps) simp
    next
      case (Some b)
      then have b: "i < b" "b < length src" using matchBrace_bounds True by blast+
      have ih: "ranges_in (b + 1) (length src) (svelte_ranges src skips (b + 1))" using "1.IH"(2) True Some by simp
      show ?thesis
      proof (cases "svelteHeaderExpr src i b")
        case None
        then show ?thesis using True Some ih b by (subst svelte_ranges.simps) (auto intro: ranges_in_mono [of _ "b + 1"])
      next
        case (Some r)
        from svelteHeaderExpr_bounds [OF this] have "i < br_start r" "br_start r < br_end r" "br_end r \<le> b" by simp_all
        then show ?thesis using True \<open>matchBrace src i = Some b\<close> Some ih b
          by (subst svelte_ranges.simps) (auto intro: ranges_in_mono [of _ "b + 1"])
      qed
    qed
  next
    case False
    then show ?thesis using "1.IH"(1)
      by (subst svelte_ranges.simps) (auto intro: ranges_in_mono [of i "i + 1"])
  qed
qed

lemma scan_ranges_in:
  "ranges_in 0 (length src) (scanMarkupExprRanges src)"
  "ranges_in 0 (length src) (scanSvelteExprRanges src)"
  unfolding scanMarkupExprRanges_def scanSvelteExprRanges_def
  by (rule ranges_in_mono [OF le0 markup_ranges_in], rule svelte_ranges_in)

end
