(* ===== verification/GoTemplate.thy ===== *)
theory GoTemplate
  imports PreprocScan
begin

text \<open>
  The scanner of Go HTML templates (\<open>internal/parser/preproc/gotemplate.go\<close>) and the walker that finds
  the requests of htmx attributes (\<open>htmx_attrs.go\<close>). The bytes of the file are walked by index, as in
  \<^theory_text>\<open>PreprocScan\<close>; the walker's fields are a record. White space is ASCII.
\<close>

subsection \<open>Actions\<close>

text \<open>The offset after the closing braces of an action, from \<open>from\<close> on.\<close>

function findActionClose :: "string \<Rightarrow> nat \<Rightarrow> nat option" where
  "findActionClose src i =
     (if i < length src then
        if src ! i = quote2 then findActionClose src (skipQuoted src (i + 1) quote2 True)
        else if src ! i = backtick then findActionClose src (skipQuoted src (i + 1) backtick False)
        else if src ! i = CHR ''}'' \<and> i + 1 < length src \<and> src ! (i + 1) = CHR ''}'' then Some (i + 2)
        else if src ! i = CHR ''-'' \<and> i + 2 < length src \<and> src ! (i + 1) = CHR ''}'' \<and> src ! (i + 2) = CHR ''}''
        then Some (i + 3)
        else findActionClose src (i + 1)
      else None)"
  by pat_completeness auto
termination
proof (relation "measure (\<lambda>(src, i). length src - i)", goal_cases)
  case (2 src i)
  then show ?case using skipQuoted_bounds [of "i + 1" src quote2 True] by auto
next
  case (3 src i)
  then show ?case using skipQuoted_bounds [of "i + 1" src backtick False] by auto
qed auto

declare findActionClose.simps [simp del]

definition actionBody :: "string \<Rightarrow> nat \<Rightarrow> nat \<Rightarrow> string" where
  "actionBody src a e =
     (let body = bytes_of src (a + 2) (min e (length src));
          body = (if suffix ''-}}'' body then take (length body - 3) body
                  else if suffix ''}}'' body then take (length body - 2) body else body);
          body = (if prefix ''-'' body then drop 1 body else body)
      in trim_space body)"

definition parseActionKeyword :: "string \<Rightarrow> string \<times> string" where
  "parseActionKeyword body0 =
     (let body = trim_space body0 in
      case find_index is_blank body of
        None \<Rightarrow> (body, [])
      | Some sp \<Rightarrow>
          (let rest = trim_space (drop sp body);
               name = (if rest \<noteq> [] \<and> hd rest = quote2
                       then (case str_index (tl rest) [quote2] of None \<Rightarrow> [] | Some e \<Rightarrow> take e (tl rest))
                       else [])
           in (take sp body, name)))"

definition blank_byte :: "char \<Rightarrow> char" where
  "blank_byte c = (if c = nl then nl else CHR '' '')"

definition blankRange :: "string \<Rightarrow> nat \<Rightarrow> nat \<Rightarrow> string" where
  "blankRange out a e = take a out @ map blank_byte (bytes_of out a e) @ drop (max a e) out"

subsection \<open>StripGoTemplate\<close>

record GoTemplateDefine =
  gd_Name :: string
  gd_StartLine :: nat
  gd_EndLine :: nat

record blockFrame =
  bf_keyword :: string
  bf_startLine :: nat
  bf_name :: string

definition is_comment :: "string \<Rightarrow> nat \<Rightarrow> bool" where
  "is_comment src a \<longleftrightarrow> prefix ''{{/*'' (drop a src)"

text \<open>The end of the comment or action that starts at \<open>a\<close>; the end of the file when it is not closed.\<close>

definition action_end :: "string \<Rightarrow> nat \<Rightarrow> nat" where
  "action_end src a =
     (if is_comment src a
      then (case str_index (drop (a + 4) src) ''*/}}'' of None \<Rightarrow> length src | Some k \<Rightarrow> a + 4 + k + 4)
      else (case findActionClose src (a + 2) of None \<Rightarrow> length src | Some e \<Rightarrow> e))"

text \<open>The effect of an action, by its keyword and name, on the stack of open blocks, and the define that it
  completes. Only a define with no open block around it is recorded.\<close>

definition kw_step :: "nat \<Rightarrow> nat \<Rightarrow> string \<times> string \<Rightarrow> blockFrame list \<Rightarrow> blockFrame list \<times> GoTemplateDefine list" where
  "kw_step startLine endLine kn stack =
     (case kn of (keyword, name) \<Rightarrow>
        if keyword \<in> {''define'', ''range'', ''if'', ''with'', ''block''} then
          (\<lparr>bf_keyword = keyword, bf_startLine = startLine, bf_name = name\<rparr> # stack, [])
        else if keyword = ''end'' then
          (case stack of
             [] \<Rightarrow> ([], [])
           | fr # rest \<Rightarrow>
               (rest, if bf_keyword fr = ''define'' \<and> rest = []
                      then [\<lparr>gd_Name = bf_name fr, gd_StartLine = bf_startLine fr, gd_EndLine = endLine\<rparr>] else []))
        else (stack, []))"

definition block_step :: "string \<Rightarrow> nat \<Rightarrow> nat \<Rightarrow> blockFrame list \<Rightarrow> blockFrame list \<times> GoTemplateDefine list" where
  "block_step src a e stack =
     (if is_comment src a then (stack, [])
      else kw_step (lineNumber src a) (lineNumber src (e - 1)) (parseActionKeyword (actionBody src a e)) stack)"

lemma findActionClose_bounds: "findActionClose src i = Some e \<Longrightarrow> i + 2 \<le> e \<and> e \<le> length src"
proof (induction src i rule: findActionClose.induct)
  case (1 src i)
  then have i: "i < length src" by (subst (asm) (2) findActionClose.simps) (auto split: if_splits)
  show ?case
  proof (cases "src ! i = quote2 \<or> src ! i = backtick")
    case True
    then show ?thesis
    proof
      assume q: "src ! i = quote2"
      then have "findActionClose src (skipQuoted src (i + 1) quote2 True) = Some e"
        using "1.prems" i by (simp add: findActionClose.simps [of src i])
      then show ?thesis using "1.IH"(1) [OF i q] skipQuoted_bounds [of "i + 1" src quote2 True] i by auto
    next
      assume q: "src ! i = backtick"
      then have nq: "src ! i \<noteq> quote2" by (simp add: backtick_def quote2_def)
      then have "findActionClose src (skipQuoted src (i + 1) backtick False) = Some e"
        using "1.prems" i q by (simp add: findActionClose.simps [of src i])
      then show ?thesis using "1.IH"(2) [OF i nq q] skipQuoted_bounds [of "i + 1" src backtick False] i by auto
    qed
  next
    case False
    then show ?thesis using "1.prems" "1.IH"(3) i by (subst (asm) findActionClose.simps) (auto split: if_splits)
  qed
qed

lemma action_end_bounds:
  assumes "prefix ''{{'' (drop a src)"
  shows "a + 2 \<le> action_end src a \<and> action_end src a \<le> length src"
proof -
  have len: "a + 2 \<le> length src" using assms prefix_length_le by fastforce
  show ?thesis
  proof (cases "is_comment src a")
    case True
    show ?thesis
    proof (cases "str_index (drop (a + 4) src) ''*/}}''")
      case None
      then show ?thesis using True len by (simp add: action_end_def)
    next
      case (Some k)
      then have "prefix ''*/}}'' (drop k (drop (a + 4) src))" using str_index_SomeD by blast
      then have "4 \<le> length (drop k (drop (a + 4) src))" using prefix_length_le by fastforce
      then show ?thesis using True Some by (simp add: action_end_def)
    qed
  next
    case False
    then show ?thesis using len findActionClose_bounds [of src "a + 2"]
      by (fastforce simp: action_end_def split: option.splits)
  qed
qed

text \<open>The first action from \<open>i\<close> on.\<close>

definition next_action :: "string \<Rightarrow> nat \<Rightarrow> nat option" where
  "next_action src i = map_option (\<lambda>k. i + k) (str_index (drop i src) ''{{'')"

lemma next_action_SomeD:
  assumes "next_action src i = Some a"
  shows "i \<le> a" and "prefix ''{{'' (drop a src)" and "\<not> sublist ''{{'' (take (a - i + 1) (drop i src))"
proof -
  obtain k where k: "str_index (drop i src) ''{{'' = Some k" and a: "a = i + k"
    using assms by (auto simp: next_action_def)
  note d = str_index_SomeD [OF k]
  show "i \<le> a" "prefix ''{{'' (drop a src)" using d a by (simp_all add: add.commute)
  show "\<not> sublist ''{{'' (take (a - i + 1) (drop i src))"
  proof
    assume "sublist ''{{'' (take (a - i + 1) (drop i src))"
    then obtain p s where "take (a - i + 1) (drop i src) = p @ ''{{'' @ s" by (auto simp: sublist_def)
    then have ps: "take (k + 1) (drop i src) = p @ ''{{'' @ s" using a by simp
    then have "length p + 2 + length s \<le> k + 1" by (metis append_assoc length_append length_take min.cobounded2 length_Cons list.size(3) add.assoc One_nat_def Suc_eq_plus1 numeral_2_eq_2)
    then have lt: "length p < k" by simp
    have "drop i src = (p @ ''{{'' @ s) @ drop (k + 1) (drop i src)" using ps by (metis append_take_drop_id)
    then have "prefix ''{{'' (drop (length p) (drop i src))" by (metis append.assoc append_eq_conv_conj prefixI)
    then show False using d lt by blast
  qed
qed

function strip_loop :: "string \<Rightarrow> nat \<Rightarrow> blockFrame list \<Rightarrow> string \<Rightarrow> GoTemplateDefine list \<Rightarrow>
    string \<times> GoTemplateDefine list" where
  "strip_loop src i stack out defines =
     (case next_action src i of
        None \<Rightarrow> (out, defines)
      | Some a \<Rightarrow>
          let e = action_end src a; (stack', ds) = block_step src a e stack
          in strip_loop src e stack' (blankRange out a e) (defines @ ds))"
  by pat_completeness auto
termination
proof (relation "measure (\<lambda>(src, i, stack, out, ds). length src - i)", goal_cases)
  case (2 src i stack out ds a)
  then show ?case using next_action_SomeD(1,2) [of src i a] action_end_bounds [of a src] by fastforce
qed simp

declare strip_loop.simps [simp del]

definition StripGoTemplate :: "string \<Rightarrow> string \<times> GoTemplateDefine list" where
  "StripGoTemplate src = strip_loop src 0 [] src []"

subsection \<open>What is blanked\<close>

text \<open>The spans of the actions, and the text with each of them blanked.\<close>

function actions_from :: "string \<Rightarrow> nat \<Rightarrow> byte_range list" where
  "actions_from src i =
     (case next_action src i of
        None \<Rightarrow> []
      | Some a \<Rightarrow> \<lparr>br_start = a, br_end = action_end src a\<rparr> # actions_from src (action_end src a))"
  by pat_completeness auto
termination
proof (relation "measure (\<lambda>(src, i). length src - i)", goal_cases)
  case (2 src i a)
  then show ?case using next_action_SomeD(1,2) [of src i a] action_end_bounds [of a src] by fastforce
qed simp

declare actions_from.simps [simp del]

function clean :: "string \<Rightarrow> nat \<Rightarrow> string" where
  "clean src i =
     (case next_action src i of
        None \<Rightarrow> drop i src
      | Some a \<Rightarrow> bytes_of src i a @ map blank_byte (bytes_of src a (action_end src a)) @ clean src (action_end src a))"
  by pat_completeness auto
termination
proof (relation "measure (\<lambda>(src, i). length src - i)", goal_cases)
  case (2 src i a)
  then show ?case using next_action_SomeD(1,2) [of src i a] action_end_bounds [of a src] by fastforce
qed simp

declare clean.simps [simp del]

function strip_defs :: "string \<Rightarrow> nat \<Rightarrow> blockFrame list \<Rightarrow> GoTemplateDefine list" where
  "strip_defs src i stack =
     (case next_action src i of
        None \<Rightarrow> []
      | Some a \<Rightarrow>
          let e = action_end src a
          in snd (block_step src a e stack) @ strip_defs src e (fst (block_step src a e stack)))"
  by pat_completeness auto
termination
proof (relation "measure (\<lambda>(src, i, stack). length src - i)", goal_cases)
  case (2 src i stack a)
  then show ?case using next_action_SomeD(1,2) [of src i a] action_end_bounds [of a src] by fastforce
qed simp

declare strip_defs.simps [simp del]

lemma action_at:
  assumes "next_action src i = Some a"
  shows "i \<le> a" and "a + 2 \<le> action_end src a" and "action_end src a \<le> length src"
  using next_action_SomeD [OF assms] action_end_bounds [of a src] by simp_all

lemma length_blankRange: "a \<le> e \<Longrightarrow> e \<le> length out \<Longrightarrow> length (blankRange out a e) = length out"
  by (simp add: blankRange_def bytes_of_def max_def)

lemma drop_blankRange: "a \<le> e \<Longrightarrow> e \<le> length out \<Longrightarrow> drop e (blankRange out a e) = drop e out"
  by (simp add: blankRange_def bytes_of_def max_def)

lemma take_blankRange:
  "a \<le> e \<Longrightarrow> e \<le> length out \<Longrightarrow> take e (blankRange out a e) = take a out @ map blank_byte (bytes_of out a e)"
  by (simp add: blankRange_def bytes_of_def max_def)

lemma bytes_of_drop_eq: "drop i out = drop i src \<Longrightarrow> i \<le> a \<Longrightarrow> bytes_of out a e = bytes_of src a e"
  unfolding bytes_of_def by (metis drop_drop le_add_diff_inverse2)

lemma strip_loop_eq:
  "length out = length src \<Longrightarrow> drop i out = drop i src \<Longrightarrow>
    strip_loop src i stack out ds = (take i out @ clean src i, ds @ strip_defs src i stack)"
proof (induction src i stack out ds rule: strip_loop.induct)
  case (1 src i stack out ds)
  show ?case
  proof (cases "next_action src i")
    case None
    then show ?thesis
      using "1.prems" by (simp add: strip_loop.simps [of src i] clean.simps [of src i] strip_defs.simps [of src i])
        (metis append_take_drop_id)
  next
    case (Some a)
    let ?e = "action_end src a"
    note b = action_at [OF Some]
    have len: "a \<le> ?e" "?e \<le> length out" using b "1.prems" by simp_all
    obtain st' ds' where bs: "block_step src a ?e stack = (st', ds')" by (cases "block_step src a ?e stack")
    have "drop ?e out = drop ?e src" using "1.prems"(2) b by (metis drop_drop le_add_diff_inverse2 le_trans add_leD1)
    then have ih: "strip_loop src ?e st' (blankRange out a ?e) (ds @ ds') =
        (take ?e (blankRange out a ?e) @ clean src ?e, (ds @ ds') @ strip_defs src ?e st')"
      using "1.IH" [OF Some refl bs [symmetric] refl] "1.prems" len by (simp add: length_blankRange drop_blankRange)
    have "take ?e (blankRange out a ?e) = take i out @ bytes_of src i a @ map blank_byte (bytes_of src a ?e)"
    proof -
      have "take a out = take i out @ take (a - i) (drop i out)" using b(1) by (metis le_add_diff_inverse take_add)
      then show ?thesis using "1.prems"(2) b(1) bytes_of_drop_eq [of i out src a ?e] len
        by (simp add: take_blankRange bytes_of_def)
    qed
    then show ?thesis using ih bs Some
      by (simp add: strip_loop.simps [of src i] clean.simps [of src i] strip_defs.simps [of src i] Let_def)
  qed
qed

lemma StripGoTemplate_eq: "StripGoTemplate src = (clean src 0, strip_defs src 0 [])"
  by (simp add: StripGoTemplate_def strip_loop_eq)

text \<open>The byte at an offset of the cleaned text.\<close>

definition cleaned_byte :: "string \<Rightarrow> byte_range list \<Rightarrow> nat \<Rightarrow> char" where
  "cleaned_byte src acts p = (if inSkipRanges p acts then blank_byte (src ! p) else src ! p)"

lemma actions_from_ge: "r \<in> set (actions_from src i) \<Longrightarrow> i \<le> br_start r"
proof (induction src i rule: actions_from.induct)
  case (1 src i)
  show ?case
  proof (cases "next_action src i")
    case None
    then show ?thesis using "1.prems" by (simp add: actions_from.simps [of src i])
  next
    case (Some a)
    then show ?thesis using "1.prems" "1.IH" [OF Some] action_at [OF Some]
      by (auto simp: actions_from.simps [of src i])
  qed
qed

lemma before_actions: "p < i \<Longrightarrow> \<not> inSkipRanges p (actions_from src i)"
  using actions_from_ge [of _ src i] by (fastforce simp: inSkipRanges_def list_ex_iff)

lemma upt_split: "a \<le> b \<Longrightarrow> b \<le> c \<Longrightarrow> [a ..< c] = [a ..< b] @ [b ..< c]"
  by (metis le_add_diff_inverse upt_add_eq_append)

lemma map_nth_bytes: "a \<le> e \<Longrightarrow> e \<le> length src \<Longrightarrow> map (\<lambda>p. f (src ! p)) [a ..< e] = map f (bytes_of src a e)"
  by (rule nth_equalityI) (simp_all add: bytes_of_def)

lemma clean_eq: "i \<le> length src \<Longrightarrow> clean src i = map (cleaned_byte src (actions_from src i)) [i ..< length src]"
proof (induction src i rule: clean.induct)
  case (1 src i)
  show ?case
  proof (cases "next_action src i")
    case None
    have "map (\<lambda>p. src ! p) [i ..< length src] = drop i src" by (rule nth_equalityI) simp_all
    then show ?thesis using None
      by (simp add: clean.simps [of src i] actions_from.simps [of src i] cleaned_byte_def [abs_def] inSkipRanges_def)
  next
    case (Some a)
    let ?e = "action_end src a" and ?r = "\<lparr>br_start = a, br_end = action_end src a\<rparr>"
    note b = action_at [OF Some]
    have acts: "actions_from src i = ?r # actions_from src ?e" using Some by (simp add: actions_from.simps [of src i])
    have "[i ..< length src] = [i ..< a] @ [a ..< ?e] @ [?e ..< length src]"
      using b upt_split [of i a "length src"] upt_split [of a ?e "length src"] by simp
    moreover have "map (cleaned_byte src (actions_from src i)) [i ..< a] = bytes_of src i a"
    proof -
      have "map (cleaned_byte src (actions_from src i)) [i ..< a] = map (\<lambda>p. id (src ! p)) [i ..< a]"
        using before_actions [of _ ?e src] b by (auto simp: cleaned_byte_def acts inSkipRanges_def)
      also have "\<dots> = map id (bytes_of src i a)" using b by (intro map_nth_bytes) simp_all
      finally show ?thesis by simp
    qed
    moreover have "map (cleaned_byte src (actions_from src i)) [a ..< ?e] = map blank_byte (bytes_of src a ?e)"
    proof -
      have "map (cleaned_byte src (actions_from src i)) [a ..< ?e] = map (\<lambda>p. blank_byte (src ! p)) [a ..< ?e]"
        by (auto simp: cleaned_byte_def acts inSkipRanges_def)
      also have "\<dots> = map blank_byte (bytes_of src a ?e)" using b by (intro map_nth_bytes) simp_all
      finally show ?thesis .
    qed
    moreover have "map (cleaned_byte src (actions_from src i)) [?e ..< length src] = clean src ?e"
    proof -
      have "map (cleaned_byte src (actions_from src i)) [?e ..< length src] =
          map (cleaned_byte src (actions_from src ?e)) [?e ..< length src]"
        by (auto simp: cleaned_byte_def acts inSkipRanges_def)
      also have "\<dots> = clean src ?e" using "1.IH" [OF Some] b by simp
      finally show ?thesis .
    qed
    ultimately show ?thesis using Some by (simp add: clean.simps [of src i])
  qed
qed

text \<open>No opening braces are left: neither in the text between two actions nor across a blanked one.\<close>

lemma no_pair_append:
  assumes "\<not> sublist [c, c] u" and "\<not> sublist [c, c] v" and "v = [] \<or> hd v \<noteq> c \<or> u = [] \<or> last u \<noteq> c"
  shows "\<not> sublist [c, c] (u @ v)"
proof
  assume "sublist [c, c] (u @ v)"
  then obtain xs1 xs2 where x: "[c, c] = xs1 @ xs2" "suffix xs1 u" "prefix xs2 v"
    using assms(1,2) by (auto simp: sublist_append)
  consider "xs1 = []" | "xs2 = []" | "xs1 = [c]" "xs2 = [c]" using x(1) by (auto simp: Cons_eq_append_conv)
  then show False
  proof cases
    case 1
    then have "prefix [c, c] v" using x by simp
    then show ?thesis using assms(2) by blast
  next
    case 2
    then have "suffix [c, c] u" using x by simp
    then show ?thesis using assms(1) by blast
  next
    case 3
    then show ?thesis using x(2,3) assms(3) by (auto simp: suffix_def prefix_def)
  qed
qed

lemma blanks_no_brace: "CHR ''{'' \<notin> set (map blank_byte xs)"
  by (auto simp: blank_byte_def nl_def)

lemma no_pair_absent: "c \<notin> set xs \<Longrightarrow> \<not> sublist [c, c] xs"
  by (auto simp: sublist_def)

lemma clean_no_open: "\<not> sublist ''{{'' (clean src i)"
proof (induction src i rule: clean.induct)
  case (1 src i)
  show ?case
  proof (cases "next_action src i")
    case None
    then have "\<not> sublist ''{{'' (drop i src)" by (auto simp: next_action_def str_index_None_iff)
    then show ?thesis using None by (simp add: clean.simps [of src i])
  next
    case (Some a)
    let ?e = "action_end src a"
    let ?bl = "map blank_byte (bytes_of src a ?e)"
    note b = action_at [OF Some]
    have "length (bytes_of src a ?e) = ?e - a" using b by (simp add: length_bytes_of_in)
    then have ne: "?bl \<noteq> []" using b by auto
    have "hd ?bl \<noteq> CHR ''{''" "last ?bl \<noteq> CHR ''{''"
      using blanks_no_brace [of "bytes_of src a ?e"] hd_in_set [OF ne] last_in_set [OF ne] by metis+
    moreover have "\<not> sublist ''{{'' (bytes_of src i a)"
    proof
      assume s: "sublist ''{{'' (bytes_of src i a)"
      have "sublist (bytes_of src i a) (take (a - i + 1) (drop i src))"
        unfolding bytes_of_def by (metis prefix_imp_sublist take_add prefixI)
      then show False using s next_action_SomeD(3) [OF Some] sublist_order.order.trans by blast
    qed
    ultimately show ?thesis
      using "1.IH" [OF Some] no_pair_absent [OF blanks_no_brace] ne Some
      by (simp add: clean.simps [of src i] no_pair_append)
  qed
qed

subsection \<open>The recorded defines\<close>

fun defs_between :: "nat \<Rightarrow> nat \<Rightarrow> GoTemplateDefine list \<Rightarrow> bool" where
  "defs_between lo hi [] = True"
| "defs_between lo hi (d # ds) \<longleftrightarrow>
     lo \<le> gd_StartLine d \<and> gd_StartLine d \<le> gd_EndLine d \<and> gd_EndLine d \<le> hi \<and> defs_between (gd_EndLine d) hi ds"

definition frames_in :: "nat \<Rightarrow> nat \<Rightarrow> blockFrame list \<Rightarrow> bool" where
  "frames_in lo hi stack \<longleftrightarrow> list_all (\<lambda>fr. lo \<le> bf_startLine fr \<and> bf_startLine fr \<le> hi) stack"

lemma frames_in_mono: "frames_in lo hi st \<Longrightarrow> hi \<le> hi' \<Longrightarrow> frames_in lo hi' st"
  by (auto simp: frames_in_def list_all_iff)

text \<open>One action: either it records nothing, or the define it records leaves no open block.\<close>

lemma kw_step_frames:
  assumes "kw_step l e kn stack = (st', ds)" and "frames_in lo l stack" and "lo \<le> l" and "l \<le> e" and "e \<le> h"
  shows "(ds = [] \<and> frames_in lo h st') \<or>
    (\<exists>d. ds = [d] \<and> st' = [] \<and> lo \<le> gd_StartLine d \<and> gd_StartLine d \<le> gd_EndLine d \<and> gd_EndLine d = e)"
proof -
  have "l \<le> h" using assms(4,5) by simp
  with assms(2) have "frames_in lo h stack" by (rule frames_in_mono)
  then show ?thesis using assms by (auto simp: kw_step_def frames_in_def list_all_iff split: prod.splits if_splits list.splits)
qed

lemma block_step_frames:
  assumes "block_step src a e stack = (st', ds)" and "frames_in lo (lineNumber src a) stack"
    and "lo \<le> lineNumber src a" and "a < e"
  shows "(ds = [] \<and> frames_in lo (lineNumber src e) st') \<or>
    (\<exists>d. ds = [d] \<and> st' = [] \<and> lo \<le> gd_StartLine d \<and> gd_StartLine d \<le> gd_EndLine d \<and>
       gd_EndLine d \<le> lineNumber src e)"
proof (cases "is_comment src a")
  case True
  then show ?thesis using assms lineNumber_mono [of a e src] by (auto simp: block_step_def intro: frames_in_mono)
next
  case False
  have "lineNumber src a \<le> lineNumber src (e - 1)" "lineNumber src (e - 1) \<le> lineNumber src e"
    using assms(4) by (auto intro: lineNumber_mono)
  moreover have "kw_step (lineNumber src a) (lineNumber src (e - 1)) (parseActionKeyword (actionBody src a e)) stack = (st', ds)"
    using assms(1) False by (simp add: block_step_def)
  ultimately show ?thesis using kw_step_frames assms(2,3) by metis
qed

lemma strip_defs_between:
  "lo \<le> lineNumber src i \<Longrightarrow> frames_in lo (lineNumber src i) stack \<Longrightarrow>
    defs_between lo (lineNumber src (length src)) (strip_defs src i stack)"
proof (induction src i stack arbitrary: lo rule: strip_defs.induct)
  case (1 src i stack)
  show ?case
  proof (cases "next_action src i")
    case None
    then show ?thesis by (simp add: strip_defs.simps [of src i])
  next
    case (Some a)
    let ?e = "action_end src a"
    note b = action_at [OF Some]
    obtain st' ds where bs: "block_step src a ?e stack = (st', ds)" by (cases "block_step src a ?e stack")
    have "lineNumber src i \<le> lineNumber src a" using b(1) by (rule lineNumber_mono)
    then have "frames_in lo (lineNumber src a) stack" "lo \<le> lineNumber src a"
      using "1.prems" frames_in_mono by (blast, simp)
    moreover have "a < ?e" using b(2) by simp
    ultimately have step: "(ds = [] \<and> frames_in lo (lineNumber src ?e) st') \<or>
      (\<exists>d. ds = [d] \<and> st' = [] \<and> lo \<le> gd_StartLine d \<and> gd_StartLine d \<le> gd_EndLine d \<and>
         gd_EndLine d \<le> lineNumber src ?e)"
      by (rule block_step_frames [OF bs])
    have e: "lineNumber src a \<le> lineNumber src ?e" "lineNumber src ?e \<le> lineNumber src (length src)"
      using b by (auto intro: lineNumber_mono)
    note ih = "1.IH" [OF Some refl, unfolded bs, simplified]
    have defs: "strip_defs src i stack = ds @ strip_defs src ?e st'"
      using Some bs by (simp add: strip_defs.simps [of src i])
    from step show ?thesis
    proof (elim disjE exE conjE)
      assume "ds = []" and "frames_in lo (lineNumber src ?e) st'"
      then show ?thesis using ih [of lo] defs e \<open>lo \<le> lineNumber src a\<close> by simp
    next
      fix d
      assume "ds = [d]" "st' = []" "lo \<le> gd_StartLine d" "gd_StartLine d \<le> gd_EndLine d" "gd_EndLine d \<le> lineNumber src ?e"
      then show ?thesis using ih [of "gd_EndLine d"] defs e by (simp add: frames_in_def)
    qed
  qed
qed

text \<open>Stripping a Go template replaces, byte for byte, exactly the spans of its actions and comments by spaces,
  line breaks kept, so that offsets and lines of the rest are unchanged; no opening braces are left, even where
  text meets a blanked action; the recorded defines are disjoint line ranges in the order of the file.\<close>

lemma StripGoTemplate_exact:
  "fst (StripGoTemplate src) = map (cleaned_byte src (actions_from src 0)) [0 ..< length src] \<and>
   \<not> sublist ''{{'' (fst (StripGoTemplate src)) \<and>
   defs_between 1 (lineNumber src (length src)) (snd (StripGoTemplate src))"
proof (intro conjI)
  show "defs_between 1 (lineNumber src (length src)) (snd (StripGoTemplate src))"
    unfolding StripGoTemplate_eq snd_conv
    by (rule strip_defs_between) (simp_all add: lineNumber_def frames_in_def)
qed (simp_all add: StripGoTemplate_eq clean_no_open flip: clean_eq)

end
