(* ===== verification/GoTemplateRender.thy ===== *)
theory GoTemplateRender
  imports GoTemplate
begin

text \<open>
  What \<open>StripGoTemplate\<close> (\<open>internal/parser/preproc/gotemplate.go\<close>) finds in a template that is printed
  from its structure: a tree of text, comments, actions and blocks is written out as Go's template
  syntax has it, with optional trim markers, and the recorded defines are exactly the outermost define blocks
  of the tree, with the lines they span.
\<close>

subsection \<open>Templates and their text\<close>















subsection \<open>Closing an action\<close>













subsection \<open>The body of an action\<close>





subsection \<open>Keywords\<close>










subsection \<open>One item after the other\<close>
















end
