(* ===== verification/PreprocBuild.thy ===== *)
theory PreprocBuild
  imports PreprocScan CallGraph
begin

text \<open>
  Virtual sources: the code that is cut out of a template file and handed to another grammar, with a
  map from its lines to the lines of the file (\<open>internal/parser/preproc\<close>: \<open>preproc.go\<close>,
  \<open>builder.go\<close>, \<open>script_blocks.go\<close>, \<open>svelte.go\<close>, \<open>vue.go\<close>, \<open>astro.go\<close>, \<open>markup_exprs.go\<close>,
  \<open>astro_exprs.go\<close>), and the way back (\<open>internal/parser/preproc_remap.go\<close>, \<open>markup_calls.go\<close>,
  \<open>runes_svelte.go\<close>). Lines are 32-bit words, as in the code. The grammar that reads the virtual code
  is a parameter: a function from the code to the call sites, or nothing on a parse error.
\<close>

record VirtualSource =
  vs_Code :: string
  vs_Lang :: string
  vs_LineMap :: "32 word list"

definition countLines :: "string \<Rightarrow> nat" where
  "countLines b = count_list b nl + 1"

subsection \<open>The builder\<close>

record Builder =
  lang :: string
  buf :: string
  lineMap :: "32 word list"

definition NewBuilder :: "string \<Rightarrow> Builder" where
  "NewBuilder l = \<lparr>lang = l, buf = [], lineMap = []\<rparr>"

text \<open>The entries of the line map for a block whose first line is \<open>l\<close>: one, and one per line break.\<close>

fun break_lines :: "32 word \<Rightarrow> string \<Rightarrow> 32 word list" where
  "break_lines l [] = []"
| "break_lines l (c # cs) = (if c = nl then (l + 1) # break_lines (l + 1) cs else break_lines l cs)"

definition block_lines :: "32 word \<Rightarrow> string \<Rightarrow> 32 word list" where
  "block_lines l bs = l # break_lines l bs"

text \<open>\<^const>\<open>None\<close> is the panic.\<close>

definition AppendBlock :: "string \<Rightarrow> nat \<Rightarrow> nat \<Rightarrow> Builder \<Rightarrow> Builder option" where
  "AppendBlock src a e b =
     (if e < a \<or> e > length src then None
      else Some (b\<lparr>buf := buf b @ bytes_of src a e,
                   lineMap := lineMap b @ block_lines (of_nat (lineNumber src a)) (bytes_of src a e)\<rparr>))"

definition AppendBlankLine :: "Builder \<Rightarrow> Builder" where
  "AppendBlankLine b = b\<lparr>buf := buf b @ [nl], lineMap := lineMap b @ [0]\<rparr>"

definition Build :: "Builder \<Rightarrow> VirtualSource" where
  "Build b =
     (if buf b = [] then \<lparr>vs_Code = buf b, vs_Lang = lang b, vs_LineMap = []\<rparr>
      else \<lparr>vs_Code = buf b, vs_Lang = lang b, vs_LineMap = take (countLines (buf b)) (lineMap b)\<rparr>)"

subsection \<open>Script blocks\<close>

definition tagOpenScanLimit :: nat where "tagOpenScanLimit = 512"

text \<open>The end of the opening tag that starts at \<open>t\<close>: its closing angle bracket on the line and within the limit.\<close>

definition open_tag_end :: "string \<Rightarrow> nat \<Rightarrow> nat option" where
  "open_tag_end src t =
     (let limit = min (t + tagOpenScanLimit) (length src);
          limit = (case str_index (bytes_of src t limit) [nl] of None \<Rightarrow> limit | Some k \<Rightarrow> t + k + 1)
      in map_option (\<lambda>g. t + g + 1) (str_index (bytes_of src t limit) ''>''))"

definition content_end :: "string \<Rightarrow> nat \<Rightarrow> nat \<times> bool" where
  "content_end src cs =
     (case str_index (drop cs src) ''</script>'' of
        None \<Rightarrow> (length src, False)
      | Some k \<Rightarrow> (cs + k, True))"

definition add_block :: "string \<Rightarrow> nat \<Rightarrow> nat \<Rightarrow> bool \<Rightarrow> Builder \<Rightarrow> Builder option" where
  "add_block src a e first b = AppendBlock src a e (if first then b else AppendBlankLine b)"

lemma content_end_bounds:
  "cs \<le> length src \<Longrightarrow> content_end src cs = (e, ok) \<Longrightarrow> cs \<le> e \<and> e \<le> length src"
  by (auto simp: content_end_def split: option.splits dest!: str_index_SomeD)

lemma open_tag_end_bounds:
  assumes "open_tag_end src t = Some cs"
  shows "t < cs \<and> cs \<le> length src"
proof -
  obtain limit g where "str_index (bytes_of src t limit) ''>'' = Some g" and cs: "cs = t + g + 1"
    using assms by (auto simp: open_tag_end_def Let_def)
  then have "g < length (bytes_of src t limit)" using str_index_single_notin by fastforce
  then have "g < length src - t" by (simp add: bytes_of_def)
  then show ?thesis using cs by simp
qed

function appendScriptBlocks :: "Builder \<Rightarrow> string \<Rightarrow> nat \<Rightarrow> bool \<Rightarrow> Builder option" where
  "appendScriptBlocks b src pos first =
     (if pos < length src then
        case str_index (drop pos src) ''<script'' of
          None \<Rightarrow> Some b
        | Some idx \<Rightarrow>
            (case open_tag_end src (pos + idx) of
               None \<Rightarrow> Some b
             | Some cs \<Rightarrow>
                 (case content_end src cs of (ce, closed) \<Rightarrow>
                    (case add_block src cs ce first b of
                       None \<Rightarrow> None
                     | Some b' \<Rightarrow>
                         if closed then appendScriptBlocks b' src (ce + length ''</script>'') False
                         else Some b')))
      else Some b)"
  by pat_completeness auto
termination
proof (relation "measure (\<lambda>(b, src, pos, first). length src - pos)", goal_cases)
  case (2 b src pos first idx cs ce closed b')
  have "pos < cs" using 2(3) by (auto simp: open_tag_end_def Let_def)
  moreover have "cs \<le> ce" using 2(1,4,5) 2(3) open_tag_end_bounds content_end_bounds by metis
  ultimately show ?case using 2(1) by simp
qed simp

declare appendScriptBlocks.simps [simp del]

definition ExtractSvelte :: "string \<Rightarrow> VirtualSource option" where
  "ExtractSvelte src = map_option Build (appendScriptBlocks (NewBuilder ''svelte'') src 0 True)"

definition ExtractVue :: "string \<Rightarrow> VirtualSource option" where
  "ExtractVue src = map_option Build (appendScriptBlocks (NewBuilder ''vue'') src 0 True)"

text \<open>The frontmatter of an Astro file: after the opening dashes, up to the closing ones or the end.\<close>

definition frontmatter_range :: "string \<Rightarrow> (nat \<times> nat) option" where
  "frontmatter_range src =
     (if \<not> has_frontmatter src then None
      else Some (after_dashes src,
                 case findLinePrefix src (after_dashes src) ''---'' of None \<Rightarrow> length src | Some cl \<Rightarrow> cl))"

definition ExtractAstro :: "string \<Rightarrow> VirtualSource option" where
  "ExtractAstro src =
     (let b = NewBuilder ''astro''; pos = findTemplateStart src in
      map_option Build
        (case frontmatter_range src of
           None \<Rightarrow> appendScriptBlocks b src pos True
         | Some (a, e) \<Rightarrow>
             if e > a then Option.bind (AppendBlock src a e b) (\<lambda>b'. appendScriptBlocks b' src pos False)
             else appendScriptBlocks b src pos True))"

subsection \<open>Expressions\<close>

definition buildExprVirtualSource :: "string \<Rightarrow> byte_range list \<Rightarrow> string \<Rightarrow> VirtualSource" where
  "buildExprVirtualSource src ranges l =
     \<lparr>vs_Code = concat (map (\<lambda>r. bytes_of src (br_start r) (br_end r) @ [nl]) ranges), vs_Lang = l,
      vs_LineMap = concat (map (\<lambda>r. block_lines (of_nat (fst (lineColAt src (br_start r))))
                                      (bytes_of src (br_start r) (br_end r))) ranges)\<rparr>"

definition ExtractMarkupExprs :: "string \<Rightarrow> VirtualSource" where
  "ExtractMarkupExprs src = buildExprVirtualSource src (scanMarkupExprRanges src) ''astro''"

definition ExtractSvelteMarkupExprs :: "string \<Rightarrow> VirtualSource" where
  "ExtractSvelteMarkupExprs src = buildExprVirtualSource src (scanSvelteExprRanges src) ''svelte''"

subsection \<open>Back to the file\<close>

definition virtualToOriginal :: "32 word list \<Rightarrow> 32 word \<Rightarrow> 32 word" where
  "virtualToOriginal lm v = (if v = 0 \<or> unat v > length lm then 0 else lm ! (unat v - 1))"

definition remapCallLines :: "CallSite list \<Rightarrow> 32 word list \<Rightarrow> CallSite list" where
  "remapCallLines calls lm =
     map (\<lambda>c. c\<lparr>cs_Line := virtualToOriginal lm (cs_Line c)\<rparr>)
       (filter (\<lambda>c. virtualToOriginal lm (cs_Line c) \<noteq> 0) calls)"

record LangSymbol = Symbol +
  sym_Language :: string

definition remap_symbol :: "VirtualSource \<Rightarrow> LangSymbol \<Rightarrow> LangSymbol option" where
  "remap_symbol vs s =
     (let st = virtualToOriginal (vs_LineMap vs) (sym_StartLine s);
          e = virtualToOriginal (vs_LineMap vs) (sym_EndLine s)
      in if st = 0 then None
         else Some (s\<lparr>sym_StartLine := st, sym_EndLine := (if e = 0 then st else e),
                      sym_Language := vs_Lang vs\<rparr>))"

record ParseResult =
  pr_Language :: string
  pr_Symbols :: "LangSymbol list"

definition RemapSymbolLines :: "ParseResult \<Rightarrow> VirtualSource \<Rightarrow> ParseResult" where
  "RemapSymbolLines r vs =
     (let r = r\<lparr>pr_Language := vs_Lang vs\<rparr> in
      if vs_LineMap vs = [] then r
      else r\<lparr>pr_Symbols := List.map_filter (remap_symbol vs) (pr_Symbols r)\<rparr>)"

definition remapAndAppendRunes :: "ParseResult \<Rightarrow> VirtualSource \<Rightarrow> LangSymbol list \<Rightarrow> ParseResult" where
  "remapAndAppendRunes r vs syms = r\<lparr>pr_Symbols := pr_Symbols r @ List.map_filter (remap_symbol vs) syms\<rparr>"

text \<open>\<open>parse\<close> is the grammar run on the virtual code: an error, or its result.\<close>

definition parseVirtualWithRemap ::
  "(string \<Rightarrow> 'e + ParseResult) \<Rightarrow> VirtualSource option \<Rightarrow> string \<Rightarrow> 'e + ParseResult" where
  "parseVirtualWithRemap parse vs l =
     (case vs of
        None \<Rightarrow> Inr \<lparr>pr_Language = l, pr_Symbols = []\<rparr>
      | Some v \<Rightarrow>
          if vs_Code v = [] then Inr \<lparr>pr_Language = l, pr_Symbols = []\<rparr>
          else (case parse (vs_Code v) of Inl e \<Rightarrow> Inl e | Inr r \<Rightarrow> Inr (RemapSymbolLines r v)))"

text \<open>\<open>query\<close> is a grammar with its call queries: \<^const>\<open>None\<close> when the code does not parse or no query is loaded.\<close>

definition reparse_calls :: "(string \<Rightarrow> CallSite list option) \<Rightarrow> VirtualSource \<Rightarrow> CallSite list" where
  "reparse_calls query vs =
     (if vs_Code vs = [] then []
      else case query (vs_Code vs) of None \<Rightarrow> [] | Some calls \<Rightarrow> remapCallLines calls (vs_LineMap vs))"

definition astro_MarkupCalls :: "(string \<Rightarrow> CallSite list option) \<Rightarrow> string \<Rightarrow> CallSite list" where
  "astro_MarkupCalls query src = reparse_calls query (ExtractMarkupExprs src)"

definition svelte_MarkupCalls :: "(string \<Rightarrow> CallSite list option) \<Rightarrow> string \<Rightarrow> CallSite list" where
  "svelte_MarkupCalls query src = reparse_calls query (ExtractSvelteMarkupExprs src)"

text \<open>The calls of the script region; \<^const>\<open>None\<close> is the panic of the builder.\<close>

definition svelte_ScriptCalls :: "(string \<Rightarrow> CallSite list option) \<Rightarrow> string \<Rightarrow> CallSite list option" where
  "svelte_ScriptCalls query src = map_option (reparse_calls query) (ExtractSvelte src)"

definition vue_ScriptCalls :: "(string \<Rightarrow> CallSite list option) \<Rightarrow> string \<Rightarrow> CallSite list option" where
  "vue_ScriptCalls query src = map_option (reparse_calls query) (ExtractVue src)"

definition astro_ScriptCalls :: "(string \<Rightarrow> CallSite list option) \<Rightarrow> string \<Rightarrow> CallSite list option" where
  "astro_ScriptCalls query src = map_option (reparse_calls query) (ExtractAstro src)"

subsection \<open>Lines of a block\<close>

lemma length_break_lines [simp]: "length (break_lines l bs) = count_list bs nl"
  by (induction l bs rule: break_lines.induct) auto

lemma length_block_lines [simp]: "length (block_lines l bs) = Suc (count_list bs nl)"
  by (simp add: block_lines_def)

lemma count_list_take_le: "count_list (take j bs) c \<le> count_list bs c"
  by (metis append_take_drop_id count_list_append le_add1)

lemma block_lines_nth:
  "block_lines l bs ! count_list (take j bs) nl = l + of_nat (count_list (take j bs) nl)"
proof (induction bs arbitrary: l j)
  case Nil
  then show ?case by (simp add: block_lines_def)
next
  case (Cons c cs)
  show ?case
  proof (cases j)
    case 0
    then show ?thesis by (simp add: block_lines_def)
  next
    case (Suc k)
    then show ?thesis using Cons.IH [of "l + 1" k] Cons.IH [of l k] by (auto simp: block_lines_def ac_simps nth_Cons')
  qed
qed

lemma lineNumber_bytes_of:
  "lineNumber src a + count_list (take j (bytes_of src a e)) nl = lineNumber src (a + j)"
  if "j \<le> e - a"
proof -
  have "take (a + j) src = take a src @ take j (bytes_of src a e)"
    using that by (simp add: bytes_of_def take_add min_def)
  then show ?thesis by (simp add: lineNumber_def)
qed

subsection \<open>Every byte of the extracted expressions maps back to its line\<close>

text \<open>For each byte of the virtual code the offset it was copied from; none for a terminator.\<close>

definition origins :: "byte_range list \<Rightarrow> nat option list" where
  "origins rs = concat (map (\<lambda>r. map Some [br_start r ..< br_end r] @ [None]) rs)"

lemma origins_Cons:
  "origins (r # rs) = map Some [br_start r ..< br_end r] @ None # origins rs"
  by (simp add: origins_def)

lemma nth_append_Suc: "(xs @ y # ys) ! (length xs + Suc n) = ys ! n"
  by (simp add: nth_append)

definition expr_code :: "string \<Rightarrow> byte_range list \<Rightarrow> string" where
  "expr_code src rs = concat (map (\<lambda>r. bytes_of src (br_start r) (br_end r) @ [nl]) rs)"

definition expr_lines :: "string \<Rightarrow> byte_range list \<Rightarrow> 32 word list" where
  "expr_lines src rs =
     concat (map (\<lambda>r. block_lines (of_nat (lineNumber src (br_start r))) (bytes_of src (br_start r) (br_end r))) rs)"

lemma length_expr_lines: "length (expr_lines src rs) = count_list (expr_code src rs) nl"
  by (induction rs) (simp_all add: expr_lines_def expr_code_def)

text \<open>The first block of a batch, and how an index past it continues in the rest.\<close>

lemma expr_code_Cons: "expr_code src (r # rs) = bytes_of src (br_start r) (br_end r) @ nl # expr_code src rs"
  by (simp add: expr_code_def)

lemma expr_lines_Cons:
  "expr_lines src (r # rs) =
     block_lines (of_nat (lineNumber src (br_start r))) (bytes_of src (br_start r) (br_end r)) @ expr_lines src rs"
  by (simp add: expr_lines_def)

lemma origin_exact:
  assumes "ranges_in lo (length src) rs" and "k < length (origins rs)" and "origins rs ! k = Some p"
  shows "k < length (expr_code src rs) \<and> expr_code src rs ! k = src ! p \<and> p < length src \<and>
    (\<exists>r \<in> set rs. br_start r \<le> p \<and> p < br_end r) \<and>
    lineNumber (expr_code src rs) k \<le> length (expr_lines src rs) \<and>
    expr_lines src rs ! (lineNumber (expr_code src rs) k - 1) = of_nat (lineNumber src p)"
  using assms
proof (induction rs arbitrary: k lo)
  case Nil
  then show ?case by (simp add: origins_def)
next
  case (Cons r rs)
  let ?a = "br_start r" and ?e = "br_end r"
  let ?bs = "bytes_of src ?a ?e"
  have r: "?a < ?e" "?e \<le> length src" "ranges_in ?e (length src) rs" using Cons.prems(1) by auto
  then have len: "length ?bs = ?e - ?a" by (simp add: length_bytes_of_in)
  consider "k < ?e - ?a" | "k = ?e - ?a" | j where "k = ?e - ?a + Suc j"
    by (metis less_imp_Suc_add linorder_neqE_nat add_Suc_right)
  then show ?case
  proof cases
    case 1
    then have p: "p = ?a + k" using Cons.prems(3) by (simp add: origins_Cons nth_append)
    have "lineNumber (expr_code src (r # rs)) k = Suc (count_list (take k ?bs) nl)"
      using 1 len by (simp add: lineNumber_def expr_code_Cons)
    moreover have "count_list (take k ?bs) nl \<le> count_list ?bs nl" by (rule count_list_take_le)
    moreover have "block_lines (of_nat (lineNumber src ?a)) ?bs ! count_list (take k ?bs) nl = of_nat (lineNumber src p)"
      using lineNumber_bytes_of [of k ?e ?a src] 1 p by (simp add: block_lines_nth flip: of_nat_add)
    moreover have "expr_code src (r # rs) ! k = src ! p"
      using 1 len p r(2) by (simp add: expr_code_Cons nth_append bytes_of_def)
    ultimately show ?thesis using 1 p r len
      by (auto simp: expr_lines_Cons expr_code_Cons nth_append length_expr_lines)
  next
    case 2
    then show ?thesis using Cons.prems(3) by (simp add: origins_Cons nth_append)
  next
    case (3 j)
    have j: "origins rs ! j = Some p" "j < length (origins rs)"
      using Cons.prems(2,3) 3 nth_append_Suc [of "map Some [?a ..< ?e]" None "origins rs" j]
      by (simp_all add: origins_Cons)
    note ih = Cons.IH [OF r(3) j(2,1)]
    have t: "take k (?bs @ nl # expr_code src rs) = ?bs @ nl # take j (expr_code src rs)" using 3 len by simp
    have "lineNumber (expr_code src (r # rs)) k = Suc (count_list ?bs nl) + lineNumber (expr_code src rs) j"
      by (simp add: lineNumber_def expr_code_Cons t del: take_append)
    moreover obtain m where "lineNumber (expr_code src rs) j = Suc m" by (simp add: lineNumber_def)
    moreover have "expr_code src (r # rs) ! k = expr_code src rs ! j"
      using nth_append_Suc [of ?bs nl "expr_code src rs" j] 3 len by (simp add: expr_code_Cons)
    ultimately show ?thesis using ih 3 len by (auto simp: expr_lines_Cons expr_code_Cons nth_append)
  qed
qed

lemma length_origins: "ranges_in lo (length src) rs \<Longrightarrow> length (origins rs) = length (expr_code src rs)"
  by (induction rs arbitrary: lo) (auto simp: origins_def expr_code_def length_bytes_of_in)

lemma buildExpr_fields:
  "vs_Code (buildExprVirtualSource src rs l) = expr_code src rs"
  "vs_LineMap (buildExprVirtualSource src rs l) = expr_lines src rs"
  by (simp_all add: buildExprVirtualSource_def expr_code_def expr_lines_def lineColAt_line)

text \<open>What a batch promises: each copied byte is the byte it came from, in a range of the scan, and its line maps back.\<close>

definition maps_back :: "string \<Rightarrow> byte_range list \<Rightarrow> VirtualSource \<Rightarrow> bool" where
  "maps_back src rs vs \<longleftrightarrow>
     length (origins rs) = length (vs_Code vs) \<and>
     (\<forall>k < length (vs_Code vs). \<forall>p. origins rs ! k = Some p \<longrightarrow>
        vs_Code vs ! k = src ! p \<and> (\<exists>r \<in> set rs. br_start r \<le> p \<and> p < br_end r) \<and>
        (\<forall>v. unat v = lineNumber (vs_Code vs) k \<longrightarrow>
           virtualToOriginal (vs_LineMap vs) v = of_nat (lineNumber src p)))"

lemma buildExpr_maps_back:
  assumes "ranges_in 0 (length src) rs"
  shows "maps_back src rs (buildExprVirtualSource src rs l)"
  unfolding maps_back_def buildExpr_fields
proof (intro conjI allI impI)
  show "length (origins rs) = length (expr_code src rs)" using assms by (rule length_origins)
  fix k p
  assume "k < length (expr_code src rs)" and p: "origins rs ! k = Some p"
  then have k: "k < length (origins rs)" using length_origins assms by simp
  note e = origin_exact [OF assms k p]
  show "expr_code src rs ! k = src ! p" and "\<exists>r \<in> set rs. br_start r \<le> p \<and> p < br_end r" using e by auto
  fix v :: "32 word"
  assume v: "unat v = lineNumber (expr_code src rs) k"
  then have "v \<noteq> 0" by (auto simp: lineNumber_def)
  then show "virtualToOriginal (expr_lines src rs) v = of_nat (lineNumber src p)"
    using e v by (simp add: virtualToOriginal_def)
qed

text \<open>C18: The expressions that are cut out of an Astro or a Svelte template map back to where they stand: every
  byte of the virtual code that is not a terminator is the byte of the file at its origin, that origin lies in a
  range of the scanner, and the line of the byte in the virtual code is translated to the line of the origin in
  the file. No condition is put on the file: unbalanced braces, open strings and open tags included.\<close>

theorem MarkupExprs_map_back:
  "maps_back src (scanMarkupExprRanges src) (ExtractMarkupExprs src) \<and>
   maps_back src (scanSvelteExprRanges src) (ExtractSvelteMarkupExprs src)"
  by (simp add: ExtractMarkupExprs_def ExtractSvelteMarkupExprs_def buildExpr_maps_back scan_ranges_in)

subsection \<open>The calls of the template\<close>

text \<open>A call site lies at an offset of the virtual code when its line is the line of the offset.\<close>

definition site_at :: "string \<Rightarrow> CallSite \<Rightarrow> nat \<Rightarrow> bool" where
  "site_at code c k \<longleftrightarrow> k < length code \<and> unat (cs_Line c) = lineNumber code k"

text \<open>What is relied on of the grammar: a call site it reports stands at a copied byte of the code it was given.\<close>

definition sites_in :: "byte_range list \<Rightarrow> (string \<Rightarrow> CallSite list option) \<Rightarrow> string \<Rightarrow> bool" where
  "sites_in rs query code \<longleftrightarrow>
     (\<forall>calls. query code = Some calls \<longrightarrow> (\<forall>c \<in> set calls. \<exists>k p. site_at code c k \<and> origins rs ! k = Some p))"

lemma reparse_calls_lines:
  assumes "maps_back src rs vs" and "sites_in rs query (vs_Code vs)" and "c \<in> set (reparse_calls query vs)"
  shows "\<exists>p r. r \<in> set rs \<and> br_start r \<le> p \<and> p < br_end r \<and> cs_Line c = of_nat (lineNumber src p)"
proof -
  obtain calls where q: "query (vs_Code vs) = Some calls" and "c \<in> set (remapCallLines calls (vs_LineMap vs))"
    using assms(3) by (cases "query (vs_Code vs)") (auto simp: reparse_calls_def split: if_splits)
  then obtain d where d: "d \<in> set calls"
    and c: "c = d\<lparr>cs_Line := virtualToOriginal (vs_LineMap vs) (cs_Line d)\<rparr>"
    by (auto simp: remapCallLines_def)
  obtain k p where k: "k < length (vs_Code vs)" "unat (cs_Line d) = lineNumber (vs_Code vs) k"
    and p: "origins rs ! k = Some p"
    using assms(2) q d unfolding sites_in_def site_at_def by blast
  have "virtualToOriginal (vs_LineMap vs) (cs_Line d) = of_nat (lineNumber src p)"
    using assms(1) k p unfolding maps_back_def by blast
  moreover have "\<exists>r \<in> set rs. br_start r \<le> p \<and> p < br_end r" using assms(1) k p unfolding maps_back_def by blast
  ultimately show ?thesis using c by auto
qed

text \<open>A call that is reported for the template of a Svelte file carries the line of a byte inside one of the
  template expressions of the file, whatever the grammar returns, as long as the sites it reports stand at bytes
  of the code it was given.\<close>

lemma svelte_MarkupCalls_lines:
  assumes "sites_in (scanSvelteExprRanges src) query (vs_Code (ExtractSvelteMarkupExprs src))"
    and "c \<in> set (svelte_MarkupCalls query src)"
  shows "\<exists>p r. r \<in> set (scanSvelteExprRanges src) \<and> br_start r \<le> p \<and> p < br_end r \<and>
    cs_Line c = of_nat (lineNumber src p)"
proof (rule reparse_calls_lines)
  show "maps_back src (scanSvelteExprRanges src) (ExtractSvelteMarkupExprs src)"
    by (simp add: ExtractSvelteMarkupExprs_def buildExpr_maps_back scan_ranges_in)
qed (use assms in \<open>simp_all add: svelte_MarkupCalls_def\<close>)

definition call_template :: string where
  "call_template = [nl] @ ''{#if f(x)}''"

definition call_query :: "string \<Rightarrow> CallSite list option" where
  "call_query code = Some [\<lparr>cs_Name = ''f'', cs_Receiver = [], cs_Line = 1, cs_File = ''a.svelte'', cs_IsArgRef = False\<rparr>]"

lemma call_template_code: "vs_Code (ExtractSvelteMarkupExprs call_template) = ''f(x)'' @ [nl]"
  by code_simp

lemma call_template_origin: "origins (scanSvelteExprRanges call_template) ! 0 = Some 6"
  by code_simp

lemma call_template_calls: "map cs_Line (svelte_MarkupCalls call_query call_template) = [2]"
  by code_simp

subsection \<open>Script blocks: what is copied, and where its lines go\<close>

function script_ranges :: "string \<Rightarrow> nat \<Rightarrow> byte_range list" where
  "script_ranges src pos =
     (if pos < length src then
        case str_index (drop pos src) ''<script'' of
          None \<Rightarrow> []
        | Some idx \<Rightarrow>
            (case open_tag_end src (pos + idx) of
               None \<Rightarrow> []
             | Some cs \<Rightarrow>
                 (case content_end src cs of (ce, closed) \<Rightarrow>
                    \<lparr>br_start = cs, br_end = ce\<rparr> #
                    (if closed then script_ranges src (ce + length ''</script>'') else [])))
      else [])"
  by pat_completeness auto
termination
proof (relation "measure (\<lambda>(src, pos). length src - pos)", goal_cases)
  case (2 src pos idx cs ce closed)
  have "pos < cs" using 2(3) by (auto simp: open_tag_end_def Let_def)
  moreover have "cs \<le> ce" using 2(1,4,5) 2(3) open_tag_end_bounds content_end_bounds by metis
  ultimately show ?case using 2(1) by simp
qed simp

declare script_ranges.simps [simp del]

fun sep_code :: "string \<Rightarrow> bool \<Rightarrow> byte_range list \<Rightarrow> string" where
  "sep_code src first [] = []"
| "sep_code src first (r # rs) =
     (if first then [] else [nl]) @ bytes_of src (br_start r) (br_end r) @ sep_code src False rs"

fun sep_lines :: "string \<Rightarrow> bool \<Rightarrow> byte_range list \<Rightarrow> 32 word list" where
  "sep_lines src first [] = []"
| "sep_lines src first (r # rs) =
     (if first then [] else [0]) @
     block_lines (of_nat (lineNumber src (br_start r))) (bytes_of src (br_start r) (br_end r)) @ sep_lines src False rs"

lemma AppendBlock_in:
  "a \<le> e \<Longrightarrow> e \<le> length src \<Longrightarrow> AppendBlock src a e b =
     Some (b\<lparr>buf := buf b @ bytes_of src a e,
             lineMap := lineMap b @ block_lines (of_nat (lineNumber src a)) (bytes_of src a e)\<rparr>)"
  by (simp add: AppendBlock_def)

lemma appendScriptBlocks_eq:
  "appendScriptBlocks b src pos first =
     Some (b\<lparr>buf := buf b @ sep_code src first (script_ranges src pos),
             lineMap := lineMap b @ sep_lines src first (script_ranges src pos)\<rparr>)"
proof (induction b src pos first rule: appendScriptBlocks.induct)
  case (1 b src pos first)
  show ?case
  proof (cases "pos < length src")
    case False
    then show ?thesis by (simp add: appendScriptBlocks.simps [of b] script_ranges.simps [of src pos])
  next
    case pos: True
    show ?thesis
    proof (cases "str_index (drop pos src) ''<script''")
      case None
      then show ?thesis using pos by (simp add: appendScriptBlocks.simps [of b] script_ranges.simps [of src pos])
    next
      case idx: (Some idx)
      show ?thesis
      proof (cases "open_tag_end src (pos + idx)")
        case None
        then show ?thesis using pos idx by (simp add: appendScriptBlocks.simps [of b] script_ranges.simps [of src pos])
      next
        case cs: (Some cs)
        obtain ce closed where ce: "content_end src cs = (ce, closed)" by (cases "content_end src cs")
        have "cs \<le> ce" "ce \<le> length src" using open_tag_end_bounds [OF cs] content_end_bounds ce by blast+
        then obtain b' where add: "add_block src cs ce first b = Some b'"
          and b': "b' = b\<lparr>buf := buf b @ (if first then [] else [nl]) @ bytes_of src cs ce,
            lineMap := lineMap b @ (if first then [] else [0]) @
              block_lines (of_nat (lineNumber src cs)) (bytes_of src cs ce)\<rparr>"
          by (simp add: add_block_def AppendBlock_in AppendBlankLine_def)
        show ?thesis
        proof (cases closed)
          case True
          note ih = "1.IH" [OF pos idx cs ce [symmetric] add True]
          show ?thesis using pos idx cs ce add True b' ih
            by (simp add: appendScriptBlocks.simps [of b] script_ranges.simps [of src pos])
        next
          case False
          then show ?thesis using pos idx cs ce add b'
            by (simp add: appendScriptBlocks.simps [of b] script_ranges.simps [of src pos])
        qed
      qed
    qed
  qed
qed

text \<open>Every script range lies in the file, and the ranges ascend.\<close>

lemma script_ranges_in: "ranges_in pos (length src) (filter (\<lambda>r. br_start r < br_end r) (script_ranges src pos))
  \<and> (\<forall>r \<in> set (script_ranges src pos). br_start r \<le> br_end r \<and> br_end r \<le> length src)"
proof (induction src pos rule: script_ranges.induct)
  case (1 src pos)
  show ?case
  proof (cases "script_ranges src pos")
    case Nil
    then show ?thesis by simp
  next
    case (Cons r rs)
    then obtain idx where pos: "pos < length src" and idx: "str_index (drop pos src) ''<script'' = Some idx"
      by (subst (asm) script_ranges.simps) (auto split: if_splits option.splits)
    obtain cs where cs: "open_tag_end src (pos + idx) = Some cs"
      using Cons pos idx by (subst (asm) script_ranges.simps) (auto split: option.splits)
    obtain ce closed where ce: "content_end src cs = (ce, closed)" by (cases "content_end src cs")
    have b: "pos + idx < cs" "cs \<le> ce" "ce \<le> length src"
      using open_tag_end_bounds [OF cs] content_end_bounds ce by blast+
    have r: "r = \<lparr>br_start = cs, br_end = ce\<rparr>"
      and rs: "rs = (if closed then script_ranges src (ce + length ''</script>'') else [])"
      using Cons pos idx cs ce by (simp_all add: script_ranges.simps [of src pos])
    have "ranges_in ce (length src) (filter (\<lambda>r. br_start r < br_end r) rs) \<and>
      (\<forall>r \<in> set rs. br_start r \<le> br_end r \<and> br_end r \<le> length src)"
    proof (cases closed)
      case True
      then have rs': "rs = script_ranges src (ce + length ''</script>'')" using rs by simp
      show ?thesis using "1.IH" [OF pos idx cs ce [symmetric] True]
        unfolding rs' by (auto intro: ranges_in_mono [of ce "ce + length ''</script>''"])
    qed (simp add: rs)
    then show ?thesis using Cons r b by (auto intro: ranges_in_mono [of pos ce])
  qed
qed

lemma sep_code_append: "sep_code src first (as @ bs) = sep_code src first as @ sep_code src (first \<and> as = []) bs"
  by (induction as arbitrary: first) auto

lemma sep_lines_append: "sep_lines src first (as @ bs) = sep_lines src first as @ sep_lines src (first \<and> as = []) bs"
  by (induction as arbitrary: first) auto

lemma length_sep_lines: "length (sep_lines src first rs) = count_list (sep_code src first rs) nl + length rs"
  by (induction rs arbitrary: first) auto

lemma nth_append_mid: "length xs = n \<Longrightarrow> c < length ys \<Longrightarrow> (xs @ ys @ zs) ! (n + c) = ys ! c"
  by (auto simp: nth_append)

text \<open>Where the \<open>j\<close>th byte of a block stands in the code, and where its line stands in the map: as many
  entries too late as there are blocks before it.\<close>

lemma sep_block_at:
  assumes "j < br_end r - br_start r" and "br_end r \<le> length src"
    and "k = length (sep_code src True as) + (if as = [] then 0 else 1) + j"
  shows "sep_code src True (as @ r # bs) ! k = src ! (br_start r + j)"
    and "sep_lines src True (as @ r # bs) ! (lineNumber (sep_code src True (as @ r # bs)) k - 1 + length as) =
      of_nat (lineNumber src (br_start r + j))"
proof -
  let ?bl = "bytes_of src (br_start r) (br_end r)" and ?sep = "if as = [] then [] else [nl]"
  let ?pre = "sep_code src True as @ ?sep"
  have len: "length ?bl = br_end r - br_start r" using assms(1,2) by (simp add: length_bytes_of_in)
  have code: "sep_code src True (as @ r # bs) = ?pre @ ?bl @ sep_code src False bs" by (simp add: sep_code_append)
  have k: "k = length ?pre + j" using assms(3) by simp
  show "sep_code src True (as @ r # bs) ! k = src ! (br_start r + j)"
    unfolding code k using assms(1,2) len by (simp only: nth_append_length_plus) (simp add: nth_append bytes_of_def)
  have "take k (sep_code src True (as @ r # bs)) = ?pre @ take j ?bl"
    unfolding code k using assms(1) len by simp
  then have n: "lineNumber (sep_code src True (as @ r # bs)) k - 1 = count_list ?pre nl + count_list (take j ?bl) nl"
    by (simp add: lineNumber_def del: take_append)
  let ?lpre = "sep_lines src True as @ (if as = [] then [] else [0])"
  have lp: "length ?lpre = count_list ?pre nl + length as" by (simp add: length_sep_lines)
  have lines: "sep_lines src True (as @ r # bs) =
    ?lpre @ block_lines (of_nat (lineNumber src (br_start r))) ?bl @ sep_lines src False bs"
    by (simp add: sep_lines_append)
  have "count_list (take j ?bl) nl < length (block_lines (of_nat (lineNumber src (br_start r))) ?bl)"
    using count_list_take_le [of j ?bl nl] by simp
  from nth_append_mid [OF lp this]
  have "sep_lines src True (as @ r # bs) ! (count_list ?pre nl + length as + count_list (take j ?bl) nl) =
    block_lines (of_nat (lineNumber src (br_start r))) ?bl ! count_list (take j ?bl) nl"
    unfolding lines .
  also have "\<dots> = of_nat (lineNumber src (br_start r + j))"
    using lineNumber_bytes_of [of j "br_end r" "br_start r" src] assms(1) by (simp add: block_lines_nth flip: of_nat_add)
  finally show "sep_lines src True (as @ r # bs) ! (lineNumber (sep_code src True (as @ r # bs)) k - 1 + length as) =
      of_nat (lineNumber src (br_start r + j))" unfolding n by (simp add: ac_simps)
qed

lemma next_line_prefix_le: "next_line_prefix src b p = Some e \<Longrightarrow> e \<le> length src"
proof (induction src b p rule: next_line_prefix.induct)
  case (1 src b p)
  note step = next_line_prefix.simps [of src b p]
  show ?case
  proof (cases "str_index (drop b src) [nl]")
    case None
    then have "next_line_prefix src b p = None" by (simp only: step option.case)
    with "1.prems" show ?thesis by (simp only: option.distinct)
  next
    case k: (Some k)
    have le: "b + k + 1 \<le> length src" using str_index_single_notin [OF k] by auto
    have e: "(if prefix p (drop (b + k + 1) src) then Some (b + k + 1) else next_line_prefix src (b + k + 1) p) = Some e"
      using "1.prems" by (simp only: step k option.case)
    show ?thesis
    proof (cases "prefix p (drop (b + k + 1) src)")
      case True
      with e have "e = b + k + 1" by (simp only: if_True option.inject)
      with le show ?thesis by (simp only:)
    next
      case False
      with e have "next_line_prefix src (b + k + 1) p = Some e" by (simp only: if_False)
      then show ?thesis by (rule "1.IH" [OF k False])
    qed
  qed
qed

lemma frontmatter_le: "frontmatter_range src = Some (a, e) \<Longrightarrow> e \<le> length src"
  by (auto simp: frontmatter_range_def findLinePrefix_def next_line_prefix_le split: if_splits option.splits)

definition astro_ranges :: "string \<Rightarrow> byte_range list" where
  "astro_ranges src =
     (case frontmatter_range src of
        None \<Rightarrow> []
      | Some (a, e) \<Rightarrow> if e > a then [\<lparr>br_start = a, br_end = e\<rparr>] else []) @
     script_ranges src (findTemplateStart src)"

definition range_inside :: "string \<Rightarrow> byte_range \<Rightarrow> bool" where
  "range_inside src r \<longleftrightarrow> br_start r \<le> br_end r \<and> br_end r \<le> length src"

lemma script_ranges_inside: "list_all (range_inside src) (script_ranges src pos)"
  using script_ranges_in by (simp add: list_all_iff range_inside_def)

lemma astro_ranges_inside: "list_all (range_inside src) (astro_ranges src)"
  using script_ranges_inside frontmatter_le
  by (auto simp: astro_ranges_def range_inside_def split: option.splits)

text \<open>The virtual source of a list of blocks: their bytes with a line break between two of them; the lines of the
  first block map back to the file.\<close>

definition scripts_of :: "string \<Rightarrow> byte_range list \<Rightarrow> VirtualSource \<Rightarrow> bool" where
  "scripts_of src rs vs \<longleftrightarrow>
     list_all (range_inside src) rs \<and> vs_Code vs = sep_code src True rs \<and>
     (\<forall>r bs j v. rs = r # bs \<and> j < br_end r - br_start r \<and> unat v = lineNumber (vs_Code vs) j \<longrightarrow>
        vs_Code vs ! j = src ! (br_start r + j) \<and>
        virtualToOriginal (vs_LineMap vs) v = of_nat (lineNumber src (br_start r + j)))"

lemma Build_scripts_of:
  assumes "list_all (range_inside src) rs"
  shows "scripts_of src rs (Build \<lparr>lang = l, buf = sep_code src True rs, lineMap = sep_lines src True rs\<rparr>)"
    (is "scripts_of src rs ?vs")
proof -
  have code: "vs_Code ?vs = sep_code src True rs" by (simp add: Build_def)
  have "vs_Code ?vs ! j = src ! (br_start r + j) \<and> virtualToOriginal (vs_LineMap ?vs) v = of_nat (lineNumber src (br_start r + j))"
    if rs: "rs = r # bs" and j: "j < br_end r - br_start r" and v: "unat v = lineNumber (vs_Code ?vs) j" for r bs j v
  proof -
    have r: "br_end r \<le> length src" using assms rs by (simp add: range_inside_def)
    have at: "sep_code src True rs ! j = src ! (br_start r + j)"
      "sep_lines src True rs ! (lineNumber (sep_code src True rs) j - 1) = of_nat (lineNumber src (br_start r + j))"
      using sep_block_at [OF j r, of j "[]" bs] by (simp_all add: rs del: sep_code.simps(2) sep_lines.simps(2))
    have "j < length (sep_code src True rs)" using j r rs by (simp add: length_bytes_of_in)
    then have ne: "sep_code src True rs \<noteq> []" by auto
    have n: "unat v = Suc (count_list (take j (sep_code src True rs)) nl)" using v by (simp add: code lineNumber_def)
    have c: "count_list (take j (sep_code src True rs)) nl \<le> count_list (sep_code src True rs) nl"
      by (rule count_list_take_le)
    have "length (sep_lines src True rs) = count_list (sep_code src True rs) nl + length rs" by (rule length_sep_lines)
    then have "\<not> unat v > length (vs_LineMap ?vs)" using n c ne rs by (simp add: Build_def countLines_def del: sep_lines.simps sep_code.simps)
    moreover have "v \<noteq> 0" using n by auto
    moreover have "vs_LineMap ?vs ! (unat v - 1) = sep_lines src True rs ! (unat v - 1)"
      using n c ne by (simp add: Build_def countLines_def)
    ultimately have "virtualToOriginal (vs_LineMap ?vs) v = sep_lines src True rs ! (unat v - 1)"
      by (simp add: virtualToOriginal_def)
    then show ?thesis using at v unfolding code by simp
  qed
  then show ?thesis using assms code unfolding scripts_of_def by blast
qed

lemma ExtractSvelte_eq:
  "ExtractSvelte src = Some (Build \<lparr>lang = ''svelte'', buf = sep_code src True (script_ranges src 0),
     lineMap = sep_lines src True (script_ranges src 0)\<rparr>)"
  by (simp add: ExtractSvelte_def appendScriptBlocks_eq NewBuilder_def)

lemma ExtractVue_eq:
  "ExtractVue src = Some (Build \<lparr>lang = ''vue'', buf = sep_code src True (script_ranges src 0),
     lineMap = sep_lines src True (script_ranges src 0)\<rparr>)"
  by (simp add: ExtractVue_def appendScriptBlocks_eq NewBuilder_def)

lemma ExtractAstro_eq:
  "ExtractAstro src = Some (Build \<lparr>lang = ''astro'', buf = sep_code src True (astro_ranges src),
     lineMap = sep_lines src True (astro_ranges src)\<rparr>)"
  using frontmatter_le
  by (auto simp: ExtractAstro_def astro_ranges_def appendScriptBlocks_eq NewBuilder_def Let_def AppendBlock_in
      split: option.splits)

text \<open>C20: The script extractors of Svelte, Vue and Astro never hit the panic of the builder, on any file: every
  block they append lies in the file. The virtual code is the blocks in order, one line break between two of
  them, and every byte of the first block maps back to its line.\<close>

theorem Extract_scripts:
  "(\<exists>vs. ExtractSvelte src = Some vs \<and> scripts_of src (script_ranges src 0) vs) \<and>
   (\<exists>vs. ExtractVue src = Some vs \<and> scripts_of src (script_ranges src 0) vs) \<and>
   (\<exists>vs. ExtractAstro src = Some vs \<and> scripts_of src (astro_ranges src) vs)"
  by (simp add: ExtractSvelte_eq ExtractVue_eq ExtractAstro_eq Build_scripts_of script_ranges_inside astro_ranges_inside)

text \<open>From the second block on the line map is read at the wrong entry: a byte of the block with \<open>m\<close> blocks before
  it has its line \<open>m\<close> entries after the one that its line number selects.\<close>

lemma later_scripts_are_late:
  assumes "script_ranges src 0 = as @ r # bs" and "j < br_end r - br_start r"
    and "k = length (sep_code src True as) + (if as = [] then 0 else 1) + j"
  shows "sep_lines src True (script_ranges src 0) !
      (lineNumber (sep_code src True (script_ranges src 0)) k - 1 + length as) = of_nat (lineNumber src (br_start r + j))"
proof -
  have "br_end r \<le> length src" using script_ranges_inside [of src 0] assms(1) by (simp add: range_inside_def)
  then show ?thesis unfolding assms(1) using assms(2,3) by (intro sep_block_at(2))
qed

definition two_scripts :: string where
  "two_scripts = ''<script>'' @ [nl] @ ''a()'' @ [nl] @ ''</script>'' @ [nl] @ ''<script>'' @ [nl] @ ''b()'' @ [nl] @ ''</script>''"

lemma second_script_one_line_off:
  "map_option (\<lambda>vs. (vs_Code vs, virtualToOriginal (vs_LineMap vs) 2, virtualToOriginal (vs_LineMap vs) 5))
     (ExtractSvelte two_scripts) =
   Some ([nl] @ ''a()'' @ [nl] @ [nl] @ [nl] @ ''b()'' @ [nl], 2, 4)"
  "lineNumber two_scripts (the (str_index two_scripts ''b()'')) = 5"
  by code_simp+

end
