(* ===== verification/TemplateScan.thy ===== *)
theory TemplateScan
  imports GoTemplate PreprocBuild
begin

text \<open>
  The two walkers over the markup of a template: \<open>ScanHtmxRefs\<close>, which reports the requests of htmx
  attributes (\<open>internal/parser/preproc/htmx_attrs.go\<close>), and \<open>scanTemplateRefs\<close>, which reports the
  component tags of Astro and Svelte templates (\<open>astro_refs.go\<close>, \<open>preproc.go\<close>). Each keeps a running line
  next to its offset; the invariant is that it is the line of the offset.
\<close>

subsection \<open>Running lines\<close>

definition line_breaks :: "string \<Rightarrow> nat" where "line_breaks s = count_list s nl"

lemma lineNumber_step: "a \<le> b \<Longrightarrow> lineNumber src b = lineNumber src a + line_breaks (bytes_of src a b)"
proof -
  assume "a \<le> b"
  then have "take b src = take a src @ bytes_of src a b" unfolding bytes_of_def by (metis le_add_diff_inverse take_add)
  then show ?thesis by (simp add: lineNumber_def line_breaks_def)
qed

lemma lineNumber_Suc: "i < length src \<Longrightarrow> lineNumber src (Suc i) = lineNumber src i + (if src ! i = nl then 1 else 0)"
  by (simp add: lineNumber_def take_Suc_conv_app_nth)

lemma scan_while_all: "i \<le> k \<Longrightarrow> k < scan_while P src i e \<Longrightarrow> P (src ! k)"
proof (induction P src i e rule: scan_while.induct)
  case (1 P src i e)
  show ?case
  proof (cases "i < e \<and> P (src ! i)")
    case True
    then have "scan_while P src i e = scan_while P src (i + 1) e" by (simp add: scan_while.simps [of P src i])
    then show ?thesis using "1.IH" [OF True] "1.prems" True by (cases "k = i") auto
  next
    case False
    then have "scan_while P src i e = i" by (simp only: scan_while.simps [of P src i e] if_False)
    then show ?thesis using "1.prems" by simp
  qed
qed

lemma scan_while_le: "i \<le> e \<Longrightarrow> scan_while P src i e \<le> e"
proof (induction P src i e rule: scan_while.induct)
  case (1 P src i e)
  then show ?case by (subst scan_while.simps) auto
qed

lemma scan_while_stop: "scan_while P src i e < e \<Longrightarrow> \<not> P (src ! scan_while P src i e)"
proof (induction P src i e rule: scan_while.induct)
  case (1 P src i e)
  show ?case
  proof (cases "i < e \<and> P (src ! i)")
    case True
    then have "scan_while P src i e = scan_while P src (i + 1) e" by (simp add: scan_while.simps [of P src i])
    then show ?thesis using "1.IH" [OF True] "1.prems" by simp
  next
    case False
    then have "scan_while P src i e = i" by (simp only: scan_while.simps [of P src i e] if_False)
    then show ?thesis using "1.prems" False by simp
  qed
qed

lemma bytes_of_all:
  assumes "\<And>k. a \<le> k \<Longrightarrow> k < b \<Longrightarrow> P (src ! k)" and "c \<in> set (bytes_of src a b)"
  shows "P c"
proof -
  obtain j where j: "j < length (bytes_of src a b)" "c = bytes_of src a b ! j" using assms(2) by (metis in_set_conv_nth)
  then have "j < b - a" "j < length src - a" by (simp_all add: bytes_of_def)
  then show ?thesis using j assms(1) [of "a + j"] by (simp add: bytes_of_def)
qed

lemma lineNumber_run:
  assumes "\<not> P nl"
  shows "lineNumber src (scan_while P src i e) = lineNumber src i"
proof -
  have "nl \<notin> set (bytes_of src i (scan_while P src i e))" 
    using bytes_of_all [where a = i and b = "scan_while P src i e" and P = P and src = src and c = nl] scan_while_all assms
    by blast
  then show ?thesis using lineNumber_step [OF scan_while_ge [of i P src e], of src] by (simp add: line_breaks_def)
qed

subsection \<open>The htmx walker\<close>

record HtmxRef =
  hr_Method :: string
  hr_URL :: string
  hr_StartLine :: nat
  hr_EndLine :: nat
  hr_EnclosingTemplate :: string

definition hxMethodAttrs :: "(string \<times> string) list" where
  "hxMethodAttrs =
     [(''hx-get'', ''GET''), (''hx-post'', ''POST''), (''hx-put'', ''PUT''), (''hx-delete'', ''DELETE''),
      (''hx-patch'', ''PATCH'')]"

text \<open>The stack of open blocks has its innermost block at the head.\<close>

record htmxWalker =
  w_i :: nat
  w_line :: nat
  w_stack :: "string list"

definition currentTemplate :: "htmxWalker \<Rightarrow> string" where
  "currentTemplate w = (case List.find (\<lambda>n. n \<noteq> []) (w_stack w) of None \<Rightarrow> [] | Some n \<Rightarrow> n)"

definition isGoTemplateStart :: "string \<Rightarrow> nat \<Rightarrow> bool" where
  "isGoTemplateStart src i \<longleftrightarrow> src ! i = CHR ''{'' \<and> i + 1 < length src \<and> src ! (i + 1) = CHR ''{''"

definition isAttrBoundary :: "string \<Rightarrow> nat \<Rightarrow> bool" where
  "isAttrBoundary src i \<longleftrightarrow>
     i = 0 \<or> src ! (i - 1) \<in> {CHR '' '', CHR 0x09, nl, CHR 0x0D, CHR ''<''}"

definition skipComment :: "string \<Rightarrow> htmxWalker \<Rightarrow> htmxWalker" where
  "skipComment src w =
     (case str_index (drop (w_i w) src) ''-->'' of
        None \<Rightarrow> w\<lparr>w_i := length src\<rparr>
      | Some k \<Rightarrow>
          w\<lparr>w_i := w_i w + k + 3, w_line := w_line w + line_breaks (bytes_of src (w_i w) (w_i w + k + 3))\<rparr>)"

definition scope_step :: "string \<times> string \<Rightarrow> string list \<Rightarrow> string list" where
  "scope_step kn st =
     (case kn of (keyword, name) \<Rightarrow>
        if keyword \<in> {''define'', ''range'', ''if'', ''with'', ''block''}
        then (if keyword = ''define'' then name else []) # st
        else if keyword = ''end'' then drop 1 st
        else st)"

definition advanceTemplateAction :: "string \<Rightarrow> htmxWalker \<Rightarrow> htmxWalker" where
  "advanceTemplateAction src w =
     (case findActionClose src (w_i w + 2) of
        None \<Rightarrow> w\<lparr>w_i := w_i w + 2\<rparr>
      | Some e \<Rightarrow>
          w\<lparr>w_i := e, w_line := w_line w + line_breaks (bytes_of src (w_i w) e),
            w_stack := scope_step (parseActionKeyword (actionBody src (w_i w) e)) (w_stack w)\<rparr>)"

definition attr_space :: "char \<Rightarrow> bool" where
  "attr_space c \<longleftrightarrow> c = CHR '' '' \<or> c = CHR 0x09"

text \<open>Where the value starts when the attribute \<open>name\<close> with an equals sign stands at \<open>i\<close>.\<close>

definition value_start :: "string \<Rightarrow> nat \<Rightarrow> string \<Rightarrow> nat option" where
  "value_start src i name =
     (if \<not> prefix name (drop i src) then None
      else let j = scan_while attr_space src (i + length name) (length src) in
        if j \<ge> length src \<or> src ! j \<noteq> CHR ''='' then None
        else let v = scan_while attr_space src (j + 1) (length src) in
          if v \<ge> length src then None else Some v)"

text \<open>The value that starts at \<open>j\<close> on line \<open>line\<close>: its text, the offset behind it, and the line it ends on.\<close>

definition extractAttrValue :: "string \<Rightarrow> nat \<Rightarrow> nat \<Rightarrow> string \<times> nat \<times> nat" where
  "extractAttrValue src j line =
     (if src ! j \<noteq> quote2 \<and> src ! j \<noteq> quote1 then
        let e = scan_while (\<lambda>c. c \<notin> {CHR '' '', CHR 0x09, CHR ''>'', nl}) src j (length src)
        in (bytes_of src j e, e, line)
      else
        let q = src ! j;
            e = scan_while (\<lambda>c. c \<noteq> q) src (j + 1) (length src);
            url = bytes_of src (j + 1) e
        in (url, if e < length src then e + 1 else e, line + line_breaks url))"

definition first_attr :: "string \<Rightarrow> nat \<Rightarrow> (string \<times> nat) option" where
  "first_attr src i =
     (case List.map_filter (\<lambda>(name, verb). map_option (\<lambda>v. (verb, v)) (value_start src i name)) hxMethodAttrs of
        [] \<Rightarrow> None
      | m # _ \<Rightarrow> Some m)"

definition matchAttr :: "string \<Rightarrow> htmxWalker \<Rightarrow> htmxWalker \<times> HtmxRef option" where
  "matchAttr src w =
     (case first_attr src (w_i w) of
        None \<Rightarrow> (w\<lparr>w_i := w_i w + 1\<rparr>, None)
      | Some (verb, v) \<Rightarrow>
          (case extractAttrValue src v (w_line w) of (url, newJ, endLine) \<Rightarrow>
             (w\<lparr>w_line := endLine, w_i := newJ\<rparr>,
              if url \<noteq> [] then
                Some \<lparr>hr_Method = verb, hr_URL = url, hr_StartLine = w_line w, hr_EndLine = endLine,
                      hr_EnclosingTemplate = currentTemplate w\<rparr>
              else None)))"

definition htmx_step :: "string \<Rightarrow> byte_range list \<Rightarrow> htmxWalker \<Rightarrow> htmxWalker \<times> HtmxRef option" where
  "htmx_step src skips w =
     (let i = w_i w; b = src ! i in
      if b = nl then (w\<lparr>w_line := w_line w + 1, w_i := i + 1\<rparr>, None)
      else if inSkipRanges i skips then (w\<lparr>w_i := i + 1\<rparr>, None)
      else if prefix ''<!--'' (drop i src) then (skipComment src w, None)
      else if isGoTemplateStart src i then (advanceTemplateAction src w, None)
      else if b \<noteq> CHR ''h'' \<or> \<not> isAttrBoundary src i then (w\<lparr>w_i := i + 1\<rparr>, None)
      else matchAttr src w)"

lemma value_start_bounds: "value_start src i name = Some v \<Longrightarrow> i + length name < v \<and> v < length src"
  using scan_while_ge [of "i + length name" attr_space src "length src"]
    scan_while_ge [of "scan_while attr_space src (i + length name) (length src) + 1" attr_space src "length src"]
  by (auto simp: value_start_def Let_def split: if_splits)

lemma first_attr_SomeD:
  "first_attr src i = Some (verb, v) \<Longrightarrow> \<exists>name. (name, verb) \<in> set hxMethodAttrs \<and> value_start src i name = Some v"
proof -
  assume f: "first_attr src i = Some (verb, v)"
  then have "(verb, v) \<in> set (List.map_filter (\<lambda>(name, verb). map_option (\<lambda>v. (verb, v)) (value_start src i name)) hxMethodAttrs)"
    by (auto simp: first_attr_def split: list.splits)
  then obtain name where "(name, verb) \<in> set hxMethodAttrs" "value_start src i name = Some v"
    by (auto simp: List.map_filter_def split: prod.splits)
  then show ?thesis by blast
qed

lemma extractAttrValue_bounds:
  assumes "extractAttrValue src j l = (url, e, l')" and "j < length src"
  shows "j \<le> e \<and> e \<le> length src"
proof -
  have "j + 1 \<le> scan_while P src (j + 1) (length src)" "scan_while P src (j + 1) (length src) \<le> length src"
    "j \<le> scan_while P src j (length src)" "scan_while P src j (length src) \<le> length src" for P
    using assms(2) by (simp_all add: scan_while_ge scan_while_le)
  note b = this
  show ?thesis
  proof (cases "src ! j \<noteq> quote2 \<and> src ! j \<noteq> quote1")
    case True
    then show ?thesis using assms(1) b(3,4) by (auto simp: extractAttrValue_def Let_def)
  next
    case False
    obtain k where k: "scan_while (\<lambda>c. c \<noteq> src ! j) src (j + 1) (length src) = k" by blast
    then have "j + 1 \<le> k" "k \<le> length src" using b(1,2) by blast+
    moreover have "e = (if k < length src then k + 1 else k)"
      using assms(1) False k by (auto simp: extractAttrValue_def Let_def)
    ultimately show ?thesis by (auto split: if_splits)
  qed
qed

lemma htmx_step_advances:
  assumes "htmx_step src skips w = (w', r)" and "w_i w < length src"
  shows "w_i w < w_i w'"
proof -
  have "w_i w < w_i (skipComment src w)" using assms(2) by (auto simp: skipComment_def split: option.splits)
  moreover have "w_i w < w_i (advanceTemplateAction src w)"
    using findActionClose_bounds [of src "w_i w + 2"] by (fastforce simp: advanceTemplateAction_def split: option.splits)
  moreover have "w_i w < w_i (fst (matchAttr src w))"
  proof (cases "first_attr src (w_i w)")
    case None
    then show ?thesis by (simp add: matchAttr_def)
  next
    case (Some mv)
    obtain m v where mv: "mv = (m, v)" by (cases mv)
    obtain url e l' where x: "extractAttrValue src v (w_line w) = (url, e, l')" by (metis prod_cases3)
    have "w_i w < v" "v < length src" using first_attr_SomeD [of src "w_i w" m v] value_start_bounds Some mv by fastforce+
    then show ?thesis using extractAttrValue_bounds [OF x] Some mv x by (simp add: matchAttr_def)
  qed
  ultimately show ?thesis using assms(1) by (auto simp: htmx_step_def Let_def split: if_splits)
qed

function htmx_loop :: "string \<Rightarrow> byte_range list \<Rightarrow> htmxWalker \<Rightarrow> HtmxRef list" where
  "htmx_loop src skips w =
     (if w_i w < length src then
        case htmx_step src skips w of (w', r) \<Rightarrow> (case r of None \<Rightarrow> [] | Some x \<Rightarrow> [x]) @ htmx_loop src skips w'
      else [])"
  by pat_completeness auto
termination
proof (relation "measure (\<lambda>(src, skips, w). length src - w_i w)", goal_cases)
  case (2 src skips w w' r)
  then show ?case using htmx_step_advances [of src skips w w' r] by simp
qed simp

declare htmx_loop.simps [simp del]

definition ScanHtmxRefs :: "string \<Rightarrow> HtmxRef list" where
  "ScanHtmxRefs src = htmx_loop src (collectSkipRanges src) \<lparr>w_i = 0, w_line = 1, w_stack = []\<rparr>"

definition hx :: "string \<Rightarrow> string" where
  "hx url = ''hx-get='' @ [quote2] @ url @ [quote2]"

lemma htmx_small:
  "ScanHtmxRefs (''<a'' @ [nl] @ hx ''/x'' @ ''>'') =
     [\<lparr>hr_Method = ''GET'', hr_URL = ''/x'', hr_StartLine = 2, hr_EndLine = 2, hr_EnclosingTemplate = []\<rparr>]"
  by code_simp

lemma htmx_comment_quote:
  "ScanHtmxRefs (''{{/* 5'' @ [quote2] @ '' */}}<a '' @ hx ''/x'' @ ''>{{/* 6'' @ [quote2] @ '' */}}'') = []"
  by code_simp

subsection \<open>Every reported request stands in the file\<close>

text \<open>The reference \<open>r\<close> is read off an attribute at \<open>p\<close> whose value has its text at \<open>u\<close>.\<close>

definition reads_attr :: "string \<Rightarrow> HtmxRef \<Rightarrow> nat \<Rightarrow> nat \<Rightarrow> bool" where
  "reads_attr src r p u \<longleftrightarrow>
     (\<exists>name v. (name, hr_Method r) \<in> set hxMethodAttrs \<and> value_start src p name = Some v \<and> (u = v \<or> u = v + 1)) \<and>
     isAttrBoundary src p \<and> \<not> inSkipRanges p (collectSkipRanges src) \<and>
     hr_URL r \<noteq> [] \<and> bytes_of src u (u + length (hr_URL r)) = hr_URL r \<and>
     hr_StartLine r = lineNumber src u \<and> hr_EndLine r = lineNumber src (u + length (hr_URL r))"

lemma value_start_line:
  assumes v: "value_start src i name = Some v" and n: "nl \<notin> set name"
  shows "lineNumber src v = lineNumber src i"
proof -
  let ?j = "scan_while attr_space src (i + length name) (length src)"
  have p: "prefix name (drop i src)" and j: "?j < length src" "src ! ?j = CHR ''=''"
    and v': "v = scan_while attr_space src (?j + 1) (length src)"
    using v by (auto simp: value_start_def Let_def split: if_splits)
  have "\<not> attr_space nl" by (simp add: attr_space_def nl_def)
  then have "lineNumber src v = lineNumber src (?j + 1)" "lineNumber src ?j = lineNumber src (i + length name)"
    unfolding v' by (simp_all add: lineNumber_run)
  moreover have "lineNumber src (?j + 1) = lineNumber src ?j" using j lineNumber_Suc [of ?j src] by (simp add: nl_def)
  moreover have "bytes_of src i (i + length name) = name" using p by (auto simp: bytes_of_def prefix_def)
  then have "lineNumber src (i + length name) = lineNumber src i"
    using lineNumber_step [of i "i + length name" src] n by (simp add: line_breaks_def)
  ultimately show ?thesis by simp
qed

lemma attr_names_no_nl: "(name, m) \<in> set hxMethodAttrs \<Longrightarrow> nl \<notin> set name"
  by (auto simp: hxMethodAttrs_def nl_def)

lemma quotes_not_nl: "quote1 \<noteq> nl" "quote2 \<noteq> nl"
  by code_simp+

lemma extractAttrValue_reads:
  assumes x: "extractAttrValue src v l = (url, e, l')" and v: "v < length src" and l: "l = lineNumber src v"
  shows "\<exists>u. (u = v \<or> u = v + 1) \<and> bytes_of src u (u + length url) = url \<and> l = lineNumber src u \<and>
    l' = lineNumber src (u + length url) \<and> lineNumber src e = l'"
proof (cases "src ! v \<noteq> quote2 \<and> src ! v \<noteq> quote1")
  case True
  define P where "P = (\<lambda>c :: char. c \<notin> {CHR '' '', CHR 0x09, CHR ''>'', nl})"
  have e: "e = scan_while P src v (length src)" and u: "url = bytes_of src v e" and l': "l' = l"
    using x True by (auto simp: extractAttrValue_def Let_def P_def)
  have "v \<le> e" "e \<le> length src" using e v by (simp_all add: scan_while_ge scan_while_le)
  then have len: "v + length url = e" using u by (simp add: length_bytes_of_in)
  have "lineNumber src e = lineNumber src v" unfolding e by (rule lineNumber_run) (simp add: P_def)
  then show ?thesis using len u l l' by (intro exI [of _ v]) simp
next
  case False
  let ?q = "src ! v"
  obtain k where k: "scan_while (\<lambda>c. c \<noteq> ?q) src (v + 1) (length src) = k" by blast
  have b: "v + 1 \<le> k" "k \<le> length src" using k scan_while_ge [of "v + 1"] scan_while_le [of "v + 1"] v by force+
  have u: "url = bytes_of src (v + 1) k" and l': "l' = l + line_breaks url"
    and e: "e = (if k < length src then k + 1 else k)"
    using x False k by (auto simp: extractAttrValue_def Let_def)
  have len: "v + 1 + length url = k" using u b by (simp add: length_bytes_of_in)
  have q: "?q \<noteq> nl" using False quotes_not_nl by auto
  have lv: "lineNumber src (v + 1) = l" using lineNumber_Suc [OF v] q l by simp
  have lk: "lineNumber src k = l'" using lineNumber_step [OF b(1), of src] lv l' u by simp
  have "lineNumber src e = l'"
  proof (cases "k < length src")
    case True
    then have "src ! k = ?q" using scan_while_stop [of "\<lambda>c. c \<noteq> ?q" src "v + 1" "length src"] k by simp
    then show ?thesis using lineNumber_Suc [OF True] q lk e True by simp
  qed (use e lk in simp)
  then show ?thesis using len u lv lk by (intro exI [of _ "v + 1"]) simp
qed

definition line_ok :: "string \<Rightarrow> htmxWalker \<Rightarrow> bool" where
  "line_ok src w \<longleftrightarrow> w_i w < length src \<longrightarrow> w_line w = lineNumber src (w_i w)"

lemma matchAttr_ok:
  assumes m: "matchAttr src w = (w', r)" and i: "w_i w < length src" and l: "w_line w = lineNumber src (w_i w)"
    and h: "src ! w_i w \<noteq> nl" "isAttrBoundary src (w_i w)" "\<not> inSkipRanges (w_i w) (collectSkipRanges src)"
  shows "line_ok src w' \<and> (case r of None \<Rightarrow> True | Some x \<Rightarrow> \<exists>p u. reads_attr src x p u)"
proof (cases "first_attr src (w_i w)")
  case None
  then show ?thesis using m l h(1) lineNumber_Suc [OF i] by (auto simp: matchAttr_def line_ok_def)
next
  case (Some mv)
  obtain verb v where mv: "mv = (verb, v)" by (cases mv)
  obtain url e l' where x: "extractAttrValue src v (w_line w) = (url, e, l')" by (metis prod_cases3)
  obtain name where name: "(name, verb) \<in> set hxMethodAttrs" "value_start src (w_i w) name = Some v"
    using first_attr_SomeD Some mv by blast
  have v: "v < length src" using value_start_bounds [OF name(2)] by simp
  have "w_line w = lineNumber src v" using value_start_line [OF name(2) attr_names_no_nl [OF name(1)]] l by simp
  from extractAttrValue_reads [OF x v this] obtain u where
    u: "u = v \<or> u = v + 1" "bytes_of src u (u + length url) = url" "w_line w = lineNumber src u"
      "l' = lineNumber src (u + length url)" "lineNumber src e = l'" by blast
  have r: "w' = w\<lparr>w_line := l', w_i := e\<rparr>" "r = (if url \<noteq> [] then
      Some \<lparr>hr_Method = verb, hr_URL = url, hr_StartLine = w_line w, hr_EndLine = l',
            hr_EnclosingTemplate = currentTemplate w\<rparr> else None)"
    using m Some mv x by (auto simp: matchAttr_def)
  have "line_ok src w'" using r(1) u(5) by (simp add: line_ok_def)
  moreover have "reads_attr src y (w_i w) u" if "r = Some y" for y
    using that r(2) u(1-4) name h(2,3) by (auto simp: reads_attr_def split: if_splits)
  ultimately show ?thesis by (auto split: option.splits)
qed

lemma htmx_step_ok:
  assumes s: "htmx_step src (collectSkipRanges src) w = (w', r)" and i: "w_i w < length src" and l: "line_ok src w"
  shows "line_ok src w' \<and> (case r of None \<Rightarrow> True | Some x \<Rightarrow> \<exists>p u. reads_attr src x p u)"
proof -
  have wl: "w_line w = lineNumber src (w_i w)" using l i by (simp add: line_ok_def)
  have one: "line_ok src (w\<lparr>w_i := w_i w + 1\<rparr>)" if "src ! w_i w \<noteq> nl"
    using that wl lineNumber_Suc [OF i] by (simp add: line_ok_def)
  have comment: "line_ok src (skipComment src w)"
    using wl lineNumber_step [of "w_i w" "w_i w + k + 3" src for k]
    by (cases "str_index (drop (w_i w) src) ''-->''") (simp_all add: skipComment_def line_ok_def)
  have action: "line_ok src (advanceTemplateAction src w)" if g: "isGoTemplateStart src (w_i w)"
  proof (cases "findActionClose src (w_i w + 2)")
    case None
    have "lineNumber src (w_i w + 2) = lineNumber src (w_i w)"
      using g i lineNumber_Suc [OF i] lineNumber_Suc [of "Suc (w_i w)" src]
      by (simp add: isGoTemplateStart_def nl_def)
    then show ?thesis using None wl by (simp add: advanceTemplateAction_def line_ok_def)
  next
    case (Some e)
    then have "w_i w \<le> e" using findActionClose_bounds by fastforce
    then have "lineNumber src e = lineNumber src (w_i w) + line_breaks (bytes_of src (w_i w) e)" by (rule lineNumber_step)
    then show ?thesis using Some wl by (simp add: advanceTemplateAction_def line_ok_def)
  qed
  show ?thesis
  proof (cases "src ! w_i w = nl \<or> inSkipRanges (w_i w) (collectSkipRanges src) \<or> prefix ''<!--'' (drop (w_i w) src) \<or>
      isGoTemplateStart src (w_i w) \<or> src ! w_i w \<noteq> CHR ''h'' \<or> \<not> isAttrBoundary src (w_i w)")
    case True
    then show ?thesis using s one comment action wl lineNumber_Suc [OF i]
      by (auto simp: htmx_step_def Let_def line_ok_def split: if_splits)
  next
    case False
    then show ?thesis using s matchAttr_ok [OF _ i wl, of w' r] by (simp add: htmx_step_def Let_def)
  qed
qed

lemma htmx_loop_ok:
  "line_ok src w \<Longrightarrow> list_all (\<lambda>r. \<exists>p u. reads_attr src r p u) (htmx_loop src (collectSkipRanges src) w)"
proof (induction "length src - w_i w" arbitrary: w rule: less_induct)
  case less
  show ?case
  proof (cases "w_i w < length src")
    case True
    obtain w' r where s: "htmx_step src (collectSkipRanges src) w = (w', r)" by (cases "htmx_step src (collectSkipRanges src) w")
    note ok = htmx_step_ok [OF s True less.prems]
    have "length src - w_i w' < length src - w_i w" using htmx_step_advances [OF s True] True by simp
    from less.hyps [OF this] ok show ?thesis
      using True s by (subst htmx_loop.simps) (auto split: option.splits)
  next
    case False
    then show ?thesis by (subst htmx_loop.simps) simp
  qed
qed

text \<open>Every request that \<open>ScanHtmxRefs\<close> reports is read off the file: at some offset, at an attribute boundary
  and outside the script and style blocks, stands one of the five attributes with an equals sign; the
  reported method is that attribute's, the reported text is the value as it stands there, with its template actions, and
  the reported lines are the lines where the value starts and ends.\<close>

lemma ScanHtmxRefs_sound: "list_all (\<lambda>r. \<exists>p u. reads_attr src r p u) (ScanHtmxRefs src)"
  unfolding ScanHtmxRefs_def by (rule htmx_loop_ok) (simp add: line_ok_def lineNumber_def)

subsection \<open>Component tags\<close>

record TemplateRef =
  tr_Name :: string
  tr_Line :: "32 word"
  tr_Col :: "32 word"

definition isUpperASCII :: "char \<Rightarrow> bool" where
  "isUpperASCII c \<longleftrightarrow> (let n = of_char c :: nat in 65 \<le> n \<and> n \<le> 90)"

definition isTagNameByte :: "char \<Rightarrow> bool" where
  "isTagNameByte c \<longleftrightarrow> (let n = of_char c :: nat in
     (65 \<le> n \<and> n \<le> 90) \<or> (97 \<le> n \<and> n \<le> 122) \<or> (48 \<le> n \<and> n \<le> 57) \<or> c \<in> set ''_$.-:'')"

text \<open>The rest of an opening tag from \<open>k\<close> on, over quoted attribute values: the offset behind it and the running
  position. The closing angle bracket itself does not advance the column.\<close>

function skip_tag :: "string \<Rightarrow> nat \<Rightarrow> char option \<Rightarrow> nat \<times> nat \<Rightarrow> nat \<times> nat \<times> nat" where
  "skip_tag src k inQ lc =
     (if k < length src then
        (let c = src ! k; lc' = line_col lc [c] in
         case inQ of
           Some q \<Rightarrow> skip_tag src (k + 1) (if c = q then None else Some q) lc'
         | None \<Rightarrow>
             if c = quote2 \<or> c = quote1 then skip_tag src (k + 1) (Some c) lc'
             else if c = CHR ''>'' then (k + 1, lc)
             else skip_tag src (k + 1) None lc')
      else (k, lc))"
  by pat_completeness auto
termination by (relation "measure (\<lambda>(src, k, q, lc). length src - k)") auto

declare skip_tag.simps [simp del]

lemma skip_tag_ge: "skip_tag src k q lc = (k', lc') \<Longrightarrow> k \<le> k'"
proof (induction src k q lc rule: skip_tag.induct)
  case (1 src k q lc)
  show ?case
  proof (cases "k < length src")
    case True
    show ?thesis
    proof (cases q)
      case None
      then show ?thesis using "1.prems" "1.IH"(1,2) [OF True refl refl None] True
        by (auto simp: skip_tag.simps [of src k] Let_def split: if_splits)
    next
      case (Some c)
      then show ?thesis using "1.prems" "1.IH"(3) [OF True refl refl Some] True
        by (auto simp: skip_tag.simps [of src k] Let_def)
    qed
  next
    case False
    then show ?thesis using "1.prems" by (simp add: skip_tag.simps [of src k])
  qed
qed

function refs_loop :: "string \<Rightarrow> byte_range list \<Rightarrow> nat \<Rightarrow> nat \<times> nat \<Rightarrow> TemplateRef list" where
  "refs_loop src skips i lc =
     (if i < length src then
        if src ! i = nl \<or> inSkipRanges i skips \<or> src ! i \<noteq> CHR ''<'' then refs_loop src skips (i + 1) (line_col lc [src ! i])
        else if prefix ''<!--'' (drop i src) then
          (case str_index (drop i src) ''-->'' of
             None \<Rightarrow> []
           | Some k \<Rightarrow> refs_loop src skips (i + k + 3) (line_col lc (bytes_of src i (i + k + 3))))
        else if i + 1 < length src \<and> src ! (i + 1) = CHR ''/'' then
          (case str_index (drop i src) ''>'' of
             None \<Rightarrow> refs_loop src skips (i + 1) (line_col lc [src ! i])
           | Some k \<Rightarrow> refs_loop src skips (i + k + 1) (line_col lc (bytes_of src i (i + k + 1))))
        else if i + 1 < length src \<and> isUpperASCII (src ! (i + 1)) then
          (let j = scan_while isTagNameByte src (i + 1) (length src);
               name = bytes_of src (i + 1) j
           in (if CHR '':'' \<notin> set name
               then [\<lparr>tr_Name = name, tr_Line = of_nat (fst lc), tr_Col = of_nat (snd lc)\<rparr>] else []) @
              (case skip_tag src j None lc of (k, lc') \<Rightarrow> refs_loop src skips k lc'))
        else refs_loop src skips (i + 1) (line_col lc [src ! i])
      else [])"
  by pat_completeness auto
termination
proof (relation "measure (\<lambda>(src, skips, i, lc). length src - i)", goal_cases)
  case (6 src skips i lc j name k lc')
  then have "j \<le> k" using skip_tag_ge by metis
  moreover have "i + 1 \<le> j" using 6(6) scan_while_ge by simp
  ultimately show ?case using 6(1) by simp
qed auto

declare refs_loop.simps [simp del]

definition scanTemplateRefs :: "string \<Rightarrow> TemplateRef list" where
  "scanTemplateRefs src =
     refs_loop src (collectSkipRanges src) (findTemplateStart src) (lineColAt src (findTemplateStart src))"

definition ExtractAstroWithRefs :: "string \<Rightarrow> VirtualSource option \<times> TemplateRef list" where
  "ExtractAstroWithRefs src = (ExtractAstro src, scanTemplateRefs src)"

definition ExtractSvelteWithRefs :: "string \<Rightarrow> VirtualSource option \<times> TemplateRef list" where
  "ExtractSvelteWithRefs src = (ExtractSvelte src, scanTemplateRefs src)"

lemma tag_columns_drift:
  "map (\<lambda>r. (tr_Name r, tr_Line r, tr_Col r)) (scanTemplateRefs ''<A/><B/>'') = [(''A'', 1, 1), (''B'', 1, 2)]"
  "lineColAt ''<A/><B/>'' 4 = (1, 5)"
  by code_simp+

text \<open>The reference \<open>r\<close> is the opening tag at \<open>p\<close>, with the line of \<open>p\<close>.\<close>

definition reads_tag :: "string \<Rightarrow> TemplateRef \<Rightarrow> nat \<Rightarrow> bool" where
  "reads_tag src r p \<longleftrightarrow>
     p + 1 < length src \<and> src ! p = CHR ''<'' \<and> isUpperASCII (src ! (p + 1)) \<and>
     \<not> inSkipRanges p (collectSkipRanges src) \<and>
     tr_Name r = bytes_of src (p + 1) (scan_while isTagNameByte src (p + 1) (length src)) \<and> CHR '':'' \<notin> set (tr_Name r) \<and>
     tr_Line r = of_nat (lineNumber src p)"

lemma line_col_fst: "fst (line_col lc xs) = fst lc + line_breaks xs"
  using line_col_line [of "fst lc" "snd lc" xs] by (simp add: line_breaks_def)

lemma line_col_step:
  "a \<le> b \<Longrightarrow> fst lc = lineNumber src a \<Longrightarrow> fst (line_col lc (bytes_of src a b)) = lineNumber src b"
  using lineNumber_step [of a b src] by (simp add: line_col_fst)

lemma line_col_byte:
  "i < length src \<Longrightarrow> fst lc = lineNumber src i \<Longrightarrow> fst (line_col lc [src ! i]) = lineNumber src (i + 1)"
  using lineNumber_Suc [of i src] by (simp add: line_col_fst line_breaks_def)

lemma skip_tag_line: "skip_tag src k q lc = (k', lc') \<Longrightarrow> fst lc = lineNumber src k \<Longrightarrow> fst lc' = lineNumber src k'"
proof (induction src k q lc rule: skip_tag.induct)
  case (1 src k q lc)
  show ?case
  proof (cases "k < length src")
    case True
    note l = line_col_byte [OF True "1.prems"(2)]
    show ?thesis
    proof (cases q)
      case None
      have "CHR ''>'' \<noteq> nl" by (simp add: nl_def)
      then have "src ! k = CHR ''>'' \<Longrightarrow> fst lc = lineNumber src (k + 1)" using lineNumber_Suc [OF True] "1.prems"(2) by simp
      then show ?thesis using "1.prems"(1) "1.IH"(1,2) [OF True refl refl None] True l None
        by (auto simp: skip_tag.simps [of src k] Let_def split: if_splits)
    next
      case (Some c)
      then show ?thesis using "1.prems"(1) "1.IH"(3) [OF True refl refl Some] True l
        by (simp add: skip_tag.simps [of src k] Let_def)
    qed
  next
    case False
    then show ?thesis using "1.prems" by (simp add: skip_tag.simps [of src k])
  qed
qed

lemma tag_name_not_nl: "\<not> isTagNameByte nl"
  by code_simp

lemma refs_loop_sound:
  "fst lc = lineNumber src i \<Longrightarrow> list_all (\<lambda>r. \<exists>p \<ge> i. reads_tag src r p) (refs_loop src (collectSkipRanges src) i lc)"
proof (induction "length src - i" arbitrary: i lc rule: less_induct)
  case less
  let ?skips = "collectSkipRanges src"
  let ?goal = "\<lambda>i rs. list_all (\<lambda>r. \<exists>p \<ge> i. reads_tag src r p) rs"
  have rec: "?goal i (refs_loop src ?skips i' lc')" if "i < i'" "i < length src" "fst lc' = lineNumber src i'" for i' lc'
  proof -
    have "?goal i' (refs_loop src ?skips i' lc')" using that by (intro less.hyps) simp_all
    then show ?thesis using that(1) unfolding list_all_iff by (meson less_imp_le order_trans)
  qed
  note unfold = refs_loop.simps [of src ?skips i lc]
  show ?case
  proof (cases "i < length src")
    case False
    then show ?thesis by (simp add: unfold)
  next
    case i: True
    have one: "?goal i (refs_loop src ?skips (i + 1) (line_col lc [src ! i]))"
      using i line_col_byte [OF i less.prems] by (intro rec) simp_all
    have many: "?goal i (refs_loop src ?skips (i + k) (line_col lc (bytes_of src i (i + k))))" if "k > 0" for k
      using i that line_col_step [of i "i + k", OF _ less.prems] by (intro rec) simp_all
    consider "src ! i = nl \<or> inSkipRanges i ?skips \<or> src ! i \<noteq> CHR ''<''"
      | "\<not> (src ! i = nl \<or> inSkipRanges i ?skips \<or> src ! i \<noteq> CHR ''<'')" "prefix ''<!--'' (drop i src)"
      | "\<not> (src ! i = nl \<or> inSkipRanges i ?skips \<or> src ! i \<noteq> CHR ''<'')" "\<not> prefix ''<!--'' (drop i src)"
        "i + 1 < length src \<and> src ! (i + 1) = CHR ''/''"
      | "\<not> (src ! i = nl \<or> inSkipRanges i ?skips \<or> src ! i \<noteq> CHR ''<'')" "\<not> prefix ''<!--'' (drop i src)"
        "\<not> (i + 1 < length src \<and> src ! (i + 1) = CHR ''/'')" "i + 1 < length src \<and> isUpperASCII (src ! (i + 1))"
      | "\<not> (src ! i = nl \<or> inSkipRanges i ?skips \<or> src ! i \<noteq> CHR ''<'')" "\<not> prefix ''<!--'' (drop i src)"
        "\<not> (i + 1 < length src \<and> src ! (i + 1) = CHR ''/'')" "\<not> (i + 1 < length src \<and> isUpperASCII (src ! (i + 1)))"
      by blast
    then show ?thesis
    proof cases
      case 1
      then show ?thesis using one i by (simp only: unfold if_True)
    next
      case 2
      show ?thesis
      proof (cases "str_index (drop i src) ''-->''")
        case None
        then show ?thesis using 2 i by (simp only: unfold if_True if_False simp_thms option.case list.pred_inject)
      next
        case (Some k)
        then show ?thesis using many [of "k + 3"] 2 i by (simp only: unfold if_True if_False simp_thms option.case add.assoc)
      qed
    next
      case 3
      show ?thesis
      proof (cases "str_index (drop i src) ''>''")
        case None
        then show ?thesis using one 3 i by (simp only: unfold if_True if_False simp_thms option.case)
      next
        case (Some k)
        then show ?thesis using many [of "k + 1"] 3 i by (simp only: unfold if_True if_False simp_thms option.case add.assoc)
      qed
    next
      case 4
      let ?j = "scan_while isTagNameByte src (i + 1) (length src)"
      let ?name = "bytes_of src (i + 1) ?j"
      obtain k lc' where k: "skip_tag src ?j None lc = (k, lc')" by (metis surj_pair)
      have "lineNumber src ?j = lineNumber src (i + 1)" by (rule lineNumber_run) (rule tag_name_not_nl)
      also have "\<dots> = lineNumber src i" using lineNumber_Suc [OF i] 4(1) by (simp add: nl_def)
      finally have "fst lc = lineNumber src ?j" using less.prems by simp
      then have "fst lc' = lineNumber src k" by (rule skip_tag_line [OF k])
      moreover have "i < k" using skip_tag_ge [OF k] scan_while_ge [of "i + 1" isTagNameByte src "length src"] by simp
      ultimately have tail: "?goal i (refs_loop src ?skips k lc')" using i by (intro rec)
      have "reads_tag src \<lparr>tr_Name = ?name, tr_Line = of_nat (fst lc), tr_Col = of_nat (snd lc)\<rparr> i" if "CHR '':'' \<notin> set ?name"
        using that 4 less.prems by (simp add: reads_tag_def)
      then have hd: "?goal i (if CHR '':'' \<notin> set ?name
          then [\<lparr>tr_Name = ?name, tr_Line = of_nat (fst lc), tr_Col = of_nat (snd lc)\<rparr>] else [])"
        by (auto simp: list_all_iff)
      show ?thesis using hd tail 4 i k by (simp only: unfold if_True if_False simp_thms Let_def prod.case list_all_append)
    next
      case 5
      then show ?thesis using one i by (simp only: unfold if_True if_False)
    qed
  qed
qed

text \<open>Every component reference that \<open>scanTemplateRefs\<close> reports is an opening tag of the template body: it
  stands behind the frontmatter and outside the script and style blocks, starts with a capital letter, carries
  the whole tag name, which has no namespace, and the line of the tag in the file, over comments, closing tags
  and attribute values that span lines.\<close>

lemma scanTemplateRefs_sound:
  "list_all (\<lambda>r. \<exists>p \<ge> findTemplateStart src. reads_tag src r p) (scanTemplateRefs src)"
  unfolding scanTemplateRefs_def by (rule refs_loop_sound) (rule lineColAt_line)

end
