(* ===== verification/PathNorm.thy ===== *)
theory PathNorm
  imports GoPath
begin

text \<open>
  Facts on the cleaned paths of Go's \<open>path/filepath\<close> that the import resolver relies on, and \<open>Join\<close>: cleaning
  is idempotent, and the directory of a file joined to a cleaned directory is that directory.
\<close>

definition path_join :: "string list \<Rightarrow> string" where
  "path_join ps = (let xs = filter (\<lambda>p. p \<noteq> []) ps in if xs = [] then [] else path_clean (str_join ''/'' xs))"

text \<open>A path segment that cleaning keeps.\<close>

definition plain_seg :: "string \<Rightarrow> bool" where
  "plain_seg s \<longleftrightarrow> s \<noteq> [] \<and> CHR ''/'' \<notin> set s \<and> s \<noteq> ''.'' \<and> s \<noteq> ''..''"

text \<open>The reversed segments of a cleaned path: plain ones, below them parent steps if the path is not rooted.\<close>

fun normal_rev :: "bool \<Rightarrow> string list \<Rightarrow> bool" where
  "normal_rev rooted [] = True"
| "normal_rev rooted (s # ss) \<longleftrightarrow>
     (plain_seg s \<and> normal_rev rooted ss) \<or> (s = ''..'' \<and> \<not> rooted \<and> list_all (\<lambda>t. t = ''..'') ss)"

lemma dots_normal: "list_all (\<lambda>t. t = ''..'') ss \<Longrightarrow> normal_rev False ss"
  by (cases ss) auto

lemma clean_step_normal:
  assumes "normal_rev rooted out" and "CHR ''/'' \<notin> set seg"
  shows "normal_rev rooted (clean_step rooted out seg)"
  using assms
  by (cases out) (auto simp: clean_step_def plain_seg_def dots_normal)

lemma clean_fold_normal:
  "normal_rev rooted out \<Longrightarrow> list_all (\<lambda>s. CHR ''/'' \<notin> set s) segs \<Longrightarrow> normal_rev rooted (foldl (clean_step rooted) out segs)"
  by (induction segs arbitrary: out) (simp_all add: clean_step_normal)

definition path_text :: "bool \<Rightarrow> string list \<Rightarrow> string" where
  "path_text rooted segs =
     (if rooted then ''/'' @ str_join ''/'' segs else if segs = [] then ''.'' else str_join ''/'' segs)"

lemma str_join_Nil_iff: "list_all (\<lambda>s. s \<noteq> []) segs \<Longrightarrow> str_join ''/'' segs = [] \<longleftrightarrow> segs = []"
  by (induction segs rule: induct_list012) simp_all

lemma normal_segs: "normal_rev rooted r \<Longrightarrow> s \<in> set r \<Longrightarrow> s \<noteq> [] \<and> CHR ''/'' \<notin> set s \<and> s \<noteq> ''.''"
proof (induction r)
  case (Cons a r)
  have dots: "t = ''..''" if "list_all (\<lambda>t. t = ''..'') r" and "t \<in> set r" for t using that by (simp add: list_all_iff)
  have dd: "''..'' \<noteq> [] \<and> CHR ''/'' \<notin> set ''..'' \<and> ''..'' \<noteq> ''.''" by simp
  show ?case
  proof (cases "s = a")
    case True
    then show ?thesis using Cons.prems(1) dd by (auto simp: plain_seg_def)
  next
    case False
    then have "s \<in> set r" using Cons.prems(2) by simp
    then show ?thesis using Cons.prems(1) Cons.IH dots [of s] dd unfolding normal_rev.simps by metis
  qed
qed simp

lemma path_clean_fold:
  assumes "foldl (clean_step rooted) [] (split_on CHR ''/'' p) = r" and "prefix ''/'' p = rooted"
    and "normal_rev rooted r"
  shows "path_clean p = path_text rooted (rev r)"
proof -
  have "list_all (\<lambda>s. s \<noteq> []) (rev r)" using normal_segs [OF assms(3)] by (auto simp: list_all_iff)
  then have "str_join ''/'' (rev r) = [] \<longleftrightarrow> rev r = []" by (rule str_join_Nil_iff)
  then show ?thesis using assms(1,2) by (cases rooted) (simp_all add: path_clean_def path_text_def Let_def)
qed

lemma path_clean_text:
  "\<exists>r. path_clean p = path_text (prefix ''/'' p) (rev r) \<and> normal_rev (prefix ''/'' p) r"
proof -
  let ?r = "foldl (clean_step (prefix ''/'' p)) [] (split_on CHR ''/'' p)"
  have "normal_rev (prefix ''/'' p) ?r"
    by (rule clean_fold_normal) (auto simp: list_all_iff dest: split_on_no_sep)
  then show ?thesis using path_clean_fold [OF refl refl] by blast
qed

text \<open>Cleaning a text of normal segments gives them back.\<close>

lemma clean_fold_id:
  "normal_rev rooted (rev segs @ out) \<Longrightarrow> foldl (clean_step rooted) out segs = rev segs @ out"
proof (induction segs arbitrary: out)
  case Nil
  then show ?case by simp
next
  case (Cons s ss)
  have "normal_rev rooted (s # out)" using Cons.prems
    by (induction ss rule: rev_induct) (auto simp: dots_normal)
  then have "clean_step rooted out s = s # out"
    by (cases out) (auto simp: clean_step_def plain_seg_def)
  then show ?case using Cons by simp
qed

lemma split_on_snoc: "split_on c (a @ c # b) = split_on c a @ split_on c b"
proof (induction a)
  case (Cons x xs)
  then show ?case by (cases "split_on c xs") auto
qed simp

lemma str_join_snoc_ne: "b \<noteq> [] \<Longrightarrow> str_join sep (ss @ [b]) \<noteq> []"
  by (induction ss rule: induct_list012) auto

lemma str_join_append1: "ss \<noteq> [] \<Longrightarrow> str_join sep (ss @ [b]) = str_join sep ss @ sep @ b"
  by (induction ss rule: induct_list012) auto

lemma split_path_text:
  assumes "normal_rev rooted (rev segs)"
  shows "foldl (clean_step rooted) [] (split_on CHR ''/'' (path_text rooted segs)) = rev segs"
    and "prefix ''/'' (path_text rooted segs) = rooted"
proof -
  have ok: "s \<noteq> [] \<and> CHR ''/'' \<notin> set s" if "s \<in> set segs" for s using normal_segs [OF assms] that by simp
  have id: "foldl (clean_step rooted) [] segs = rev segs" using clean_fold_id [of rooted segs "[]"] assms by simp
  show "foldl (clean_step rooted) [] (split_on CHR ''/'' (path_text rooted segs)) = rev segs"
  proof (cases "segs = []")
    case True
    then show ?thesis by (simp add: path_text_def clean_step_def)
  next
    case False
    then have "split_on CHR ''/'' (str_join ''/'' segs) = segs" using ok by (intro split_on_str_join) auto
    then show ?thesis using False id by (cases rooted) (simp_all add: path_text_def clean_step_def)
  qed
  show "prefix ''/'' (path_text rooted segs) = rooted"
  proof (cases segs)
    case Nil
    then show ?thesis by (simp add: path_text_def)
  next
    case (Cons s ss)
    then obtain c cs where "s = c # cs" "c \<noteq> CHR ''/''" using ok [of s] by (cases s) auto
    then show ?thesis using Cons by (cases ss) (simp_all add: path_text_def)
  qed
qed

lemma path_clean_of_text: "normal_rev rooted (rev segs) \<Longrightarrow> path_clean (path_text rooted segs) = path_text rooted segs"
  using path_clean_fold [OF split_path_text, of rooted segs] by simp

text \<open>Cleaning is idempotent.\<close>

lemma path_clean_idem [simp]: "path_clean (path_clean p) = path_clean p"
  using path_clean_text [of p] path_clean_of_text by fastforce

text \<open>The directory of a name joined to a cleaned directory.\<close>

lemma path_dir_join:
  assumes c: "path_clean c = c" and b: "plain_seg b"
  shows "path_dir (path_join [c, b]) = c"
proof -
  obtain r where r: "c = path_text (prefix ''/'' c) (rev r)" "normal_rev (prefix ''/'' c) r"
    using path_clean_text [of c] c by auto
  let ?rooted = "prefix ''/'' c"
  have "c \<noteq> []" using c by (auto simp: path_clean_def Let_def clean_step_def)
  moreover have "b \<noteq> []" using b by (simp add: plain_seg_def)
  ultimately have join: "path_join [c, b] = path_clean (c @ ''/'' @ b)" by (simp add: path_join_def)
  have noslash: "CHR ''/'' \<notin> set b" using b by (simp add: plain_seg_def)
  have n: "normal_rev ?rooted (b # r)" using r(2) b by simp
  have "split_on CHR ''/'' (c @ ''/'' @ b) = split_on CHR ''/'' c @ [b]"
    using split_on_id [OF noslash] by (simp add: split_on_snoc)
  moreover have "foldl (clean_step ?rooted) [] (split_on CHR ''/'' c) = r"
    using split_path_text(1) [of ?rooted "rev r"] r by simp
  moreover have "clean_step ?rooted r b = b # r" using b by (auto simp: clean_step_def plain_seg_def)
  moreover have "prefix ''/'' (c @ ''/'' @ b) = ?rooted" using \<open>c \<noteq> []\<close> by (cases c) auto
  ultimately have fold: "foldl (clean_step ?rooted) [] (split_on CHR ''/'' (c @ ''/'' @ b)) = b # r" by simp
  have tx: "path_clean (c @ ''/'' @ b) = path_text ?rooted (rev (b # r))"
    by (rule path_clean_fold [OF fold _ n]) (use \<open>c \<noteq> []\<close> in \<open>cases c; simp\<close>)
  have cut: "rev (dropWhile (\<lambda>x. x \<noteq> CHR ''/'') (rev (a @ b))) = a" if "a = [] \<or> last a = CHR ''/''" for a
  proof -
    have "dropWhile (\<lambda>x. x \<noteq> CHR ''/'') (rev b @ rev a) = dropWhile (\<lambda>x. x \<noteq> CHR ''/'') (rev a)"
      using noslash by (intro dropWhile_append2) auto
    also have "\<dots> = rev a" using that by (cases a rule: rev_cases) auto
    finally show ?thesis by simp
  qed
  show ?thesis
  proof (cases "r = []")
    case True
    then have "path_join [c, b] = (if ?rooted then ''/'' else []) @ b" using join tx by (simp add: path_text_def)
    then have "path_dir (path_join [c, b]) = path_clean (if ?rooted then ''/'' else [])"
      using cut [of "if ?rooted then ''/'' else []"] by (simp add: path_dir_def)
    also have "\<dots> = c" using True r(1) by (auto simp: path_text_def path_clean_def Let_def clean_step_def)
    finally show ?thesis .
  next
    case False
    have "str_join ''/'' (rev r @ [b]) = str_join ''/'' (rev r) @ ''/'' @ b"
      using False str_join_append1 by fastforce
    then have "path_join [c, b] = (c @ ''/'') @ b" using join tx r(1) False by (auto simp: path_text_def)
    then have "path_dir (path_join [c, b]) = path_clean (c @ ''/'')" using cut [of "c @ ''/''"] by (simp add: path_dir_def)
    also have "\<dots> = path_clean c"
    proof -
      have "split_on CHR ''/'' (c @ ''/'') = split_on CHR ''/'' c @ [[]]" using split_on_snoc [of "CHR ''/''" c "[]"] by simp
      moreover have "prefix ''/'' (c @ ''/'') = prefix ''/'' c" using \<open>c \<noteq> []\<close> by (cases c) auto
      ultimately show ?thesis by (simp add: path_clean_def Let_def clean_step_def)
    qed
    finally show ?thesis using c by simp
  qed
qed

end
