(* ===== verification/ImportResolve.thy ===== *)
theory ImportResolve
  imports PathNorm GoStrconv
begin

text \<open>
  The import resolver (\<open>internal/importresolve/resolve.go\<close>): from an import string and the directory of the
  importing file to the directory of the package it names. Sets that the code builds once and only looks up
  are lists; where the code iterates over a map the list is the order of that iteration. Decoded
  JSON is the datatype \<open>json\<close>; reading a manifest and scanning a file for virtual modules are
  parameters, the directory tree is an argument.
\<close>

definition importExts :: "string list" where
  "importExts = [''.ts'', ''.tsx'', ''.js'', ''.jsx'', ''.mjs'', ''.cjs'', ''.svelte'', ''.astro'', ''.vue'']"

record Config =
  LibDirs :: "string list"
  Workspace :: "string \<Rightarrow> string option"
  WorkspaceExports :: "string \<Rightarrow> (string \<times> string) list"
  VirtualModules :: "string \<Rightarrow> string option"

record Resolver =
  pkgDirs :: "string list"
  fileSet :: "string list"
  pkgDirByBase :: "string \<Rightarrow> string list"
  cfg :: Config

definition New :: "string list \<Rightarrow> string list \<Rightarrow> Config \<Rightarrow> Resolver" where
  "New dirs files c =
     \<lparr>pkgDirs = dirs, fileSet = files, pkgDirByBase = (\<lambda>b. filter (\<lambda>d. path_base d = b) dirs), cfg = c\<rparr>"

lemma New_fields [simp]:
  "pkgDirs (New dirs files c) = dirs" "fileSet (New dirs files c) = files" "cfg (New dirs files c) = c"
  "pkgDirByBase (New dirs files c) b = filter (\<lambda>d. path_base d = b) dirs"
  by (simp_all add: New_def)

subsection \<open>Probing a path\<close>

text \<open>The four steps that \<open>resolveAbsSubpath\<close> and \<open>resolveRelative\<close> share.\<close>

definition probe :: "Resolver \<Rightarrow> string \<Rightarrow> string option" where
  "probe r cand =
     (if cand \<in> set (fileSet r) then Some (path_dir cand)
      else case List.find (\<lambda>ext. cand @ ext \<in> set (fileSet r)) importExts of
        Some ext \<Rightarrow> Some (path_dir (cand @ ext))
      | None \<Rightarrow>
          if list_ex (\<lambda>ext. path_join [cand, ''index'' @ ext] \<in> set (fileSet r)) importExts then Some cand
          else if cand \<in> set (pkgDirs r) then Some cand
          else None)"

definition resolveAbsSubpath :: "Resolver \<Rightarrow> string \<Rightarrow> string \<Rightarrow> string option" where
  "resolveAbsSubpath r baseDir subpath = probe r (path_join [baseDir, subpath])"

definition resolveRelative :: "Resolver \<Rightarrow> string \<Rightarrow> string \<Rightarrow> string option" where
  "resolveRelative r imp importingDir = probe r (path_clean (path_join [importingDir, imp]))"

subsection \<open>Aliases\<close>

fun lib_roots :: "Resolver \<Rightarrow> string \<Rightarrow> string list \<Rightarrow> string option" where
  "lib_roots r rest [] = None"
| "lib_roots r rest (libDir # ds) =
     (let root = path_join [libDir, ''src'', ''lib''];
          hit = (if rest = [] then (if root \<in> set (pkgDirs r) then Some root else None)
                 else resolveAbsSubpath r root rest)
      in case hit of Some d \<Rightarrow> Some d | None \<Rightarrow> lib_roots r rest ds)"

definition resolveLibAlias :: "Resolver \<Rightarrow> string \<Rightarrow> string option" where
  "resolveLibAlias r imp = lib_roots r (trim_prefix (trim_prefix imp ''$lib'') ''/'') (LibDirs (cfg r))"

definition splitScopedPkg :: "string \<Rightarrow> string \<times> string" where
  "splitScopedPkg imp =
     (case split_n 3 CHR ''/'' (trim_prefix imp ''@'') of
        [a, b] \<Rightarrow> (''@'' @ a @ ''/'' @ b, [])
      | a # b # c # _ \<Rightarrow> (''@'' @ a @ ''/'' @ b, c)
      | _ \<Rightarrow> (imp, []))"

text \<open>The prefix and suffix of a wildcard key around its first star.\<close>

definition key_parts :: "string \<Rightarrow> (string \<times> string) option" where
  "key_parts key = map_option (\<lambda>i. (take i key, drop (i + 1) key)) (str_index key ''*'')"

definition key_matches :: "string \<Rightarrow> string \<Rightarrow> bool" where
  "key_matches subpath key \<longleftrightarrow>
     (case key_parts key of
        None \<Rightarrow> False
      | Some (p, s) \<Rightarrow> prefix p subpath \<and> suffix s subpath \<and> length p + length s \<le> length subpath)"

definition prefix_len :: "string \<Rightarrow> nat" where
  "prefix_len key = (case key_parts key of None \<Rightarrow> 0 | Some (p, s) \<Rightarrow> length p)"

definition better_key :: "string \<Rightarrow> (string \<times> string) \<Rightarrow> (string \<times> string) \<Rightarrow> string \<times> string" where
  "better_key subpath best kt =
     (if key_matches subpath (fst kt) \<and> (fst best = [] \<or> prefix_len (fst kt) > prefix_len (fst best)) then kt else best)"

definition replace_star :: "string \<Rightarrow> string \<Rightarrow> string" where
  "replace_star captured target = replace_char CHR ''*'' captured target"

definition captured :: "string \<Rightarrow> string \<Rightarrow> string" where
  "captured key subpath =
     (case key_parts key of None \<Rightarrow> [] | Some (p, s) \<Rightarrow> drop (length p) (take (length subpath - length s) subpath))"

definition or_else :: "'a option \<Rightarrow> 'a option \<Rightarrow> 'a option" where
  "or_else a b = (case a of Some x \<Rightarrow> Some x | None \<Rightarrow> b)"

definition resolveViaExports :: "Resolver \<Rightarrow> string \<Rightarrow> string \<Rightarrow> string \<Rightarrow> string option" where
  "resolveViaExports r wsDir pkgName subpath =
     (let ex = WorkspaceExports (cfg r) pkgName in
      or_else
        (case map_of ex subpath of None \<Rightarrow> None | Some target \<Rightarrow> resolveAbsSubpath r wsDir target)
        (let best = foldl (better_key subpath) ([], []) ex in
         if fst best \<noteq> [] then resolveAbsSubpath r wsDir (replace_star (captured (fst best) subpath) (snd best)) else None))"

definition resolveWorkspaceAlias :: "Resolver \<Rightarrow> string \<Rightarrow> string option" where
  "resolveWorkspaceAlias r imp =
     (case splitScopedPkg imp of (pkgName, rest) \<Rightarrow>
        (case Workspace (cfg r) pkgName of
           None \<Rightarrow> None
         | Some wsDir \<Rightarrow>
             if rest = [] \<and> wsDir \<in> set (pkgDirs r) then Some wsDir
             else or_else (resolveAbsSubpath r wsDir rest) (resolveViaExports r wsDir pkgName rest)))"

definition resolveVirtualModule :: "Resolver \<Rightarrow> string \<Rightarrow> string option" where
  "resolveVirtualModule r imp =
     (case VirtualModules (cfg r) imp of
        None \<Rightarrow> None
      | Some dir \<Rightarrow> if dir \<in> set (pkgDirs r) then Some dir else None)"

subsection \<open>Absolute imports\<close>

definition longer :: "string \<Rightarrow> string \<Rightarrow> string \<Rightarrow> string" where
  "longer imp best d = (if suffix (''/'' @ d) imp \<and> length d > length best then d else best)"

definition localPkgDir :: "Resolver \<Rightarrow> string \<Rightarrow> string option" where
  "localPkgDir r imp =
     (if imp \<in> set (pkgDirs r) then Some imp
      else let best = foldl (longer imp) [] (pkgDirByBase r (path_base imp))
           in if best \<noteq> [] then Some best else None)"

definition Resolve :: "Resolver \<Rightarrow> string \<Rightarrow> string \<Rightarrow> string option" where
  "Resolve r imp importingDir =
     (if imp = ''$lib'' \<or> prefix ''$lib/'' imp then resolveLibAlias r imp
      else if prefix ''@'' imp then resolveWorkspaceAlias r imp
      else if prefix ''virtual:'' imp then resolveVirtualModule r imp
      else if prefix ''./'' imp \<or> prefix ''../'' imp then resolveRelative r imp importingDir
      else localPkgDir r imp)"

subsection \<open>The exports field of a manifest\<close>

datatype json = JNull | JBool bool | JNum string | JStr string | JArr "json list" | JObj "(string \<times> json) list"

text \<open>\<open>json.Unmarshal\<close> into a string, a slice, a map: a null decodes into each of them as its zero value, and of
  a key that occurs twice in an object the last value stays.\<close>

definition as_string :: "json \<Rightarrow> string option" where
  "as_string v = (case v of JNull \<Rightarrow> Some [] | JStr s \<Rightarrow> Some s | _ \<Rightarrow> None)"

definition last_values :: "(string \<times> json) list \<Rightarrow> (string \<times> json) list" where
  "last_values kvs = map (\<lambda>k. (k, the (map_of (rev kvs) k))) (remdups (map fst kvs))"

definition normalizeExportsKey :: "string \<Rightarrow> string" where
  "normalizeExportsKey k0 = (let k = trim_prefix k0 ''./'' in if k = ''.'' then [] else k)"

definition normalizeExportsTarget :: "string \<Rightarrow> string option" where
  "normalizeExportsTarget t0 = (let t = trim_space t0 in if t = [] then None else Some (trim_prefix t ''./''))"

text \<open>The two preferred conditions, if the object has them, before the rest in the order of the iteration.\<close>

definition preferred :: "(string \<times> 'a) list \<Rightarrow> 'a list" where
  "preferred kvs =
     List.map_filter (map_of kvs) [''import'', ''default''] @ map snd kvs"

lemma preferred_mem: "v \<in> set (preferred kvs) \<Longrightarrow> v \<in> snd ` set kvs"
  by (force simp: preferred_def List.map_filter_def dest: map_of_SomeD split: if_splits option.splits)

lemma last_values_mem: "v \<in> snd ` set (last_values kvs) \<Longrightarrow> v \<in> snd ` set kvs"
proof -
  assume "v \<in> snd ` set (last_values kvs)"
  then obtain k where k: "k \<in> fst ` set kvs" and v: "v = the (map_of (rev kvs) k)"
    by (force simp: last_values_def)
  then obtain w where w: "map_of (rev kvs) k = Some w" by (metis domD dom_map_of_conv_image_fst set_rev)
  then have "(k, w) \<in> set kvs" using map_of_SomeD by fastforce
  then show ?thesis using v w by force
qed

lemma size_json_obj: "v \<in> snd ` set kvs \<Longrightarrow> size v < size (JObj kvs)"
proof (induction kvs)
  case (Cons kv kvs)
  then show ?case by (cases kv) force
qed simp

lemma size_json_arr: "v \<in> set vs \<Longrightarrow> size v < size (JArr vs)"
  by (induction vs) auto

fun first_of :: "('a \<Rightarrow> 'b option) \<Rightarrow> 'a list \<Rightarrow> 'b option" where
  "first_of f [] = None"
| "first_of f (x # xs) = (case f x of Some y \<Rightarrow> Some y | None \<Rightarrow> first_of f xs)"

lemma first_of_cong [fundef_cong]: "xs = ys \<Longrightarrow> (\<And>x. x \<in> set ys \<Longrightarrow> f x = g x) \<Longrightarrow> first_of f xs = first_of g ys"
  by (induction ys arbitrary: xs) (auto split: option.splits)

function firstExportsTarget :: "json \<Rightarrow> string option" where
  "firstExportsTarget v =
     (case as_string v of
        Some s \<Rightarrow> Some s
      | None \<Rightarrow>
          (case v of
             JArr vs \<Rightarrow> first_of firstExportsTarget vs
           | JObj kvs \<Rightarrow> first_of firstExportsTarget (preferred (last_values kvs))
           | _ \<Rightarrow> None))"
  by pat_completeness auto
termination
proof (relation "measure size", goal_cases)
  case (2 v vs x)
  have "size x < size (JArr vs)" by (rule size_json_arr [OF 2(3)])
  then show ?case using 2(2) by (simp only: in_measure)
next
  case (3 v kvs x)
  have "size x < size (JObj kvs)" by (rule size_json_obj [OF last_values_mem [OF preferred_mem [OF 3(3)]]])
  then show ?case using 3(2) by (simp only: in_measure)
qed simp

declare firstExportsTarget.simps [simp del]

text \<open>The map that the loop over the object builds: of two keys that normalise alike the last one visited stays.\<close>

definition ParseExports :: "json option \<Rightarrow> (string \<rightharpoonup> string)" where
  "ParseExports raw =
     (case raw of
        None \<Rightarrow> Map.empty
      | Some v \<Rightarrow>
          (case as_string v of
             Some s \<Rightarrow> (case normalizeExportsTarget s of None \<Rightarrow> Map.empty | Some t \<Rightarrow> [[] \<mapsto> t])
           | None \<Rightarrow>
               (case v of
                  JObj kvs \<Rightarrow>
                    map_of (rev (List.map_filter (\<lambda>(k, w).
                      map_option (\<lambda>t. (normalizeExportsKey k, t)) (Option.bind (firstExportsTarget w) normalizeExportsTarget))
                      (last_values kvs)))
                | _ \<Rightarrow> Map.empty)))"


subsection \<open>A resolved import names a known directory\<close>

text \<open>What the builder of the graph passes in: the directory of every indexed file is one of the package
  directories. Workspace directories come from \<open>filepath.Dir\<close>, which never returns the empty string.\<close>

definition wf_input :: "string list \<Rightarrow> string list \<Rightarrow> Config \<Rightarrow> bool" where
  "wf_input dirs files c \<longleftrightarrow>
     list_all (\<lambda>f. path_dir f \<in> set dirs) files \<and> (\<forall>p. Workspace c p \<noteq> Some [])"

lemma path_clean_not_Nil: "path_clean p \<noteq> []"
  by (simp add: path_clean_def Let_def)

lemma path_join_clean: "p \<noteq> [] \<Longrightarrow> path_clean (path_join (p # ps)) = path_join (p # ps) \<and> path_join (p # ps) \<noteq> []"
  by (simp add: path_join_def path_clean_not_Nil)

lemma index_seg: "ext \<in> set importExts \<Longrightarrow> plain_seg (''index'' @ ext)"
  by (auto simp: importExts_def plain_seg_def)

lemma probe_known:
  assumes "wf_input dirs files c" and "path_clean cand = cand" and "probe (New dirs files c) cand = Some d"
  shows "d \<in> set dirs"
proof -
  have in_dirs: "path_dir f \<in> set dirs" if "f \<in> set files" for f
    using assms(1) that by (simp add: wf_input_def list_all_iff)
  have index: "cand \<in> set dirs" if "path_join [cand, ''index'' @ ext] \<in> set files" "ext \<in> set importExts" for ext
    using in_dirs [OF that(1)] path_dir_join [OF assms(2) index_seg [OF that(2)]] by simp
  show ?thesis
    using assms(3) in_dirs index
    by (auto simp: probe_def list_ex_iff find_Some_iff split: if_splits option.splits)
qed

lemma resolveAbsSubpath_known:
  assumes "wf_input dirs files c" and "base \<noteq> []" and "resolveAbsSubpath (New dirs files c) base sub = Some d"
  shows "d \<in> set dirs"
  using probe_known [OF assms(1)] path_join_clean [OF assms(2)] assms(3) by (metis resolveAbsSubpath_def)

lemma lib_roots_known:
  "wf_input dirs files c \<Longrightarrow> lib_roots (New dirs files c) rest ds = Some d \<Longrightarrow> d \<in> set dirs"
proof (induction ds)
  case (Cons libDir ds)
  let ?root = "path_join [libDir, ''src'', ''lib'']"
  define hit where "hit = (if rest = [] then (if ?root \<in> set dirs then Some ?root else None)
    else resolveAbsSubpath (New dirs files c) ?root rest)"
  have root: "?root \<noteq> []" by (simp add: path_join_def path_clean_not_Nil)
  have hit: "x \<in> set dirs" if "hit = Some x" for x
    using that resolveAbsSubpath_known [OF Cons.prems(1) root] unfolding hit_def by (metis option.distinct(1) option.inject)
  have "lib_roots (New dirs files c) rest (libDir # ds) =
    (case hit of Some d \<Rightarrow> Some d | None \<Rightarrow> lib_roots (New dirs files c) rest ds)"
    by (simp add: hit_def Let_def)
  then show ?case using Cons hit by (cases hit) simp_all
qed simp

lemma foldl_pick: "foldl (longer imp) best ds = best \<or> foldl (longer imp) best ds \<in> set ds"
  by (induction ds arbitrary: best) (fastforce simp: longer_def)+

lemma localPkgDir_known: "localPkgDir (New dirs files c) imp = Some d \<Longrightarrow> d \<in> set dirs"
  using foldl_pick [of imp "[]" "filter (\<lambda>d. path_base d = path_base imp) dirs"]
  by (auto simp: localPkgDir_def Let_def split: if_splits)

lemma resolveViaExports_known:
  "wf_input dirs files c \<Longrightarrow> ws \<noteq> [] \<Longrightarrow> resolveViaExports (New dirs files c) ws pkg sub = Some d \<Longrightarrow> d \<in> set dirs"
  using resolveAbsSubpath_known [of dirs files c ws]
  by (auto simp: resolveViaExports_def or_else_def Let_def split: option.splits if_splits)

lemma resolveWorkspaceAlias_known:
  assumes "wf_input dirs files c" and "resolveWorkspaceAlias (New dirs files c) imp = Some d"
  shows "d \<in> set dirs"
proof -
  obtain pkg rest where s: "splitScopedPkg imp = (pkg, rest)" by (cases "splitScopedPkg imp")
  obtain ws where w: "Workspace c pkg = Some ws"
    using assms(2) s by (auto simp: resolveWorkspaceAlias_def split: option.splits)
  then have ne: "ws \<noteq> []" using assms(1) by (auto simp: wf_input_def)
  have "Workspace (cfg (New dirs files c)) pkg = Some ws" "pkgDirs (New dirs files c) = dirs" using w by (simp_all add:)
  then have "(if rest = [] \<and> ws \<in> set dirs then Some ws
    else or_else (resolveAbsSubpath (New dirs files c) ws rest) (resolveViaExports (New dirs files c) ws pkg rest)) = Some d"
    using assms(2) s by (simp add: resolveWorkspaceAlias_def)
  then show ?thesis
    using resolveAbsSubpath_known [OF assms(1) ne] resolveViaExports_known [OF assms(1) ne]
    by (cases "resolveAbsSubpath (New dirs files c) ws rest") (simp_all add: or_else_def split: if_splits)
qed

lemma Resolve_known:
  assumes "wf_input dirs files c" and "Resolve (New dirs files c) imp dir = Some d"
  shows "d \<in> set dirs"
proof -
  have "resolveRelative (New dirs files c) imp dir = Some d \<Longrightarrow> d \<in> set dirs"
    using probe_known [OF assms(1) path_clean_idem] by (simp add: resolveRelative_def)
  moreover have "resolveVirtualModule (New dirs files c) imp = Some d \<Longrightarrow> d \<in> set dirs"
    by (auto simp: resolveVirtualModule_def split: option.splits if_splits)
  ultimately show ?thesis
    using assms(2) lib_roots_known [OF assms(1)] resolveWorkspaceAlias_known [OF assms(1)] localPkgDir_known
    by (auto simp: Resolve_def resolveLibAlias_def split: if_splits)
qed


subsection \<open>The longest local directory\<close>

lemma takeWhile_stop: "\<not> P c \<Longrightarrow> takeWhile P (xs @ c # ys) = takeWhile P xs"
  by (induction xs) auto

lemma path_base_suffix:
  assumes "suffix (''/'' @ d) imp" and "d \<noteq> []" and "last d \<noteq> CHR ''/''"
  shows "path_base imp = path_base d"
proof -
  obtain z where z: "imp = z @ ''/'' @ d" using assms(1) by (auto simp: suffix_def)
  obtain x xs where x: "rev d = x # xs" "x \<noteq> CHR ''/''"
    using assms(2,3) by (cases d rule: rev_cases) auto
  have "takeWhile (\<lambda>c. c \<noteq> CHR ''/'') (rev d @ CHR ''/'' # y) = takeWhile (\<lambda>c. c \<noteq> CHR ''/'') (rev d)" for y
    by (rule takeWhile_stop) simp
  moreover have "dropWhile (\<lambda>c. c = CHR ''/'') (rev imp) = rev d @ CHR ''/'' # rev z"
    using x z by simp
  moreover have "dropWhile (\<lambda>c. c = CHR ''/'') (rev d) = rev d" using x by simp
  ultimately show ?thesis using assms(2) z by (simp add: path_base_def Let_def)
qed

lemma longest_fold:
  "length best \<le> length (foldl (longer imp) best ds) \<and>
   (\<forall>d \<in> set ds. suffix (''/'' @ d) imp \<longrightarrow> length d \<le> length (foldl (longer imp) best ds)) \<and>
   (foldl (longer imp) best ds = best \<or> suffix (''/'' @ foldl (longer imp) best ds) imp)"
proof (induction ds arbitrary: best)
  case (Cons d ds)
  have "length best \<le> length (longer imp best d)" "suffix (''/'' @ d) imp \<Longrightarrow> length d \<le> length (longer imp best d)"
    "longer imp best d = best \<or> suffix (''/'' @ longer imp best d) imp"
    by (auto simp: longer_def)
  then show ?case using Cons [of "longer imp best d"] by fastforce
qed simp

definition proper_dir :: "string \<Rightarrow> bool" where
  "proper_dir d \<longleftrightarrow> d \<noteq> [] \<and> last d \<noteq> CHR ''/''"

text \<open>The answer that an absolute import should get.\<close>

definition longest_local :: "string set \<Rightarrow> string \<Rightarrow> string option \<Rightarrow> bool" where
  "longest_local dirs imp ans \<longleftrightarrow>
     (if imp \<in> dirs then ans = Some imp
      else case ans of
        None \<Rightarrow> \<forall>d \<in> dirs. \<not> suffix (''/'' @ d) imp
      | Some d \<Rightarrow> d \<in> dirs \<and> suffix (''/'' @ d) imp \<and> (\<forall>d' \<in> dirs. suffix (''/'' @ d') imp \<longrightarrow> length d' \<le> length d))"

lemma longest_local_unique:
  assumes "longest_local dirs imp a" and "longest_local dirs imp b"
  shows "a = b"
proof (cases "imp \<in> dirs")
  case True
  then show ?thesis using assms by (simp add: longest_local_def)
next
  case False
  show ?thesis
  proof (cases a)
    case None
    then show ?thesis using assms False by (auto simp: longest_local_def split: option.splits)
  next
    case (Some d)
    then obtain d' where b: "b = Some d'" using assms False by (auto simp: longest_local_def split: option.splits)
    have "suffix (''/'' @ d) imp" "suffix (''/'' @ d') imp" "length d = length d'"
      using assms False Some b by (auto simp: longest_local_def intro: le_antisym)
    then show ?thesis using Some b by (auto simp: suffix_def)
  qed
qed

lemma localPkgDir_longest:
  assumes "list_all proper_dir dirs"
  shows "longest_local (set dirs) imp (localPkgDir (New dirs files c) imp)"
proof (cases "imp \<in> set dirs")
  case True
  then show ?thesis by (simp add: longest_local_def localPkgDir_def)
next
  case False
  let ?ds = "filter (\<lambda>d. path_base d = path_base imp) dirs"
  let ?best = "foldl (longer imp) [] ?ds"
  have proper: "d \<noteq> []" "last d \<noteq> CHR ''/''" if "d \<in> set dirs" for d
    using assms that by (auto simp: list_all_iff proper_dir_def)
  have base: "d \<in> set ?ds" if "d \<in> set dirs" "suffix (''/'' @ d) imp" for d
    using that path_base_suffix [OF that(2)] proper [OF that(1)] by simp
  note facts = longest_fold [of "[]" imp ?ds]
  have ans: "localPkgDir (New dirs files c) imp = (if ?best \<noteq> [] then Some ?best else None)"
    using False by (simp add: localPkgDir_def Let_def)
  show ?thesis
  proof (cases "?best = []")
    case True
    then have "\<not> suffix (''/'' @ d) imp" if "d \<in> set dirs" for d
      using facts base [OF that] proper [OF that] by fastforce
    then show ?thesis using False True ans by (simp add: longest_local_def)
  next
    case ne: False
    then have "?best \<in> set dirs" "suffix (''/'' @ ?best) imp" using facts foldl_pick [of imp "[]" ?ds] by auto
    moreover have "length d \<le> length ?best" if "d \<in> set dirs" "suffix (''/'' @ d) imp" for d
      using facts base [OF that] that(2) by blast
    ultimately show ?thesis using False ne ans by (simp add: longest_local_def)
  qed
qed

subsection \<open>The result does not depend on the order of the maps\<close>

text \<open>
  The exports of a package are a map; a list of its entries is one order in which it is visited. When no two wildcard keys
  that match a path have literal prefixes of one length, every order finds the same key.
\<close>

definition no_rival_keys :: "(string \<times> string) list \<Rightarrow> string \<Rightarrow> bool" where
  "no_rival_keys ex subpath \<longleftrightarrow> distinct (map prefix_len (filter (key_matches subpath) (map fst ex)))"

definition same_map :: "(string \<times> string) list \<Rightarrow> (string \<times> string) list \<Rightarrow> bool" where
  "same_map ex ex' \<longleftrightarrow> distinct (map fst ex) \<and> distinct (map fst ex') \<and> set ex = set ex'"

definition same_config :: "Config \<Rightarrow> Config \<Rightarrow> bool" where
  "same_config c c' \<longleftrightarrow> LibDirs c' = LibDirs c \<and> Workspace c' = Workspace c \<and> VirtualModules c' = VirtualModules c \<and>
     (\<forall>p. same_map (WorkspaceExports c p) (WorkspaceExports c' p))"

lemma key_matches_star: "key_matches subpath key \<Longrightarrow> key \<noteq> []"
  by (auto simp: key_matches_def key_parts_def split: option.splits)

text \<open>The key that the loop ends with: none when none matches, otherwise a matching one whose prefix no other exceeds.\<close>

definition best_of :: "string \<Rightarrow> (string \<times> string) set \<Rightarrow> string \<times> string \<Rightarrow> bool" where
  "best_of subpath S best \<longleftrightarrow>
     (if \<exists>kt\<in>S. key_matches subpath (fst kt)
      then best \<in> S \<and> key_matches subpath (fst best) \<and> (\<forall>kt\<in>S. key_matches subpath (fst kt) \<longrightarrow> prefix_len (fst kt) \<le> prefix_len (fst best))
      else best = ([], []))"

lemma better_key_fold: "best_of subpath S best \<Longrightarrow> best_of subpath (S \<union> set ex) (foldl (better_key subpath) best ex)"
proof (induction ex arbitrary: S best)
  case (Cons kt ex)
  have "best_of subpath (insert kt S) (better_key subpath best kt)"
  proof (cases "\<exists>kt\<in>S. key_matches subpath (fst kt)")
    case True
    with Cons.prems have best: "best \<in> S" "key_matches subpath (fst best)"
      "\<forall>kt\<in>S. key_matches subpath (fst kt) \<longrightarrow> prefix_len (fst kt) \<le> prefix_len (fst best)" by (auto simp: best_of_def)
    from best(1,2) have "\<exists>x\<in>insert kt S. key_matches subpath (fst x)" by blast
    moreover from best(2) have "fst best \<noteq> []" by (rule key_matches_star)
    ultimately show ?thesis using best by (auto simp: best_of_def better_key_def)
  next
    case False
    with Cons.prems have "best = ([], [])" by (simp add: best_of_def)
    with False show ?thesis by (auto simp: best_of_def better_key_def)
  qed
  from Cons.IH [OF this] show ?case by simp
qed simp

lemma best_key_order:
  assumes "same_map ex ex'" and "no_rival_keys ex subpath"
  shows "foldl (better_key subpath) ([], []) ex = foldl (better_key subpath) ([], []) ex'"
proof -
  have start: "best_of subpath {} ([], [])" by (simp add: best_of_def)
  let ?a = "foldl (better_key subpath) ([], []) ex" and ?b = "foldl (better_key subpath) ([], []) ex'"
  have a: "best_of subpath (set ex) ?a" using better_key_fold [OF start, of ex] by simp
  have b: "best_of subpath (set ex) ?b" using better_key_fold [OF start, of ex'] assms(1) by (simp add: same_map_def)
  show ?thesis
  proof (cases "\<exists>kt\<in>set ex. key_matches subpath (fst kt)")
    case True
    with a b have ab: "?a \<in> set ex" "?b \<in> set ex" "key_matches subpath (fst ?a)" "key_matches subpath (fst ?b)"
      "prefix_len (fst ?a) = prefix_len (fst ?b)" by (auto simp: best_of_def intro: le_antisym)
    then have "fst ?a \<in> set (filter (key_matches subpath) (map fst ex))" "fst ?b \<in> set (filter (key_matches subpath) (map fst ex))"
      by simp_all
    with ab(5) assms(2) have "fst ?a = fst ?b" unfolding no_rival_keys_def distinct_map by (blast dest: inj_onD)
    with ab(1,2) assms(1) show ?thesis unfolding same_map_def by (metis eq_key_imp_eq_value prod.collapse)
  qed (use a b in \<open>simp add: best_of_def\<close>)
qed

lemma resolveViaExports_order:
  assumes "set dirs = set dirs'" and "set files = set files'" and "same_config c c'" and "no_rival_keys (WorkspaceExports c pkg) sub"
  shows "resolveViaExports (New dirs files c) ws pkg sub = resolveViaExports (New dirs' files' c') ws pkg sub"
proof -
  have same: "same_map (WorkspaceExports c pkg) (WorkspaceExports c' pkg)" using assms(3) by (simp add: same_config_def)
  then have "map_of (WorkspaceExports c pkg) = map_of (WorkspaceExports c' pkg)"
    by (simp add: same_map_def map_of_inject_set)
  moreover have sub: "resolveAbsSubpath (New dirs files c) b s = resolveAbsSubpath (New dirs' files' c') b s" for b s
    using assms(1,2) by (simp add: resolveAbsSubpath_def probe_def)
  ultimately show ?thesis using best_key_order [OF same assms(4)]
    by (simp add: resolveViaExports_def Let_def split: option.split)
qed

lemma resolve_alias_order:
  assumes "set dirs = set dirs'" and "set files = set files'" and "same_config c c'"
  shows "resolveLibAlias (New dirs files c) imp = resolveLibAlias (New dirs' files' c') imp"
    and "no_rival_keys (WorkspaceExports c (fst (splitScopedPkg imp))) (snd (splitScopedPkg imp)) \<Longrightarrow>
      resolveWorkspaceAlias (New dirs files c) imp = resolveWorkspaceAlias (New dirs' files' c') imp"
proof -
  have sub: "resolveAbsSubpath (New dirs files c) b s = resolveAbsSubpath (New dirs' files' c') b s" for b s
    using assms(1,2) by (simp add: resolveAbsSubpath_def probe_def)
  have "lib_roots (New dirs files c) rest ds = lib_roots (New dirs' files' c') rest ds" for rest ds
    by (induction ds) (simp_all add: Let_def sub assms(1))
  then show "resolveLibAlias (New dirs files c) imp = resolveLibAlias (New dirs' files' c') imp"
    using assms(3) by (simp add: resolveLibAlias_def same_config_def)
  assume "no_rival_keys (WorkspaceExports c (fst (splitScopedPkg imp))) (snd (splitScopedPkg imp))"
  note via = resolveViaExports_order [OF assms this]
  obtain pkg rest where p: "splitScopedPkg imp = (pkg, rest)" by (cases "splitScopedPkg imp")
  show "resolveWorkspaceAlias (New dirs files c) imp = resolveWorkspaceAlias (New dirs' files' c') imp"
    using assms(3) via by (simp add: p resolveWorkspaceAlias_def sub assms(1) same_config_def split: option.split)
qed

text \<open>C24: Resolution does not depend on the order in which the maps of directories, files and exports are visited, although the code
  builds its index and looks for a wildcard key by iterating over them, provided no two wildcard keys of the package that match the
  imported path have literal prefixes of the same length; and an absolute import is resolved to the longest package
  directory that it ends with, itself if it is one, and to none exactly when it ends with no package
  directory.\<close>

theorem Resolve_deterministic:
  assumes "set dirs = set dirs'" and "set files = set files'" and "same_config c c'"
    and "no_rival_keys (WorkspaceExports c (fst (splitScopedPkg imp))) (snd (splitScopedPkg imp))" and "list_all proper_dir dirs"
  shows "Resolve (New dirs files c) imp dir = Resolve (New dirs' files' c') imp dir \<and>
    longest_local (set dirs) imp (localPkgDir (New dirs files c) imp)"
proof
  have "list_all proper_dir dirs'" using assms(1,5) by (simp add: list_all_iff)
  from localPkgDir_longest [OF this, of imp files' c']
  have "longest_local (set dirs) imp (localPkgDir (New dirs' files' c') imp)" using assms(1) by simp
  with localPkgDir_longest [OF assms(5), of imp files c]
  have "localPkgDir (New dirs files c) imp = localPkgDir (New dirs' files' c') imp" by (rule longest_local_unique)
  moreover have "resolveRelative (New dirs files c) imp dir = resolveRelative (New dirs' files' c') imp dir"
    using assms(1,2) by (simp add: resolveRelative_def probe_def)
  moreover have "resolveVirtualModule (New dirs files c) imp = resolveVirtualModule (New dirs' files' c') imp"
    using assms(1,3) by (simp add: resolveVirtualModule_def same_config_def split: option.split)
  ultimately show "Resolve (New dirs files c) imp dir = Resolve (New dirs' files' c') imp dir"
    using resolve_alias_order [OF assms(1-3)] assms(4) by (simp add: Resolve_def)
  show "longest_local (set dirs) imp (localPkgDir (New dirs files c) imp)" by (rule localPkgDir_longest [OF assms(5)])
qed

definition no_alias :: Config where
  "no_alias = \<lparr>LibDirs = [], Workspace = (\<lambda>_. None), WorkspaceExports = (\<lambda>_. []), VirtualModules = (\<lambda>_. None)\<rparr>"

text \<open>A package whose exports move its source, seen in two orders of its map.\<close>

definition star_config :: "(string \<times> string) list \<Rightarrow> Config" where
  "star_config ex =
     \<lparr>LibDirs = [], Workspace = [''@a/ui'' \<mapsto> ''ui''], WorkspaceExports = (\<lambda>_. ex), VirtualModules = (\<lambda>_. None)\<rparr>"

theorem Resolve_deterministic_witness:
  "Resolve (New [''ui'', ''ui/src/icons''] [''ui/src/icons/b.ts''] (star_config [(''*'', ''src/*''), (''icons/*'', ''src/icons/*'')]))
     ''@a/ui/icons/b'' ''app'' =
   Resolve (New [''ui/src/icons'', ''ui''] [''ui/src/icons/b.ts''] (star_config [(''icons/*'', ''src/icons/*''), (''*'', ''src/*'')]))
     ''@a/ui/icons/b'' ''app''"
proof -
  let ?c = "star_config [(''*'', ''src/*''), (''icons/*'', ''src/icons/*'')]"
  have dirs: "set [''ui'', ''ui/src/icons''] = set [''ui/src/icons'', ''ui'']" by auto
  have config: "same_config ?c (star_config [(''icons/*'', ''src/icons/*''), (''*'', ''src/*'')])"
    by (auto simp: same_config_def same_map_def star_config_def)
  have rivals: "no_rival_keys (WorkspaceExports ?c (fst (splitScopedPkg ''@a/ui/icons/b''))) (snd (splitScopedPkg ''@a/ui/icons/b''))"
    by code_simp
  have proper: "list_all proper_dir [''ui'', ''ui/src/icons'']" by (simp add: proper_dir_def)
  show ?thesis using Resolve_deterministic [OF dirs refl config rivals proper] by blast
qed

lemma Resolve_star: "Resolve (New [''ui'', ''ui/src/icons''] [''ui/src/icons/b.ts''] (star_config [(''*'', ''src/*''), (''icons/*'', ''src/icons/*'')]))
     ''@a/ui/icons/b'' ''app'' = Some ''ui/src/icons''"
  by code_simp

text \<open>With two wildcard keys of the same literal prefix the target depends on the order of the map.\<close>

lemma wildcard_order_matters:
  "Resolve (New [''ui/src'', ''ui/dist''] [''ui/src/b.js'', ''ui/dist/b.ts''] (star_config [(''*'', ''src/*''), (''*.js'', ''dist/*'')]))
     ''@a/ui/b.js'' ''app'' = Some ''ui/src''"
  "Resolve (New [''ui/src'', ''ui/dist''] [''ui/src/b.js'', ''ui/dist/b.ts''] (star_config [(''*.js'', ''dist/*''), (''*'', ''src/*'')]))
     ''@a/ui/b.js'' ''app'' = Some ''ui/dist''"
  by code_simp+

subsection \<open>The imports of a code graph\<close>

text \<open>
  \<open>buildImportsGraph\<close> (\<open>internal/codegraph/graph_build_rels.go\<close>): one edge per import of a file, and a vertex
  for each import string that is external. The files come in the order of the iteration over their map.
\<close>

record imports_graph =
  ig_externals :: "string list"
  ig_edges :: "(string \<times> string) list"
  ig_imported :: "string list"

definition import_step :: "Resolver \<Rightarrow> string \<Rightarrow> imports_graph \<Rightarrow> string \<Rightarrow> imports_graph" where
  "import_step r relFile g imp =
     (let local_dir = Resolve r imp (path_dir relFile);
          toKey = (case local_dir of None \<Rightarrow> imp | Some d \<Rightarrow> d);
          g = g\<lparr>ig_edges := ig_edges g @ [(relFile, toKey)]\<rparr>
      in if imp \<in> set (ig_imported g) then g
         else let g = g\<lparr>ig_imported := imp # ig_imported g\<rparr>
           in if local_dir \<noteq> None then g else g\<lparr>ig_externals := ig_externals g @ [imp]\<rparr>)"

definition buildImportsGraph :: "string list \<Rightarrow> string list \<Rightarrow> (string \<times> string list) list \<Rightarrow> Config \<Rightarrow> imports_graph" where
  "buildImportsGraph dirs files fileImports c =
     foldl (\<lambda>g (relFile, imps). foldl (import_step (New dirs files c) relFile) g imps)
       \<lparr>ig_externals = [], ig_edges = [], ig_imported = []\<rparr> fileImports"

text \<open>An import that names a file by its place relative to the importing one, which alone depends on the importing directory.\<close>

definition relative_import :: "string \<Rightarrow> bool" where
  "relative_import imp \<longleftrightarrow> prefix ''./'' imp \<or> prefix ''../'' imp"

definition local_somewhere :: "Resolver \<Rightarrow> (string \<times> string list) list \<Rightarrow> string \<Rightarrow> bool" where
  "local_somewhere r fileImports imp \<longleftrightarrow>
     list_ex (\<lambda>(f, imps). imp \<in> set imps \<and> Resolve r imp (path_dir f) \<noteq> None) fileImports"

lemma Resolve_absolute: "\<not> relative_import imp \<Longrightarrow> Resolve r imp d = Resolve r imp d'"
  by (auto simp: Resolve_def relative_import_def)

definition graph_ok :: "Resolver \<Rightarrow> (string \<times> string list) list \<Rightarrow> imports_graph \<Rightarrow> bool" where
  "graph_ok r fi g \<longleftrightarrow>
     (\<forall>e \<in> set (ig_edges g). snd e \<in> set (pkgDirs r) \<union> set (ig_externals g) \<or> relative_import (snd e) \<and> local_somewhere r fi (snd e)) \<and>
     (\<forall>i \<in> set (ig_imported g). i \<in> set (ig_externals g) \<or> local_somewhere r fi i) \<and>
     set (ig_externals g) \<subseteq> set (ig_imported g) \<and> distinct (ig_externals g)"

lemma import_step_ok:
  assumes "graph_ok (New dirs files c) fi g" and "wf_input dirs files c" and "(f, imps) \<in> set fi" and "imp \<in> set imps"
  shows "graph_ok (New dirs files c) fi (import_step (New dirs files c) f g imp)"
proof (cases "Resolve (New dirs files c) imp (path_dir f)")
  case None
  have "relative_import imp" if "local_somewhere (New dirs files c) fi imp"
    using that None Resolve_absolute [of imp "New dirs files c" "path_dir f"] by (fastforce simp: local_somewhere_def list_ex_iff)
  with None assms(1) show ?thesis by (auto simp: graph_ok_def import_step_def Let_def)
next
  case (Some d)
  then have d: "d \<in> set dirs" using Resolve_known [OF assms(2)] by blast
  have "local_somewhere (New dirs files c) fi imp"
    using Some assms(3,4) by (auto simp: local_somewhere_def list_ex_iff)
  with Some d assms(1) show ?thesis by (auto simp: graph_ok_def import_step_def Let_def)
qed

lemma import_steps_ok:
  assumes "wf_input dirs files c" and "(f, imps) \<in> set fi"
  shows "graph_ok (New dirs files c) fi g \<Longrightarrow> set is \<subseteq> set imps \<Longrightarrow>
    graph_ok (New dirs files c) fi (foldl (import_step (New dirs files c) f) g is)"
proof (induction "is" arbitrary: g)
  case (Cons imp "is")
  have "graph_ok (New dirs files c) fi (import_step (New dirs files c) f g imp)"
    using Cons.prems by (intro import_step_ok [OF _ assms]) simp_all
  then show ?case using Cons.IH Cons.prems(2) by simp
qed simp

lemma import_files_ok:
  assumes "wf_input dirs files c"
  shows "graph_ok (New dirs files c) fi g \<Longrightarrow> set fs \<subseteq> set fi \<Longrightarrow>
    graph_ok (New dirs files c) fi (foldl (\<lambda>g (relFile, imps). foldl (import_step (New dirs files c) relFile) g imps) g fs)"
proof (induction fs arbitrary: g)
  case (Cons x fs)
  obtain f imps where x: "x = (f, imps)" by (cases x)
  have "graph_ok (New dirs files c) fi (foldl (import_step (New dirs files c) f) g imps)"
    using Cons.prems x by (intro import_steps_ok [OF assms]) auto
  then show ?case using Cons.IH Cons.prems(2) x by simp
qed simp

text \<open>C25: When the directory of every indexed file is a package directory, the target of every imports edge is one of the package
  directories or a vertex created for an external import, except for a relative import string that is local for
  some other file that has it; and each external import has one vertex. This holds for any order of the files.\<close>

theorem ImportsGraph_no_dangling:
  assumes "wf_input dirs files c"
  shows "let g = buildImportsGraph dirs files fileImports c in
    list_all (\<lambda>e. snd e \<in> set dirs \<union> set (ig_externals g) \<or>
                  relative_import (snd e) \<and> local_somewhere (New dirs files c) fileImports (snd e)) (ig_edges g) \<and>
    distinct (ig_externals g)"
proof -
  have "graph_ok (New dirs files c) fileImports (buildImportsGraph dirs files fileImports c)"
    unfolding buildImportsGraph_def by (rule import_files_ok [OF assms _ order_refl]) (simp add: graph_ok_def)
  then show ?thesis by (simp add: graph_ok_def Let_def list_all_iff)
qed

text \<open>The exception occurs: the relative import is local for the first file and external for the second, whose edge gets no
  vertex any more.\<close>

lemma relative_import_dangles:
  "buildImportsGraph [''a'', ''b''] [''a/x.ts'', ''a/m.ts'', ''b/m.ts''] [(''a/m.ts'', [''./x'']), (''b/m.ts'', [''./x''])] no_alias =
     \<lparr>ig_externals = [], ig_edges = [(''a/m.ts'', ''a''), (''b/m.ts'', ''./x'')], ig_imported = [''./x'']\<rparr>"
  by code_simp

theorem ImportsGraph_no_dangling_witness:
  "let g = buildImportsGraph [''a'', ''b''] [''a/x.ts'', ''b/m.ts''] [(''b/m.ts'', [''../a/x'', ''react''])] no_alias in
     ig_externals g = [''react''] \<and> list_all (\<lambda>e. snd e \<in> {''a'', ''b'', ''react''}) (ig_edges g)"
proof -
  let ?dirs = "[''a'', ''b'']" and ?files = "[''a/x.ts'', ''b/m.ts'']" and ?fi = "[(''b/m.ts'', [''../a/x'', ''react''])]"
  have g: "buildImportsGraph ?dirs ?files ?fi no_alias =
      \<lparr>ig_externals = [''react''], ig_edges = [(''b/m.ts'', ''a''), (''b/m.ts'', ''react'')], ig_imported = [''react'', ''../a/x'']\<rparr>"
    by code_simp
  have "list_all (\<lambda>f. path_dir f \<in> set ?dirs) ?files" by code_simp
  then have "wf_input ?dirs ?files no_alias" by (simp add: wf_input_def no_alias_def)
  from ImportsGraph_no_dangling [OF this, of ?fi] show ?thesis unfolding g Let_def by (simp add: relative_import_def)
qed

lemma null_hides_target:
  "ParseExports (Some (JObj [(''./a'', JArr [JNull, JStr ''./a.ts''])])) ''a'' = None"
  by code_simp


subsection \<open>The configuration that is read off the tree\<close>

text \<open>
  A directory tree as \<open>filepath.WalkDir\<close> sees it, entries in lexical order. \<open>manifest\<close> stands for reading the
  \<open>package.json\<close> of a directory (name and parsed exports), \<open>ids\<close> for the virtual module identifiers found in a file.
\<close>

datatype fs_entry = FsFile string | FsSpecial string | FsDir string "fs_entry list"

definition skip_dir :: "string \<Rightarrow> bool" where
  "skip_dir n \<longleftrightarrow> n = ''node_modules'' \<or> (n \<noteq> ''.'' \<and> prefix ''.'' n)"

definition child_dir :: "string \<Rightarrow> string \<Rightarrow> string" where
  "child_dir dir n = (if dir = ''.'' then n else dir @ ''/'' @ n)"

text \<open>The regular files that are visited, each with its directory.\<close>

fun walk :: "string \<Rightarrow> fs_entry \<Rightarrow> (string \<times> string) list" where
  "walk dir (FsFile n) = [(dir, n)]"
| "walk dir (FsSpecial n) = []"
| "walk dir (FsDir n es) = (if skip_dir n then [] else concat (map (walk (child_dir dir n)) es))"

definition virtualScanExts :: "string list" where
  "virtualScanExts = [''.ts'', ''.tsx'', ''.js'', ''.jsx'', ''.mjs'', ''.cjs'']"

definition isVirtualScanTarget :: "string \<Rightarrow> bool" where
  "isVirtualScanTarget name \<longleftrightarrow>
     (path_ext name = ''.ts'' \<and> suffix ''.d.ts'' name) \<or> path_ext name \<in> set virtualScanExts"

definition scanVirtualModules :: "string list \<Rightarrow> string \<Rightarrow> (string \<rightharpoonup> string) \<Rightarrow> (string \<rightharpoonup> string)" where
  "scanVirtualModules found dir out = foldl (\<lambda>m i. if m i = None then m(i \<mapsto> dir) else m) out found"

definition config_step :: "(string \<Rightarrow> (string \<times> (string \<times> string) list) option) \<Rightarrow> (string \<Rightarrow> string \<Rightarrow> string list) \<Rightarrow>
    Config \<Rightarrow> string \<times> string \<Rightarrow> Config" where
  "config_step manifest ids c db =
     (case db of (dir, base) \<Rightarrow>
        let c1 = (if base = ''svelte.config.js'' \<or> base = ''svelte.config.ts'' then c\<lparr>LibDirs := LibDirs c @ [dir]\<rparr>
                  else if base = ''package.json'' then
                    (case manifest dir of
                       None \<Rightarrow> c
                     | Some (name, ex) \<Rightarrow>
                         if name = [] then c
                         else c\<lparr>Workspace := (Workspace c)(name \<mapsto> dir),
                                WorkspaceExports := (if ex = [] then WorkspaceExports c
                                                     else (WorkspaceExports c)(name := ex))\<rparr>)
                  else c)
        in if isVirtualScanTarget base
           then c1\<lparr>VirtualModules := scanVirtualModules (ids dir base) dir (VirtualModules c1)\<rparr> else c1)"

text \<open>\<open>root_name\<close> is the last segment of the root's path, which the walk reports as the name of the root.\<close>

definition BuildConfig :: "(string \<Rightarrow> (string \<times> (string \<times> string) list) option) \<Rightarrow> (string \<Rightarrow> string \<Rightarrow> string list) \<Rightarrow>
    string \<Rightarrow> fs_entry list \<Rightarrow> Config" where
  "BuildConfig manifest ids root_name es =
     foldl (config_step manifest ids) no_alias (if skip_dir root_name then [] else concat (map (walk ''.'') es))"

text \<open>A repository whose own directory has a dot name gets no aliases at all.\<close>

lemma dot_root_has_no_config: "prefix ''.'' root_name \<Longrightarrow> root_name \<noteq> ''.'' \<Longrightarrow> BuildConfig manifest ids root_name es = no_alias"
  by (simp add: BuildConfig_def skip_dir_def)

lemma child_dir_not_Nil: "dir \<noteq> [] \<Longrightarrow> n \<noteq> [] \<Longrightarrow> child_dir dir n \<noteq> []"
  by (simp add: child_dir_def)

text \<open>The names of a tree are not empty.\<close>

fun named :: "fs_entry \<Rightarrow> bool" where
  "named (FsFile n) \<longleftrightarrow> n \<noteq> []"
| "named (FsSpecial n) \<longleftrightarrow> n \<noteq> []"
| "named (FsDir n es) \<longleftrightarrow> n \<noteq> [] \<and> list_all named es"

lemma walk_dirs: "dir \<noteq> [] \<Longrightarrow> named e \<Longrightarrow> (d, b) \<in> set (walk dir e) \<Longrightarrow> d \<noteq> []"
proof (induction dir e rule: walk.induct)
  case (3 dir n es)
  then obtain e where "e \<in> set es" "(d, b) \<in> set (walk (child_dir dir n) e)" "\<not> skip_dir n"
    by (auto split: if_splits)
  then show ?case using 3 by (auto simp: child_dir_not_Nil list_all_iff)
qed auto

lemma config_steps_named:
  "\<forall>(d, b) \<in> set dbs. d \<noteq> [] \<Longrightarrow> \<forall>p. Workspace c p \<noteq> Some [] \<Longrightarrow>
    Workspace (foldl (config_step manifest ids) c dbs) p \<noteq> Some []"
proof (induction dbs arbitrary: c)
  case (Cons db dbs)
  obtain d b where db: "db = (d, b)" "d \<noteq> []" using Cons.prems(1) by (cases db) auto
  have "\<forall>p. Workspace (config_step manifest ids c db) p \<noteq> Some []"
    using Cons.prems(2) db by (auto simp: config_step_def Let_def split: option.splits)
  then show ?case using Cons by simp
qed simp

text \<open>So the configuration meets what the resolver relies on.\<close>

lemma BuildConfig_wf:
  assumes "list_all named es" and "list_all (\<lambda>f. path_dir f \<in> set dirs) files"
  shows "wf_input dirs files (BuildConfig manifest ids root_name es)"
proof -
  have "\<forall>(d, b) \<in> set (concat (map (walk ''.'') es)). d \<noteq> []"
    using walk_dirs [of "''.''"] assms(1) by (auto simp: list_all_iff)
  moreover have "\<forall>p. Workspace no_alias p \<noteq> Some []" by (simp add: no_alias_def)
  ultimately show ?thesis using config_steps_named assms(2)
    by (auto simp: wf_input_def BuildConfig_def no_alias_def)
qed

end
