(* ===== verification/Louvain.thy ===== *)
theory Louvain
  imports GoStrings
begin

text \<open>
  Community detection (\<open>internal/ranking\<close>: \<open>louvain.go\<close>, \<open>louvain_helpers.go\<close>, \<open>louvain_resolution.go\<close>,
  \<open>louvain_weighted.go\<close>, \<open>louvain_weighted_helpers.go\<close>). A Go map that the code iterates over is an association
  list in the order of the iteration. The two places where that order can matter are parameters: the order in
  which \<open>edgesToComm\<close> is visited at each node of each pass, and the floating-point gain with its comparison, of
  which nothing is assumed. The context is the number of the check that first sees it cancelled.
\<close>

subsection \<open>The undirected graph\<close>

type_synonym digraph = "(string \<times> string list) list"

definition all_nodes :: "digraph \<Rightarrow> string list" where
  "all_nodes graph = concat (map (\<lambda>(src, tgts). src # tgts) graph)"

text \<open>\<open>collectNodes\<close>, sorted as every caller here sorts it.\<close>

definition sorted_nodes :: "digraph \<Rightarrow> string list" where
  "sorted_nodes graph = sort (remdups (all_nodes graph))"

definition edge_key :: "string \<Rightarrow> string \<Rightarrow> string \<times> string" where
  "edge_key a b = (if a > b then (b, a) else (a, b))"

text \<open>\<open>addEdge\<close>: a new undirected edge extends the neighbours of both ends.\<close>

definition add_edge :: "(string \<times> string) set \<times> (string \<Rightarrow> string list) \<Rightarrow> string \<times> string \<Rightarrow>
    (string \<times> string) set \<times> (string \<Rightarrow> string list)" where
  "add_edge st e =
     (case st of (seen, ad) \<Rightarrow> case e of (a, b) \<Rightarrow>
        if a = b \<or> edge_key a b \<in> seen then (seen, ad)
        else case edge_key a b of (x, y) \<Rightarrow>
          (insert (x, y) seen, (ad(x := ad x @ [y]))(y := (ad(x := ad x @ [y])) y @ [x])))"

definition edge_list :: "digraph \<Rightarrow> (string \<times> string) list" where
  "edge_list graph = concat (map (\<lambda>(src, tgts). map (Pair src) tgts) graph)"

definition buildUndirectedAdj :: "digraph \<Rightarrow> (string \<Rightarrow> string list) \<times> string list" where
  "buildUndirectedAdj graph =
     (\<lambda>n. sort (snd (foldl add_edge ({}, \<lambda>_. []) (edge_list graph)) n), sorted_nodes graph)"

subsection \<open>Moving nodes between communities\<close>

text \<open>\<open>gain gamma e ki sigma twoM\<close> is the floating-point gain and \<open>gt\<close> its comparison, \<open>one\<close> the constant 1.0;
  \<open>ord n pass node\<close> is the order of the iteration over \<open>edgesToComm\<close> when \<open>n\<close> levels and \<open>pass\<close> passes are left, given
  the keys in the order of their insertion.\<close>

record ('f, 'g) choice =
  one :: 'f
  gain :: "'f \<Rightarrow> int \<Rightarrow> int \<Rightarrow> int \<Rightarrow> int \<Rightarrow> 'g"
  gt :: "'g \<Rightarrow> 'g \<Rightarrow> bool"
  ord :: "nat \<Rightarrow> nat \<Rightarrow> string \<Rightarrow> nat list \<Rightarrow> nat list"

definition maxLouvainPasses :: nat where "maxLouvainPasses = 50"
definition maxLevels :: nat where "maxLevels = 10"

text \<open>The keys of \<open>edgesToComm\<close> at a node and the summed weight of a key.\<close>

definition comm_keys :: "(string \<Rightarrow> nat) \<Rightarrow> string list \<Rightarrow> nat list" where
  "comm_keys comm nbs = remdups (map comm nbs)"

definition edges_to :: "(string \<Rightarrow> int) \<Rightarrow> (string \<Rightarrow> nat) \<Rightarrow> string list \<Rightarrow> nat \<Rightarrow> int" where
  "edges_to w comm nbs c = sum_list (map w (filter (\<lambda>nb. comm nb = c) nbs))"

record moving =
  community :: "string \<Rightarrow> nat"
  sigmaTot :: "nat \<Rightarrow> int"
  improved :: bool

text \<open>The choice among the communities of the neighbours, strictly better ones only.\<close>

definition best_comm :: "('f, 'g) choice \<Rightarrow> 'f \<Rightarrow> int \<Rightarrow> int \<Rightarrow> (nat \<Rightarrow> int) \<Rightarrow> (nat \<Rightarrow> int) \<Rightarrow> nat \<Rightarrow> nat list \<Rightarrow> nat" where
  "best_comm P gamma ki twoM sigma toComm cur comms =
     snd (foldl (\<lambda>(bestGain, best) c.
         if c = cur then (bestGain, best)
         else let g = gain P gamma (toComm c) ki (sigma c) twoM in if gt P g bestGain then (g, c) else (bestGain, best))
       (gain P gamma (toComm cur) ki (sigma cur - ki) twoM, cur) comms)"

text \<open>A level: its order of iteration, its graph and its edge weights.\<close>

record level =
  order :: "nat \<Rightarrow> string \<Rightarrow> nat list \<Rightarrow> nat list"
  adj :: "string \<Rightarrow> string list"
  weight :: "string \<Rightarrow> string \<Rightarrow> int"
  nodes :: "string list"

definition degree :: "level \<Rightarrow> string \<Rightarrow> int" where
  "degree L n = sum_list (map (weight L n) (adj L n))"

definition twoM :: "level \<Rightarrow> int" where
  "twoM L = sum_list (map (degree L) (nodes L))"

definition move_node :: "('f, 'g) choice \<Rightarrow> 'f \<Rightarrow> level \<Rightarrow> nat \<Rightarrow> moving \<Rightarrow> string \<Rightarrow> moving" where
  "move_node P gamma L pass s node =
     (let cur = community s node; ki = degree L node;
          best = best_comm P gamma ki (twoM L) (sigmaTot s) (edges_to (weight L node) (community s) (adj L node)) cur
                   (order L pass node (comm_keys (community s) (adj L node)));
          sigma = (sigmaTot s)(cur := sigmaTot s cur - ki)
      in if best \<noteq> cur then
           \<lparr>community = (community s)(node := best), sigmaTot = sigma(best := sigma best + ki), improved = True\<rparr>
         else s)"

definition one_pass :: "('f, 'g) choice \<Rightarrow> 'f \<Rightarrow> level \<Rightarrow> nat \<Rightarrow> moving \<Rightarrow> moving" where
  "one_pass P gamma L pass s = foldl (move_node P gamma L pass) (s\<lparr>improved := False\<rparr>) (nodes L)"

fun passes :: "('f, 'g) choice \<Rightarrow> 'f \<Rightarrow> level \<Rightarrow> nat \<Rightarrow> moving \<Rightarrow> moving" where
  "passes P gamma L 0 s = s"
| "passes P gamma L (Suc n) s =
     (let s' = one_pass P gamma L n s in if improved s' then passes P gamma L n s' else s')"

text \<open>Every node starts in a community of its own, numbered by its place in the sorted list.\<close>

definition start_moving :: "level \<Rightarrow> moving" where
  "start_moving L =
     (let comm = (\<lambda>n. the (find_index (\<lambda>m. m = n) (nodes L)))
      in \<lparr>community = comm,
          sigmaTot = (\<lambda>c. sum_list (map (degree L) (filter (\<lambda>n. comm n = c) (nodes L)))), improved = False\<rparr>)"

definition coreLouvainGamma :: "('f, 'g) choice \<Rightarrow> 'f \<Rightarrow> level \<Rightarrow> string \<Rightarrow> nat" where
  "coreLouvainGamma P gamma L = community (passes P gamma L maxLouvainPasses (start_moving L))"

definition coreLouvain :: "('f, 'g) choice \<Rightarrow> level \<Rightarrow> string \<Rightarrow> nat" where
  "coreLouvain P L = coreLouvainGamma P (one P) L"

subsection \<open>Contraction\<close>

text \<open>\<open>commName\<close>: the first node of a community names it.\<close>

definition comm_name :: "string list \<Rightarrow> (string \<Rightarrow> nat) \<Rightarrow> nat \<Rightarrow> string" where
  "comm_name ns comm c = hd (filter (\<lambda>n. comm n = c) ns)"

definition countDistinct :: "string list \<Rightarrow> (string \<Rightarrow> nat) \<Rightarrow> nat" where
  "countDistinct ns comm = length (remdups (map comm ns))"

text \<open>The edges between communities, from each side, with the nodes they come from.\<close>

definition cross_edges :: "(string \<Rightarrow> string list) \<Rightarrow> string list \<Rightarrow> (string \<Rightarrow> nat) \<Rightarrow> (string \<times> string \<times> string \<times> string) list" where
  "cross_edges ad ns comm =
     (let name = (\<lambda>n. comm_name ns comm (comm n)) in
      filter (\<lambda>(a, b, _). a \<noteq> b)
        (concat (map (\<lambda>n. map (\<lambda>nb. (name n, name nb, n, nb)) (ad n)) ns)))"

definition super_nodes :: "string list \<Rightarrow> (string \<Rightarrow> nat) \<Rightarrow> string list" where
  "super_nodes ns comm = sort (remdups (map (\<lambda>n. comm_name ns comm (comm n)) ns))"

definition super_adj :: "(string \<Rightarrow> string list) \<Rightarrow> string list \<Rightarrow> (string \<Rightarrow> nat) \<Rightarrow> string \<Rightarrow> string list" where
  "super_adj ad ns comm s =
     sort (remdups (concat (map (\<lambda>(a, b, _). (if a = s then [b] else []) @ (if b = s then [a] else []))
       (cross_edges ad ns comm))))"

definition contractGraph :: "(string \<Rightarrow> string list) \<Rightarrow> string list \<Rightarrow> (string \<Rightarrow> nat) \<Rightarrow>
    (string \<Rightarrow> string list) \<times> string list" where
  "contractGraph ad ns comm = (super_adj ad ns comm, super_nodes ns comm)"

subsection \<open>Levels\<close>

definition unweighted :: "string \<Rightarrow> string \<Rightarrow> int" where "unweighted a b = 1"

text \<open>A partition into more than one community renames the nodes; one community only leaves them.\<close>

definition propagate :: "string list \<Rightarrow> (string \<Rightarrow> nat) \<Rightarrow> (string \<Rightarrow> string) \<Rightarrow> string \<Rightarrow> string" where
  "propagate ns comm nm =
     (if countDistinct ns comm > 1 then (\<lambda>x. comm_name ns comm (comm (nm x))) else nm)"

text \<open>The loop over the levels, with \<open>core\<close> the assignment at a level. \<open>nm\<close> is \<open>nodeToSuper\<close>.\<close>

fun levels :: "(level \<Rightarrow> string \<Rightarrow> nat) \<Rightarrow> (nat \<Rightarrow> nat \<Rightarrow> string \<Rightarrow> nat list \<Rightarrow> nat list) \<Rightarrow> nat \<Rightarrow>
    (string \<Rightarrow> string list) \<Rightarrow> string list \<Rightarrow> (string \<Rightarrow> string) \<Rightarrow> string \<Rightarrow> string" where
  "levels core od 0 ad ns nm = nm"
| "levels core od (Suc n) ad ns nm =
     (let comm = core \<lparr>order = od n, adj = ad, weight = unweighted, nodes = ns\<rparr> in
      if countDistinct ns comm \<ge> length ns then nm
      else let nm' = propagate ns comm nm in
        case contractGraph ad ns comm of (ad', ns') \<Rightarrow>
          if length ns' \<ge> length ns then nm' else levels core od n ad' ns' nm')"

text \<open>Communities are numbered in the order in which the sorted nodes meet them.\<close>

definition number_step :: "(string \<Rightarrow> string) \<Rightarrow> string list \<Rightarrow> string \<Rightarrow> string list" where
  "number_step nm names n = (if nm n \<in> set names then names else names @ [nm n])"

definition numbering :: "(string \<Rightarrow> string) \<Rightarrow> string list \<Rightarrow> string \<Rightarrow> nat option" where
  "numbering nm ns n =
     (if n \<in> set ns then find_index (\<lambda>m. m = nm n) (foldl (number_step nm) [] ns) else None)"

text \<open>An empty graph gives the nil map.\<close>

definition LouvainWithResolution :: "('f, 'g) choice \<Rightarrow> 'f \<Rightarrow> digraph \<Rightarrow> (string \<Rightarrow> nat option) option" where
  "LouvainWithResolution P gamma graph =
     (if graph = [] then None
      else case buildUndirectedAdj graph of (ad, ns) \<Rightarrow> if ns = [] then None else
        Some (numbering (levels (coreLouvainGamma P gamma) (ord P) maxLevels ad ns id) ns))"

definition Louvain :: "('f, 'g) choice \<Rightarrow> digraph \<Rightarrow> (string \<Rightarrow> nat option) option" where
  "Louvain P graph =
     (if graph = [] then None
      else case buildUndirectedAdj graph of (ad, ns) \<Rightarrow> if ns = [] then None else
        Some (numbering (levels (coreLouvain P) (ord P) maxLevels ad ns id) ns))"

subsection \<open>The weighted variant, with a context\<close>

type_synonym wgraph = "(string \<times> (string \<times> int) list) list"

definition unlabelled :: "wgraph \<Rightarrow> digraph" where
  "unlabelled graph = map (\<lambda>(src, tgts). (src, map fst tgts)) graph"

definition max_weight :: "(string \<times> string \<Rightarrow> int) \<Rightarrow> string \<times> string \<times> int \<Rightarrow> string \<times> string \<Rightarrow> int" where
  "max_weight ws e =
     (case e of (src, tgt, w) \<Rightarrow>
        if src = tgt then ws
        else if w > ws (edge_key src tgt) then ws(edge_key src tgt := w) else ws)"

definition buildWeightedAdj :: "wgraph \<Rightarrow> (string \<Rightarrow> string list) \<times> string list \<times> (string \<times> string \<Rightarrow> int)" where
  "buildWeightedAdj graph =
     (case buildUndirectedAdj (unlabelled graph) of (ad, ns) \<Rightarrow>
        (ad, ns, foldl max_weight (\<lambda>_. 0)
           (concat (map (\<lambda>(src, tgts). map (\<lambda>(tgt, w). (src, tgt, w)) tgts) graph))))"

text \<open>\<open>edgeW\<close>, and the summed weights between two communities, each edge counted from both of its sides.\<close>

definition edgeW :: "(string \<times> string \<Rightarrow> int) \<Rightarrow> string \<Rightarrow> string \<Rightarrow> int" where
  "edgeW ws a b = ws (edge_key a b)"

definition super_weights :: "(string \<Rightarrow> string list) \<Rightarrow> string list \<Rightarrow> (string \<times> string \<Rightarrow> int) \<Rightarrow> (string \<Rightarrow> nat) \<Rightarrow>
    string \<times> string \<Rightarrow> int" where
  "super_weights ad ns ws comm key =
     sum_list (map (\<lambda>(_, _, n, nb). edgeW ws n nb)
       (filter (\<lambda>(a, b, _). edge_key a b = key) (cross_edges ad ns comm))) div 2"

definition contractWeightedGraph :: "(string \<Rightarrow> string list) \<Rightarrow> string list \<Rightarrow> (string \<times> string \<Rightarrow> int) \<Rightarrow> (string \<Rightarrow> nat) \<Rightarrow>
    (string \<Rightarrow> string list) \<times> string list \<times> (string \<times> string \<Rightarrow> int)" where
  "contractWeightedGraph ad ns ws comm = (super_adj ad ns comm, super_nodes ns comm, super_weights ad ns ws comm)"

text \<open>\<open>ctx.Err()\<close>: \<open>cancel\<close> is the number of the check that first sees the cancellation, \<open>t\<close> that of this check.\<close>

definition Err :: "nat option \<Rightarrow> nat \<Rightarrow> bool" where
  "Err cancel t = (case cancel of None \<Rightarrow> False | Some k \<Rightarrow> k \<le> t)"

fun passes_ctx :: "nat option \<Rightarrow> ('f, 'g) choice \<Rightarrow> 'f \<Rightarrow> level \<Rightarrow> nat \<Rightarrow> nat \<Rightarrow> moving \<Rightarrow> moving \<times> nat" where
  "passes_ctx cancel P gamma L 0 t s = (s, t)"
| "passes_ctx cancel P gamma L (Suc n) t s =
     (if Err cancel t then (s, Suc t)
      else let s' = one_pass P gamma L n s in
        if improved s' then passes_ctx cancel P gamma L n (Suc t) s' else (s', Suc t))"

definition coreLouvainWeightedCtx :: "nat option \<Rightarrow> ('f, 'g) choice \<Rightarrow> 'f \<Rightarrow> level \<Rightarrow> nat \<Rightarrow> (string \<Rightarrow> nat) \<times> nat" where
  "coreLouvainWeightedCtx cancel P gamma L t =
     (case passes_ctx cancel P gamma L maxLouvainPasses t (start_moving L) of (s, t') \<Rightarrow> (community s, t'))"

fun levels_ctx :: "nat option \<Rightarrow> ('f, 'g) choice \<Rightarrow> nat \<Rightarrow> nat \<Rightarrow> (string \<Rightarrow> string list) \<Rightarrow> string list \<Rightarrow>
    (string \<times> string \<Rightarrow> int) \<Rightarrow> (string \<Rightarrow> string) \<Rightarrow> (string \<Rightarrow> string) option" where
  "levels_ctx cancel P 0 t ad ns ws nm = Some nm"
| "levels_ctx cancel P (Suc n) t ad ns ws nm =
     (if Err cancel t then None
      else case coreLouvainWeightedCtx cancel P (one P) \<lparr>order = ord P n, adj = ad, weight = edgeW ws, nodes = ns\<rparr> (Suc t)
        of (comm, t') \<Rightarrow>
          if Err cancel t' then None
          else if countDistinct ns comm \<ge> length ns then Some nm
          else let nm' = propagate ns comm nm in
            case contractWeightedGraph ad ns ws comm of (ad', ns', ws') \<Rightarrow>
              if length ns' \<ge> length ns then Some nm' else levels_ctx cancel P n (Suc t') ad' ns' ws' nm')"

definition LouvainWeightedCtx :: "nat option \<Rightarrow> ('f, 'g) choice \<Rightarrow> wgraph \<Rightarrow> (string \<Rightarrow> nat option) option" where
  "LouvainWeightedCtx cancel P graph =
     (if graph = [] then None
      else case buildWeightedAdj graph of (ad, ns, ws) \<Rightarrow>
        if ns = [] then None
        else map_option (\<lambda>nm. numbering nm ns) (levels_ctx cancel P maxLevels 0 ad ns ws id))"

definition LouvainWeighted :: "('f, 'g) choice \<Rightarrow> wgraph \<Rightarrow> (string \<Rightarrow> nat option) option" where
  "LouvainWeighted P graph = LouvainWeightedCtx None P graph"

definition exact_gain :: "(nat list \<Rightarrow> nat list) \<Rightarrow> (int, int) choice" where
  "exact_gain od = \<lparr>one = 1, gain = (\<lambda>g e ki sigma m. e * m - g * ki * sigma), gt = (>), ord = (\<lambda>_ _ _. od)\<rparr>"

definition triangle :: digraph where
  "triangle = [(''a'', [''b'', ''c'']), (''b'', [''c''])]"

lemma triangle_splits:
  "map_option (\<lambda>m. map m [''a'', ''b'', ''c'']) (Louvain (exact_gain id) triangle) = Some [Some 0, Some 1, Some 2]"
  by code_simp

definition square :: digraph where
  "square = [(''a'', [''b'', ''c'']), (''b'', [''d'']), (''c'', [''d''])]"

lemma square_depends_on_order:
  "map_option (\<lambda>m. map m [''a'', ''b'', ''c'', ''d'']) (Louvain (exact_gain id) square) = Some [Some 0, Some 0, Some 1, Some 1]"
  "map_option (\<lambda>m. map m [''a'', ''b'', ''c'', ''d'']) (Louvain (exact_gain rev) square) = Some [Some 0, Some 1, Some 0, Some 1]"
  by code_simp+

subsection \<open>Cancellation\<close>

lemma Err_mono: "Err cancel t \<Longrightarrow> t \<le> t' \<Longrightarrow> Err cancel t'"
  by (auto simp: Err_def split: option.splits)

lemma passes_ctx_time: "passes_ctx cancel P gamma L n t s = (s', t') \<Longrightarrow> t \<le> t'"
  by (induction n arbitrary: t s) (fastforce simp: Let_def split: if_splits)+

text \<open>A phase that no later check sees cancelled is the phase of a context that never is.\<close>

lemma passes_ctx_same:
  assumes "passes_ctx cancel P gamma L n t s = (s', t')" and "\<not> Err cancel t'"
  shows "passes_ctx None P gamma L n u s = (s', u + (t' - t))"
  using assms
proof (induction n arbitrary: t u s)
  case 0
  then show ?case by simp
next
  case (Suc n)
  have ok: "\<not> Err cancel t"
  proof
    assume "Err cancel t"
    with Suc.prems(1) have "t' = Suc t" by simp
    with \<open>Err cancel t\<close> Suc.prems(2) show False using Err_mono le_SucI by blast
  qed
  show ?case
  proof (cases "improved (one_pass P gamma L n s)")
    case False
    with ok Suc.prems(1) show ?thesis by (auto simp: Let_def Err_def [of None])
  next
    case True
    with ok Suc.prems(1) have rec: "passes_ctx cancel P gamma L n (Suc t) (one_pass P gamma L n s) = (s', t')"
      by (simp add: Let_def)
    have "Suc t \<le> t'" by (rule passes_ctx_time [OF rec])
    with Suc.IH [OF rec Suc.prems(2), of "Suc u"] True show ?thesis by (simp add: Let_def Err_def [of None])
  qed
qed

lemma passes_ctx_never: "fst (passes_ctx None P gamma L n t s) = passes P gamma L n s"
  by (induction n arbitrary: t s) (simp_all add: Let_def Err_def)

lemma coreLouvainWeightedCtx_same:
  assumes "coreLouvainWeightedCtx cancel P gamma L t = (comm, t')" and "\<not> Err cancel t'"
  shows "\<exists>u'. coreLouvainWeightedCtx None P gamma L u = (comm, u')"
proof -
  obtain s where s: "passes_ctx cancel P gamma L maxLouvainPasses t (start_moving L) = (s, t')" "comm = community s"
    using assms(1) unfolding coreLouvainWeightedCtx_def by (auto split: prod.splits)
  show ?thesis
    unfolding coreLouvainWeightedCtx_def passes_ctx_same [OF s(1) assms(2), of u] using s(2) by simp
qed

lemma levels_ctx_same:
  "levels_ctx cancel P n t ad ns ws nm = Some r \<Longrightarrow> levels_ctx None P n u ad ns ws nm = Some r"
proof (induction n arbitrary: t u ad ns ws nm)
  case 0
  then show ?case by simp
next
  case (Suc n)
  let ?L = "\<lparr>order = ord P n, adj = ad, weight = edgeW ws, nodes = ns\<rparr>"
  obtain comm t' where c: "coreLouvainWeightedCtx cancel P (one P) ?L (Suc t) = (comm, t')" by force
  from Suc.prems c have ok: "\<not> Err cancel t'" by (auto split: if_splits)
  obtain u' where u: "coreLouvainWeightedCtx None P (one P) ?L (Suc u) = (comm, u')"
    using coreLouvainWeightedCtx_same [OF c ok] by blast
  from Suc.prems c u Suc.IH show ?case
    by (auto simp: Let_def Err_def [of None] split: if_splits prod.splits)
qed

subsection \<open>Communities are connected\<close>

definition joined :: "digraph \<Rightarrow> (string \<times> string) set" where
  "joined graph = (set (edge_list graph) \<union> (set (edge_list graph))\<inverse>)\<^sup>*"

lemma joined_equiv: "equiv UNIV (joined graph)"
  unfolding joined_def by (intro equivI sym_rtrancl refl_rtrancl trans_rtrancl) (auto simp: sym_def)

text \<open>The neighbours that \<open>buildUndirectedAdj\<close> collects are the ends of the edges, from either side.\<close>

lemma add_edge_sound:
  assumes "\<And>n m. m \<in> set (snd st n) \<Longrightarrow> (n, m) \<in> E \<or> (m, n) \<in> E" and "e \<in> E"
  shows "m \<in> set (snd (add_edge st e) n) \<Longrightarrow> (n, m) \<in> E \<or> (m, n) \<in> E"
  using assms by (cases st; cases e) (fastforce simp: add_edge_def edge_key_def split: if_splits)

lemma add_edges_sound:
  "set es \<subseteq> E \<Longrightarrow> (\<And>n m. m \<in> set (snd st n) \<Longrightarrow> (n, m) \<in> E \<or> (m, n) \<in> E) \<Longrightarrow>
   m \<in> set (snd (foldl add_edge st es) n) \<Longrightarrow> (n, m) \<in> E \<or> (m, n) \<in> E"
proof (induction es arbitrary: st)
  case Nil
  then show ?case by simp
next
  case (Cons e es)
  from Cons.prems(1) have "e \<in> E" "set es \<subseteq> E" by auto
  from Cons.IH [OF this(2), of "add_edge st e"] add_edge_sound [OF Cons.prems(2) \<open>e \<in> E\<close>] Cons.prems(3)
  show ?case by simp
qed

lemma edge_list_nodes: "(a, b) \<in> set (edge_list graph) \<Longrightarrow> a \<in> set (all_nodes graph) \<and> b \<in> set (all_nodes graph)"
  by (fastforce simp: edge_list_def all_nodes_def)

lemma buildUndirectedAdj_sound:
  assumes "buildUndirectedAdj graph = (ad, ns)" and "m \<in> set (ad n)"
  shows "(n, m) \<in> joined graph \<and> m \<in> set ns"
proof -
  from assms have "m \<in> set (snd (foldl add_edge ({}, \<lambda>_. []) (edge_list graph)) n)"
    by (auto simp: buildUndirectedAdj_def)
  then have edge: "(n, m) \<in> set (edge_list graph) \<or> (m, n) \<in> set (edge_list graph)"
    by (rule add_edges_sound [OF subset_refl, rotated]) simp
  moreover from edge edge_list_nodes have "m \<in> set ns"
    using assms(1) by (fastforce simp: buildUndirectedAdj_def sorted_nodes_def)
  ultimately show ?thesis by (auto simp: joined_def intro!: r_into_rtrancl)
qed

lemma buildUndirectedAdj_nodes:
  "buildUndirectedAdj graph = (ad, ns) \<Longrightarrow> set ns = set (all_nodes graph) \<and> distinct ns"
  by (auto simp: buildUndirectedAdj_def sorted_nodes_def)

text \<open>Moving a node into the community of a neighbour keeps communities within a relation that contains the edges.\<close>

definition within :: "(string \<times> string) set \<Rightarrow> string list \<Rightarrow> (string \<Rightarrow> nat) \<Rightarrow> bool" where
  "within R ns comm \<longleftrightarrow> (\<forall>a \<in> set ns. \<forall>b \<in> set ns. comm a = comm b \<longrightarrow> (a, b) \<in> R)"

definition edges_within :: "(string \<times> string) set \<Rightarrow> (string \<Rightarrow> string list) \<Rightarrow> string list \<Rightarrow> bool" where
  "edges_within R ad ns \<longleftrightarrow> (\<forall>n \<in> set ns. \<forall>m \<in> set (ad n). (n, m) \<in> R \<and> m \<in> set ns)"

lemma equiv_rules:
  assumes "equiv UNIV R"
  shows "(a, b) \<in> R \<Longrightarrow> (b, a) \<in> R" "(a, b) \<in> R \<Longrightarrow> (b, c) \<in> R \<Longrightarrow> (a, c) \<in> R" "(a, a) \<in> R"
  using assms by (meson equivE symD transD refl_onD UNIV_I)+

lemma best_comm_among: "best_comm P gamma ki m sigma toComm cur comms \<in> insert cur (set comms)"
proof -
  have "snd (foldl (\<lambda>(bestGain, best) c.
         if c = cur then (bestGain, best)
         else let g = gain P gamma (toComm c) ki (sigma c) m in if gt P g bestGain then (g, c) else (bestGain, best))
       (g0, b0) comms) \<in> insert b0 (set comms)" for g0 b0
    by (induction comms arbitrary: g0 b0) (auto simp: Let_def)
  then show ?thesis unfolding best_comm_def by blast
qed

lemma within_move:
  assumes E: "equiv UNIV R"
    and w: "within R ns comm" and n: "n \<in> set ns" and nb: "nb \<in> set ns" "(n, nb) \<in> R"
  shows "within R ns (comm(n := comm nb))"
  unfolding within_def
proof (intro ballI impI)
  note R = equiv_rules [OF E]
  fix a b
  assume ab: "a \<in> set ns" "b \<in> set ns" "(comm(n := comm nb)) a = (comm(n := comm nb)) b"
  from w nb n have near: "(n, x) \<in> R" if "x \<in> set ns" "comm x = comm nb" for x
    using that R(2) unfolding within_def by metis
  show "(a, b) \<in> R"
  proof (cases "a = n")
    case True
    show ?thesis
    proof (cases "b = n")
      case True
      with \<open>a = n\<close> R(3) show ?thesis by simp
    next
      case False
      with \<open>a = n\<close> ab near show ?thesis by simp
    qed
  next
    case False
    show ?thesis
    proof (cases "b = n")
      case True
      with \<open>a \<noteq> n\<close> ab near [of a] R(1) show ?thesis by simp
    next
      case False
      with \<open>a \<noteq> n\<close> ab w show ?thesis by (simp add: within_def)
    qed
  qed
qed

definition keeps_keys :: "('f, 'g) choice \<Rightarrow> bool" where
  "keeps_keys P \<longleftrightarrow> (\<forall>n pass node ks. set (ord P n pass node ks) \<subseteq> set ks)"

definition level_within :: "(string \<times> string) set \<Rightarrow> level \<Rightarrow> bool" where
  "level_within R L \<longleftrightarrow> edges_within R (adj L) (nodes L) \<and> (\<forall>pass node ks. set (order L pass node ks) \<subseteq> set ks)"

lemma move_node_within:
  assumes E: "equiv UNIV R"
    and L: "level_within R L" and w: "within R (nodes L) (community s)" and n: "n \<in> set (nodes L)"
  shows "within R (nodes L) (community (move_node P gamma L pass s n))"
proof -
  define best where "best = best_comm P gamma (degree L n) (twoM L) (sigmaTot s)
    (edges_to (weight L n) (community s) (adj L n)) (community s n)
    (order L pass n (comm_keys (community s) (adj L n)))"
  have comm: "community (move_node P gamma L pass s n) =
      (if best \<noteq> community s n then (community s)(n := best) else community s)"
    by (simp add: move_node_def Let_def best_def)
  show ?thesis
  proof (cases "best = community s n")
    case True
    with comm w show ?thesis by simp
  next
    case False
    have "best \<in> insert (community s n) (set (order L pass n (comm_keys (community s) (adj L n))))"
      unfolding best_def by (rule best_comm_among)
    with False L have "best \<in> set (comm_keys (community s) (adj L n))" unfolding level_within_def by blast
    then obtain nb where nb: "nb \<in> set (adj L n)" "best = community s nb" by (auto simp: comm_keys_def)
    from nb(1) L n have "(n, nb) \<in> R" "nb \<in> set (nodes L)" by (auto simp: level_within_def edges_within_def)
    with within_move [OF E w n] nb(2) comm False show ?thesis by simp
  qed
qed

lemma one_pass_within:
  assumes E: "equiv UNIV R"
    and L: "level_within R L" and w: "within R (nodes L) (community s)"
  shows "within R (nodes L) (community (one_pass P gamma L pass s))"
proof -
  have "within R (nodes L) (community (foldl (move_node P gamma L pass) s' ns))"
    if "set ns \<subseteq> set (nodes L)" "within R (nodes L) (community s')" for ns s'
    using that
  proof (induction ns arbitrary: s')
    case Nil
    then show ?case by simp
  next
    case (Cons n ns)
    then have "n \<in> set (nodes L)" "set ns \<subseteq> set (nodes L)" by auto
    from Cons.IH [OF this(2) move_node_within [OF E L Cons.prems(2) this(1)]] show ?case by simp
  qed
  from this [OF subset_refl] w show ?thesis by (simp add: one_pass_def)
qed

lemma passes_within:
  assumes E: "equiv UNIV R"
    and L: "level_within R L"
  shows "within R (nodes L) (community s) \<Longrightarrow> within R (nodes L) (community (passes P gamma L n s))"
  by (induction n arbitrary: s) (simp_all add: Let_def one_pass_within [OF E L])

lemma find_index_inj:
  assumes "a \<in> set ns" "b \<in> set ns" "the (find_index (\<lambda>m. m = a) ns) = the (find_index (\<lambda>m. m = b) ns)"
  shows "a = b"
proof -
  have "\<exists>i. find_index (\<lambda>m. m = x) ns = Some i" if "x \<in> set ns" for x
    using that find_index_None_iff [of "\<lambda>m. m = x" ns] by auto
  then obtain i j where "find_index (\<lambda>m. m = a) ns = Some i" "find_index (\<lambda>m. m = b) ns = Some j"
    using assms by metis
  with assms(3) find_index_SomeD [OF this(1)] find_index_SomeD [OF this(2)] show ?thesis by simp
qed

lemma start_within:
  assumes "\<And>a. (a, a) \<in> R"
  shows "within R (nodes L) (community (start_moving L))"
proof -
  have "a = b" if "a \<in> set (nodes L)" "b \<in> set (nodes L)" "community (start_moving L) a = community (start_moving L) b" for a b
    using find_index_inj [OF that(1,2)] that(3) by (simp add: start_moving_def Let_def)
  with assms show ?thesis unfolding within_def by blast
qed

lemma core_within:
  assumes E: "equiv UNIV R"
    and L: "level_within R L"
  shows "within R (nodes L) (coreLouvainGamma P gamma L)"
  unfolding coreLouvainGamma_def by (rule passes_within [OF E L start_within [OF equiv_rules(3) [OF E]]])

text \<open>Without a cancellation the weighted phase is the same phase.\<close>

lemma core_ctx_never:
  "coreLouvainWeightedCtx None P gamma L t = (comm, t') \<Longrightarrow> comm = coreLouvainGamma P gamma L"
  using passes_ctx_never [of P gamma L maxLouvainPasses t "start_moving L"]
  by (auto simp: coreLouvainWeightedCtx_def coreLouvainGamma_def split: prod.splits)

text \<open>Contraction: a community is named by a member, and the edges between names stay within the relation.\<close>

lemma comm_name_member:
  assumes "n \<in> set ns"
  shows "comm_name ns comm (comm n) \<in> set ns" and "comm (comm_name ns comm (comm n)) = comm n"
proof -
  have "filter (\<lambda>m. comm m = comm n) ns \<noteq> []" using assms by (auto simp: filter_empty_conv)
  then have "comm_name ns comm (comm n) \<in> set (filter (\<lambda>m. comm m = comm n) ns)"
    unfolding comm_name_def by (rule hd_in_set)
  then show "comm_name ns comm (comm n) \<in> set ns" "comm (comm_name ns comm (comm n)) = comm n" by auto
qed

lemma comm_name_within: "within R ns comm \<Longrightarrow> n \<in> set ns \<Longrightarrow> (n, comm_name ns comm (comm n)) \<in> R"
  using comm_name_member [of n ns comm] unfolding within_def by auto

lemma contract_within:
  assumes E: "equiv UNIV R"
    and e: "edges_within R ad ns" and w: "within R ns comm"
  shows "edges_within R (super_adj ad ns comm) (super_nodes ns comm)"
proof -
  note R = equiv_rules [OF E]
  have cross: "(a, b) \<in> R \<and> a \<in> set (super_nodes ns comm) \<and> b \<in> set (super_nodes ns comm)"
    if "(a, b, n, nb) \<in> set (cross_edges ad ns comm)" for a b n nb
  proof -
    from that have n: "n \<in> set ns" "nb \<in> set (ad n)"
      and ab: "a = comm_name ns comm (comm n)" "b = comm_name ns comm (comm nb)"
      by (auto simp: cross_edges_def Let_def)
    from e n have nb: "(n, nb) \<in> R" "nb \<in> set ns" by (auto simp: edges_within_def)
    from comm_name_within [OF w n(1)] R(1) have "(a, n) \<in> R" by (simp add: ab)
    moreover from comm_name_within [OF w nb(2)] have "(nb, b) \<in> R" by (simp add: ab)
    ultimately have "(a, b) \<in> R" using nb(1) R(2) by blast
    with n(1) nb(2) ab show ?thesis by (auto simp: super_nodes_def)
  qed
  show ?thesis
    unfolding edges_within_def
  proof (intro ballI)
    fix s m
    assume "m \<in> set (super_adj ad ns comm s)"
    then obtain a b n nb where "(a, b, n, nb) \<in> set (cross_edges ad ns comm)" "(a = s \<and> b = m) \<or> (b = s \<and> a = m)"
      by (auto simp: super_adj_def split: if_splits)
    with cross R(1) show "(s, m) \<in> R \<and> m \<in> set (super_nodes ns comm)" by blast
  qed
qed

lemma super_nodes_subset: "set (super_nodes ns comm) \<subseteq> set ns"
  using comm_name_member(1) by (fastforce simp: super_nodes_def)

lemma super_nodes_single: "countDistinct ns comm \<le> 1 \<Longrightarrow> length (super_nodes ns comm) \<le> 1"
proof -
  assume "countDistinct ns comm \<le> 1"
  then have "card (set (map comm ns)) \<le> 1" by (metis countDistinct_def length_remdups_card_conv)
  moreover have "set (map (\<lambda>n. comm_name ns comm (comm n)) ns) = comm_name ns comm ` set (map comm ns)" by auto
  ultimately have "card (set (map (\<lambda>n. comm_name ns comm (comm n)) ns)) \<le> 1"
    by (metis List.finite_set card_image_le le_trans)
  then show ?thesis by (metis length_remdups_card_conv length_sort super_nodes_def)
qed

text \<open>The names of the nodes after any number of levels are names of nodes they are joined to.\<close>

definition named_within :: "(string \<times> string) set \<Rightarrow> string set \<Rightarrow> string set \<Rightarrow> (string \<Rightarrow> string) \<Rightarrow> bool" where
  "named_within R orig target nm \<longleftrightarrow> (\<forall>x \<in> orig. (x, nm x) \<in> R \<and> nm x \<in> target)"

lemma propagate_within:
  assumes E: "equiv UNIV R" and w: "within R ns comm" and nm: "named_within R orig (set ns) nm"
  shows "named_within R orig UNIV (propagate ns comm nm)"
    and "countDistinct ns comm > 1 \<Longrightarrow> named_within R orig (set (super_nodes ns comm)) (propagate ns comm nm)"
  using comm_name_within [OF w] equiv_rules(2) [OF E] nm
  unfolding named_within_def propagate_def super_nodes_def by fastforce+

text \<open>With one community left the loop ends at the next level.\<close>

lemma countDistinct_short: "length ns \<le> 1 \<Longrightarrow> countDistinct ns comm \<ge> length ns"
  by (cases ns) (auto simp: countDistinct_def)

lemma level_choice_within:
  assumes "keeps_keys P" and "edges_within R ad ns"
  shows "level_within R \<lparr>order = ord P n, adj = ad, weight = w, nodes = ns\<rparr>"
  using assms by (simp add: level_within_def keeps_keys_def)

lemma levels_ctx_short:
  "length ns \<le> 1 \<Longrightarrow> levels_ctx cancel P n t ad ns ws nm = Some r \<Longrightarrow> r = nm"
  using countDistinct_short [of ns] by (cases n) (auto split: if_splits prod.splits)

lemma levels_ctx_within:
  assumes E: "equiv UNIV R" and P: "keeps_keys P"
  shows "levels_ctx None P n t ad ns ws nm = Some r \<Longrightarrow> edges_within R ad ns \<Longrightarrow> named_within R orig (set ns) nm \<Longrightarrow>
    named_within R orig UNIV r"
proof (induction n arbitrary: t ad ns ws nm)
  case 0
  then show ?case by (auto simp: named_within_def)
next
  case (Suc n)
  let ?L = "\<lparr>order = ord P n, adj = ad, weight = edgeW ws, nodes = ns\<rparr>"
  obtain comm t' where c: "coreLouvainWeightedCtx None P (one P) ?L (Suc t) = (comm, t')" by force
  have w: "within R ns comm"
    using core_within [OF E level_choice_within [OF P Suc.prems(2), of n "edgeW ws"], of P "one P"] core_ctx_never [OF c]
    by simp
  note ren = propagate_within [OF E w Suc.prems(3)]
  show ?case
  proof (cases "countDistinct ns comm \<ge> length ns")
    case True
    with Suc.prems(1,3) c show ?thesis by (auto simp: Err_def named_within_def)
  next
    case False
    note big = False
    show ?thesis
    proof (cases "length (super_nodes ns comm) \<ge> length ns")
      case True
      with Suc.prems(1) c big ren(1) show ?thesis by (simp add: Err_def Let_def contractWeightedGraph_def)
    next
      case False
      with Suc.prems(1) c big have rec: "levels_ctx None P n (Suc t') (super_adj ad ns comm) (super_nodes ns comm)
          (super_weights ad ns ws comm) (propagate ns comm nm) = Some r"
        by (simp add: Err_def Let_def contractWeightedGraph_def)
      show ?thesis
      proof (cases "countDistinct ns comm > 1")
        case True
        show ?thesis by (rule Suc.IH [OF rec contract_within [OF E Suc.prems(2) w] ren(2) [OF True]])
      next
        case False
        with levels_ctx_short [OF super_nodes_single rec] ren(1) show ?thesis by simp
      qed
    qed
  qed
qed

lemma levels_within:
  assumes E: "equiv UNIV R" and P: "keeps_keys P"
  shows "edges_within R ad ns \<Longrightarrow> named_within R orig (set ns) nm \<Longrightarrow>
    named_within R orig UNIV (levels (coreLouvainGamma P gamma) (ord P) n ad ns nm)"
proof (induction n arbitrary: ad ns nm)
  case 0
  then show ?case by (auto simp: named_within_def)
next
  case (Suc n)
  define comm where "comm = coreLouvainGamma P gamma \<lparr>order = ord P n, adj = ad, weight = unweighted, nodes = ns\<rparr>"
  have w: "within R ns comm"
    using core_within [OF E level_choice_within [OF P Suc.prems(1), of n unweighted], of P gamma] by (simp add: comm_def)
  note ren = propagate_within [OF E w Suc.prems(2)]
  have short: "levels core od k ad' ns' nm' = nm'" if "length ns' \<le> 1" for core od k ad' ns' nm'
    using countDistinct_short [OF that] by (cases k) auto
  have stop: "named_within R orig UNIV nm" using Suc.prems(2) by (auto simp: named_within_def)
  have onward: "named_within R orig UNIV (levels (coreLouvainGamma P gamma) (ord P) n (super_adj ad ns comm)
      (super_nodes ns comm) (propagate ns comm nm))"
  proof (cases "countDistinct ns comm > 1")
    case True
    show ?thesis by (rule Suc.IH [OF contract_within [OF E Suc.prems(1) w] ren(2) [OF True]])
  next
    case False
    with short [OF super_nodes_single] ren(1) show ?thesis by simp
  qed
  show ?case
    using stop onward ren(1) by (simp add: Let_def contractGraph_def flip: comm_def)
qed

subsection \<open>Numbering\<close>

lemma number_names:
  "set (foldl (number_step nm) names ns) = set names \<union> nm ` set ns \<and>
   (distinct names \<longrightarrow> distinct (foldl (number_step nm) names ns))"
proof (induction ns arbitrary: names)
  case Nil
  then show ?case by simp
next
  case (Cons n ns)
  from Cons.IH [of "number_step nm names n"] show ?case by (auto simp: number_step_def)
qed

lemma find_index_nth: "distinct xs \<Longrightarrow> i < length xs \<Longrightarrow> find_index (\<lambda>m. m = xs ! i) xs = Some i"
proof (induction xs arbitrary: i)
  case Nil
  then show ?case by simp
next
  case (Cons x xs)
  then show ?case by (cases i) auto
qed

text \<open>The numbers of the communities are \<open>0, 1, \<dots>\<close> without a gap, every node has one, and equal numbers mean equal names.\<close>

lemma numbering_exact:
  "dom (numbering nm ns) = set ns"
  "\<exists>k. ran (numbering nm ns) = {..<k}"
  "numbering nm ns a = Some c \<Longrightarrow> numbering nm ns b = Some c \<Longrightarrow> nm a = nm b"
proof -
  define names where "names = foldl (number_step nm) [] ns"
  have names: "set names = nm ` set ns" "distinct names"
    using number_names [of nm "[]" ns] by (auto simp: names_def)
  have num: "numbering nm ns n = (if n \<in> set ns then find_index (\<lambda>m. m = nm n) names else None)" for n
    by (simp add: numbering_def names_def)
  have found: "\<exists>i < length names. find_index (\<lambda>m. m = nm n) names = Some i \<and> names ! i = nm n" if "n \<in> set ns" for n
  proof -
    from that names(1) have "nm n \<in> set names" by simp
    then obtain i where "i < length names" "names ! i = nm n" by (auto simp: in_set_conv_nth)
    with find_index_nth [OF names(2) this(1)] show ?thesis by auto
  qed
  show "dom (numbering nm ns) = set ns"
    using found by (fastforce simp: dom_def num split: if_splits)
  have "i \<in> ran (numbering nm ns)" if i: "i < length names" for i
  proof -
    from names(1) i obtain n where n: "n \<in> set ns" "names ! i = nm n" by (metis imageE nth_mem)
    with find_index_nth [OF names(2) i] show ?thesis by (auto simp: ran_def num intro!: exI [of _ n])
  qed
  moreover have "i < length names" if "i \<in> ran (numbering nm ns)" for i
    using that find_index_SomeD by (fastforce simp: ran_def num split: if_splits)
  ultimately show "\<exists>k. ran (numbering nm ns) = {..<k}" by (intro exI [of _ "length names"]) auto
  show "nm a = nm b" if "numbering nm ns a = Some c" "numbering nm ns b = Some c"
    using that find_index_SomeD [of "\<lambda>m. m = nm a" names c] find_index_SomeD [of "\<lambda>m. m = nm b" names c]
    by (auto simp: num split: if_splits)
qed

text \<open>What a partition of the nodes into communities is.\<close>

definition partition_of :: "digraph \<Rightarrow> (string \<Rightarrow> nat option) \<Rightarrow> bool" where
  "partition_of graph m \<longleftrightarrow>
     dom m = set (all_nodes graph) \<and> (\<exists>k. ran m = {..<k}) \<and>
     (\<forall>a b c. m a = Some c \<longrightarrow> m b = Some c \<longrightarrow> (a, b) \<in> joined graph)"

lemma numbering_partition:
  assumes nm: "named_within (joined graph) (set ns) UNIV nm" and ns: "set ns = set (all_nodes graph)"
  shows "partition_of graph (numbering nm ns)"
  unfolding partition_of_def
proof (intro conjI allI impI)
  show "dom (numbering nm ns) = set (all_nodes graph)" using numbering_exact(1) ns by simp
  show "\<exists>k. ran (numbering nm ns) = {..<k}" by (rule numbering_exact(2))
  fix a b c
  assume c: "numbering nm ns a = Some c" "numbering nm ns b = Some c"
  then have "a \<in> set ns" "b \<in> set ns" by (auto simp: numbering_def split: if_splits)
  with nm have "(a, nm a) \<in> joined graph" "(b, nm b) \<in> joined graph" by (auto simp: named_within_def)
  with numbering_exact(3) [OF c] equiv_rules [OF joined_equiv] show "(a, b) \<in> joined graph" by metis
qed

lemma start_named: "named_within (joined graph) (set ns) (set ns) id"
  using equiv_rules(3) [OF joined_equiv] by (simp add: named_within_def)

lemma buildUndirectedAdj_within: "buildUndirectedAdj graph = (ad, ns) \<Longrightarrow> edges_within (joined graph) ad ns"
  using buildUndirectedAdj_sound unfolding edges_within_def by blast

lemma LouvainWithResolution_partition:
  assumes "keeps_keys P" and m: "LouvainWithResolution P gamma graph = Some m"
  shows "partition_of graph m"
proof -
  obtain ad ns where b: "buildUndirectedAdj graph = (ad, ns)" by force
  with m have "m = numbering (levels (coreLouvainGamma P gamma) (ord P) maxLevels ad ns id) ns"
    by (auto simp: LouvainWithResolution_def split: if_splits)
  with numbering_partition [OF levels_within [OF joined_equiv assms(1) buildUndirectedAdj_within [OF b] start_named]]
    buildUndirectedAdj_nodes [OF b] show ?thesis by simp
qed

text \<open>Only a cancellation makes the answer for a graph with nodes nil.\<close>

lemma levels_ctx_never: "levels_ctx None P n t ad ns ws nm \<noteq> None"
  by (induction n arbitrary: t ad ns ws nm) (auto simp: Let_def Err_def split: prod.splits)

lemma LouvainWeighted_some: "graph \<noteq> [] \<Longrightarrow> LouvainWeighted P graph \<noteq> None"
proof -
  assume g: "graph \<noteq> []"
  obtain ad ns ws where b: "buildWeightedAdj graph = (ad, ns, ws)" by (metis prod_cases3)
  then have "buildUndirectedAdj (unlabelled graph) = (ad, ns)" by (auto simp: buildWeightedAdj_def split: prod.splits)
  with buildUndirectedAdj_nodes g have "ns \<noteq> []"
    by (cases graph) (fastforce simp: unlabelled_def all_nodes_def)+
  with b g levels_ctx_never show ?thesis by (simp add: LouvainWeighted_def LouvainWeightedCtx_def)
qed

text \<open>Resolution 1 is the plain algorithm.\<close>

lemma Louvain_resolution_one: "Louvain P graph = LouvainWithResolution P (one P) graph"
proof -
  have "coreLouvain P = coreLouvainGamma P (one P)" by (simp add: coreLouvain_def fun_eq_iff)
  then show ?thesis by (simp add: Louvain_def LouvainWithResolution_def split: prod.split)
qed

lemma LouvainWeightedCtx_facts:
  assumes "keeps_keys P" and "LouvainWeightedCtx cancel P graph = Some m"
  shows "LouvainWeighted P graph = Some m \<and> partition_of (unlabelled graph) m"
proof -
  obtain ad ns ws where b: "buildWeightedAdj graph = (ad, ns, ws)" by (metis prod_cases3)
  then have u: "buildUndirectedAdj (unlabelled graph) = (ad, ns)" by (auto simp: buildWeightedAdj_def split: prod.splits)
  from assms(2) b obtain nm where g: "graph \<noteq> []" "ns \<noteq> []"
    and nm: "levels_ctx cancel P maxLevels 0 ad ns ws id = Some nm" and m: "m = numbering nm ns"
    by (auto simp: LouvainWeightedCtx_def split: if_splits)
  note never = levels_ctx_same [OF nm, of 0]
  from levels_ctx_within [OF joined_equiv assms(1) never buildUndirectedAdj_within [OF u] start_named]
  have "partition_of (unlabelled graph) m"
    unfolding m by (rule numbering_partition) (use buildUndirectedAdj_nodes [OF u] in simp)
  with g b never m show ?thesis by (simp add: LouvainWeighted_def LouvainWeightedCtx_def)
qed

text \<open>C26: The weighted community detection that the tools run: under any context it answers nil, or exactly what it answers
  when the context is never cancelled, never a partial result. An answer gives every node of the graph a community, numbers
  the communities from 0 without a gap, and puts two nodes in one community only if the undirected graph joins them. This
  holds for any floating-point gain, any comparison of gains and any order in which Go iterates over the map of
  neighbouring communities.\<close>

theorem LouvainWeightedCtx_partition:
  assumes "keeps_keys P" and "LouvainWeightedCtx cancel P graph = Some m"
  shows "LouvainWeighted P graph = Some m \<and> partition_of (unlabelled graph) m"
  by (rule LouvainWeightedCtx_facts [OF assms])

theorem LouvainWeightedCtx_partition_witness:
  "(''a'', ''b'') \<in> joined (unlabelled [(''a'', [(''b'', 1)]), (''c'', [])])"
proof -
  let ?P = "exact_gain rev" and ?g = "[(''a'', [(''b'', 1::int)]), (''c'', [])]"
  have keeps: "keeps_keys ?P" by (simp add: keeps_keys_def exact_gain_def)
  have run: "map_option (\<lambda>m. map m [''a'', ''b'', ''c'']) (LouvainWeightedCtx (Some 9) ?P ?g) =
      Some [Some 0, Some 0, Some 1]"
    by code_simp
  then obtain m where m: "LouvainWeightedCtx (Some 9) ?P ?g = Some m" "m ''a'' = Some 0" "m ''b'' = Some 0" by auto
  from LouvainWeightedCtx_partition [OF keeps m(1)] m(2,3) show ?thesis unfolding partition_of_def by blast
qed

end
