(* ===== verification/Communities.thy ===== *)
theory Communities
  imports Louvain CallGraph
begin

text \<open>
  The call graph as input of the community detection (\<open>internal/impact/community.go\<close>,
  \<open>internal/explore/community.go\<close>). The key of a symbol is an argument: name and file for the impact
  analysis, name and path relative to the root (\<open>filepath.Rel\<close>) for the overview. \<open>ids\<close> is the order in which Go visits
  the map of the groups.
\<close>

subsection \<open>The weighted graph of the calls\<close>

text \<open>\<open>graph[key] = make(\<dots>)\<close> unless it is there, and \<open>graph[from][to]++\<close>.\<close>

definition ensure :: "wgraph \<Rightarrow> string \<Rightarrow> wgraph" where
  "ensure g k = (if k \<in> fst ` set g then g else g @ [(k, [])])"

definition count_edge :: "string \<Rightarrow> (string \<times> int) list \<Rightarrow> (string \<times> int) list" where
  "count_edge t ts =
     (if t \<in> fst ` set ts then map (\<lambda>(u, w). if u = t then (u, w + 1) else (u, w)) ts else ts @ [(t, 1)])"

definition bump :: "wgraph \<Rightarrow> string \<Rightarrow> string \<Rightarrow> wgraph" where
  "bump g from_key to_key =
     map (\<lambda>(k, ts). if k = from_key then (k, count_edge to_key ts) else (k, ts)) (ensure g from_key)"

definition call_step :: "(sym_ref \<Rightarrow> string) \<Rightarrow> wgraph \<Rightarrow> CallEdge \<Rightarrow> wgraph" where
  "call_step key g e =
     (case (ce_Caller e, ce_Callee e) of
        (Some a, Some b) \<Rightarrow>
          if key a = key b then g else bump (bump g (key a) (key b)) (key b) (key a)
      | _ \<Rightarrow> g)"

definition call_weights :: "(sym_ref \<Rightarrow> string) \<Rightarrow> sym_ref list \<Rightarrow> CallEdge list \<Rightarrow> wgraph" where
  "call_weights key syms edges = foldl (call_step key) (foldl (\<lambda>g r. ensure g (key r)) [] syms) edges"

subsection \<open>The communities of the impact analysis\<close>

definition impact_key :: "cg_env \<Rightarrow> sym_ref \<Rightarrow> string" where
  "impact_key E r = sym_Name (store E r) @ '':'' @ sym_File (store E r)"

text \<open>Of several symbols with one key the last one stays in \<open>symByKey\<close>.\<close>

definition sym_by_key :: "cg_env \<Rightarrow> sym_ref list \<Rightarrow> string \<Rightarrow> sym_ref option" where
  "sym_by_key E syms = map_of (rev (map (\<lambda>r. (impact_key E r, r)) syms))"

definition buildCommunityMap :: "('f, 'g) choice \<Rightarrow> cg_env \<Rightarrow> sym_ref list \<Rightarrow> CallEdge list \<Rightarrow> (sym_ref \<rightharpoonup> nat) option" where
  "buildCommunityMap P E syms edges =
     map_option (\<lambda>m r. if sym_by_key E syms (impact_key E r) = Some r then m (impact_key E r) else None)
       (LouvainWeighted P (call_weights (impact_key E) syms edges))"

subsection \<open>The overview of the communities\<close>

record CommunityCluster =
  cc_ID :: nat
  cc_Size :: nat
  cc_Symbols :: "string list"

record CommunityOverview =
  co_Count :: nat
  co_Clusters :: "CommunityCluster list"

definition maxCommunitySymbols :: nat where "maxCommunitySymbols = 5"
definition maxClusters :: nat where "maxClusters = 10"
definition minCommunitySize :: nat where "minCommunitySize = 3"

definition members :: "string list \<Rightarrow> (string \<Rightarrow> nat option) \<Rightarrow> nat \<Rightarrow> string list" where
  "members keys m c = sort (filter (\<lambda>k. m k = Some c) keys)"

definition cluster_of :: "nat \<times> string list \<Rightarrow> CommunityCluster" where
  "cluster_of e = \<lparr>cc_ID = fst e, cc_Size = length (snd e), cc_Symbols = take maxCommunitySymbols (snd e)\<rparr>"

text \<open>\<open>sort.Slice\<close> is not stable; since the groups come in the order of a map, a stable sort of an arbitrary order
  says the same.\<close>

definition summarise :: "string list \<Rightarrow> (nat set \<Rightarrow> nat list) \<Rightarrow> (string \<Rightarrow> nat option) \<Rightarrow> CommunityOverview option" where
  "summarise keys ids m =
     (let groups = map (\<lambda>c. (c, members keys m c)) (ids (set (List.map_filter m keys))) in
      if length groups < 2 then None
      else let nonTrivial = filter (\<lambda>e. length (snd e) \<ge> minCommunitySize) (sort_key (\<lambda>e. - int (length (snd e))) groups) in
        if length nonTrivial < 2 then None
        else Some \<lparr>co_Count = length nonTrivial, co_Clusters = map cluster_of (take maxClusters nonTrivial)\<rparr>)"

definition buildCommunityOverview :: "nat option \<Rightarrow> ('f, 'g) choice \<Rightarrow> (nat set \<Rightarrow> nat list) \<Rightarrow> (sym_ref \<Rightarrow> string) \<Rightarrow> sym_ref list \<Rightarrow>
    CallEdge list \<Rightarrow> CommunityOverview option" where
  "buildCommunityOverview cancel P ids key syms edges =
     (if Err cancel 0 then None
      else let graph = call_weights key syms edges in
        if length graph < 3 then None
        else case LouvainWeightedCtx (map_option (\<lambda>k. k - 1) cancel) P graph of
          None \<Rightarrow> None
        | Some m \<Rightarrow> summarise (map fst graph) ids m)"

subsection \<open>The edges of the graph are calls\<close>

definition called :: "(sym_ref \<Rightarrow> string) \<Rightarrow> CallEdge list \<Rightarrow> (string \<times> string) set" where
  "called key edges = {(key a, key b) | a b. \<exists>e \<in> set edges. ce_Caller e = Some a \<and> ce_Callee e = Some b}"

definition call_joined :: "(sym_ref \<Rightarrow> string) \<Rightarrow> CallEdge list \<Rightarrow> (string \<times> string) set" where
  "call_joined key edges = (called key edges \<union> (called key edges)\<inverse>)\<^sup>*"

definition weight_edges :: "wgraph \<Rightarrow> (string \<times> string) set" where
  "weight_edges g = {(a, b). \<exists>ts w. (a, ts) \<in> set g \<and> (b, w) \<in> set ts}"

lemma weight_edges_unlabelled: "set (edge_list (unlabelled g)) = weight_edges g"
  by (force simp: edge_list_def unlabelled_def weight_edges_def)

lemma weight_edges_ensure [simp]: "weight_edges (ensure g k) = weight_edges g"
  by (auto simp: ensure_def weight_edges_def)

lemma count_edge_targets: "fst ` set (count_edge t ts) = insert t (fst ` set ts)"
  by (force simp: count_edge_def)

lemma weight_edges_alt: "weight_edges g = {(a, b). \<exists>ts. (a, ts) \<in> set g \<and> b \<in> fst ` set ts}"
  by (force simp: weight_edges_def)

lemma weight_edges_bump: "weight_edges (bump g a b) \<subseteq> insert (a, b) (weight_edges g)"
proof -
  have "weight_edges (map (\<lambda>(k, ts). if k = a then (k, count_edge b ts) else (k, ts)) h) \<subseteq> insert (a, b) (weight_edges h)" for h
  proof
    fix p
    assume "p \<in> weight_edges (map (\<lambda>(k, ts). if k = a then (k, count_edge b ts) else (k, ts)) h)"
    then obtain x y us where p: "p = (x, y)" and y: "y \<in> fst ` set us"
      and us: "(x, us) \<in> set (map (\<lambda>(k, ts). if k = a then (k, count_edge b ts) else (k, ts)) h)"
      unfolding weight_edges_alt by blast
    from us obtain ts where "(x, ts) \<in> set h" "us = (if x = a then count_edge b ts else ts)" by (auto split: if_splits)
    with y have ts: "(x, ts) \<in> set h" "y \<in> fst ` set (if x = a then count_edge b ts else ts)" by auto
    from ts show "p \<in> insert (a, b) (weight_edges h)"
      unfolding p weight_edges_alt by (cases "x = a") (auto simp: count_edge_targets)
  qed
  from this [of "ensure g a"] show ?thesis by (simp add: bump_def)
qed

lemma bump_fst: "map fst (bump g a b) = map fst (ensure g a)"
  by (simp add: bump_def case_prod_beta comp_def if_distrib [of fst] cong: if_cong)

lemma weight_edges_call_step:
  "weight_edges (call_step key g e) \<subseteq> weight_edges g \<union> (called key [e] \<union> (called key [e])\<inverse>)"
proof (cases "ce_Caller e")
  case None
  then show ?thesis by (simp add: call_step_def)
next
  case (Some a)
  note caller = Some
  show ?thesis
  proof (cases "ce_Callee e")
    case None
    then show ?thesis by (simp add: call_step_def caller)
  next
    case (Some b)
    have "weight_edges (bump (bump g (key a) (key b)) (key b) (key a)) \<subseteq>
        insert (key b, key a) (insert (key a, key b) (weight_edges g))"
      using weight_edges_bump [of "bump g (key a) (key b)" "key b" "key a"] weight_edges_bump [of g "key a" "key b"] by blast
    moreover have "(key a, key b) \<in> called key [e]" using caller Some by (auto simp: called_def)
    ultimately show ?thesis using caller Some by (auto simp: call_step_def)
  qed
qed

lemma called_append: "called key (es @ es') = called key es \<union> called key es'"
  by (auto simp: called_def)

lemma called_subset: "set es \<subseteq> set es' \<Longrightarrow> called key es \<subseteq> called key es'"
  by (auto simp: called_def)

lemma weight_edges_calls: "weight_edges (call_weights key syms edges) \<subseteq> called key edges \<union> (called key edges)\<inverse>"
proof -
  have start: "weight_edges (foldl (\<lambda>g r. ensure g (key r)) g syms) = weight_edges g" for g
    by (induction syms arbitrary: g) simp_all
  have "weight_edges (foldl (call_step key) g es) \<subseteq> weight_edges g \<union> (called key edges \<union> (called key edges)\<inverse>)"
    if "set es \<subseteq> set edges" for g es
    using that
  proof (induction es arbitrary: g)
    case (Cons e es)
    then have "called key [e] \<subseteq> called key edges" by (intro called_subset) simp
    with weight_edges_call_step [of key g e] Cons.IH [of "call_step key g e"] Cons.prems show ?case by fastforce
  qed simp
  from this [OF subset_refl, of "foldl (\<lambda>g r. ensure g (key r)) [] syms"] start [of "[]"]
  have "weight_edges (call_weights key syms edges) \<subseteq> weight_edges [] \<union> (called key edges \<union> (called key edges)\<inverse>)"
    unfolding call_weights_def by simp
  then show ?thesis by (simp add: weight_edges_def)
qed

lemma joined_calls: "joined (unlabelled (call_weights key syms edges)) \<subseteq> call_joined key edges"
proof -
  have "set (edge_list (unlabelled (call_weights key syms edges))) \<union> (set (edge_list (unlabelled (call_weights key syms edges))))\<inverse>
      \<subseteq> called key edges \<union> (called key edges)\<inverse>"
    using weight_edges_calls [of key syms edges] unfolding weight_edges_unlabelled by auto
  then show ?thesis unfolding joined_def call_joined_def by (rule rtrancl_mono)
qed

lemma call_weights_keys: "distinct (map fst (call_weights key syms edges))"
proof -
  have ens: "distinct (map fst g) \<Longrightarrow> distinct (map fst (ensure g k))" for g :: wgraph and k
    by (auto simp: ensure_def)
  have bump: "distinct (map fst g) \<Longrightarrow> distinct (map fst (bump g a b))" for g a b
    by (metis ens bump_fst)
  have "distinct (map fst g) \<Longrightarrow> distinct (map fst (call_step key g e))" for g e
    by (auto simp: call_step_def bump split: option.split)
  then have steps: "distinct (map fst g) \<Longrightarrow> distinct (map fst (foldl (call_step key) g edges))" for g
    by (induction edges arbitrary: g) auto
  have "distinct (map fst g) \<Longrightarrow> distinct (map fst (foldl (\<lambda>g r. ensure g (key r)) g syms))" for g :: wgraph
    by (induction syms arbitrary: g) (auto simp: ens)
  then show ?thesis unfolding call_weights_def by (intro steps) simp
qed


text \<open>Every end of an edge is a key of the graph.\<close>

lemma call_weights_closed: "set (all_nodes (unlabelled (call_weights key syms edges))) = set (map fst (call_weights key syms edges))"
proof -
  have ens: "fst ` set (ensure g k) = insert k (fst ` set g)" for g k
    by (auto simp: ensure_def)
  have keys: "fst ` set (bump g a b) = insert a (fst ` set g)" for g a b
    using ens [of g a] bump_fst [of g a b] by (metis list.set_map)
  have closed: "snd ` weight_edges (foldl (call_step key) g es) \<subseteq> fst ` set (foldl (call_step key) g es)"
    if "snd ` weight_edges g \<subseteq> fst ` set g" for g es
    using that
  proof (induction es arbitrary: g)
    case (Cons e es)
    have "snd ` weight_edges (call_step key g e) \<subseteq> fst ` set (call_step key g e)"
    proof (cases "\<exists>a b. ce_Caller e = Some a \<and> ce_Callee e = Some b \<and> key a \<noteq> key b")
      case True
      then obtain a b where ab: "ce_Caller e = Some a" "ce_Callee e = Some b" "key a \<noteq> key b" by blast
      have "weight_edges (bump (bump g (key a) (key b)) (key b) (key a)) \<subseteq>
          insert (key b, key a) (insert (key a, key b) (weight_edges g))"
        using weight_edges_bump [of "bump g (key a) (key b)" "key b" "key a"] weight_edges_bump [of g "key a" "key b"] by blast
      then have "snd ` weight_edges (bump (bump g (key a) (key b)) (key b) (key a)) \<subseteq>
          snd ` insert (key b, key a) (insert (key a, key b) (weight_edges g))" by (rule image_mono)
      then have "snd ` weight_edges (bump (bump g (key a) (key b)) (key b) (key a)) \<subseteq>
          insert (key a) (insert (key b) (snd ` weight_edges g))" by simp
      also have "\<dots> \<subseteq> insert (key a) (insert (key b) (fst ` set g))" by (intro insert_mono Cons.prems)
      finally have "snd ` weight_edges (bump (bump g (key a) (key b)) (key b) (key a)) \<subseteq>
          insert (key b) (insert (key a) (fst ` set g))" by (simp only: insert_commute)
      with ab show ?thesis by (simp add: call_step_def keys)
    next
      case False
      then have "call_step key g e = g" by (auto simp: call_step_def split: option.split)
      with Cons.prems show ?thesis by simp
    qed
    then show ?case using Cons.IH by simp
  qed simp
  have "weight_edges (foldl (\<lambda>g r. ensure g (key r)) [] syms) = {}"
  proof -
    have "weight_edges (foldl (\<lambda>g r. ensure g (key r)) g syms) = weight_edges g" for g
      by (induction syms arbitrary: g) simp_all
    then show ?thesis by (simp add: weight_edges_def)
  qed
  then have "snd ` weight_edges (call_weights key syms edges) \<subseteq> fst ` set (call_weights key syms edges)"
    unfolding call_weights_def by (intro closed) simp
  then have ends: "b \<in> fst ` set (call_weights key syms edges)" if "(a, b) \<in> weight_edges (call_weights key syms edges)" for a b
    using that by (metis image_subset_iff snd_conv)
  show ?thesis
  proof (intro equalityI subsetI)
    fix x
    assume "x \<in> set (all_nodes (unlabelled (call_weights key syms edges)))"
    then obtain a ts where a: "(a, ts) \<in> set (call_weights key syms edges)" "x = a \<or> x \<in> fst ` set ts"
      by (auto simp: all_nodes_def unlabelled_def)
    then have "x = a \<or> (a, x) \<in> weight_edges (call_weights key syms edges)" unfolding weight_edges_alt by blast
    with a(1) ends show "x \<in> set (map fst (call_weights key syms edges))" by force
  next
    fix x
    assume "x \<in> set (map fst (call_weights key syms edges))"
    then show "x \<in> set (all_nodes (unlabelled (call_weights key syms edges)))" by (force simp: all_nodes_def unlabelled_def)
  qed
qed

subsection \<open>What the overview promises\<close>

text \<open>\<open>ids\<close> lists each number once.\<close>

definition lists_each :: "(nat set \<Rightarrow> nat list) \<Rightarrow> bool" where
  "lists_each ids \<longleftrightarrow> (\<forall>S. finite S \<longrightarrow> set (ids S) = S \<and> distinct (ids S))"

definition cluster_ok :: "(sym_ref \<Rightarrow> string) \<Rightarrow> CallEdge list \<Rightarrow> CommunityCluster \<Rightarrow> bool" where
  "cluster_ok key edges c \<longleftrightarrow>
     minCommunitySize \<le> cc_Size c \<and> length (cc_Symbols c) = min maxCommunitySymbols (cc_Size c) \<and>
     sorted (cc_Symbols c) \<and> distinct (cc_Symbols c) \<and>
     (\<forall>a \<in> set (cc_Symbols c). \<forall>b \<in> set (cc_Symbols c). (a, b) \<in> call_joined key edges)"

definition overview_ok :: "(sym_ref \<Rightarrow> string) \<Rightarrow> CallEdge list \<Rightarrow> CommunityOverview \<Rightarrow> bool" where
  "overview_ok key edges ov \<longleftrightarrow>
     2 \<le> co_Count ov \<and> length (co_Clusters ov) = min maxClusters (co_Count ov) \<and>
     distinct (map cc_ID (co_Clusters ov)) \<and> sorted_wrt (\<ge>) (map cc_Size (co_Clusters ov)) \<and>
     list_all (cluster_ok key edges) (co_Clusters ov)"

lemma members_facts:
  assumes "distinct keys"
  shows "sorted (members keys m c)" "distinct (members keys m c)" "a \<in> set (members keys m c) \<longleftrightarrow> a \<in> set keys \<and> m a = Some c"
  using assms by (auto simp: members_def)

lemma summarise_ok:
  assumes keys: "distinct keys" and ids: "lists_each ids"
    and joined: "\<And>a b c. m a = Some c \<Longrightarrow> m b = Some c \<Longrightarrow> (a, b) \<in> call_joined key edges"
    and ov: "summarise keys ids m = Some ov"
  shows "overview_ok key edges ov"
proof -
  define cs where "cs = ids (set (List.map_filter m keys))"
  define groups where "groups = map (\<lambda>c. (c, members keys m c)) cs"
  define kept where "kept = filter (\<lambda>e. length (snd e) \<ge> minCommunitySize) (sort_key (\<lambda>e. - int (length (snd e))) groups)"
  have "distinct cs" using ids by (simp add: lists_each_def cs_def)
  then have "distinct (map fst groups)" by (simp add: groups_def comp_def)
  then have "distinct (map fst (sort_key (\<lambda>e. - int (length (snd e))) groups))"
    by (metis distinct_map distinct_sort set_sort)
  then have dist: "distinct (map fst kept)" by (simp add: kept_def distinct_map_filter)
  have mem: "snd e = members keys m (fst e) \<and> minCommunitySize \<le> length (snd e)" if "e \<in> set kept" for e
    using that by (auto simp: kept_def groups_def)
  have "sorted (map (\<lambda>e. - int (length (snd e))) kept)" unfolding kept_def by (rule sorted_filter) simp
  then have desc: "sorted_wrt (\<lambda>e f. length (snd e) \<ge> length (snd f)) kept"
    by (simp add: sorted_wrt_map)
  from ov have two: "2 \<le> length kept"
    and ov': "ov = \<lparr>co_Count = length kept, co_Clusters = map cluster_of (take maxClusters kept)\<rparr>"
    by (auto simp: summarise_def Let_def cs_def groups_def kept_def split: if_splits)
  have ok: "cluster_ok key edges (cluster_of e)" if "e \<in> set kept" for e
  proof -
    note e = mem [OF that]
    have sub: "set (take maxCommunitySymbols (snd e)) \<subseteq> set (snd e)" by (rule set_take_subset)
    have "(a, b) \<in> call_joined key edges" if "a \<in> set (snd e)" "b \<in> set (snd e)" for a b
      using that e members_facts(3) [OF keys] by (intro joined [of _ "fst e"]) auto
    with e sub show ?thesis
      using members_facts(1,2) [OF keys, of m "fst e"]
      by (auto simp: cluster_ok_def cluster_of_def sorted_wrt_take)
  qed
  have "distinct (map fst (take maxClusters kept))" using dist by (simp add: take_map [symmetric])
  then have "distinct (map cc_ID (map cluster_of (take maxClusters kept)))"
    by (simp add: cluster_of_def comp_def)
  moreover have "sorted_wrt (\<ge>) (map cc_Size (map cluster_of (take maxClusters kept)))"
    using sorted_wrt_take [OF desc] by (simp add: sorted_wrt_map cluster_of_def)
  moreover have "list_all (cluster_ok key edges) (map cluster_of (take maxClusters kept))"
    using ok by (auto simp: list_all_iff dest: in_set_takeD)
  ultimately show ?thesis using two unfolding ov' overview_ok_def by (simp add: min.commute del: map_map)
qed

text \<open>The communities that are large enough to be shown.\<close>

definition large :: "(string \<Rightarrow> nat option) \<Rightarrow> nat set" where
  "large m = {c. minCommunitySize \<le> card {k. m k = Some c}}"

lemma members_length: "distinct keys \<Longrightarrow> dom m \<subseteq> set keys \<Longrightarrow> length (members keys m c) = card {k. m k = Some c}"
proof -
  assume "distinct keys" and dom: "dom m \<subseteq> set keys"
  then have "length (members keys m c) = card (set (filter (\<lambda>k. m k = Some c) keys))"
    by (simp add: members_def distinct_card [symmetric])
  also have "set (filter (\<lambda>k. m k = Some c) keys) = {k. m k = Some c}" using dom by auto
  finally show ?thesis .
qed

lemma summarise_count:
  assumes keys: "distinct keys" "dom m \<subseteq> set keys" and ids: "lists_each ids"
  shows "case summarise keys ids m of None \<Rightarrow> card (large m) < 2 | Some ov \<Rightarrow> co_Count ov = card (large m)"
proof -
  define cs where "cs = ids (set (List.map_filter m keys))"
  define groups where "groups = map (\<lambda>c. (c, members keys m c)) cs"
  define kept where "kept = filter (\<lambda>e. length (snd e) \<ge> minCommunitySize) (sort_key (\<lambda>e. - int (length (snd e))) groups)"
  have cs: "distinct cs" "set cs = set (List.map_filter m keys)" using ids by (simp_all add: lists_each_def cs_def)
  have "c \<in> set cs" if "c \<in> large m" for c
  proof -
    from that have "0 < card {k. m k = Some c}" by (simp add: large_def minCommunitySize_def)
    then have "{k. m k = Some c} \<noteq> {}" by (metis card.empty less_irrefl)
    then obtain k where "m k = Some c" by blast
    with keys(2) show ?thesis unfolding cs(2) by (force simp: List.map_filter_def)
  qed
  then have large: "large m = set (filter (\<lambda>c. minCommunitySize \<le> length (members keys m c)) cs)"
    using members_length [OF keys] by (auto simp: large_def)
  have "length kept = length (filter (\<lambda>e. length (snd e) \<ge> minCommunitySize) groups)"
    unfolding kept_def by (simp only: filter_sort length_sort)
  also have "\<dots> = length (filter (\<lambda>c. minCommunitySize \<le> length (members keys m c)) cs)"
    by (simp add: groups_def filter_map comp_def)
  also have "\<dots> = card (large m)" unfolding large using cs(1) by (simp add: distinct_card [symmetric])
  finally have count: "length kept = card (large m)" .
  have "card (large m) \<le> length groups"
    unfolding large groups_def length_map by (metis card_length le_trans length_filter_le)
  with count show ?thesis
    by (auto simp: summarise_def Let_def kept_def groups_def cs_def split: if_splits)
qed

text \<open>
  The clusters of the overview are communities of the partition with their sizes and first members, and no community that is
  left out is larger than one that is shown.
\<close>

definition members_of :: "(string \<Rightarrow> nat option) \<Rightarrow> nat \<Rightarrow> string set" where
  "members_of m c = {k. m k = Some c}"

definition shows_largest :: "(string \<Rightarrow> nat option) \<Rightarrow> CommunityOverview \<Rightarrow> bool" where
  "shows_largest m ov \<longleftrightarrow>
     list_all (\<lambda>cl. cc_ID cl \<in> large m \<and> cc_Size cl = card (members_of m (cc_ID cl)) \<and>
         cc_Symbols cl = take maxCommunitySymbols (sorted_list_of_set (members_of m (cc_ID cl))) \<and>
         (\<forall>c\<in>large m. c \<in> set (map cc_ID (co_Clusters ov)) \<or> card (members_of m c) \<le> cc_Size cl)) (co_Clusters ov)"

lemma members_sorted: "distinct keys \<Longrightarrow> dom m \<subseteq> set keys \<Longrightarrow> members keys m c = sorted_list_of_set (members_of m c)"
proof -
  assume keys: "distinct keys" "dom m \<subseteq> set keys"
  have "set (members keys m c) = members_of m c" using members_facts(3) [OF keys(1)] keys(2) by (auto simp: members_of_def)
  then show ?thesis using members_facts(1,2) [OF keys(1), of m c] by (metis sorted_list_of_set.idem_if_sorted_distinct)
qed

lemma summarise_largest:
  assumes keys: "distinct keys" "dom m \<subseteq> set keys" and ids: "lists_each ids" and ov: "summarise keys ids m = Some ov"
  shows "shows_largest m ov"
proof -
  define cs where "cs = ids (set (List.map_filter m keys))"
  define groups where "groups = map (\<lambda>c. (c, members keys m c)) cs"
  define kept where "kept = filter (\<lambda>e. length (snd e) \<ge> minCommunitySize) (sort_key (\<lambda>e. - int (length (snd e))) groups)"
  from ov have ov': "co_Clusters ov = map cluster_of (take maxClusters kept)"
    by (auto simp: summarise_def Let_def cs_def groups_def kept_def split: if_splits)
  have len: "length (members keys m c) = card (members_of m c)" for c using members_length [OF keys] by (simp add: members_of_def)
  have cs: "set cs = set (List.map_filter m keys)" using ids by (simp add: lists_each_def cs_def)
  have in_cs: "c \<in> set cs" if "c \<in> large m" for c
  proof -
    from that have "0 < card (members_of m c)" by (simp add: large_def members_of_def minCommunitySize_def)
    then have "members_of m c \<noteq> {}" by auto
    then obtain k where "m k = Some c" by (auto simp: members_of_def)
    with keys(2) show ?thesis unfolding cs by (force simp: List.map_filter_def)
  qed
  have kept: "(c, xs) \<in> set kept \<longleftrightarrow> c \<in> set cs \<and> xs = members keys m c \<and> c \<in> large m" for c xs
    using len [of c] by (auto simp: kept_def groups_def large_def members_of_def)
  have "sorted (map (\<lambda>e. - int (length (snd e))) kept)" unfolding kept_def by (rule sorted_filter) simp
  then have desc: "sorted_wrt (\<lambda>e f. length (snd e) \<ge> length (snd f)) kept"
    by (simp add: sorted_wrt_map)
  have split: "kept = take maxClusters kept @ drop maxClusters kept" by simp
  have below: "length (snd f) \<le> length (snd e)" if "e \<in> set (take maxClusters kept)" "f \<in> set (drop maxClusters kept)" for e f
    using desc that by (metis split sorted_wrt_append)
  have one: "cc_ID (cluster_of e) \<in> large m \<and> cc_Size (cluster_of e) = card (members_of m (cc_ID (cluster_of e))) \<and>
      cc_Symbols (cluster_of e) = take maxCommunitySymbols (sorted_list_of_set (members_of m (cc_ID (cluster_of e)))) \<and>
      (\<forall>c\<in>large m. c \<in> set (map cc_ID (co_Clusters ov)) \<or> card (members_of m c) \<le> cc_Size (cluster_of e))"
    if e: "e \<in> set (take maxClusters kept)" for e
  proof (intro conjI ballI)
    obtain c xs where cx: "e = (c, xs)" by (cases e)
    from e have "e \<in> set kept" by (rule in_set_takeD)
    with cx kept have c: "c \<in> large m" "xs = members keys m c" by auto
    with cx show "cc_ID (cluster_of e) \<in> large m" by (simp add: cluster_of_def)
    from c cx len show "cc_Size (cluster_of e) = card (members_of m (cc_ID (cluster_of e)))" by (simp add: cluster_of_def)
    from c cx members_sorted [OF keys]
    show "cc_Symbols (cluster_of e) = take maxCommunitySymbols (sorted_list_of_set (members_of m (cc_ID (cluster_of e))))"
      by (simp add: cluster_of_def)
    fix d
    assume d: "d \<in> large m"
    let ?f = "(d, members keys m d)"
    from d in_cs kept have "?f \<in> set kept" by simp
    then have "?f \<in> set (take maxClusters kept) \<union> set (drop maxClusters kept)" by (metis split set_append)
    then show "d \<in> set (map cc_ID (co_Clusters ov)) \<or> card (members_of m d) \<le> cc_Size (cluster_of e)"
    proof
      assume "?f \<in> set (take maxClusters kept)"
      then have "cc_ID (cluster_of ?f) \<in> set (map cc_ID (co_Clusters ov))" unfolding ov' by force
      then show ?thesis by (simp add: cluster_of_def)
    next
      assume "?f \<in> set (drop maxClusters kept)"
      from below [OF e this] len [of d] show ?thesis by (simp add: cluster_of_def)
    qed
  qed
  show ?thesis unfolding shows_largest_def list_all_iff
  proof
    fix cl
    assume "cl \<in> set (co_Clusters ov)"
    then obtain e where "e \<in> set (take maxClusters kept)" "cl = cluster_of e" unfolding ov' by auto
    with one show "cc_ID cl \<in> large m \<and> cc_Size cl = card (members_of m (cc_ID cl)) \<and>
         cc_Symbols cl = take maxCommunitySymbols (sorted_list_of_set (members_of m (cc_ID cl))) \<and>
         (\<forall>c\<in>large m. c \<in> set (map cc_ID (co_Clusters ov)) \<or> card (members_of m c) \<le> cc_Size cl)" by blast
  qed
qed

text \<open>What the overview relies on: the partition of the call graph, which has no large community when it has fewer than three symbols.\<close>

lemma call_partition:
  assumes "keeps_keys P" and "LouvainWeightedCtx c P (call_weights key syms edges) = Some m"
  shows "LouvainWeighted P (call_weights key syms edges) = Some m \<and> distinct (map fst (call_weights key syms edges)) \<and>
    dom m = set (map fst (call_weights key syms edges)) \<and>
    (\<forall>a b c. m a = Some c \<longrightarrow> m b = Some c \<longrightarrow> (a, b) \<in> call_joined key edges)"
proof (intro conjI allI impI)
  let ?g = "call_weights key syms edges"
  note f = LouvainWeightedCtx_facts [OF assms]
  show "LouvainWeighted P ?g = Some m" using f by (rule conjunct1)
  show "distinct (map fst ?g)" by (rule call_weights_keys)
  show "dom m = set (map fst ?g)"
    using f call_weights_closed [of key syms edges] by (simp only: partition_of_def)
  fix a b c
  assume "m a = Some c" "m b = Some c"
  then have "(a, b) \<in> joined (unlabelled ?g)" using f unfolding partition_of_def by blast
  then show "(a, b) \<in> call_joined key edges" using joined_calls by (rule rev_subsetD)
qed

lemma few_keys_none_large:
  assumes "dom m \<subseteq> set xs" and "length xs < minCommunitySize"
  shows "large m = {}"
proof -
  have "card {k. m k = Some c} \<le> card (set xs)" for c
    by (rule card_mono) (use assms(1) in auto)
  then have "card {k. m k = Some c} < minCommunitySize" for c
    using assms(2) card_length [of xs] by (metis order_le_less_trans)
  then show ?thesis by (auto simp: large_def not_le)
qed

text \<open>C27: The overview of the communities of a call graph. When there is one, it counts the communities of at least three
  symbols, which are two or more, and shows at most ten of them, the larger ones first and each once, with its size and its first
  five symbols in order; no community that is left out is larger than one that is shown, and any two symbols that are shown
  together are joined by calls. When there is none, the context was cancelled, there are no symbols or calls, or fewer than two
  communities have three symbols. This holds for any gain and any order of the maps.\<close>

theorem buildCommunityOverview_exact:
  assumes "keeps_keys P" and "lists_each ids"
  shows "case buildCommunityOverview cancel P ids key syms edges of
      None \<Rightarrow> cancel \<noteq> None \<or> call_weights key syms edges = [] \<or>
        (\<exists>m. LouvainWeighted P (call_weights key syms edges) = Some m \<and> card (large m) < 2)
    | Some ov \<Rightarrow> overview_ok key edges ov \<and>
        (\<exists>m. LouvainWeighted P (call_weights key syms edges) = Some m \<and> co_Count ov = card (large m) \<and> shows_largest m ov)"
proof -
  let ?g = "call_weights key syms edges" and ?cancel = "map_option (\<lambda>k. k - 1) cancel"
  note part = call_partition [OF assms(1), of _ key syms edges]
  show ?thesis
  proof (cases "buildCommunityOverview cancel P ids key syms edges")
    case (Some ov)
    then obtain m where m: "LouvainWeightedCtx ?cancel P ?g = Some m" "summarise (map fst ?g) ids m = Some ov"
      by (auto simp: buildCommunityOverview_def Let_def split: if_splits option.splits)
    note p = part [OF m(1)]
    from summarise_ok [OF call_weights_keys assms(2) _ m(2)] p have "overview_ok key edges ov" by blast
    moreover from summarise_count [of "map fst ?g" m ids, OF call_weights_keys _ assms(2)] p m(2) have "co_Count ov = card (large m)" by simp
    moreover from summarise_largest [OF call_weights_keys _ assms(2) m(2)] p have "shows_largest m ov" by simp
    ultimately show ?thesis using Some p by auto
  next
    case None
    show ?thesis
    proof (cases "cancel \<noteq> None \<or> ?g = []")
      case True
      with None show ?thesis by auto
    next
      case False
      then obtain m where m: "LouvainWeightedCtx None P ?g = Some m"
        using LouvainWeighted_some [of ?g P] by (auto simp: LouvainWeighted_def)
      note p = part [OF m]
      have "card (large m) < 2"
      proof (cases "length ?g < 3")
        case True
        with p few_keys_none_large [of m "map fst ?g"] show ?thesis by (simp add: minCommunitySize_def)
      next
        case big: False
        with None False m have "summarise (map fst ?g) ids m = None"
          by (simp add: buildCommunityOverview_def Err_def)
        with summarise_count [of "map fst ?g" m ids, OF call_weights_keys _ assms(2)] p show ?thesis by simp
      qed
      with None p show ?thesis by auto
    qed
  qed
qed

theorem buildCommunityOverview_exact_witness:
  "case buildCommunityOverview None (exact_gain rev) sorted_list_of_set (\<lambda>r. [char_of r]) [0, 1, 2] [] of
      None \<Rightarrow> \<exists>m. LouvainWeighted (exact_gain rev) (call_weights (\<lambda>r. [char_of r]) [0, 1, 2] []) = Some m \<and> card (large m) < 2
    | Some ov \<Rightarrow> overview_ok (\<lambda>r. [char_of r]) [] ov"
proof -
  let ?key = "\<lambda>r :: nat. [char_of r :: char]"
  have "keeps_keys (exact_gain rev)" by (simp add: keeps_keys_def exact_gain_def)
  moreover have "lists_each sorted_list_of_set" by (simp add: lists_each_def)
  moreover have "call_weights ?key [0, 1, 2] [] \<noteq> []" by (simp add: call_weights_def ensure_def)
  ultimately show ?thesis
    using buildCommunityOverview_exact [of "exact_gain rev" sorted_list_of_set None ?key "[0, 1, 2]" "[]"]
    by (auto split: option.splits)
qed

text \<open>A partition with two communities of three or more symbols gives an overview.\<close>

lemma summarise_small:
  "summarise [''a'', ''b'', ''c'', ''d'', ''e'', ''f'', ''g''] (\<lambda>S. [0, 1])
     [''a'' \<mapsto> 0, ''b'' \<mapsto> 0, ''c'' \<mapsto> 0, ''d'' \<mapsto> 1, ''e'' \<mapsto> 1, ''f'' \<mapsto> 1, ''g'' \<mapsto> 1]
   = Some \<lparr>co_Count = 2, co_Clusters =
       [\<lparr>cc_ID = 1, cc_Size = 4, cc_Symbols = [''d'', ''e'', ''f'', ''g'']\<rparr>,
        \<lparr>cc_ID = 0, cc_Size = 3, cc_Symbols = [''a'', ''b'', ''c'']\<rparr>]\<rparr>"
  by code_simp

subsection \<open>The communities of the impact analysis are joined by calls\<close>

lemma buildCommunityMap_joined:
  assumes "keeps_keys P" and "buildCommunityMap P E syms edges = Some m" and "m r = Some c" and "m s = Some c"
  shows "(impact_key E r, impact_key E s) \<in> call_joined (impact_key E) edges"
proof -
  obtain n where n: "LouvainWeighted P (call_weights (impact_key E) syms edges) = Some n"
    and m: "m = (\<lambda>r. if sym_by_key E syms (impact_key E r) = Some r then n (impact_key E r) else None)"
    using assms(2) by (auto simp: buildCommunityMap_def)
  have "LouvainWeightedCtx None P (call_weights (impact_key E) syms edges) = Some n"
    using n by (simp add: LouvainWeighted_def)
  note part = conjunct2 [OF LouvainWeightedCtx_facts [OF assms(1) this]]
  have "n (impact_key E r) = Some c" "n (impact_key E s) = Some c" using assms(3,4) m by (auto split: if_splits)
  with part have "(impact_key E r, impact_key E s) \<in> joined (unlabelled (call_weights (impact_key E) syms edges))"
    unfolding partition_of_def by blast
  then show ?thesis using joined_calls by (rule rev_subsetD)
qed

text \<open>Two methods of one name in one file share a key; the one that comes first has no community, whatever the graph.\<close>

lemma shadowed_symbol_has_no_community:
  assumes "buildCommunityMap P E (rs @ r # rs' @ s # ts) edges = Some m" and "r \<noteq> s"
    and "impact_key E r = impact_key E s" and "r \<notin> set ts"
  shows "m r = None"
proof -
  have "sym_by_key E (rs @ r # rs' @ s # ts) (impact_key E r) \<noteq> Some r"
  proof (cases "map_of (rev (map (\<lambda>r. (impact_key E r, r)) ts)) (impact_key E s)")
    case None
    with assms(2,3) show ?thesis by (simp add: sym_by_key_def map_add_def)
  next
    case (Some x)
    then have "x \<in> set ts" by (auto dest!: map_of_SomeD)
    with Some assms(3,4) show ?thesis by (auto simp: sym_by_key_def map_add_def)
  qed
  with assms(1) show ?thesis by (auto simp: buildCommunityMap_def)
qed

end
