(* ===== verification/GoUtf8.thy ===== *)
theory GoUtf8
  imports GoStrings
begin

text \<open>
  UTF-8 as Go's \<open>unicode/utf8\<close> and \<open>strings.TrimSpace\<close> read it, on strings of bytes: the width of the first
  rune (an invalid byte is a rune of width 1), counting and taking runes, validity, and the trimming of every
  white space of \<open>unicode.IsSpace\<close>.
\<close>

definition byte :: "char \<Rightarrow> nat" where
  "byte c = of_char c"

definition in_range :: "nat \<Rightarrow> nat \<Rightarrow> char \<Rightarrow> bool" where
  "in_range lo hi c \<longleftrightarrow> lo \<le> byte c \<and> byte c \<le> hi"

definition cont :: "char \<Rightarrow> bool" where
  "cont c = in_range 0x80 0xBF c"

text \<open>The range that the second byte must lie in, after a first byte of a sequence of two or more.\<close>

definition second_ok :: "char \<Rightarrow> char \<Rightarrow> bool" where
  "second_ok b c =
     (if byte b = 0xE0 then in_range 0xA0 0xBF c
      else if byte b = 0xED then in_range 0x80 0x9F c
      else if byte b = 0xF0 then in_range 0x90 0xBF c
      else if byte b = 0xF4 then in_range 0x80 0x8F c
      else cont c)"

text \<open>The number of bytes of the valid encoding that a string starts with.\<close>

definition valid_width :: "string \<Rightarrow> nat option" where
  "valid_width s =
     (case s of
        [] \<Rightarrow> None
      | b # s1 \<Rightarrow>
          if byte b < 0x80 then Some 1
          else if in_range 0xC2 0xDF b then (if s1 \<noteq> [] \<and> second_ok b (s1 ! 0) then Some 2 else None)
          else if in_range 0xE0 0xEF b then
            (if length s1 \<ge> 2 \<and> second_ok b (s1 ! 0) \<and> cont (s1 ! 1) then Some 3 else None)
          else if in_range 0xF0 0xF4 b then
            (if length s1 \<ge> 3 \<and> second_ok b (s1 ! 0) \<and> cont (s1 ! 1) \<and> cont (s1 ! 2) then Some 4 else None)
          else None)"

definition rune_width :: "string \<Rightarrow> nat" where
  "rune_width s = (if s = [] then 0 else case valid_width s of None \<Rightarrow> 1 | Some w \<Rightarrow> w)"

lemma valid_width_bounds: "valid_width s = Some w \<Longrightarrow> 0 < w \<and> w \<le> length s"
  by (cases s) (auto simp: valid_width_def Suc_le_eq split: if_splits)

lemma rune_width_pos: "s \<noteq> [] \<Longrightarrow> 0 < rune_width s"
  using valid_width_bounds by (auto simp: rune_width_def split: option.split)

lemma rune_width_le: "rune_width s \<le> length s"
  using valid_width_bounds [of s] by (cases s) (auto simp: rune_width_def split: option.split)

lemma rune_width_Nil [simp]: "rune_width [] = 0"
  by (simp add: rune_width_def)

text \<open>Only the bytes of the encoding matter.\<close>

lemma valid_width_append: "valid_width s = Some w \<Longrightarrow> valid_width (s @ t) = Some w"
  by (cases s) (auto simp: valid_width_def nth_append split: if_splits)

lemma valid_width_take: "valid_width s = Some w \<Longrightarrow> w \<le> k \<Longrightarrow> valid_width (take k s) = Some w"
  by (cases s; cases k) (auto simp: valid_width_def split: if_splits)

lemma rune_width_take:
  assumes "rune_width s \<le> k"
  shows "rune_width (take k s) = rune_width s"
proof (cases "valid_width s")
  case (Some w)
  with assms valid_width_take [of s w k] show ?thesis by (cases s; cases k) (auto simp: rune_width_def)
next
  case None
  have "valid_width (take k s) = None"
  proof (rule ccontr)
    assume "valid_width (take k s) \<noteq> None"
    then obtain w where "valid_width (take k s) = Some w" by auto
    from valid_width_append [OF this, of "drop k s"] None show False by simp
  qed
  with None assms show ?thesis by (cases s; cases k) (auto simp: rune_width_def)
qed

lemma valid_width_append_ascii:
  assumes "byte c < 0x80" and "s \<noteq> []"
  shows "valid_width (s @ c # t) = valid_width s"
proof -
  have c: "\<not> cont c" "\<not> second_ok b c" for b
    using assms(1) by (auto simp: cont_def second_ok_def in_range_def)
  obtain b s1 where s: "s = b # s1" using assms(2) by (cases s) auto
  consider "s1 = []" | x where "s1 = [x]" | x y where "s1 = [x, y]" | x y z u where "s1 = x # y # z # u"
    by (metis list.exhaust)
  then show ?thesis by cases (use c in \<open>simp_all add: valid_width_def s\<close>)
qed

lemma rune_width_append_ascii: "byte c < 0x80 \<Longrightarrow> s \<noteq> [] \<Longrightarrow> rune_width (s @ c # t) = rune_width s"
  by (simp add: rune_width_def valid_width_append_ascii)

subsection \<open>Counting and taking runes\<close>

function rune_count :: "string \<Rightarrow> nat" where
  "rune_count s = (if s = [] then 0 else Suc (rune_count (drop (rune_width s) s)))"
  by pat_completeness auto
termination
  by (relation "measure length") (auto simp: rune_width_pos)

declare rune_count.simps [simp del]

lemma rune_count_Nil [simp]: "rune_count [] = 0"
  by (simp add: rune_count.simps)

lemma rune_count_step: "s \<noteq> [] \<Longrightarrow> rune_count s = Suc (rune_count (drop (rune_width s) s))"
  by (simp add: rune_count.simps [of s])

text \<open>The bytes of the first \<open>n\<close> runes, as the loops over \<open>DecodeRuneInString\<close> find them.\<close>

fun rune_offset :: "nat \<Rightarrow> string \<Rightarrow> nat" where
  "rune_offset 0 s = 0"
| "rune_offset (Suc n) s = rune_width s + rune_offset n (drop (rune_width s) s)"

lemma rune_offset_le: "rune_offset n s \<le> length s"
proof (induction n arbitrary: s)
  case (Suc n)
  have "rune_offset n (drop (rune_width s) s) \<le> length s - rune_width s" using Suc [of "drop (rune_width s) s"] by simp
  then show ?case using rune_width_le [of s] by simp
qed simp

lemma rune_count_take: "rune_count (take (rune_offset n s) s) \<le> n"
proof (induction n arbitrary: s)
  case 0
  then show ?case by simp
next
  case (Suc n)
  show ?case
  proof (cases "s = []")
    case True
    then show ?thesis by simp
  next
    case False
    let ?w = "rune_width s" and ?k = "rune_width s + rune_offset n (drop (rune_width s) s)"
    have w: "rune_width (take ?k s) = ?w" by (rule rune_width_take) simp
    have "take ?k s \<noteq> []" using False rune_width_pos [OF False] by simp
    moreover have "drop ?w (take ?k s) = take (rune_offset n (drop ?w s)) (drop ?w s)" by (simp add: drop_take)
    ultimately show ?thesis using Suc [of "drop ?w s"] w by (simp add: rune_count_step)
  qed
qed

lemma rune_count_append_ascii:
  "byte c < 0x80 \<Longrightarrow> rune_count (s @ c # t) = rune_count s + rune_count (c # t)"
proof (induction s rule: rune_count.induct)
  case (1 s)
  show ?case
  proof (cases "s = []")
    case True
    then show ?thesis by simp
  next
    case False
    have "drop (rune_width s) (s @ c # t) = drop (rune_width s) s @ c # t"
      using rune_width_le [of s] by simp
    with 1(1) [OF False 1(2)] False 1(2) show ?thesis
      by (simp add: rune_count_step [of "s @ c # t"] rune_count_step [of s] rune_width_append_ascii)
  qed
qed

lemma rune_count_take_le: "rune_count (take (rune_offset n s) s) \<le> rune_count s"
proof (induction n arbitrary: s)
  case (Suc n)
  show ?case
  proof (cases "s = []")
    case False
    let ?w = "rune_width s" and ?k = "rune_width s + rune_offset n (drop (rune_width s) s)"
    have w: "rune_width (take ?k s) = ?w" by (rule rune_width_take) simp
    have "take ?k s \<noteq> []" using False rune_width_pos [OF False] by simp
    moreover have "drop ?w (take ?k s) = take (rune_offset n (drop ?w s)) (drop ?w s)" by (simp add: drop_take)
    ultimately show ?thesis using Suc [of "drop ?w s"] w False by (simp add: rune_count_step)
  qed simp
qed simp

text \<open>An ASCII byte is a rune of its own: runes are taken on its left first, then on its right.\<close>

lemma rune_offset_Nil [simp]: "rune_offset n [] = 0"
  by (induction n) simp_all

lemma rune_offset_append_ascii:
  assumes "byte c < 0x80"
  shows "rune_offset n (s @ c # t) =
    (if n \<le> rune_count s then rune_offset n s else length s + 1 + rune_offset (n - rune_count s - 1) t)"
proof (induction n arbitrary: s)
  case (Suc n)
  show ?case
  proof (cases "s = []")
    case True
    with assms show ?thesis by (simp add: rune_width_def valid_width_def)
  next
    case False
    have "drop (rune_width s) (s @ c # t) = drop (rune_width s) s @ c # t" using rune_width_le [of s] by simp
    then have "rune_offset (Suc n) (s @ c # t) = rune_width s + rune_offset n (drop (rune_width s) s @ c # t)"
      using rune_width_append_ascii [OF assms False] by simp
    with Suc [of "drop (rune_width s) s"] False rune_width_le [of s] show ?thesis by (simp add: rune_count_step)
  qed
qed simp

function valid_string :: "string \<Rightarrow> bool" where
  "valid_string s =
     (case valid_width s of None \<Rightarrow> s = [] | Some w \<Rightarrow> valid_string (drop w s))"
  by pat_completeness auto
termination
proof (relation "measure length", goal_cases)
  case (2 s w)
  with valid_width_bounds [of s w] show ?case by (auto intro!: diff_less)
qed simp

declare valid_string.simps [simp del]

subsection \<open>White space\<close>

definition space_codes :: "string list" where
  "space_codes =
     map (\<lambda>c. [c]) [CHR '' '', CHR 0x09, CHR 0x0A, CHR 0x0B, CHR 0x0C, CHR 0x0D] @
     [[CHR 0xC2, CHR 0x85], [CHR 0xC2, CHR 0xA0], [CHR 0xE1, CHR 0x9A, CHR 0x80],
      [CHR 0xE2, CHR 0x80, CHR 0xA8], [CHR 0xE2, CHR 0x80, CHR 0xA9], [CHR 0xE2, CHR 0x80, CHR 0xAF],
      [CHR 0xE2, CHR 0x81, CHR 0x9F], [CHR 0xE3, CHR 0x80, CHR 0x80]] @
     map (\<lambda>n. [CHR 0xE2, CHR 0x80, char_of (0x80 + n)]) [0..<11]"

definition front_space :: "string \<Rightarrow> nat option" where
  "front_space s = map_option length (List.find (\<lambda>w. prefix w s) space_codes)"

definition back_space :: "string \<Rightarrow> nat option" where
  "back_space s = map_option length (List.find (\<lambda>w. suffix w s) space_codes)"

lemma space_codes_nonempty: "w \<in> set space_codes \<Longrightarrow> w \<noteq> []"
  by (auto simp: space_codes_def)

lemma find_SomeD: "List.find P xs = Some x \<Longrightarrow> x \<in> set xs \<and> P x"
  by (auto simp: find_Some_iff)

lemma front_space_bounds: "front_space s = Some n \<Longrightarrow> 0 < n \<and> n \<le> length s"
  using space_codes_nonempty by (auto simp: front_space_def find_Some_iff prefix_length_le)

lemma back_space_bounds: "back_space s = Some n \<Longrightarrow> 0 < n \<and> n \<le> length s"
  using space_codes_nonempty by (auto simp: back_space_def find_Some_iff suffix_length_le)

function trim_front :: "string \<Rightarrow> string" where
  "trim_front s = (case front_space s of None \<Rightarrow> s | Some n \<Rightarrow> trim_front (drop n s))"
  by pat_completeness auto
termination
proof (relation "measure length", goal_cases)
  case (2 s n)
  with front_space_bounds [of s n] show ?case by (auto intro!: diff_less)
qed simp

function trim_back :: "string \<Rightarrow> string" where
  "trim_back s = (case back_space s of None \<Rightarrow> s | Some n \<Rightarrow> trim_back (take (length s - n) s))"
  by pat_completeness auto
termination
proof (relation "measure length", goal_cases)
  case (2 s n)
  with back_space_bounds [of s n] show ?case by (auto intro!: diff_less)
qed simp

declare trim_front.simps [simp del] trim_back.simps [simp del]

definition go_trim_space :: "string \<Rightarrow> string" where
  "go_trim_space s = trim_back (trim_front s)"

lemma trim_front_suffix: "suffix (trim_front s) s"
proof (induction s rule: trim_front.induct)
  case (1 s)
  then show ?case
    by (subst trim_front.simps) (auto split: option.split intro: suffix_order.trans [OF _ suffix_drop])
qed

lemma trim_back_prefix: "prefix (trim_back s) s"
proof (induction s rule: trim_back.induct)
  case (1 s)
  then show ?case
    by (subst trim_back.simps) (auto split: option.split intro: prefix_order.trans [OF _ take_is_prefix])
qed

lemma go_trim_space_sublist: "sublist (go_trim_space s) s"
  unfolding go_trim_space_def
  by (rule sublist_order.order.trans [OF prefix_imp_sublist [OF trim_back_prefix] suffix_imp_sublist [OF trim_front_suffix]])

text \<open>A string that is trimmed to nothing ends with the last byte of a white space.\<close>

lemma trim_front_Nil: "trim_front s = [] \<Longrightarrow> s \<noteq> [] \<Longrightarrow> last s \<in> last ` set space_codes"
proof (induction s rule: trim_front.induct)
  case (1 s)
  then obtain n where n: "front_space s = Some n" by (subst (asm) (2) trim_front.simps) (auto split: option.splits)
  then obtain w where w: "w \<in> set space_codes" "prefix w s" "n = length w"
    by (auto simp: front_space_def dest: find_SomeD)
  then obtain t where t: "s = w @ t" by (auto simp: prefix_def)
  show ?case
  proof (cases "t = []")
    case True
    with t w show ?thesis by auto
  next
    case False
    have "trim_front t = []" using 1(2) n t w(3) by (subst (asm) trim_front.simps) simp
    with 1(1) [OF n] t w(3) False show ?thesis by auto
  qed
qed

lemma trim_back_Nil: "trim_back s = [] \<Longrightarrow> s \<noteq> [] \<Longrightarrow> last s \<in> last ` set space_codes"
proof -
  assume "trim_back s = []" "s \<noteq> []"
  then obtain n where "back_space s = Some n" by (subst (asm) trim_back.simps) (auto split: option.splits)
  then obtain w where "w \<in> set space_codes" "suffix w s" by (auto simp: back_space_def dest: find_SomeD)
  with space_codes_nonempty show ?thesis by (auto simp: suffix_def)
qed

lemma go_trim_space_Nil:
  assumes "go_trim_space s = []" and "s \<noteq> []"
  shows "last s \<in> last ` set space_codes"
proof (cases "trim_front s = []")
  case True
  with trim_front_Nil assms(2) show ?thesis by blast
next
  case False
  then have "last (trim_front s) \<in> last ` set space_codes"
    using trim_back_Nil assms(1) by (simp add: go_trim_space_def)
  moreover have "last (trim_front s) = last s"
    using trim_front_suffix [of s] False by (metis last_appendR suffix_def)
  ultimately show ?thesis by simp
qed

lemma go_trim_space_examples:
  "go_trim_space ''  a b '' = ''a b''" "go_trim_space [CHR 0xC2, CHR 0xA0, CHR 0x0A] = []"
  "rune_count [CHR 0xE2, CHR 0x80, CHR 0xA6, CHR ''a''] = 2" "rune_count [CHR 0xE2, CHR 0x80, CHR ''a''] = 3"
  "valid_string [CHR 0xE2, CHR 0x80, CHR 0xA6, CHR ''a'']" "\<not> valid_string [CHR 0xED, CHR 0xA0, CHR 0x80]"
  by code_simp+

end
