(* ===== verification/Clean.thy ===== *)
theory Clean
  imports GoUtf8
begin

text \<open>
  Source code cleaning (\<open>internal/clean/comments.go\<close>, \<open>clean.go\<close>): comments are stripped line by line with one bit
  of state, blank lines are collapsed, long lines and long files are cut at a rune. A line that is dropped is
  \<^const>\<open>None\<close>.
\<close>

subsection \<open>Comments\<close>

definition cStyleLanguages :: "string list" where
  "cStyleLanguages = [''go'', ''javascript'', ''typescript'', ''java'', ''rust'', ''c'', ''cpp'', ''csharp'',
     ''swift'', ''kotlin'', ''svelte'', ''astro'']"

definition hashStyleLanguages :: "string list" where
  "hashStyleLanguages = [''python'', ''ruby'', ''shell'', ''yaml'', ''toml'']"

definition cStylePreserveKeywords :: "string list" where
  "cStylePreserveKeywords = [''TODO'', ''FIXME'', ''HACK'', ''NOTE'', ''BUG'', ''XXX'',
     ''nolint'', ''eslint-disable'', ''prettier-ignore'', ''nosec'']"

definition hashStylePreserveKeywords :: "string list" where
  "hashStylePreserveKeywords = [''TODO'', ''FIXME'', ''HACK'', ''NOTE'', ''BUG'', ''XXX'', ''noqa'', ''type:ignore'']"

definition shouldPreserve :: "string \<Rightarrow> string list \<Rightarrow> bool" where
  "shouldPreserve comment keywords = list_ex (\<lambda>kw. str_index comment kw \<noteq> None) keywords"

definition hasOddQuotesBefore :: "string \<Rightarrow> nat \<Rightarrow> bool" where
  "hasOddQuotesBefore s idx = odd (length (filter (\<lambda>c. c = CHR 0x22) (take idx s)))"

definition trim_right_blank :: "string \<Rightarrow> string" where
  "trim_right_blank s = trim_right_with (\<lambda>c. c = CHR '' '' \<or> c = CHR 0x09) s"

definition non_empty :: "string \<Rightarrow> string option" where
  "non_empty s = (if s \<noteq> [] then Some s else None)"

definition handleLineComment :: "string \<Rightarrow> nat \<Rightarrow> string option" where
  "handleLineComment line commentIdx =
     (let commentText = drop commentIdx line in
      if prefix ''///'' (go_trim_space commentText) then Some line
      else if shouldPreserve commentText cStylePreserveKeywords then Some line
      else non_empty (trim_right_blank (take commentIdx line)))"

definition handleInlineBlockComment :: "string \<Rightarrow> nat \<Rightarrow> nat \<Rightarrow> string option" where
  "handleInlineBlockComment line startIdx closeOffset =
     (let comment = take (closeOffset + 2) (drop startIdx line) in
      if shouldPreserve comment cStylePreserveKeywords then Some line
      else
        let before = trim_right_blank (take startIdx line);
            after = drop (startIdx + closeOffset + 2) line;
            rebuilt = before @ after
        in if go_trim_space rebuilt = [] then None else Some rebuilt)"

text \<open>The line and the new value of \<open>inBlock\<close>.\<close>

definition handleBlockCommentStart :: "string \<Rightarrow> nat \<Rightarrow> string option \<times> bool" where
  "handleBlockCommentStart line startIdx =
     (let blockText = drop startIdx line in
      case str_index (drop 2 blockText) ''*/'' of
        Some closeIdx \<Rightarrow> (handleInlineBlockComment line startIdx (closeIdx + 2), False)
      | None \<Rightarrow>
          (if shouldPreserve blockText cStylePreserveKeywords then Some line
           else non_empty (trim_right_blank (take startIdx line)), True))"

function scan_from :: "string \<Rightarrow> nat \<Rightarrow> string option \<times> bool" where
  "scan_from line i =
     (if i + 1 < length line then
        (if line ! i = CHR 0x5C then scan_from line (i + 2)
         else if line ! i \<noteq> CHR ''/'' then scan_from line (i + 1)
         else if line ! (i + 1) = CHR ''/'' then
           (if hasOddQuotesBefore line i then scan_from line (i + 1) else (handleLineComment line i, False))
         else if line ! (i + 1) = CHR ''*'' then
           (if hasOddQuotesBefore line i then scan_from line (i + 1) else handleBlockCommentStart line i)
         else scan_from line (i + 1))
      else (Some line, False))"
  by pat_completeness auto
termination by (relation "measure (\<lambda>(line, i). length line - i)") auto

declare scan_from.simps [simp del]

definition scanCStyleLine :: "string \<Rightarrow> string option \<times> bool" where
  "scanCStyleLine line = scan_from line 0"

definition processCStyleLine :: "string \<Rightarrow> bool \<Rightarrow> string option \<times> bool" where
  "processCStyleLine line inBlock =
     (let trimmed = go_trim_space line in
      if prefix ''///'' trimmed \<or> prefix ''/**'' trimmed then
        (if inBlock then (None, True) else (Some line, False))
      else if inBlock then
        (case str_index line ''*/'' of
           Some idx \<Rightarrow>
             (let remainder = drop (idx + 2) line in
              (if go_trim_space remainder \<noteq> [] then Some remainder else None, False))
         | None \<Rightarrow> (None, True))
      else scanCStyleLine line)"

fun c_style_lines :: "string list \<Rightarrow> bool \<Rightarrow> string list" where
  "c_style_lines [] inBlock = []"
| "c_style_lines (line # ls) inBlock =
     (case processCStyleLine line inBlock of
        (None, b) \<Rightarrow> c_style_lines ls b
      | (Some l, b) \<Rightarrow> l # c_style_lines ls b)"

definition stripCStyleComments :: "string \<Rightarrow> string" where
  "stripCStyleComments source = str_join [CHR 0x0A] (c_style_lines (split_on (CHR 0x0A) source) False)"

definition processHashStyleLine :: "string \<Rightarrow> string option" where
  "processHashStyleLine line =
     (case str_index line ''#'' of
        None \<Rightarrow> Some line
      | Some idx \<Rightarrow>
          if hasOddQuotesBefore line idx then Some line
          else if shouldPreserve (drop idx line) hashStylePreserveKeywords then Some line
          else non_empty (trim_right_blank (take idx line)))"

definition stripHashStyleComments :: "string \<Rightarrow> string" where
  "stripHashStyleComments source =
     str_join [CHR 0x0A] (List.map_filter processHashStyleLine (split_on (CHR 0x0A) source))"

definition stripComments :: "string \<Rightarrow> string \<Rightarrow> string" where
  "stripComments source language =
     (if language \<in> set cStyleLanguages then stripCStyleComments source
      else if language \<in> set hashStyleLanguages then stripHashStyleComments source
      else source)"

subsection \<open>Cleaning\<close>

record CleanOpts =
  StripComments :: bool
  StripBlankLines :: bool
  TruncateLongLines :: bool
  MaxLineChars :: int
  TruncateBase64 :: bool
  MaxFileChars :: int

definition DefaultOpts :: CleanOpts where
  "DefaultOpts = \<lparr>StripComments = True, StripBlankLines = True, TruncateLongLines = True,
     MaxLineChars = 500, TruncateBase64 = True, MaxFileChars = 50000\<rparr>"

definition blank_line :: "string \<Rightarrow> bool" where
  "blank_line line \<longleftrightarrow> go_trim_space line = []"

fun collapse :: "nat \<Rightarrow> string list \<Rightarrow> string list" where
  "collapse blankRun [] = []"
| "collapse blankRun (line # ls) =
     (if blank_line line then
        (if blankRun + 1 \<le> 1 then line # collapse (blankRun + 1) ls else collapse (blankRun + 1) ls)
      else line # collapse 0 ls)"

definition collapseBlankLines :: "string \<Rightarrow> string" where
  "collapseBlankLines s = str_join [CHR 0x0A] (collapse 0 (split_on (CHR 0x0A) s))"

definition truncMarker :: string where
  "truncMarker = [CHR '' '', CHR 0xE2, CHR 0x80, CHR 0xA6]"

definition truncate_line :: "nat \<Rightarrow> string \<Rightarrow> string" where
  "truncate_line maxChars line =
     (if rune_count line > maxChars then take (rune_offset maxChars line) line @ truncMarker else line)"

definition truncateLongLines :: "string \<Rightarrow> nat \<Rightarrow> string" where
  "truncateLongLines s maxChars = str_join [CHR 0x0A] (map (truncate_line maxChars) (split_on (CHR 0x0A) s))"

definition file_marker :: string where
  "file_marker = CHR 0x0A # ''... [truncated]'' @ [CHR 0x0A]"

definition CleanSource :: "string \<Rightarrow> string \<Rightarrow> CleanOpts \<Rightarrow> string" where
  "CleanSource source language opts =
     (if \<not> valid_string source then ''[binary or invalid UTF-8 content omitted]''
      else
        let r1 = (if StripComments opts then stripComments source language else source);
            r2 = (if StripBlankLines opts then collapseBlankLines r1 else r1);
            r3 = (if TruncateLongLines opts \<and> MaxLineChars opts > 0 then truncateLongLines r2 (nat (MaxLineChars opts)) else r2)
        in if MaxFileChars opts > 0 \<and> int (rune_count r3) > MaxFileChars opts
           then take (rune_offset (nat (MaxFileChars opts)) r3) r3 @ file_marker
           else r3)"

subsection \<open>Where the comment scanner goes wrong\<close>

text \<open>A doc comment opened inside a block hides the end of the block: the code that follows is dropped.\<close>

lemma doc_line_swallows_code:
  "stripComments (str_join [CHR 0x0A] [''/* a'', ''/** b */'', ''x = 1'']) ''go'' = []"
  by code_simp

text \<open>A block with a keyword on its first line keeps that line and loses its end.\<close>

lemma preserved_block_is_left_open:
  "stripComments (str_join [CHR 0x0A] [''/* TODO'', ''later */'', ''x = 1'']) ''go''
     = str_join [CHR 0x0A] [''/* TODO'', ''x = 1'']"
  by code_simp

text \<open>Only the first comment of a line is looked at.\<close>

lemma second_comment_stays:
  "stripComments ''a /* b */ c // d'' ''go'' = ''a c // d''"
  by code_simp


subsection \<open>Stripping only deletes\<close>

lemma trim_right_blank_prefix: "prefix (trim_right_blank s) s"
  unfolding trim_right_blank_def trim_right_with_def
  by (metis suffix_dropWhile suffix_to_prefix rev_rev_ident)

definition out_subseq :: "string \<Rightarrow> string option \<Rightarrow> bool" where
  "out_subseq line res \<longleftrightarrow> (\<forall>l. res = Some l \<longrightarrow> subseq l line)"

lemma out_subseq_simps [simp]: "out_subseq line None" "out_subseq line (Some line)"
  by (simp_all add: out_subseq_def)

lemma out_subseq_before: "out_subseq line (non_empty (trim_right_blank (take i line)))"
proof -
  have "prefix (trim_right_blank (take i line)) line"
    by (rule prefix_order.trans [OF trim_right_blank_prefix take_is_prefix])
  then show ?thesis by (auto simp: out_subseq_def non_empty_def)
qed

lemma handleLineComment_subseq: "out_subseq line (handleLineComment line i)"
  by (simp add: handleLineComment_def Let_def out_subseq_before)

lemma handleInlineBlockComment_subseq: "out_subseq line (handleInlineBlockComment line i k)"
proof -
  have "subseq (trim_right_blank (take i line) @ drop (i + k + 2) line) (take i line @ drop i line)"
  proof (rule list_emb_append_mono)
    show "subseq (trim_right_blank (take i line)) (take i line)" using trim_right_blank_prefix by blast
    have "drop (i + k + 2) line = drop (k + 2) (drop i line)" by (simp add: add.commute add.left_commute)
    then show "subseq (drop (i + k + 2) line) (drop i line)" by (metis suffix_drop suffix_imp_subseq)
  qed
  then show ?thesis by (simp add: handleInlineBlockComment_def Let_def out_subseq_def)
qed

lemma handleBlockCommentStart_subseq: "out_subseq line (fst (handleBlockCommentStart line i))"
  by (simp add: handleBlockCommentStart_def Let_def out_subseq_before handleInlineBlockComment_subseq split: option.split)

lemma scan_from_subseq: "out_subseq line (fst (scan_from line i))"
proof (induction line i rule: scan_from.induct)
  case (1 line i)
  then show ?case
    by (subst scan_from.simps) (auto simp: handleLineComment_subseq handleBlockCommentStart_subseq)
qed

lemma processCStyleLine_subseq: "out_subseq line (fst (processCStyleLine line b))"
proof -
  have "subseq (drop i line) line" for i by (metis suffix_drop suffix_imp_subseq)
  then show ?thesis
    using scan_from_subseq [of line 0]
    by (auto simp: processCStyleLine_def Let_def scanCStyleLine_def out_subseq_def split: option.splits)
qed

lemma processHashStyleLine_subseq: "out_subseq line (processHashStyleLine line)"
  by (simp add: processHashStyleLine_def out_subseq_before split: option.split)

text \<open>Joining the lines again: a line is replaced by a subsequence or left out.\<close>

lemma join_Cons: "str_join sep (l # ls) = l @ (if ls = [] then [] else sep @ str_join sep ls)"
  by (cases ls) auto

lemma join_subseq_keep:
  assumes "subseq l' l" and "subseq (str_join sep os) (str_join sep ls)" and "ls = [] \<Longrightarrow> os = []"
  shows "subseq (str_join sep (l' # os)) (str_join sep (l # ls))"
  unfolding join_Cons using assms by (auto intro!: list_emb_append_mono)

lemma join_subseq_drop: "subseq xs (str_join sep ls) \<Longrightarrow> (ls = [] \<Longrightarrow> xs = []) \<Longrightarrow> subseq xs (str_join sep (l # ls))"
proof (cases "ls = []")
  case False
  assume "subseq xs (str_join sep ls)"
  then have "subseq ([] @ xs) ((l @ sep) @ str_join sep ls)" by (intro list_emb_append_mono) auto
  with False show ?thesis by (simp add: join_Cons)
qed simp

lemma c_style_lines_Nil: "ls = [] \<Longrightarrow> c_style_lines ls b = []"
  by simp

lemma c_style_lines_subseq: "subseq (str_join sep (c_style_lines ls b)) (str_join sep ls)"
proof (induction ls arbitrary: b)
  case Nil
  then show ?case by simp
next
  case (Cons line ls)
  obtain res b' where p: "processCStyleLine line b = (res, b')" by force
  show ?case
  proof (cases res)
    case None
    with Cons p show ?thesis by (auto intro!: join_subseq_drop)
  next
    case (Some l)
    have "subseq l line" using processCStyleLine_subseq [of line b] p Some by (simp add: out_subseq_def)
    with Cons p Some show ?thesis by (auto intro!: join_subseq_keep)
  qed
qed

lemma hash_lines_subseq: "subseq (str_join sep (List.map_filter processHashStyleLine ls)) (str_join sep ls)"
proof (induction ls)
  case Nil
  then show ?case by (simp add: map_filter_simps)
next
  case (Cons line ls)
  show ?case
  proof (cases "processHashStyleLine line")
    case None
    with Cons show ?thesis by (auto simp: map_filter_simps intro!: join_subseq_drop)
  next
    case (Some l)
    have "subseq l line" using processHashStyleLine_subseq [of line] Some by (simp add: out_subseq_def)
    with Cons Some show ?thesis by (auto simp: map_filter_simps intro!: join_subseq_keep)
  qed
qed

lemma stripComments_subseq: "subseq (stripComments source language) source"
  using c_style_lines_subseq [of "[CHR 0x0A]" "split_on (CHR 0x0A) source" False]
    hash_lines_subseq [of "[CHR 0x0A]" "split_on (CHR 0x0A) source"]
  by (simp add: stripComments_def stripCStyleComments_def stripHashStyleComments_def str_join_split_on)

subsection \<open>Source without comment markers is left alone\<close>

definition no_marker :: "string \<Rightarrow> string \<Rightarrow> bool" where
  "no_marker language s \<longleftrightarrow>
     (language \<in> set cStyleLanguages \<longrightarrow> \<not> sublist ''//'' s \<and> \<not> sublist ''/*'' s) \<and>
     (language \<in> set hashStyleLanguages \<longrightarrow> CHR ''#'' \<notin> set s)"

lemma pair_sublist: "i + 1 < length s \<Longrightarrow> sublist [s ! i, s ! (i + 1)] s"
proof -
  assume i: "i + 1 < length s"
  then have "s = take i s @ [s ! i, s ! (i + 1)] @ drop (i + 2) s"
    by (simp add: Cons_nth_drop_Suc)
  then show ?thesis by (metis sublist_appendI)
qed

lemma scan_from_clean:
  "\<not> sublist ''//'' line \<Longrightarrow> \<not> sublist ''/*'' line \<Longrightarrow> scan_from line i = (Some line, False)"
proof (induction line i rule: scan_from.induct)
  case (1 line i)
  have no: "line ! (i + 1) \<noteq> CHR ''/''" "line ! (i + 1) \<noteq> CHR ''*''" if "i + 1 < length line" "line ! i = CHR ''/''"
  proof -
    have "sublist [CHR ''/'', line ! (i + 1)] line" using pair_sublist [OF that(1)] that(2) by simp
    with "1.prems" show "line ! (i + 1) \<noteq> CHR ''/''" "line ! (i + 1) \<noteq> CHR ''*''" by auto
  qed
  show ?case
  proof (cases "i + 1 < length line")
    case False
    then show ?thesis by (simp add: scan_from.simps [of line i])
  next
    case in_line: True
    consider (esc) "line ! i = CHR 0x5C" | (slash) "line ! i = CHR ''/''" | (other) "line ! i \<noteq> CHR 0x5C" "line ! i \<noteq> CHR ''/''"
      by blast
    then show ?thesis
    proof cases
      case esc
      with in_line "1.IH"(1) [OF in_line esc] "1.prems" show ?thesis by (simp add: scan_from.simps [of line i])
    next
      case slash
      with in_line "1.IH" [OF in_line] no [OF in_line slash] "1.prems" show ?thesis by (simp add: scan_from.simps [of line i])
    next
      case other
      with in_line "1.IH"(2) [OF in_line] "1.prems" show ?thesis by (simp add: scan_from.simps [of line i])
    qed
  qed
qed

lemma processCStyleLine_clean:
  assumes "\<not> sublist ''//'' line" and "\<not> sublist ''/*'' line"
  shows "processCStyleLine line False = (Some line, False)"
proof -
  have "\<not> prefix ''///'' (go_trim_space line)" "\<not> prefix ''/**'' (go_trim_space line)"
  proof -
    have sub: "sublist p line" if "prefix (p @ q) (go_trim_space line)" for p q
      using that go_trim_space_sublist [of line]
      by (meson prefix_imp_sublist sublist_append_rightI sublist_order.order.trans)
    show "\<not> prefix ''///'' (go_trim_space line)" using sub [of "''//''" "''/''"] assms(1) by auto
    show "\<not> prefix ''/**'' (go_trim_space line)" using sub [of "''/*''" "''*''"] assms(2) by auto
  qed
  then show ?thesis using scan_from_clean [OF assms] by (simp add: processCStyleLine_def scanCStyleLine_def)
qed

lemma split_on_sublist: "p \<in> set (split_on c s) \<Longrightarrow> sublist p s"
proof (induction s arbitrary: p)
  case Nil
  then show ?case by simp
next
  case (Cons x s)
  obtain y ys where ys: "split_on c s = y # ys" by (cases "split_on c s") auto
  then have "prefix y s" by (metis str_join_split_on join_Cons prefixI)
  with Cons ys show ?case
    by (auto split: if_splits intro: sublist_Cons_right [THEN iffD2] prefix_imp_sublist)
qed

lemma stripComments_clean:
  assumes "no_marker language source"
  shows "stripComments source language = source"
proof -
  have c: "c_style_lines ls False = ls" if "\<forall>l \<in> set ls. \<not> sublist ''//'' l \<and> \<not> sublist ''/*'' l" for ls
    using that by (induction ls) (simp_all add: processCStyleLine_clean)
  have h: "List.map_filter processHashStyleLine ls = ls" if "\<forall>l \<in> set ls. CHR ''#'' \<notin> set l" for ls
    using that
  proof (induction ls)
    case (Cons l ls)
    from Cons.prems have "CHR ''#'' \<notin> set l" by simp
    then have "str_index l ''#'' = None" by (simp only: str_index_single_None not_False_eq_True)
    then have "processHashStyleLine l = Some l" by (simp only: processHashStyleLine_def option.case)
    with Cons show ?case by (simp add: map_filter_simps)
  qed (simp add: map_filter_simps)
  have sub: "\<not> sublist p source \<Longrightarrow> \<forall>l \<in> set (split_on (CHR 0x0A) source). \<not> sublist p l" for p
    using split_on_sublist by (meson sublist_order.order.trans)
  have mem: "x \<notin> set source \<Longrightarrow> \<forall>l \<in> set (split_on (CHR 0x0A) source). x \<notin> set l" for x
    using split_on_sublist by (meson set_mono_sublist subsetD)
  show ?thesis
    using assms sub [of "''//''"] sub [of "''/*''"] mem [of "CHR ''#''"]
    by (simp add: stripComments_def stripCStyleComments_def stripHashStyleComments_def no_marker_def c h str_join_split_on)
qed


subsection \<open>The limits\<close>

definition single_blanks :: "string list \<Rightarrow> bool" where
  "single_blanks ls \<longleftrightarrow> successively (\<lambda>a b. \<not> (blank_line a \<and> blank_line b)) ls"

lemma collapse_single:
  "single_blanks (collapse n ls) \<and> (0 < n \<longrightarrow> collapse n ls \<noteq> [] \<longrightarrow> \<not> blank_line (hd (collapse n ls)))"
proof (induction ls arbitrary: n)
  case (Cons l ls)
  show ?case
    using Cons [of "n + 1"] Cons [of 0]
    by (auto simp: single_blanks_def successively_Cons)
qed (simp add: single_blanks_def)

lemma collapse_members: "set (collapse n ls) \<subseteq> set ls"
  by (induction ls arbitrary: n) auto

lemma collapse_keeps: "ls \<noteq> [] \<Longrightarrow> collapse 0 ls \<noteq> []"
  by (cases ls) auto

lemma collapseBlankLines_lines: "split_on (CHR 0x0A) (collapseBlankLines s) = collapse 0 (split_on (CHR 0x0A) s)"
proof -
  have "\<forall>p \<in> set (collapse 0 (split_on (CHR 0x0A) s)). CHR 0x0A \<notin> set p"
    using collapse_members [of 0 "split_on (CHR 0x0A) s"] split_on_no_sep [of _ "CHR 0x0A" s] by (meson subsetD)
  then show ?thesis unfolding collapseBlankLines_def by (intro split_on_str_join collapse_keeps) simp_all
qed

lemma truncate_line_no_nl: "CHR 0x0A \<notin> set line \<Longrightarrow> CHR 0x0A \<notin> set (truncate_line n line)"
  using set_take_subset [of "rune_offset n line" line] by (auto simp: truncate_line_def truncMarker_def)

lemma truncateLongLines_lines:
  "split_on (CHR 0x0A) (truncateLongLines s n) = map (truncate_line n) (split_on (CHR 0x0A) s)"
proof -
  have "CHR 0x0A \<notin> set p" if "p \<in> set (map (truncate_line n) (split_on (CHR 0x0A) s))" for p
  proof -
    from that obtain l where "l \<in> set (split_on (CHR 0x0A) s)" "p = truncate_line n l" by auto
    with truncate_line_no_nl [OF split_on_no_sep] show ?thesis by blast
  qed
  then show ?thesis unfolding truncateLongLines_def by (intro split_on_str_join) auto
qed

lemma truncMarker_runes: "rune_count truncMarker = 2"
  by code_simp

lemma file_marker_runes: "rune_count file_marker = 17"
  by code_simp

lemma truncate_line_runes: "rune_count (truncate_line n line) \<le> n + 2"
proof (cases "rune_count line > n")
  case True
  have "rune_count (take (rune_offset n line) line @ truncMarker) =
      rune_count (take (rune_offset n line) line) + rune_count truncMarker"
    unfolding truncMarker_def by (rule rune_count_append_ascii) (simp add: byte_def)
  with True rune_count_take [of n line] show ?thesis by (simp add: truncate_line_def truncMarker_runes)
next
  case False
  then show ?thesis by (simp add: truncate_line_def)
qed

text \<open>A line that was cut is not blank, so cutting lines keeps blank lines single.\<close>

lemma truncated_not_blank: "\<not> blank_line (x @ truncMarker)"
proof
  assume "blank_line (x @ truncMarker)"
  then have "last (x @ truncMarker) \<in> last ` set space_codes"
    unfolding blank_line_def by (rule go_trim_space_Nil) (simp add: truncMarker_def)
  moreover have "last (x @ truncMarker) = CHR 0xA6" by (simp add: truncMarker_def)
  moreover have "CHR 0xA6 \<notin> last ` set space_codes" by code_simp
  ultimately show False by simp
qed

lemma truncate_single: "single_blanks ls \<Longrightarrow> single_blanks (map (truncate_line n) ls)"
proof -
  have "blank_line (truncate_line n l) \<Longrightarrow> blank_line l" for l
    using truncated_not_blank by (auto simp: truncate_line_def split: if_splits)
  moreover assume "single_blanks ls"
  ultimately show ?thesis
    unfolding single_blanks_def successively_map by (auto elim: successively_mono)
qed

definition lines_of :: "string \<Rightarrow> string list" where
  "lines_of s = split_on (CHR 0x0A) s"

text \<open>Comment stripping only deletes: for every language the result is a subsequence of the source, and source in which no
  comment marker of its language occurs comes back unchanged.\<close>

lemma stripComments_deletes:
  "subseq (stripComments source language) source \<and> (no_marker language source \<longrightarrow> stripComments source language = source)"
  by (simp add: stripComments_subseq stripComments_clean)

text \<open>A file that is cut at a rune keeps its first lines and a part of the next one, cut at a rune too.\<close>

lemma split_on_append: "split_on c (a @ c # s) = split_on c a @ split_on c s"
proof (induction a)
  case (Cons x a)
  obtain y ys where "split_on c a = y # ys" by (cases "split_on c a") auto
  with Cons show ?case by simp
qed simp

lemma cut_lines:
  assumes "ls \<noteq> []" and "\<forall>p \<in> set ls. CHR 0x0A \<notin> set p"
  shows "\<exists>i j. i < length ls \<and> lines_of (take (rune_offset n (str_join [CHR 0x0A] ls)) (str_join [CHR 0x0A] ls)) =
    take i ls @ [take (rune_offset j (ls ! i)) (ls ! i)]"
  using assms
proof (induction ls arbitrary: n)
  case (Cons l ls)
  have l: "lines_of (take k l) = [take k l]" for k
    unfolding lines_of_def using Cons.prems(2) by (intro split_on_id) (auto dest: in_set_takeD)
  show ?case
  proof (cases "ls = []")
    case True
    with l show ?thesis by (intro exI [of _ 0] exI [of _ n]) simp
  next
    case rest: False
    let ?t = "str_join [CHR 0x0A] ls" and ?m = "n - rune_count l - 1"
    have whole: "str_join [CHR 0x0A] (l # ls) = l @ CHR 0x0A # ?t" using rest by (simp add: str_join_Cons)
    have nl: "byte (CHR 0x0A) < 0x80" by (simp add: byte_def)
    show ?thesis
    proof (cases "n \<le> rune_count l")
      case True
      with l rune_offset_le [of n l] show ?thesis
        unfolding whole rune_offset_append_ascii [OF nl] by (intro exI [of _ 0] exI [of _ n]) simp
    next
      case False
      from Cons.IH [OF rest, of ?m] Cons.prems(2) obtain i j
        where ij: "i < length ls" "lines_of (take (rune_offset ?m ?t) ?t) = take i ls @ [take (rune_offset j (ls ! i)) (ls ! i)]"
        by auto
      have "take (rune_offset n (l @ CHR 0x0A # ?t)) (l @ CHR 0x0A # ?t) = l @ CHR 0x0A # take (rune_offset ?m ?t) ?t"
        using False by (simp add: rune_offset_append_ascii [OF nl])
      moreover have "split_on (CHR 0x0A) l = [l]" using Cons.prems(2) by (intro split_on_id) simp
      ultimately have "lines_of (take (rune_offset n (l @ CHR 0x0A # ?t)) (l @ CHR 0x0A # ?t)) =
          take (Suc i) (l # ls) @ [take (rune_offset j ((l # ls) ! Suc i)) ((l # ls) ! Suc i)]"
        using ij(2) by (simp add: lines_of_def split_on_append)
      with ij(1) show ?thesis unfolding whole by (intro exI [of _ "Suc i"] exI [of _ j]) simp
    qed
  qed
qed simp

lemma cut_file_lines:
  "\<exists>i j. i < length (lines_of s) \<and> lines_of (take (rune_offset n s) s @ file_marker) =
     take i (lines_of s) @ [take (rune_offset j (lines_of s ! i)) (lines_of s ! i), ''... [truncated]'', []]"
proof -
  have s: "str_join [CHR 0x0A] (lines_of s) = s" by (simp add: lines_of_def str_join_split_on)
  have "lines_of s \<noteq> []" "\<forall>p \<in> set (lines_of s). CHR 0x0A \<notin> set p"
    using split_on_no_sep [of _ "CHR 0x0A" s] by (simp_all add: lines_of_def)
  from cut_lines [OF this, of n] obtain i j where ij: "i < length (lines_of s)"
      "lines_of (take (rune_offset n s) s) = take i (lines_of s) @ [take (rune_offset j (lines_of s ! i)) (lines_of s ! i)]"
    unfolding s by blast
  have m: "split_on (CHR 0x0A) ''... [truncated]'' = [''... [truncated]'']" by code_simp
  have "lines_of (take (rune_offset n s) s @ file_marker) = lines_of (take (rune_offset n s) s) @ [''... [truncated]'', []]"
    unfolding lines_of_def file_marker_def split_on_append m by simp
  with ij show ?thesis by (intro exI [of _ i] exI [of _ j]) simp
qed

lemma single_blanks_take: "single_blanks ls \<Longrightarrow> single_blanks (take n ls)"
  unfolding single_blanks_def by (metis append_take_drop_id successively_append_iff)

text \<open>The longest line: a file limit adds the line of the marker.\<close>

definition longest_line :: "CleanOpts \<Rightarrow> int" where
  "longest_line opts = (if MaxFileChars opts > 0 then max (MaxLineChars opts + 2) 15 else MaxLineChars opts + 2)"

text \<open>The lines among which no two blank ones follow each other: of a file that was cut, all but the line with the cut, which may
  be a second blank one, and the two lines of the marker.\<close>

definition whole_lines :: "CleanOpts \<Rightarrow> string \<Rightarrow> string list" where
  "whole_lines opts result =
     (if MaxFileChars opts > 0 \<and> suffix file_marker result then take (length (lines_of result) - 3) (lines_of result)
      else lines_of result)"

text \<open>C30: The limits of cleaning, on valid text, whatever the options: with a file limit the result has at most that many characters
  and the 17 of the marker of the cut; with a line limit every line has at most that many characters and the two of the
  marker of a cut line, or is the line of the file marker, which has 15; and if blank lines are to be stripped, no two
  blank lines follow each other before the line in which the file was cut, if it was, else anywhere.\<close>

theorem CleanSource_limits:
  assumes "valid_string source"
  shows "(MaxFileChars opts > 0 \<longrightarrow> int (rune_count (CleanSource source language opts)) \<le> MaxFileChars opts + 17) \<and>
    (TruncateLongLines opts \<longrightarrow> MaxLineChars opts > 0 \<longrightarrow>
       list_all (\<lambda>l. int (rune_count l) \<le> longest_line opts) (lines_of (CleanSource source language opts))) \<and>
    (StripBlankLines opts \<longrightarrow> single_blanks (whole_lines opts (CleanSource source language opts)))"
proof -
  define r1 where "r1 = (if StripComments opts then stripComments source language else source)"
  define r2 where "r2 = (if StripBlankLines opts then collapseBlankLines r1 else r1)"
  define r3 where "r3 = (if TruncateLongLines opts \<and> MaxLineChars opts > 0 then truncateLongLines r2 (nat (MaxLineChars opts)) else r2)"
  define n where "n = nat (MaxFileChars opts)"
  have out: "CleanSource source language opts =
      (if MaxFileChars opts > 0 \<and> int (rune_count r3) > MaxFileChars opts
       then take (rune_offset n r3) r3 @ file_marker else r3)"
    by (simp only: CleanSource_def Let_def r1_def r2_def r3_def n_def assms not_True_eq_False if_False)
  obtain i j where cut: "i < length (lines_of r3)" "lines_of (take (rune_offset n r3) r3 @ file_marker) =
      take i (lines_of r3) @ [take (rune_offset j (lines_of r3 ! i)) (lines_of r3 ! i), ''... [truncated]'', []]"
    using cut_file_lines [of r3 n] by blast
  have "rune_count (take (rune_offset n r3) r3 @ file_marker) = rune_count (take (rune_offset n r3) r3) + rune_count file_marker"
    unfolding file_marker_def by (rule rune_count_append_ascii) (simp add: byte_def)
  then have "rune_count (take (rune_offset n r3) r3 @ file_marker) \<le> n + 17"
    using rune_count_take [of n r3] by (simp add: file_marker_runes)
  then have total: "MaxFileChars opts > 0 \<longrightarrow> int (rune_count (CleanSource source language opts)) \<le> MaxFileChars opts + 17"
    by (auto simp: out n_def)
  have lines: "TruncateLongLines opts \<longrightarrow> MaxLineChars opts > 0 \<longrightarrow>
      list_all (\<lambda>l. int (rune_count l) \<le> longest_line opts) (lines_of (CleanSource source language opts))"
  proof (intro impI)
    assume o: "TruncateLongLines opts" "MaxLineChars opts > 0"
    have "int (rune_count (truncate_line (nat (MaxLineChars opts)) l)) \<le> MaxLineChars opts + 2" for l
      using truncate_line_runes [of "nat (MaxLineChars opts)" l] o(2) by linarith
    then have r3: "\<forall>l \<in> set (lines_of r3). int (rune_count l) \<le> MaxLineChars opts + 2"
      using o by (auto simp: r3_def lines_of_def truncateLongLines_lines)
    then have "int (rune_count (take (rune_offset j (lines_of r3 ! i)) (lines_of r3 ! i))) \<le> MaxLineChars opts + 2"
      using rune_count_take_le [of j "lines_of r3 ! i"] nth_mem [OF cut(1)] by force
    moreover have "rune_count ''... [truncated]'' = 15" by code_simp
    ultimately show "list_all (\<lambda>l. int (rune_count l) \<le> longest_line opts) (lines_of (CleanSource source language opts))"
      using r3 by (auto simp: out cut(2) longest_line_def list_all_iff dest!: in_set_takeD)
  qed
  have "single_blanks (lines_of r3)" if "StripBlankLines opts"
  proof -
    have "single_blanks (lines_of r2)"
      using that collapse_single [of 0] by (simp add: r2_def lines_of_def collapseBlankLines_lines)
    then show ?thesis by (auto simp: r3_def lines_of_def truncateLongLines_lines truncate_single)
  qed
  then have "StripBlankLines opts \<longrightarrow> single_blanks (whole_lines opts (CleanSource source language opts))"
    by (auto simp: out whole_lines_def cut(2) single_blanks_take intro: suffixI)
  with total lines show ?thesis by blast
qed

theorem CleanSource_limits_witness:
  "int (rune_count (CleanSource ''abcdef'' ''go'' (DefaultOpts\<lparr>MaxFileChars := 4\<rparr>))) \<le> 21"
proof -
  have "valid_string ''abcdef''" by code_simp
  from CleanSource_limits [OF this, of "DefaultOpts\<lparr>MaxFileChars := 4\<rparr>" "''go''"] show ?thesis by simp
qed

end
