(* ===== verification/Glob.thy ===== *)
theory Glob
  imports GoUtf8 GoPath
begin

text \<open>
  Go's \<open>filepath.Match\<close> on Unix and \<open>strings.Fields\<close>, as the walk over a repository uses them: a pattern is cut into
  chunks at its stars, each chunk is matched at the current position, after a star also at later ones without a
  slash in between. A malformed pattern is \<open>Inl ()\<close>.
\<close>

definition rune_value :: "string \<Rightarrow> nat" where
  "rune_value s =
     (case valid_width s of
        None \<Rightarrow> 0xFFFD
      | Some w \<Rightarrow>
          if w = 1 then byte (s ! 0)
          else if w = 2 then (byte (s ! 0) - 0xC0) * 64 + (byte (s ! 1) - 0x80)
          else if w = 3 then ((byte (s ! 0) - 0xE0) * 64 + (byte (s ! 1) - 0x80)) * 64 + (byte (s ! 2) - 0x80)
          else (((byte (s ! 0) - 0xF0) * 64 + (byte (s ! 1) - 0x80)) * 64 + (byte (s ! 2) - 0x80)) * 64 + (byte (s ! 3) - 0x80))"

text \<open>The length of the chunk up to the next star outside brackets.\<close>

fun chunk_len :: "bool \<Rightarrow> string \<Rightarrow> nat" where
  "chunk_len inrange [] = 0"
| "chunk_len inrange (c # cs) =
     (if c = CHR 0x5C then (case cs of [] \<Rightarrow> 1 | _ # cs' \<Rightarrow> 2 + chunk_len inrange cs')
      else if c = CHR ''['' then 1 + chunk_len True cs
      else if c = CHR '']'' then 1 + chunk_len False cs
      else if c = CHR ''*'' \<and> \<not> inrange then 0
      else 1 + chunk_len inrange cs)"

definition scanChunk :: "string \<Rightarrow> bool \<times> string \<times> string" where
  "scanChunk pattern =
     (let p = dropWhile (\<lambda>c. c = CHR ''*'') pattern; n = chunk_len False p
      in (pattern \<noteq> p, take n p, drop n p))"

text \<open>A possibly escaped rune of a character class, and the rest, which must not be empty.\<close>

definition getEsc :: "string \<Rightarrow> (nat \<times> string) option" where
  "getEsc chunk =
     (if chunk = [] \<or> hd chunk = CHR ''-'' \<or> hd chunk = CHR '']'' then None
      else
        let c = (if hd chunk = CHR 0x5C then tl chunk else chunk) in
        if c = [] \<or> valid_width c = None then None
        else
          let rest = drop (rune_width c) c in
          if rest = [] then None else Some (rune_value c, rest))"

lemma getEsc_shorter: "getEsc c = Some (r, d) \<Longrightarrow> length d < length c"
  using rune_width_pos [of c] rune_width_pos [of "tl c"]
  by (auto simp: getEsc_def Let_def split: if_splits)

text \<open>The ranges of a class after the optional \<open>^\<close>: whether one contains \<open>r\<close>, and the chunk after the class.\<close>

function class_ranges :: "nat \<Rightarrow> bool \<Rightarrow> bool \<Rightarrow> string \<Rightarrow> (bool \<times> string) option" where
  "class_ranges r hit some chunk =
     (if chunk \<noteq> [] \<and> hd chunk = CHR '']'' \<and> some then Some (hit, tl chunk)
      else case getEsc chunk of
        None \<Rightarrow> None
      | Some (lo, c1) \<Rightarrow>
          if hd c1 = CHR ''-'' then
            (case getEsc (tl c1) of
               None \<Rightarrow> None
             | Some (hi, c2) \<Rightarrow> class_ranges r (hit \<or> (lo \<le> r \<and> r \<le> hi)) True c2)
          else class_ranges r (hit \<or> lo = r) True c1)"
  by pat_completeness auto
termination
proof (relation "measure (\<lambda>(_, _, _, chunk). length chunk)", goal_cases)
  case (2 r hit some chunk x lo c1 y hi c2)
  then have "length c2 < length (tl c1)" "length c1 < length chunk" by (auto dest: getEsc_shorter)
  then show ?case by simp
next
  case (3 r hit some chunk x lo c1)
  then show ?case by (auto dest: getEsc_shorter)
qed simp

declare class_ranges.simps [simp del]

lemma class_ranges_shorter: "class_ranges r hit some chunk = Some (b, d) \<Longrightarrow> length d < length chunk"
proof (induction r hit some chunk rule: class_ranges.induct)
  case (1 r hit some chunk)
  show ?case
  proof (cases "chunk \<noteq> [] \<and> hd chunk = CHR '']'' \<and> some")
    case True
    then have "class_ranges r hit some chunk = Some (hit, tl chunk)" by (subst class_ranges.simps) simp
    with 1(3) have "d = tl chunk" by simp
    with True show ?thesis by (cases chunk) auto
  next
    case False
    then obtain lo c1 where c1: "getEsc chunk = Some (lo, c1)"
      using 1(3) by (auto simp: class_ranges.simps [of r hit some chunk] split: option.splits)
    show ?thesis
    proof (cases "hd c1 = CHR ''-''")
      case True
      then obtain hi c2 where c2: "getEsc (tl c1) = Some (hi, c2)"
        using 1(3) False c1 by (auto simp: class_ranges.simps [of r hit some chunk] split: option.splits)
      have "class_ranges r (hit \<or> (lo \<le> r \<and> r \<le> hi)) True c2 = Some (b, d)"
        using 1(3) False c1 True c2 by (simp add: class_ranges.simps [of r hit some chunk])
      from 1(1) [OF False c1 refl True c2 refl this] getEsc_shorter [OF c1] getEsc_shorter [OF c2] show ?thesis by simp
    next
      case nodash: False
      have "class_ranges r (hit \<or> lo = r) True c1 = Some (b, d)"
        using 1(3) False c1 nodash by (simp add: class_ranges.simps [of r hit some chunk])
      from 1(2) [OF False c1 refl nodash this] getEsc_shorter [OF c1] show ?thesis by simp
    qed
  qed
qed

text \<open>\<open>matchChunk\<close>: \<open>None\<close> for a bad pattern, \<open>Some None\<close> when it does not match, else the rest of the name.\<close>

function matchChunk :: "bool \<Rightarrow> string \<Rightarrow> string \<Rightarrow> string option option" where
  "matchChunk failed0 chunk s =
     (if chunk = [] then Some (if failed0 then None else Some s)
      else
        let failed = failed0 \<or> s = [] in
        if hd chunk = CHR ''['' then
          (let r = (if failed then 0 else rune_value s);
               s1 = (if failed then s else drop (rune_width s) s);
               c1 = tl chunk;
               negated = (c1 \<noteq> [] \<and> hd c1 = CHR ''^'');
               c2 = (if negated then tl c1 else c1)
           in case class_ranges r False False c2 of
                None \<Rightarrow> None
              | Some (hit, c3) \<Rightarrow> matchChunk (failed \<or> hit = negated) c3 s1)
        else if hd chunk = CHR ''?'' then
          matchChunk (failed \<or> hd s = CHR ''/'') (tl chunk) (if failed then s else drop (rune_width s) s)
        else if hd chunk = CHR 0x5C \<and> tl chunk = [] then None
        else
          (let c = (if hd chunk = CHR 0x5C then tl chunk else chunk)
           in matchChunk (failed \<or> hd c \<noteq> hd s) (tl c) (if failed then s else tl s)))"
  by pat_completeness auto
termination
proof (relation "measure (\<lambda>(_, chunk, _). length chunk)", goal_cases)
  case (2 failed0 chunk s failed r s1 c1 negated c2 x hit c3)
  then have "length c3 < length c2" by (auto dest: class_ranges_shorter)
  with 2 show ?case by (cases chunk) (auto simp: length_Suc_conv split: if_splits)
next
  case (3 failed0 chunk s failed)
  then show ?case by (cases chunk) auto
next
  case (4 failed0 chunk s failed c)
  then show ?case by (cases chunk) (auto split: if_splits)
qed simp

declare matchChunk.simps [simp del]

text \<open>The positions after a star: \<open>i + 1\<close> bytes are skipped, none of them a slash.\<close>

fun star_match :: "string \<Rightarrow> bool \<Rightarrow> string \<Rightarrow> string option option" where
  "star_match chunk final [] = Some None"
| "star_match chunk final (c # cs) =
     (if c = CHR ''/'' then Some None
      else case matchChunk False chunk cs of
        None \<Rightarrow> None
      | Some (Some t) \<Rightarrow> if final \<and> t \<noteq> [] then star_match chunk final cs else Some (Some t)
      | Some None \<Rightarrow> star_match chunk final cs)"

lemma scanChunk_shorter: "scanChunk p = (star, chunk, rest) \<Longrightarrow> p \<noteq> [] \<Longrightarrow> length rest < length p"
proof -
  assume sc: "scanChunk p = (star, chunk, rest)" and p: "p \<noteq> []"
  let ?p = "dropWhile (\<lambda>c. c = CHR ''*'') p"
  have len: "length ?p \<le> length p" by (rule length_dropWhile_le)
  show ?thesis
  proof (cases "?p = []")
    case True
    with sc p show ?thesis by (auto simp: scanChunk_def Let_def)
  next
    case False
    then obtain c cs where c: "?p = c # cs" by (cases ?p) auto
    have "c \<noteq> CHR ''*''" using hd_dropWhile [of "\<lambda>c. c = CHR ''*''" p] False c by auto
    then have "0 < chunk_len False ?p" unfolding c by (auto split: list.split)
    moreover have "length rest = length ?p - chunk_len False ?p" using sc by (auto simp: scanChunk_def Let_def)
    moreover have "0 < length ?p" using False by simp
    ultimately show ?thesis using len by linarith
  qed
qed

function glob_match :: "string \<Rightarrow> string \<Rightarrow> unit + bool" where
  "glob_match pattern name =
     (if pattern = [] then Inr (name = [])
      else case scanChunk pattern of (star, chunk, rest) \<Rightarrow>
        if star \<and> chunk = [] then Inr (CHR ''/'' \<notin> set name)
        else case matchChunk False chunk name of
          None \<Rightarrow> Inl ()
        | Some m \<Rightarrow>
            (case (case m of Some t \<Rightarrow> if t = [] \<or> rest \<noteq> [] then Some t else None | None \<Rightarrow> None) of
               Some t \<Rightarrow> glob_match rest t
             | None \<Rightarrow>
                 if star then
                   (case star_match chunk (rest = []) name of
                      None \<Rightarrow> Inl ()
                    | Some None \<Rightarrow> Inr False
                    | Some (Some t) \<Rightarrow> glob_match rest t)
                 else Inr False))"
  by pat_completeness auto
termination
proof (relation "measure (\<lambda>(pattern, _). length pattern)", goal_cases)
  case (2 pattern name)
  then show ?case using scanChunk_shorter [of pattern] by (auto dest: sym)
next
  case (3 pattern name)
  then show ?case using scanChunk_shorter [of pattern] by (auto dest: sym)
qed simp

declare glob_match.simps [simp del]

text \<open>\<open>ok\<close> of \<open>filepath.Match\<close>, the error being ignored.\<close>

definition glob :: "string \<Rightarrow> string \<Rightarrow> bool" where
  "glob pattern name \<longleftrightarrow> glob_match pattern name = Inr True"

lemma glob_examples:
  "glob ''*.go'' ''main.go''" "\<not> glob ''*.go'' ''cmd/main.go''" "glob ''a?c*'' ''abcd''" "glob ''[a-c]*[^x]'' ''byy''"
  "\<not> glob ''[a-c'' ''b''" "glob ''docs/*/x'' ''docs/a/x''" "glob [CHR 0x5C, CHR ''*''] ''*''" "glob ''*a*b'' ''xaxxb''"
  by code_simp+

subsection \<open>Literal patterns\<close>

definition literal :: "string \<Rightarrow> bool" where
  "literal p \<longleftrightarrow> set p \<inter> {CHR ''*'', CHR ''?'', CHR ''['', CHR 0x5C} = {}"

lemma chunk_len_literal: "literal p \<Longrightarrow> chunk_len b p = length p"
  by (induction p arbitrary: b) (auto simp: literal_def)

lemma matchChunk_failed_literal: "literal p \<Longrightarrow> matchChunk True p s = Some None"
proof (induction p arbitrary: s)
  case Nil
  then show ?case by (simp add: matchChunk.simps [of True "[]"])
next
  case (Cons c p)
  then have "literal p" "c \<noteq> CHR ''?''" "c \<noteq> CHR ''[''" "c \<noteq> CHR 0x5C" by (auto simp: literal_def)
  with Cons.IH show ?case by (simp add: matchChunk.simps [of True "c # p"] Let_def)
qed

lemma matchChunk_literal:
  "literal p \<Longrightarrow> matchChunk False p s = Some (if prefix p s then Some (drop (length p) s) else None)"
proof (induction p arbitrary: s)
  case Nil
  then show ?case by (simp add: matchChunk.simps [of False "[]"])
next
  case (Cons c p)
  then have lit: "literal p" "c \<noteq> CHR ''*''" "c \<noteq> CHR ''?''" "c \<noteq> CHR ''[''" "c \<noteq> CHR 0x5C" by (auto simp: literal_def)
  show ?case
  proof (cases s)
    case Nil
    with lit matchChunk_failed_literal [OF lit(1)] show ?thesis by (simp add: matchChunk.simps [of False "c # p"] Let_def)
  next
    case (Cons a t)
    with lit Cons.IH [OF lit(1), of t] matchChunk_failed_literal [OF lit(1), of t]
    show ?thesis by (cases "c = a") (subst matchChunk.simps, simp add: Let_def)+
  qed
qed

lemma glob_literal:
  assumes "literal p"
  shows "glob p name \<longleftrightarrow> name = p"
proof (cases "p = []")
  case True
  then show ?thesis by (simp add: glob_def glob_match.simps)
next
  case False
  have "hd p \<noteq> CHR ''*''" using assms False by (cases p) (auto simp: literal_def)
  then have "dropWhile (\<lambda>c. c = CHR ''*'') p = p" using False by (cases p) auto
  then have "scanChunk p = (False, p, [])" by (simp add: scanChunk_def chunk_len_literal [OF assms])
  with False show ?thesis
    by (auto simp: glob_def glob_match.simps [of p name] glob_match.simps [of "[]"] matchChunk_literal [OF assms] prefix_def)
qed

subsection \<open>Fields\<close>

function fields_from :: "string \<Rightarrow> string \<Rightarrow> string list" where
  "fields_from cur s =
     (if s = [] then (if cur = [] then [] else [cur])
      else case front_space s of
        Some n \<Rightarrow> (if cur = [] then [] else [cur]) @ fields_from [] (drop n s)
      | None \<Rightarrow> fields_from (cur @ take (rune_width s) s) (drop (rune_width s) s))"
  by pat_completeness auto
termination
proof (relation "measure (\<lambda>(_, s). length s)", goal_cases)
  case (2 cur s)
  then show ?case by (auto simp: rune_width_pos)
next
  case (3 cur s n)
  then show ?case using front_space_bounds [of s n] by (auto intro!: diff_less)
qed simp

declare fields_from.simps [simp del]

definition str_fields :: "string \<Rightarrow> string list" where
  "str_fields s = fields_from [] s"

lemma fields_examples: "str_fields ''  auth  cache '' = [''auth'', ''cache'']"
  by code_simp

end
