(* ===== verification/Ingest.thy ===== *)
theory Ingest
  imports Glob PathNorm CallGraph
begin

text \<open>
  Repository ingestion (\<open>internal/ingest/ignore.go\<close>, \<open>ingest.go\<close>, \<open>focus.go\<close>) and the filter for build output
  (\<open>internal/artifactfilter\<close>). The directory tree is an argument: entries in lexical order, as \<open>filepath.WalkDir\<close>
  visits them, an unreadable directory being an empty one; the size and time of a file are \<open>None\<close> when
  \<open>Info\<close> fails. The context is the number of the visit that first sees it cancelled.
\<close>

subsection \<open>Names that are always skipped\<close>

definition defaultIgnoreDirs :: "string list" where
  "defaultIgnoreDirs = [''.git'', ''.claude'', ''node_modules'', ''vendor'', ''__pycache__'', ''.venv'', ''venv'', ''.env'',
     ''dist'', ''build'', ''.next'', ''.nuxt'', ''.svelte-kit'', ''.output'', ''.cache'', ''.idea'', ''.vscode'', ''.vs'',
     ''.terraform'', ''Pods'', ''.gradle'', ''target'', ''.tox'', ''.mypy_cache'', ''.pytest_cache'', ''.cargo'',
     ''zig-cache'', ''zig-out'', ''testdata'']"

text \<open>The value of \<open>INDEX_SKIP_DIRS\<close> adds to the set.\<close>

definition extra_dirs :: "string \<Rightarrow> string list" where
  "extra_dirs env =
     (let val = go_trim_space env in
      if val = [] then [] else filter (\<lambda>n. n \<noteq> []) (map go_trim_space (split_on CHR '','' val)))"

definition binaryExtensions :: "string list" where
  "binaryExtensions = [''.exe'', ''.dll'', ''.so'', ''.dylib'', ''.a'', ''.o'', ''.pyc'', ''.pyo'', ''.class'', ''.jar'', ''.war'',
     ''.png'', ''.jpg'', ''.jpeg'', ''.gif'', ''.bmp'', ''.ico'', ''.svg'', ''.webp'', ''.tiff'', ''.mp3'', ''.mp4'', ''.avi'',
     ''.mov'', ''.wav'', ''.zip'', ''.tar'', ''.gz'', ''.bz2'', ''.xz'', ''.rar'', ''.7z'', ''.woff'', ''.woff2'', ''.ttf'',
     ''.eot'', ''.pdf'', ''.doc'', ''.docx'', ''.xls'', ''.xlsx'', ''.sqlite'', ''.db'', ''.wasm'', ''.min.js'', ''.min.css'']"

definition generatedSuffixes :: "string list" where
  "generatedSuffixes = [''.pb.go'', ''.pb.gw.go'', ''_generated.go'', ''_gen.go'', ''.gen.go'', ''.generated.go'']"

definition generatedDirs :: "string list" where
  "generatedDirs = [''migrations'', ''migration'']"

definition ignoreFiles :: "string list" where
  "ignoreFiles = [''package-lock.json'', ''yarn.lock'', ''pnpm-lock.yaml'', ''go.sum'', ''Cargo.lock'', ''Gemfile.lock'',
     ''poetry.lock'', ''composer.lock'', ''.gitignore'', ''.gitattributes'', ''.editorconfig'', ''.DS_Store'', ''Thumbs.db'']"

text \<open>The environment: \<open>INDEX_SKIP_DIRS\<close> and the Unicode tables.\<close>

record ingest_env =
  skip_env :: string
  tables :: unicode

definition ignore_dirs :: "ingest_env \<Rightarrow> string list" where
  "ignore_dirs E = defaultIgnoreDirs @ extra_dirs (skip_env E)"

definition IgnoredDirNames :: "ingest_env \<Rightarrow> string list" where
  "IgnoredDirNames E = sort (remdups (ignore_dirs E) @ generatedDirs)"

definition shouldIgnoreDir :: "ingest_env \<Rightarrow> string \<Rightarrow> bool" where
  "shouldIgnoreDir E name \<longleftrightarrow> name \<in> set (ignore_dirs E) \<or> name \<in> set generatedDirs"

definition shouldIgnoreFile :: "string \<Rightarrow> bool" where
  "shouldIgnoreFile name \<longleftrightarrow>
     name \<in> set ignoreFiles \<or> list_ex (\<lambda>ext. suffix ext name) binaryExtensions \<or>
     list_ex (\<lambda>suf. suffix suf name) generatedSuffixes"

definition isBinaryData :: "string \<Rightarrow> bool" where
  "isBinaryData data = list_ex (\<lambda>b. b = CHR 0x00) (take 512 data)"

subsection \<open>Gitignore patterns\<close>

text \<open>\<open>bufio.Scanner\<close> over lines: a carriage return at the end is dropped, and a line of 64 KB stops the scan.\<close>

definition drop_cr :: "string \<Rightarrow> string" where
  "drop_cr l = (if l \<noteq> [] \<and> last l = CHR 0x0D then butlast l else l)"

definition scan_lines :: "string \<Rightarrow> string list" where
  "scan_lines data =
     (let ls = split_on (CHR 0x0A) data; ls = (if last ls = [] then butlast ls else ls)
      in map drop_cr (takeWhile (\<lambda>l. length l < 65536) ls))"

text \<open>\<open>None\<close>: the file cannot be read.\<close>

definition parseGitignore :: "string option \<Rightarrow> string list" where
  "parseGitignore data =
     (case data of
        None \<Rightarrow> []
      | Some d \<Rightarrow> filter (\<lambda>l. l \<noteq> [] \<and> \<not> prefix ''#'' l) (map go_trim_space (scan_lines d)))"

definition dir_prefix :: "bool \<Rightarrow> string \<Rightarrow> string \<Rightarrow> bool" where
  "dir_prefix isDir p relPath \<longleftrightarrow> isDir \<and> prefix (p @ ''/'') (relPath @ ''/'')"

definition pattern_matches :: "string \<Rightarrow> bool \<Rightarrow> string \<Rightarrow> bool" where
  "pattern_matches relPath isDir pattern =
     (if prefix ''!'' pattern then False
      else if suffix ''/'' pattern \<and> \<not> isDir then False
      else
        let p = trim_suffix pattern ''/'' in
        if prefix ''/'' p then
          (let q = trim_prefix p ''/'' in glob q relPath \<or> dir_prefix isDir q relPath)
        else if CHR ''/'' \<in> set p then glob p relPath \<or> dir_prefix isDir p relPath
        else glob p (path_base relPath))"

definition matchGitignore :: "string \<Rightarrow> bool \<Rightarrow> string list \<Rightarrow> bool" where
  "matchGitignore relPath isDir patterns = list_ex (pattern_matches relPath isDir) patterns"

subsection \<open>Focus\<close>

definition splitFocus :: "string \<Rightarrow> string list" where
  "splitFocus focus = str_fields (replace_char CHR '','' '' '' focus)"

definition IsKeywordFocus :: "string \<Rightarrow> bool" where
  "IsKeywordFocus focus \<longleftrightarrow> length (splitFocus focus) > 1"

definition str_contains :: "string \<Rightarrow> string \<Rightarrow> bool" where
  "str_contains s t \<longleftrightarrow> str_index s t \<noteq> None"

definition matchKeywords :: "unicode \<Rightarrow> string \<Rightarrow> string \<Rightarrow> bool" where
  "matchKeywords u focus relPath =
     (let keywords = splitFocus focus in
      keywords \<noteq> [] \<and> list_all (\<lambda>kw. str_contains (to_lower u relPath) (to_lower u kw)) keywords)"

subsection \<open>The walk\<close>

record IngestOpts =
  Focus :: string
  Languages :: "string list"
  MaxFileBytes :: int
  MaxRepoBytes :: int
  MaxFiles :: int
  FollowSymlinks :: bool
  ExcludeTests :: bool

record File =
  f_Path :: string
  f_RelPath :: string
  f_Language :: string
  f_Size :: int
  f_ModTime :: nat

record IngestResult =
  Files :: "File list"
  Root :: string
  TotalBytes :: int
  SkippedCount :: nat
  SkippedReasons :: "string \<Rightarrow> nat"

definition maxWalkDepth :: nat where "maxWalkDepth = 20"
definition maxWalkFiles :: int where "maxWalkFiles = 10000"

definition effectiveMaxFiles :: "int \<Rightarrow> int" where
  "effectiveMaxFiles m = (if m > 0 \<and> m < maxWalkFiles then m else maxWalkFiles)"

text \<open>Whether a directory is skipped with everything below it.\<close>

definition handleDir :: "ingest_env \<Rightarrow> string list \<Rightarrow> string \<Rightarrow> string \<Rightarrow> bool" where
  "handleDir E patterns relPath name =
     (if relPath = ''.'' then False
      else if shouldIgnoreDir E name \<or> matchGitignore relPath True patterns then True
      else count_list relPath CHR ''/'' \<ge> maxWalkDepth)"

definition focus_excludes :: "unicode \<Rightarrow> string \<Rightarrow> string \<Rightarrow> bool" where
  "focus_excludes u focus relPath =
     (if focus = [] then False
      else if IsKeywordFocus focus then \<not> matchKeywords u focus relPath
      else \<not> glob focus relPath \<and> \<not> prefix focus relPath)"

text \<open>The reason for which a file is dropped, with whether it counts as skipped, or the file.\<close>

definition handleFile :: "ingest_env \<Rightarrow> string \<Rightarrow> IngestOpts \<Rightarrow> string list \<Rightarrow> string \<Rightarrow> string \<Rightarrow> (int \<times> nat) option \<Rightarrow>
    (bool \<times> string) + File" where
  "handleFile E root opts patterns relPath name info =
     (let lang = DetectLanguageFromPath name;
          size = (case info of None \<Rightarrow> 0 | Some (sz, _) \<Rightarrow> sz);
          mtime = (case info of None \<Rightarrow> 0 | Some (_, t) \<Rightarrow> t)
      in if shouldIgnoreFile name \<or> matchGitignore relPath False patterns then Inl (True, ''gitignored'')
         else if ExcludeTests opts \<and> suffix ''_test.go'' name then Inl (False, ''test_excluded'')
         else if lang = [] then Inl (False, ''unknown_extension'')
         else if Languages opts \<noteq> [] \<and> lang \<notin> set (Languages opts) then Inl (False, ''language_filter'')
         else if MaxFileBytes opts > 0 \<and> size > MaxFileBytes opts then Inl (True, ''oversize'')
         else if focus_excludes (tables E) (Focus opts) relPath then Inl (False, ''focus_excluded'')
         else Inr \<lparr>f_Path = path_join [root, relPath], f_RelPath = relPath, f_Language = lang, f_Size = size, f_ModTime = mtime\<rparr>)"

datatype repo_entry = RFile string "(int \<times> nat) option" | RLink string | RDir string "repo_entry list"

fun entry_name :: "repo_entry \<Rightarrow> string" where
  "entry_name (RFile n info) = n"
| "entry_name (RLink n) = n"
| "entry_name (RDir n es) = n"

definition child_rel :: "string \<Rightarrow> string \<Rightarrow> string" where
  "child_rel rel n = (if rel = ''.'' then n else rel @ ''/'' @ n)"

text \<open>The calls of the walk function, in order: directories and links, of which nothing is recorded, and files.\<close>

datatype visit = OtherVisit | FileVisit string string "(int \<times> nat) option"

fun visits :: "ingest_env \<Rightarrow> string list \<Rightarrow> string \<Rightarrow> repo_entry \<Rightarrow> visit list" where
  "visits E patterns rel (RFile n info) = [FileVisit rel n info]"
| "visits E patterns rel (RLink n) = [OtherVisit]"
| "visits E patterns rel (RDir n es) =
     OtherVisit #
     (if handleDir E patterns rel n then []
      else concat (map (\<lambda>e. visits E patterns (child_rel rel (entry_name e)) e) es))"

definition note_skip :: "bool \<Rightarrow> string \<Rightarrow> IngestResult \<Rightarrow> IngestResult" where
  "note_skip skipped reason r =
     r\<lparr>SkippedReasons := (SkippedReasons r)(reason := SkippedReasons r reason + 1),
       SkippedCount := (if skipped then SkippedCount r + 1 else SkippedCount r)\<rparr>"

definition walk_step :: "ingest_env \<Rightarrow> string \<Rightarrow> IngestOpts \<Rightarrow> string list \<Rightarrow> IngestResult \<Rightarrow> visit \<Rightarrow> IngestResult" where
  "walk_step E root opts patterns r v =
     (case v of
        OtherVisit \<Rightarrow> r
      | FileVisit rel n info \<Rightarrow>
          (case handleFile E root opts patterns rel n info of
             Inl (skipped, reason) \<Rightarrow> note_skip skipped reason r
           | Inr f \<Rightarrow>
               if MaxRepoBytes opts > 0 \<and> TotalBytes r > MaxRepoBytes opts then note_skip True ''repo_oversize'' r
               else if int (length (Files r)) < effectiveMaxFiles (MaxFiles opts)
               then r\<lparr>Files := Files r @ [f], TotalBytes := TotalBytes r + f_Size f\<rparr>
               else note_skip False ''max_files'' r))"

definition empty_result :: "string \<Rightarrow> IngestResult" where
  "empty_result root = \<lparr>Files = [], Root = root, TotalBytes = 0, SkippedCount = 0, SkippedReasons = (\<lambda>_. 0)\<rparr>"

text \<open>The walk of \<open>IngestRepo\<close>: the error of the context, or the result. \<open>tree\<close> is \<^const>\<open>None\<close> when the root cannot be read.\<close>

definition walk_repo :: "ingest_env \<Rightarrow> nat option \<Rightarrow> IngestOpts \<Rightarrow> string \<Rightarrow> string option \<Rightarrow> repo_entry option \<Rightarrow> unit + IngestResult" where
  "walk_repo E cancel opts root0 gitignore tree =
     (let root = path_clean root0; patterns = parseGitignore gitignore;
          vs = (case tree of None \<Rightarrow> [] | Some t \<Rightarrow> visits E patterns ''.'' t)
      in if (case cancel of None \<Rightarrow> False | Some k \<Rightarrow> k < length vs) then Inl ()
         else Inr (foldl (walk_step E root opts patterns) (empty_result root) vs))"

definition CountSourceFiles :: "File list \<Rightarrow> nat" where
  "CountSourceFiles fs = length (filter (\<lambda>f. f_Language f \<noteq> []) fs)"

subsection \<open>Filtering by content\<close>

definition kwInSymbols :: "unicode \<Rightarrow> Symbol list \<Rightarrow> string \<Rightarrow> bool" where
  "kwInSymbols u syms kw = list_ex (\<lambda>s. str_contains (to_lower u (sym_Name s)) kw) syms"

definition kwInImports :: "unicode \<Rightarrow> string list \<Rightarrow> string \<Rightarrow> bool" where
  "kwInImports u imps kw = list_ex (\<lambda>i. str_contains (to_lower u i) kw) imps"

definition kwInCalls :: "unicode \<Rightarrow> CallSite list \<Rightarrow> string \<Rightarrow> bool" where
  "kwInCalls u calls kw =
     list_ex (\<lambda>c. str_contains (to_lower u (cs_Name c)) kw \<or> str_contains (to_lower u (cs_Receiver c)) kw) calls"

definition fileMatchesAnyKeyword :: "unicode \<Rightarrow> Symbol list \<Rightarrow> string list \<Rightarrow> CallSite list \<Rightarrow> string list \<Rightarrow> bool" where
  "fileMatchesAnyKeyword u syms imps calls keywords =
     list_ex (\<lambda>kw. kwInSymbols u syms kw \<or> kwInImports u imps kw \<or> kwInCalls u calls kw) keywords"

definition groupSymbolsByFile :: "Symbol list \<Rightarrow> string \<Rightarrow> Symbol list" where
  "groupSymbolsByFile symbols path = filter (\<lambda>s. sym_File s = path) symbols"

definition groupCallsByFile :: "CallSite list \<Rightarrow> string \<Rightarrow> CallSite list" where
  "groupCallsByFile calls path = filter (\<lambda>c. cs_File c = path) calls"

text \<open>\<^const>\<open>None\<close> is the nil map; \<open>imports\<close> lists the entries of a map.\<close>

definition ContentFilter :: "unicode \<Rightarrow> string \<Rightarrow> Symbol list \<Rightarrow> (string \<times> string list) list \<Rightarrow> CallSite list \<Rightarrow> string set option" where
  "ContentFilter u focus symbols imports calls =
     (let keywords = splitFocus (to_lower u focus);
          allFiles = map sym_File symbols @ map fst imports @ map cs_File calls
      in if keywords = [] then None
         else Some (set (filter (\<lambda>path. fileMatchesAnyKeyword u (groupSymbolsByFile symbols path)
           (case map_of imports path of None \<Rightarrow> [] | Some ps \<Rightarrow> ps) (groupCallsByFile calls path) keywords) allFiles)))"

definition FilterFiles :: "File list \<Rightarrow> string set option \<Rightarrow> File list" where
  "FilterFiles fs matched =
     (case matched of None \<Rightarrow> [] | Some m \<Rightarrow> if m = {} then [] else filter (\<lambda>f. f_Path f \<in> m) fs)"

subsection \<open>What the walk returns\<close>

definition accepted :: "ingest_env \<Rightarrow> string \<Rightarrow> IngestOpts \<Rightarrow> string list \<Rightarrow> visit \<Rightarrow> File list" where
  "accepted E root opts patterns v =
     (case v of
        OtherVisit \<Rightarrow> []
      | FileVisit rel n info \<Rightarrow>
          (case handleFile E root opts patterns rel n info of Inl _ \<Rightarrow> [] | Inr f \<Rightarrow> [f]))"

definition is_file :: "visit \<Rightarrow> bool" where
  "is_file v \<longleftrightarrow> v \<noteq> OtherVisit"

definition reasons :: "string list" where
  "reasons = [''gitignored'', ''test_excluded'', ''unknown_extension'', ''language_filter'', ''oversize'', ''focus_excluded'',
     ''repo_oversize'', ''max_files'']"

definition over_cap :: "IngestOpts \<Rightarrow> int \<Rightarrow> bool" where
  "over_cap opts bytes \<longleftrightarrow> MaxRepoBytes opts > 0 \<and> bytes > MaxRepoBytes opts"

text \<open>The files are an initial part of the accepted ones: all of them, or as many as the cap on their number allows, or
  those up to and including the one that passes the cap on bytes; every other file is counted under one reason.\<close>

definition walk_ok :: "IngestOpts \<Rightarrow> File list \<Rightarrow> nat \<Rightarrow> IngestResult \<Rightarrow> bool" where
  "walk_ok opts acc n r \<longleftrightarrow>
     prefix (Files r) acc \<and>
     (Files r = acc \<or> int (length (Files r)) = effectiveMaxFiles (MaxFiles opts) \<or> over_cap opts (TotalBytes r)) \<and>
     int (length (Files r)) \<le> effectiveMaxFiles (MaxFiles opts) \<and>
     TotalBytes r = sum_list (map f_Size (Files r)) \<and>
     (MaxRepoBytes opts > 0 \<longrightarrow> sum_list (map f_Size (butlast (Files r))) \<le> MaxRepoBytes opts) \<and>
     length (Files r) + sum_list (map (SkippedReasons r) reasons) = n \<and>
     SkippedCount r = sum_list (map (SkippedReasons r) [''gitignored'', ''oversize'', ''repo_oversize''])"

lemma effectiveMaxFiles_pos: "0 < effectiveMaxFiles m"
  by (simp add: effectiveMaxFiles_def maxWalkFiles_def)

lemma walk_ok_empty: "walk_ok opts [] 0 (empty_result root)"
  using effectiveMaxFiles_pos [of "MaxFiles opts"] by (simp add: walk_ok_def empty_result_def reasons_def)

lemma note_skip_fields [simp]:
  "Files (note_skip b reason r) = Files r" "TotalBytes (note_skip b reason r) = TotalBytes r"
  "SkippedReasons (note_skip b reason r) = (SkippedReasons r)(reason := SkippedReasons r reason + 1)"
  "SkippedCount (note_skip b reason r) = (if b then SkippedCount r + 1 else SkippedCount r)"
  by (simp_all add: note_skip_def)

definition reason_ok :: "bool \<Rightarrow> string \<Rightarrow> bool" where
  "reason_ok b reason \<longleftrightarrow> reason \<in> set reasons \<and> (b \<longleftrightarrow> reason \<in> {''gitignored'', ''oversize'', ''repo_oversize''})"

lemma sum_list_bump:
  "distinct xs \<Longrightarrow> sum_list (map (f(x := f x + 1)) xs) = sum_list (map f xs) + (if x \<in> set xs then 1 else (0 :: nat))"
  by (induction xs) auto

lemma reasons_distinct: "distinct reasons" "distinct [''gitignored'', ''oversize'', ''repo_oversize'']"
  by code_simp+

lemma walk_ok_skip:
  assumes "walk_ok opts acc n r" and "reason_ok b reason"
    and "acc' = acc \<or> int (length (Files r)) = effectiveMaxFiles (MaxFiles opts) \<or> over_cap opts (TotalBytes r)"
    and "prefix acc acc'"
  shows "walk_ok opts acc' (Suc n) (note_skip b reason r)"
proof -
  let ?r = "note_skip b reason r"
  have "sum_list (map (SkippedReasons ?r) reasons) = sum_list (map (SkippedReasons r) reasons) + 1"
    unfolding note_skip_fields sum_list_bump [OF reasons_distinct(1)] using assms(2) by (simp add: reason_ok_def)
  moreover have "sum_list (map (SkippedReasons ?r) [''gitignored'', ''oversize'', ''repo_oversize'']) =
      sum_list (map (SkippedReasons r) [''gitignored'', ''oversize'', ''repo_oversize'']) + (if b then 1 else 0)"
    unfolding note_skip_fields sum_list_bump [OF reasons_distinct(2)] using assms(2) by (simp only: reason_ok_def list.set)
  moreover have "prefix (Files r) acc'" using assms(1,4) by (auto simp only: walk_ok_def intro: prefix_order.trans)
  moreover have "Files r = acc' \<or> int (length (Files r)) = effectiveMaxFiles (MaxFiles opts) \<or> over_cap opts (TotalBytes r)"
    using assms(1,3) by (auto simp only: walk_ok_def)
  ultimately show ?thesis using assms(1) unfolding walk_ok_def note_skip_fields by simp
qed

lemma handleFile_reason: "handleFile E root opts patterns rel n info = Inl (b, reason) \<Longrightarrow> reason_ok b reason"
  by (auto simp: handleFile_def Let_def reason_ok_def reasons_def split: if_splits option.splits)

lemma walk_step_ok:
  assumes ok: "walk_ok opts acc n r"
  shows "walk_ok opts (acc @ accepted E root opts patterns v) (n + (if is_file v then 1 else 0)) (walk_step E root opts patterns r v)"
proof (cases v)
  case OtherVisit
  with ok show ?thesis by (simp add: accepted_def is_file_def walk_step_def)
next
  case (FileVisit rel nm info)
  note v = FileVisit
  show ?thesis
  proof (cases "handleFile E root opts patterns rel nm info")
    case (Inl e)
    obtain b reason where e: "e = (b, reason)" by force
    have "reason_ok b reason" using handleFile_reason Inl e by blast
    from walk_ok_skip [OF ok this, of acc] show ?thesis
      using v Inl e by (simp add: accepted_def is_file_def walk_step_def)
  next
    case (Inr f)
    consider (oversize) "over_cap opts (TotalBytes r)"
      | (room) "\<not> over_cap opts (TotalBytes r)" "int (length (Files r)) < effectiveMaxFiles (MaxFiles opts)"
      | (full) "\<not> over_cap opts (TotalBytes r)" "\<not> int (length (Files r)) < effectiveMaxFiles (MaxFiles opts)"
      by blast
    then show ?thesis
    proof cases
      case oversize
      have "reason_ok True ''repo_oversize''" by (simp add: reason_ok_def reasons_def)
      from walk_ok_skip [OF ok this, of "acc @ [f]"] oversize show ?thesis
        using v Inr by (simp add: accepted_def is_file_def walk_step_def over_cap_def)
    next
      case room
      then have "Files r = acc" using ok by (auto simp: walk_ok_def)
      moreover have "MaxRepoBytes opts > 0 \<longrightarrow> TotalBytes r \<le> MaxRepoBytes opts" using room(1) by (auto simp: over_cap_def)
      ultimately show ?thesis
        using v Inr room ok by (auto simp: accepted_def is_file_def walk_step_def over_cap_def walk_ok_def)
    next
      case full
      have "reason_ok False ''max_files''" by (simp add: reason_ok_def reasons_def)
      moreover have "int (length (Files r)) = effectiveMaxFiles (MaxFiles opts)" using full ok by (simp add: walk_ok_def)
      ultimately show ?thesis
        using walk_ok_skip [OF ok, of False "''max_files''" "acc @ [f]"] full v Inr
        by (auto simp: accepted_def is_file_def walk_step_def over_cap_def)
    qed
  qed
qed

lemma walk_steps_ok:
  "walk_ok opts acc n r \<Longrightarrow>
   walk_ok opts (acc @ concat (map (accepted E root opts patterns) vs)) (n + length (filter is_file vs))
     (foldl (walk_step E root opts patterns) r vs)"
proof (induction vs arbitrary: acc n r)
  case Nil
  then show ?case by simp
next
  case (Cons v vs)
  from Cons.IH [OF walk_step_ok [OF Cons.prems, of E root patterns v]] show ?case
    by (cases "is_file v") (simp_all add: add.assoc)
qed

definition all_visits :: "ingest_env \<Rightarrow> string list \<Rightarrow> repo_entry option \<Rightarrow> visit list" where
  "all_visits E patterns tree = (case tree of None \<Rightarrow> [] | Some t \<Rightarrow> visits E patterns ''.'' t)"

text \<open>C28: The walk over a repository that is not cancelled: its files are the accepted ones in the order of the walk, all of them
  unless the cap on their number is reached or the cap on bytes is passed, which the last file alone may do; their sizes
  add up to the total, and every file that was visited is either returned or counted under exactly one reason.\<close>

theorem walk_repo_exact:
  assumes "walk_repo E cancel opts root gitignore tree = Inr r"
  shows "walk_ok opts (concat (map (accepted E (path_clean root) opts (parseGitignore gitignore))
      (all_visits E (parseGitignore gitignore) tree)))
    (length (filter is_file (all_visits E (parseGitignore gitignore) tree))) r"
proof -
  from assms have "r = foldl (walk_step E (path_clean root) opts (parseGitignore gitignore)) (empty_result (path_clean root))
      (all_visits E (parseGitignore gitignore) tree)"
    by (simp add: walk_repo_def Let_def all_visits_def split: if_splits)
  with walk_steps_ok [OF walk_ok_empty [of opts "path_clean root"]] show ?thesis by simp
qed

definition plain_env :: ingest_env where
  "plain_env = \<lparr>skip_env = [], tables = \<lparr>u_lower = id, u_upper1 = (\<lambda>_. False)\<rparr>\<rparr>"

definition all_files :: IngestOpts where
  "all_files = \<lparr>Focus = [], Languages = [], MaxFileBytes = 0, MaxRepoBytes = 0, MaxFiles = 0, FollowSymlinks = False,
     ExcludeTests = False\<rparr>"

definition small_tree :: repo_entry where
  "small_tree = RDir ''repo'' [RFile ''a.go'' (Some (10, 0)), RDir ''vendor'' [RFile ''b.go'' None], RFile ''c.txt'' None,
     RFile ''d.go'' (Some (5, 0))]"

theorem walk_repo_exact_witness:
  "\<exists>r. walk_repo plain_env None (all_files\<lparr>MaxFiles := 1\<rparr>) ''/r'' None (Some small_tree) = Inr r \<and>
     map f_RelPath (Files r) = [''a.go''] \<and> length (Files r) + sum_list (map (SkippedReasons r) reasons) = 3"
proof -
  let ?o = "all_files\<lparr>MaxFiles := 1\<rparr>"
  obtain r where r: "walk_repo plain_env None ?o ''/r'' None (Some small_tree) = Inr r"
    by (simp add: walk_repo_def Let_def)
  have vs: "length (filter is_file (all_visits plain_env (parseGitignore None) (Some small_tree))) = 3" by code_simp
  have files: "map f_RelPath (case walk_repo plain_env None ?o ''/r'' None (Some small_tree) of Inl _ \<Rightarrow> [] | Inr r \<Rightarrow> Files r)
      = [''a.go'']" by code_simp
  from walk_repo_exact [OF r] vs files r show ?thesis by (auto simp: walk_ok_def)
qed

subsection \<open>What is never ingested\<close>

fun tree_names :: "repo_entry \<Rightarrow> bool" where
  "tree_names (RFile n info) \<longleftrightarrow> CHR ''/'' \<notin> set n"
| "tree_names (RLink n) \<longleftrightarrow> CHR ''/'' \<notin> set n"
| "tree_names (RDir n es) \<longleftrightarrow> CHR ''/'' \<notin> set n \<and> list_all tree_names es"

lemma tree_names_name: "tree_names e \<Longrightarrow> CHR ''/'' \<notin> set (entry_name e)"
  by (cases e) auto

text \<open>The path of an entry: the names of its directories, and its own.\<close>

definition at_path :: "ingest_env \<Rightarrow> string \<Rightarrow> string \<Rightarrow> bool" where
  "at_path E rel n \<longleftrightarrow>
     rel = ''.'' \<or>
     (\<exists>ds. split_on CHR ''/'' rel = ds @ [n] \<and> list_all (\<lambda>d. \<not> shouldIgnoreDir E d) ds \<and> length ds \<le> maxWalkDepth)"

lemma split_on_count: "length (split_on c s) = Suc (count_list s c)"
  by (induction s) (auto split: list.split)

lemma at_path_child:
  assumes "at_path E rel n" and "\<not> handleDir E patterns rel n" and "CHR ''/'' \<notin> set m"
  shows "at_path E (child_rel rel m) m"
proof (cases "rel = ''.''")
  case True
  with split_on_id [OF assms(3)] show ?thesis by (simp add: at_path_def child_rel_def)
next
  case False
  then obtain ds where ds: "split_on CHR ''/'' rel = ds @ [n]" "list_all (\<lambda>d. \<not> shouldIgnoreDir E d) ds" "length ds \<le> maxWalkDepth"
    using assms(1) by (auto simp: at_path_def)
  have dir: "\<not> shouldIgnoreDir E n" "count_list rel CHR ''/'' < maxWalkDepth"
    using assms(2) False by (auto simp: handleDir_def split: if_splits)
  have "length (ds @ [n]) \<le> maxWalkDepth" using split_on_count [of "CHR ''/''" rel] ds(1) dir(2) by simp
  moreover have "split_on CHR ''/'' (child_rel rel m) = (ds @ [n]) @ [m]"
    using False ds(1) split_on_id [OF assms(3)] by (simp add: child_rel_def split_on_snoc)
  ultimately show ?thesis using ds(2) dir(1) unfolding at_path_def by (intro disjI2 exI [of _ "ds @ [n]"]) simp
qed

lemma visits_path:
  "FileVisit r n info \<in> set (visits E patterns rel e) \<Longrightarrow> tree_names e \<Longrightarrow> at_path E rel (entry_name e) \<Longrightarrow> at_path E r n"
proof (induction E patterns rel e rule: visits.induct)
  case (1 E patterns rel n info)
  then show ?case by simp
next
  case (2 E patterns rel n)
  then show ?case by simp
next
  case (3 E patterns rel m es)
  then obtain e where e: "e \<in> set es" "FileVisit r n info \<in> set (visits E patterns (child_rel rel (entry_name e)) e)"
    "\<not> handleDir E patterns rel m"
    by (auto split: if_splits)
  from "3.prems"(2) e(1) have names: "tree_names e" by (simp add: list_all_iff)
  from "3.prems"(3) have "at_path E rel m" by simp
  from at_path_child [OF this e(3) tree_names_name [OF names]] "3.IH" [OF e(3,1,2) names] show ?case by simp
qed

text \<open>Every file that the walk returns lies below directories that are not on the skip list, at most 20 of them, is itself not
  ignored by name or by a pattern, has a known language that was asked for and at most the size that was asked for, and
  is no Go test if tests are excluded.\<close>

lemma walk_repo_skips:
  assumes "walk_repo E cancel opts root gitignore (Some t) = Inr r" and "tree_names t" and "f \<in> set (Files r)"
  shows "(\<exists>n. at_path E (f_RelPath f) n \<and> \<not> shouldIgnoreFile n \<and>
      \<not> matchGitignore (f_RelPath f) False (parseGitignore gitignore) \<and>
      f_Language f = DetectLanguageFromPath n \<and> f_Language f \<noteq> [] \<and> \<not> (ExcludeTests opts \<and> suffix ''_test.go'' n)) \<and>
    (Languages opts = [] \<or> f_Language f \<in> set (Languages opts)) \<and>
    (MaxFileBytes opts \<le> 0 \<or> f_Size f \<le> MaxFileBytes opts)"
proof -
  let ?pats = "parseGitignore gitignore"
  have "prefix (Files r) (concat (map (accepted E (path_clean root) opts ?pats) (visits E ?pats ''.'' t)))"
    using walk_steps_ok [OF walk_ok_empty [of opts "path_clean root"], of E "path_clean root" ?pats "visits E ?pats ''.'' t"] assms(1)
    by (auto simp: walk_repo_def Let_def walk_ok_def split: if_splits)
  with assms(3) have "f \<in> set (concat (map (accepted E (path_clean root) opts ?pats) (visits E ?pats ''.'' t)))"
    using set_mono_prefix by blast
  then obtain w where w: "w \<in> set (visits E ?pats ''.'' t)" "f \<in> set (accepted E (path_clean root) opts ?pats w)" by auto
  then obtain rel n info where wv: "w = FileVisit rel n info" by (cases w) (auto simp: accepted_def)
  with w have v: "FileVisit rel n info \<in> set (visits E ?pats ''.'' t)" by simp
  have f: "handleFile E (path_clean root) opts ?pats rel n info = Inr f"
    using w(2) wv by (auto simp: accepted_def split: sum.splits)
  have "at_path E rel n" by (rule visits_path [OF v assms(2)]) (simp add: at_path_def)
  with f show ?thesis by (auto simp: handleFile_def Let_def split: if_splits option.splits)
qed

text \<open>A pattern without wildcards and slashes that ends in a slash ignores exactly the directories of that name, anywhere.\<close>

lemma gitignore_plain_dir:
  assumes "literal p" and "CHR ''/'' \<notin> set p" and "\<not> prefix ''!'' p" and "p \<noteq> []"
  shows "pattern_matches relPath isDir (p @ ''/'') \<longleftrightarrow> isDir \<and> path_base relPath = p"
proof -
  have "\<not> prefix ''!'' (p @ ''/'')" "\<not> prefix ''/'' p" using assms(2-4) by (cases p; auto)+
  then show ?thesis
    using assms(2) glob_literal [OF assms(1)] by (simp add: pattern_matches_def Let_def suffix_def)
qed

text \<open>The walk never follows a link, whatever \<open>FollowSymlinks\<close> asks for.\<close>

lemma links_are_never_followed:
  "walk_repo E cancel (opts\<lparr>FollowSymlinks := True\<rparr>) root gitignore tree = walk_repo E cancel (opts\<lparr>FollowSymlinks := False\<rparr>) root gitignore tree"
proof -
  have "handleFile E root (opts\<lparr>FollowSymlinks := b\<rparr>) patterns rel n info = handleFile E root opts patterns rel n info"
    for b root patterns rel n info by (simp add: handleFile_def Let_def)
  then have "walk_step E root (opts\<lparr>FollowSymlinks := b\<rparr>) patterns = walk_step E root opts patterns" for b root patterns
    by (intro ext) (simp add: walk_step_def split: visit.split sum.split)
  then show ?thesis by (simp add: walk_repo_def Let_def)
qed

subsection \<open>Filtering by content is exact\<close>

definition keyword_hit :: "unicode \<Rightarrow> Symbol list \<Rightarrow> (string \<times> string list) list \<Rightarrow> CallSite list \<Rightarrow> string \<Rightarrow> string \<Rightarrow> bool" where
  "keyword_hit u symbols imps calls path kw \<longleftrightarrow>
     (\<exists>s \<in> set symbols. sym_File s = path \<and> str_contains (to_lower u (sym_Name s)) kw) \<or>
     (\<exists>ps. map_of imps path = Some ps \<and> (\<exists>i \<in> set ps. str_contains (to_lower u i) kw)) \<or>
     (\<exists>c \<in> set calls. cs_File c = path \<and>
        (str_contains (to_lower u (cs_Name c)) kw \<or> str_contains (to_lower u (cs_Receiver c)) kw))"

lemma keyword_hit_iff:
  "keyword_hit u symbols imps calls path kw \<longleftrightarrow>
     kwInSymbols u (groupSymbolsByFile symbols path) kw \<or>
     kwInImports u (case map_of imps path of None \<Rightarrow> [] | Some ps \<Rightarrow> ps) kw \<or>
     kwInCalls u (groupCallsByFile calls path) kw"
proof -
  have "kwInSymbols u (groupSymbolsByFile symbols path) kw \<longleftrightarrow>
      (\<exists>s \<in> set symbols. sym_File s = path \<and> str_contains (to_lower u (sym_Name s)) kw)"
    by (auto simp: kwInSymbols_def groupSymbolsByFile_def list_ex_iff)
  moreover have "kwInImports u (case map_of imps path of None \<Rightarrow> [] | Some ps \<Rightarrow> ps) kw \<longleftrightarrow>
      (\<exists>ps. map_of imps path = Some ps \<and> (\<exists>i \<in> set ps. str_contains (to_lower u i) kw))"
    by (cases "map_of imps path") (auto simp: kwInImports_def list_ex_iff)
  moreover have "kwInCalls u (groupCallsByFile calls path) kw \<longleftrightarrow> (\<exists>c \<in> set calls. cs_File c = path \<and>
      (str_contains (to_lower u (cs_Name c)) kw \<or> str_contains (to_lower u (cs_Receiver c)) kw))"
    by (auto simp: kwInCalls_def groupCallsByFile_def list_ex_iff)
  ultimately show ?thesis unfolding keyword_hit_def by simp
qed

lemma keyword_hit_file:
  assumes "keyword_hit u symbols imps calls path kw"
  shows "path \<in> set (map sym_File symbols @ map fst imps @ map cs_File calls)"
proof -
  have "map_of imps path = Some ps \<Longrightarrow> path \<in> fst ` set imps" for ps
    by (metis domI dom_map_of_conv_image_fst)
  with assms show ?thesis unfolding keyword_hit_def by auto
qed

lemma ContentFilter_exact:
  "ContentFilter u focus symbols imps calls =
     (if splitFocus (to_lower u focus) = [] then None
      else Some {path. \<exists>kw \<in> set (splitFocus (to_lower u focus)). keyword_hit u symbols imps calls path kw})"
proof -
  have "set (filter (\<lambda>path. list_ex (keyword_hit u symbols imps calls path) kws) (map sym_File symbols @ map fst imps @ map cs_File calls))
      = {path. \<exists>kw \<in> set kws. keyword_hit u symbols imps calls path kw}" for kws
    using keyword_hit_file [of u symbols imps calls] by (fastforce simp: list_ex_iff)
  then show ?thesis
    by (simp only: ContentFilter_def Let_def fileMatchesAnyKeyword_def keyword_hit_iff [symmetric])
qed

end
