(* ===== verification/Clones.thy ===== *)
theory Clones
  imports Slug PathNorm
begin

text \<open>
  Shared clone directories (\<open>internal/ingest/clone.go\<close>, \<open>cloneref.go\<close> and \<open>RemoteSource.Root\<close> in
  \<open>internal/workspace/source.go\<close>). A directory is named after the slug alone and shared by all tool calls;
  a count of its readers decides who removes it. The calls are a transition system: a reader is at a
  point between two atomic steps of \<open>CloneRepo\<close> or of the reference count, a cold clone is a flight that
  several readers wait for, and the disk maps a directory to the origin and the ref of its tree. The outcome of
  git is part of the action; what git does to the directory is written from its documentation: a clone into an
  existing directory fails and leaves it, a clone that fails removes what it made, a fetch keeps the origin.

  The lemmas show that the counts are exact and that only the last reader removes; that a reader holds the
  tree it asked for as long as two windows are not hit; and runs in which they are hit.
\<close>

subsection \<open>The reference counts\<close>

text \<open>A directory that is not in the map counts 0.\<close>

type_synonym clone_counts = "string \<Rightarrow> nat"

definition AcquireCloneRef :: "string \<Rightarrow> clone_counts \<Rightarrow> clone_counts" where
  "AcquireCloneRef dir counts = (if dir = [] then counts else counts(dir := counts dir + 1))"

text \<open>The counts after the critical section, and whether the directory is to be removed.\<close>

definition ReleaseCloneRef :: "string \<Rightarrow> clone_counts \<Rightarrow> clone_counts \<times> bool" where
  "ReleaseCloneRef dir counts =
     (if dir = [] then (counts, False)
      else case counts dir of
        0 \<Rightarrow> (counts, False)
      | Suc 0 \<Rightarrow> (counts(dir := 0), True)
      | n \<Rightarrow> (counts(dir := n - 1), False))"

subsection \<open>Readers\<close>

record CloneOpts =
  co_Slug :: string
  co_Ref :: string
  co_DestDir :: string
  co_URL :: string

text \<open>\<open>NormalizeSlug\<close> and the directory of a clone.\<close>

definition clone_dir :: "CloneOpts \<Rightarrow> slug_error + string" where
  "clone_dir opts =
     (case Parse (co_Slug opts) of
        Inl e \<Rightarrow> Inl e
      | Inr slug \<Rightarrow> Inr (path_join [co_DestDir opts, replace_char CHR ''/'' ''_'' slug]))"

text \<open>
  The points of a reader: before the stat, in \<open>refreshClone\<close>, in \<open>atomicReclone\<close>, before \<open>DoChan\<close>, in the
  select, with the result of its flight, returned from \<open>CloneRepo\<close>, with its reference, before \<open>CleanupCloneDir\<close>.
\<close>

datatype reader_pc = Stat | Refreshing | Recloning | Joining | Waiting | Delivered bool | Cloned | Holding | Removing
  | Released | Failed

record reader =
  rd_dir :: string
  rd_url :: string
  rd_ref :: string
  rd_pc :: reader_pc

datatype flight_phase = Launched | Writing | Doomed

record flight =
  fl_url :: string
  fl_ref :: string
  fl_phase :: flight_phase

record clone_state =
  counts :: clone_counts
  disk :: "string \<Rightarrow> (string \<times> string) option"
  flights :: "string \<Rightarrow> flight option"
  readers :: "reader list"

datatype clone_action = Call CloneOpts bool | StatStep nat | Refresh nat bool | Reclone nat bool | Join nat | Receive nat
  | GiveUp nat | GitStart string | FlightEnd string bool | Acquire nat | Release nat | Remove nat

definition set_pc :: "nat \<Rightarrow> reader_pc \<Rightarrow> clone_state \<Rightarrow> clone_state" where
  "set_pc i pc s = s\<lparr>readers := (readers s)[i := (readers s ! i)\<lparr>rd_pc := pc\<rparr>]\<rparr>"

definition at_pc :: "clone_state \<Rightarrow> nat \<Rightarrow> reader_pc \<Rightarrow> bool" where
  "at_pc s i pc \<longleftrightarrow> i < length (readers s) \<and> rd_pc (readers s ! i) = pc"

definition deliver :: "string \<Rightarrow> bool \<Rightarrow> reader \<Rightarrow> reader" where
  "deliver d ok r = (if rd_dir r = d \<and> rd_pc r = Waiting then r\<lparr>rd_pc := Delivered ok\<rparr> else r)"

definition put_tree :: "string \<Rightarrow> (string \<times> string) option \<Rightarrow> clone_state \<Rightarrow> clone_state" where
  "put_tree d t s = s\<lparr>disk := (disk s)(d := t)\<rparr>"

text \<open>
  One step, or \<^const>\<open>None\<close> when it is not enabled. The swap of \<open>atomicReclone\<close> is the atomic exchange of Linux. A
  flight runs under a context of its own; a reader whose context ends leaves the select.
\<close>

fun clone_exec :: "clone_state \<Rightarrow> clone_action \<Rightarrow> clone_state option" where
  "clone_exec s (Call opts ctx_done) =
     (if ctx_done then Some s
      else case clone_dir opts of
        Inl e \<Rightarrow> Some s
      | Inr d \<Rightarrow> Some (s\<lparr>readers := readers s @ [\<lparr>rd_dir = d, rd_url = co_URL opts, rd_ref = co_Ref opts, rd_pc = Stat\<rparr>]\<rparr>))"
| "clone_exec s (StatStep i) =
     (if at_pc s i Stat
      then Some (set_pc i (if disk s (rd_dir (readers s ! i)) = None then Joining else Refreshing) s)
      else None)"
| "clone_exec s (Refresh i ok) =
     (if at_pc s i Refreshing then
        let r = readers s ! i in
        if ok then
          (case disk s (rd_dir r) of
             None \<Rightarrow> None
           | Some (url, ref) \<Rightarrow> Some (set_pc i Cloned (put_tree (rd_dir r) (Some (url, rd_ref r)) s)))
        else Some (set_pc i Recloning s)
      else None)"
| "clone_exec s (Reclone i ok) =
     (if at_pc s i Recloning then
        let r = readers s ! i in
        if ok then Some (set_pc i Cloned (put_tree (rd_dir r) (Some (rd_url r, rd_ref r)) s)) else Some (set_pc i Failed s)
      else None)"
| "clone_exec s (Join i) =
     (if at_pc s i Joining then
        let r = readers s ! i in
        case flights s (rd_dir r) of
          Some f \<Rightarrow> Some (set_pc i Waiting s)
        | None \<Rightarrow> Some (set_pc i Waiting
            (s\<lparr>flights := (flights s)(rd_dir r := Some \<lparr>fl_url = rd_url r, fl_ref = rd_ref r, fl_phase = Launched\<rparr>)\<rparr>))
      else None)"
| "clone_exec s (GitStart d) =
     (case flights s d of
        None \<Rightarrow> None
      | Some f \<Rightarrow>
          if fl_phase f \<noteq> Launched then None
          else if disk s d = None then
            Some (put_tree d (Some (fl_url f, fl_ref f)) (s\<lparr>flights := (flights s)(d := Some (f\<lparr>fl_phase := Writing\<rparr>))\<rparr>))
          else Some (s\<lparr>flights := (flights s)(d := Some (f\<lparr>fl_phase := Doomed\<rparr>))\<rparr>))"
| "clone_exec s (FlightEnd d ok) =
     (case flights s d of
        None \<Rightarrow> None
      | Some f \<Rightarrow>
          if ok \<and> fl_phase f \<noteq> Writing then None
          else
            let s1 = s\<lparr>flights := (flights s)(d := None)\<rparr>;
                s2 = (if fl_phase f = Writing then put_tree d (if ok then Some (fl_url f, fl_ref f) else None) s1 else s1)
            in Some (s2\<lparr>readers := map (deliver d ok) (readers s2)\<rparr>))"
| "clone_exec s (Receive i) =
     (if at_pc s i (Delivered True) then Some (set_pc i Cloned s)
      else if at_pc s i (Delivered False) then Some (set_pc i Failed s) else None)"
| "clone_exec s (GiveUp i) =
     (if at_pc s i Waiting \<or> at_pc s i (Delivered True) \<or> at_pc s i (Delivered False) then Some (set_pc i Failed s) else None)"
| "clone_exec s (Acquire i) =
     (if at_pc s i Cloned
      then Some (set_pc i Holding (s\<lparr>counts := AcquireCloneRef (rd_dir (readers s ! i)) (counts s)\<rparr>))
      else None)"
| "clone_exec s (Release i) =
     (if at_pc s i Holding then
        let (counts', last_one) = ReleaseCloneRef (rd_dir (readers s ! i)) (counts s)
        in Some (set_pc i (if last_one then Removing else Released) (s\<lparr>counts := counts'\<rparr>))
      else None)"
| "clone_exec s (Remove i) =
     (if at_pc s i Removing then Some (set_pc i Released (put_tree (rd_dir (readers s ! i)) None s)) else None)"

definition start_clones :: "(string \<Rightarrow> (string \<times> string) option) \<Rightarrow> clone_state" where
  "start_clones D = \<lparr>counts = (\<lambda>_. 0), disk = D, flights = (\<lambda>_. None), readers = []\<rparr>"

text \<open>The states that runs reach whose steps all satisfy a condition.\<close>

inductive clone_run :: "(clone_state \<Rightarrow> clone_action \<Rightarrow> bool) \<Rightarrow> (string \<Rightarrow> (string \<times> string) option) \<Rightarrow> clone_state \<Rightarrow> bool"
  for cond :: "clone_state \<Rightarrow> clone_action \<Rightarrow> bool" and D :: "string \<Rightarrow> (string \<times> string) option" where
  start: "clone_run cond D (start_clones D)"
| step: "clone_run cond D s \<Longrightarrow> cond s a \<Longrightarrow> clone_exec s a = Some s' \<Longrightarrow> clone_run cond D s'"

inductive_cases clone_run_cases: "clone_run cond D s"

fun clone_steps :: "clone_state \<Rightarrow> clone_action list \<Rightarrow> clone_state option" where
  "clone_steps s [] = Some s"
| "clone_steps s (a # as) = (case clone_exec s a of None \<Rightarrow> None | Some s' \<Rightarrow> clone_steps s' as)"

lemma clone_steps_run: "clone_steps s as = Some t \<Longrightarrow> clone_run (\<lambda>_ _. True) D s \<Longrightarrow> clone_run (\<lambda>_ _. True) D t"
  by (induction as arbitrary: s) (auto split: option.splits intro: clone_run.step)

subsection \<open>The counts are exact\<close>

definition holds_ref :: "string \<Rightarrow> reader \<Rightarrow> bool" where
  "holds_ref d r \<longleftrightarrow> rd_dir r = d \<and> rd_pc r = Holding"

definition holders :: "clone_state \<Rightarrow> string \<Rightarrow> nat" where
  "holders s d = length (filter (holds_ref d) (readers s))"

lemma length_filter_update:
  "i < length xs \<Longrightarrow> length (filter P (xs[i := y])) + of_bool (P (xs ! i)) = length (filter P xs) + of_bool (P y)"
proof (induction xs arbitrary: i)
  case Nil
  then show ?case by simp
next
  case (Cons x xs)
  then show ?case by (cases i) (auto split: nat.splits)
qed

lemma set_pc_simps [simp]:
  "counts (set_pc i pc s) = counts s" "disk (set_pc i pc s) = disk s" "flights (set_pc i pc s) = flights s"
  "length (readers (set_pc i pc s)) = length (readers s)"
  "j < length (readers s) \<Longrightarrow> readers (set_pc i pc s) ! j = (if j = i then (readers s ! j)\<lparr>rd_pc := pc\<rparr> else readers s ! j)"
  by (auto simp: set_pc_def)

lemma put_tree_simps [simp]:
  "counts (put_tree d t s) = counts s" "disk (put_tree d t s) = (disk s)(d := t)" "flights (put_tree d t s) = flights s"
  "readers (put_tree d t s) = readers s"
  by (simp_all add: put_tree_def)

lemma holders_set_pc:
  "i < length (readers s) \<Longrightarrow>
   holders (set_pc i pc s) d + of_bool (holds_ref d (readers s ! i)) =
   holders s d + of_bool (rd_dir (readers s ! i) = d \<and> pc = Holding)"
  using length_filter_update [of i "readers s" "holds_ref d" "(readers s ! i)\<lparr>rd_pc := pc\<rparr>"]
  by (simp add: holders_def set_pc_def holds_ref_def)

lemma holders_cong [simp]:
  "holders (s\<lparr>counts := c\<rparr>) d = holders s d" "holders (s\<lparr>flights := f\<rparr>) d = holders s d" "holders (put_tree e t s) d = holders s d"
  by (simp_all add: holders_def)

lemma holds_deliver [simp]: "holds_ref d (deliver e ok r) = holds_ref d r"
  by (simp add: holds_ref_def deliver_def)

lemma rd_dir_deliver [simp]: "rd_dir (deliver d ok r) = rd_dir r" "rd_url (deliver d ok r) = rd_url r" "rd_ref (deliver d ok r) = rd_ref r"
  by (simp_all add: deliver_def)

lemma holders_pc_change:
  "i < length (readers s) \<Longrightarrow> rd_pc (readers s ! i) \<noteq> Holding \<Longrightarrow> pc \<noteq> Holding \<Longrightarrow> holders (set_pc i pc s) d = holders s d"
  using holders_set_pc [of i s pc d] by (simp add: holds_ref_def)

definition counts_ok :: "clone_state \<Rightarrow> bool" where
  "counts_ok s \<longleftrightarrow> (\<forall>d. counts s d = (if d = [] then 0 else holders s d))"

lemma counts_ok_keep:
  "counts_ok s \<Longrightarrow> counts t = counts s \<Longrightarrow> (\<And>d. holders t d = holders s d) \<Longrightarrow> counts_ok t"
  by (simp add: counts_ok_def)

lemma counts_ok_pc:
  "counts_ok s \<Longrightarrow> i < length (readers s) \<Longrightarrow> rd_pc (readers s ! i) \<noteq> Holding \<Longrightarrow> pc \<noteq> Holding \<Longrightarrow> counts_ok (set_pc i pc s)"
  by (simp add: counts_ok_def holders_pc_change)

lemma counts_ok_cong [simp]:
  "counts_ok (put_tree d t s) = counts_ok s" "counts_ok (s\<lparr>flights := f\<rparr>) = counts_ok s"
  by (simp_all add: counts_ok_def)

lemma counts_ok_acquire:
  assumes "counts_ok s" "at_pc s i Cloned"
  shows "counts_ok (set_pc i Holding (s\<lparr>counts := AcquireCloneRef (rd_dir (readers s ! i)) (counts s)\<rparr>))"
  unfolding counts_ok_def
proof
  fix d
  let ?s = "s\<lparr>counts := AcquireCloneRef (rd_dir (readers s ! i)) (counts s)\<rparr>"
  from assms(2) have "holders (set_pc i Holding ?s) d = holders s d + of_bool (rd_dir (readers s ! i) = d)"
    using holders_set_pc [of i ?s Holding d] by (simp add: at_pc_def holds_ref_def)
  with assms(1) show "counts (set_pc i Holding ?s) d = (if d = [] then 0 else holders (set_pc i Holding ?s) d)"
    by (auto simp: counts_ok_def AcquireCloneRef_def)
qed

lemma release_counts:
  assumes "counts_ok s" "at_pc s i Holding" "ReleaseCloneRef (rd_dir (readers s ! i)) (counts s) = (c', b)" "pc \<noteq> Holding"
  shows "counts_ok (set_pc i pc (s\<lparr>counts := c'\<rparr>))"
    and "rd_dir (readers s ! i) \<noteq> [] \<Longrightarrow> b \<longleftrightarrow> holders (set_pc i pc (s\<lparr>counts := c'\<rparr>)) (rd_dir (readers s ! i)) = 0"
proof -
  let ?d = "rd_dir (readers s ! i)"
  have h: "holders (set_pc i pc (s\<lparr>counts := c'\<rparr>)) d + of_bool (?d = d) = holders s d" for d
    using holders_set_pc [of i "s\<lparr>counts := c'\<rparr>" pc d] assms(2,4) by (simp add: at_pc_def holds_ref_def)
  from h [of ?d] have pos: "holders s ?d > 0" by simp
  with assms(1) have "?d \<noteq> [] \<Longrightarrow> counts s ?d = Suc (holders s ?d - 1)" by (simp add: counts_ok_def)
  with assms(3) have c': "?d \<noteq> [] \<Longrightarrow> c' = (counts s)(?d := holders s ?d - 1) \<and> (b \<longleftrightarrow> holders s ?d = 1)"
    "?d = [] \<Longrightarrow> c' = counts s"
    using pos by (auto simp: ReleaseCloneRef_def split: nat.splits)
  show "counts_ok (set_pc i pc (s\<lparr>counts := c'\<rparr>))"
    unfolding counts_ok_def
  proof
    fix d
    show "counts (set_pc i pc (s\<lparr>counts := c'\<rparr>)) d = (if d = [] then 0 else holders (set_pc i pc (s\<lparr>counts := c'\<rparr>)) d)"
      using assms(1) c' h [of d] by (cases "?d = d") (auto simp: counts_ok_def)
  qed
  show "?d \<noteq> [] \<Longrightarrow> b \<longleftrightarrow> holders (set_pc i pc (s\<lparr>counts := c'\<rparr>)) ?d = 0"
    using c'(1) h [of ?d] by auto
qed

lemma counts_ok_step:
  assumes ok: "counts_ok s" and ex: "clone_exec s a = Some t"
  shows "counts_ok t"
proof (cases a)
  case (Call opts c)
  with ex ok show ?thesis
    by (auto simp: counts_ok_def holders_def holds_ref_def split: if_splits sum.splits)
next
  case (StatStep i)
  with ex ok show ?thesis by (auto simp: at_pc_def intro: counts_ok_pc split: if_splits)
next
  case (Refresh i b)
  with ex ok show ?thesis by (auto simp: at_pc_def Let_def intro: counts_ok_pc split: if_splits option.splits)
next
  case (Reclone i b)
  with ex ok show ?thesis by (auto simp: at_pc_def Let_def intro: counts_ok_pc split: if_splits)
next
  case (Join i)
  with ex ok show ?thesis by (auto simp: at_pc_def Let_def intro: counts_ok_pc split: if_splits option.splits)
next
  case (Receive i)
  with ex ok show ?thesis by (auto simp: at_pc_def intro: counts_ok_pc split: if_splits)
next
  case (GiveUp i)
  with ex ok show ?thesis by (auto simp: at_pc_def intro: counts_ok_pc split: if_splits)
next
  case (GitStart d)
  with ex ok show ?thesis by (auto split: if_splits option.splits)
next
  case (FlightEnd d b)
  have "counts_ok (u\<lparr>readers := map (deliver d b) (readers u)\<rparr>)" if "counts_ok u" for u
    using that by (simp add: counts_ok_def holders_def filter_map comp_def)
  then show ?thesis using ex ok FlightEnd
    by (auto simp only: clone_exec.simps Let_def counts_ok_cong split: if_splits option.splits)
next
  case (Acquire i)
  with ex ok show ?thesis by (auto split: if_splits intro: counts_ok_acquire)
next
  case (Release i)
  with ex ok show ?thesis by (auto split: if_splits prod.splits intro: release_counts(1))
next
  case (Remove i)
  with ex ok show ?thesis by (auto simp: at_pc_def intro: counts_ok_pc split: if_splits)
qed

lemma counts_ok_run: "clone_run cond D s \<Longrightarrow> counts_ok s"
proof (induction rule: clone_run.induct)
  case start
  show ?case by (simp add: counts_ok_def start_clones_def holders_def)
next
  case (step s a t)
  from counts_ok_step [OF step.IH step.hyps(3)] show ?case .
qed

subsection \<open>What a reader holds\<close>

text \<open>
  The windows of the code: the last reader of a directory removes it after it has left the critical section, so another
  call must not be between its stat and its \<open>AcquireCloneRef\<close> when the last reference is dropped, nor start before
  the removal; and a stat must not see the half-written directory of a flight.
\<close>

definition idle_pc :: "reader_pc \<Rightarrow> bool" where
  "idle_pc pc \<longleftrightarrow> pc \<in> {Stat, Removing, Released, Failed}"

fun quiet :: "clone_state \<Rightarrow> clone_action \<Rightarrow> bool" where
  "quiet s (StatStep i) \<longleftrightarrow>
     (let d = rd_dir (readers s ! i) in
      list_all (\<lambda>r. rd_dir r = d \<longrightarrow> rd_pc r \<noteq> Removing) (readers s) \<and> (disk s d \<noteq> None \<longrightarrow> flights s d = None))"
| "quiet s (Release i) \<longleftrightarrow>
     (let d = rd_dir (readers s ! i) in
      counts s d = 1 \<longrightarrow> (\<forall>j<length (readers s). j \<noteq> i \<and> rd_dir (readers s ! j) = d \<longrightarrow> idle_pc (rd_pc (readers s ! j))))"
| "quiet s a \<longleftrightarrow> True"

text \<open>All calls that use one directory ask for the same origin and the same ref.\<close>

definition agrees :: "(string \<Rightarrow> string \<times> string) \<Rightarrow> clone_action \<Rightarrow> bool" where
  "agrees want a \<longleftrightarrow>
     (case a of Call opts b \<Rightarrow> (case clone_dir opts of Inl e \<Rightarrow> True | Inr d \<Rightarrow> want d = (co_URL opts, co_Ref opts)) | _ \<Rightarrow> True)"

definition using_pc :: "reader_pc \<Rightarrow> bool" where
  "using_pc pc \<longleftrightarrow> pc \<in> {Refreshing, Recloning, Delivered True, Cloned, Holding}"

definition has_tree :: "reader_pc \<Rightarrow> bool" where
  "has_tree pc \<longleftrightarrow> pc \<in> {Delivered True, Cloned, Holding}"

definition writing :: "clone_state \<Rightarrow> string \<Rightarrow> bool" where
  "writing s d \<longleftrightarrow> (case flights s d of None \<Rightarrow> False | Some f \<Rightarrow> fl_phase f = Writing)"

definition reader_ok :: "(string \<Rightarrow> string \<times> string) \<Rightarrow> clone_state \<Rightarrow> reader \<Rightarrow> bool" where
  "reader_ok want s r \<longleftrightarrow>
     rd_dir r \<noteq> [] \<and> want (rd_dir r) = (rd_url r, rd_ref r) \<and>
     (using_pc (rd_pc r) \<longrightarrow> disk s (rd_dir r) \<noteq> None \<and> \<not> writing s (rd_dir r)) \<and>
     (has_tree (rd_pc r) \<longrightarrow> disk s (rd_dir r) = Some (want (rd_dir r)))"

definition disk_ok :: "(string \<Rightarrow> string \<times> string) \<Rightarrow> clone_state \<Rightarrow> bool" where
  "disk_ok want s \<longleftrightarrow>
     (\<forall>d t. disk s d = Some t \<longrightarrow> fst t = fst (want d)) \<and>
     (\<forall>d f. flights s d = Some f \<longrightarrow> want d = (fl_url f, fl_ref f))"

definition removing_ok :: "clone_state \<Rightarrow> bool" where
  "removing_ok s \<longleftrightarrow>
     (\<forall>i j. i < length (readers s) \<longrightarrow> j < length (readers s) \<longrightarrow> rd_dir (readers s ! i) = rd_dir (readers s ! j) \<longrightarrow>
        rd_pc (readers s ! i) = Removing \<longrightarrow> idle_pc (rd_pc (readers s ! j)))"

definition clones_ok :: "(string \<Rightarrow> string \<times> string) \<Rightarrow> clone_state \<Rightarrow> bool" where
  "clones_ok want s \<longleftrightarrow>
     counts_ok s \<and> disk_ok want s \<and> removing_ok s \<and> (\<forall>i<length (readers s). reader_ok want s (readers s ! i))"

lemma path_join2_ne: "b \<noteq> [] \<Longrightarrow> path_join [a, b] \<noteq> []"
  by (simp add: path_join_def path_clean_def Let_def)

lemma clone_dir_ne: "clone_dir opts = Inr d \<Longrightarrow> d \<noteq> []"
proof -
  assume "clone_dir opts = Inr d"
  then obtain slug where slug: "Parse (co_Slug opts) = Inr slug" "d = path_join [co_DestDir opts, replace_char CHR ''/'' ''_'' slug]"
    by (auto simp: clone_dir_def split: sum.splits)
  from ParseWithOptions_shape [of "co_Slug opts" False] slug(1) have "slug \<noteq> []"
    by (auto simp: Parse_def slug_shape_def)
  then have "replace_char CHR ''/'' ''_'' slug \<noteq> []" by (cases slug) auto
  with slug(2) show ?thesis using path_join2_ne by simp
qed

lemma writing_simps [simp]:
  "writing (set_pc i pc s) d = writing s d" "writing (put_tree e t s) d = writing s d"
  "writing (s\<lparr>counts := c\<rparr>) d = writing s d" "writing (s\<lparr>readers := rs\<rparr>) d = writing s d"
  by (simp_all add: writing_def)

lemma disk_ok_simps [simp]:
  "disk_ok want (set_pc i pc s) = disk_ok want s" "disk_ok want (s\<lparr>counts := c\<rparr>) = disk_ok want s"
  "disk_ok want (s\<lparr>readers := rs\<rparr>) = disk_ok want s"
  by (simp_all add: disk_ok_def)

lemma removing_ok_simps [simp]:
  "removing_ok (put_tree e t s) = removing_ok s" "removing_ok (s\<lparr>counts := c\<rparr>) = removing_ok s"
  "removing_ok (s\<lparr>flights := f\<rparr>) = removing_ok s"
  by (simp_all add: removing_ok_def)

lemma reader_ok_simps [simp]:
  "reader_ok want (set_pc i pc s) r = reader_ok want s r" "reader_ok want (s\<lparr>counts := c\<rparr>) r = reader_ok want s r"
  "reader_ok want (s\<lparr>readers := rs\<rparr>) r = reader_ok want s r"
  by (simp_all add: reader_ok_def)

lemma removing_ok_pc:
  assumes "removing_ok s" "i < length (readers s)" "pc \<noteq> Removing" "idle_pc pc \<or> \<not> idle_pc (rd_pc (readers s ! i))"
  shows "removing_ok (set_pc i pc s)"
  using assms unfolding removing_ok_def by (auto split: if_splits)

lemma reader_ok_pc:
  assumes "reader_ok want s r"
    and "using_pc pc \<Longrightarrow> using_pc (rd_pc r) \<or> (disk s (rd_dir r) \<noteq> None \<and> \<not> writing s (rd_dir r))"
    and "has_tree pc \<Longrightarrow> has_tree (rd_pc r) \<or> disk s (rd_dir r) = Some (want (rd_dir r))"
  shows "reader_ok want s (r\<lparr>rd_pc := pc\<rparr>)"
  using assms unfolding reader_ok_def by auto

lemma clones_ok_pc:
  assumes "clones_ok want s" "i < length (readers s)" "rd_pc (readers s ! i) \<noteq> Holding" "pc \<noteq> Holding" "pc \<noteq> Removing"
    and "idle_pc pc \<or> \<not> idle_pc (rd_pc (readers s ! i))"
    and "using_pc pc \<Longrightarrow> using_pc (rd_pc (readers s ! i)) \<or>
      (disk s (rd_dir (readers s ! i)) \<noteq> None \<and> \<not> writing s (rd_dir (readers s ! i)))"
    and "has_tree pc \<Longrightarrow> has_tree (rd_pc (readers s ! i)) \<or>
      disk s (rd_dir (readers s ! i)) = Some (want (rd_dir (readers s ! i)))"
  shows "clones_ok want (set_pc i pc s)"
proof -
  have "reader_ok want s ((readers s ! i)\<lparr>rd_pc := pc\<rparr>)"
    using assms by (intro reader_ok_pc) (auto simp: clones_ok_def)
  with assms show ?thesis
    unfolding clones_ok_def by (auto intro: counts_ok_pc removing_ok_pc)
qed

lemma clones_ok_put:
  assumes "clones_ok want s"
  shows "clones_ok want (put_tree d (Some (want d)) s)"
  using assms unfolding clones_ok_def reader_ok_def disk_ok_def by auto

lemma clones_ok_remove:
  assumes "clones_ok want s" "\<And>i. i < length (readers s) \<Longrightarrow> rd_dir (readers s ! i) = d \<Longrightarrow> \<not> using_pc (rd_pc (readers s ! i))"
  shows "clones_ok want (put_tree d None s)"
proof -
  have "\<not> has_tree pc" if "\<not> using_pc pc" for pc using that by (auto simp: using_pc_def has_tree_def)
  with assms show ?thesis unfolding clones_ok_def reader_ok_def disk_ok_def by auto
qed

lemma clones_ok_flight:
  assumes "clones_ok want s" "\<And>f. fl = Some f \<Longrightarrow> want d = (fl_url f, fl_ref f)"
    and "\<And>f i. fl = Some f \<Longrightarrow> fl_phase f = Writing \<Longrightarrow> i < length (readers s) \<Longrightarrow> rd_dir (readers s ! i) = d \<Longrightarrow>
      \<not> using_pc (rd_pc (readers s ! i))"
  shows "clones_ok want (s\<lparr>flights := (flights s)(d := fl)\<rparr>)"
  using assms unfolding clones_ok_def reader_ok_def disk_ok_def writing_def
  by (auto split: option.splits)

lemma clones_ok_put_eq: "clones_ok want s \<Longrightarrow> t = want d \<Longrightarrow> clones_ok want (put_tree d (Some t) s)"
  by (simp add: clones_ok_put)

lemma clones_ok_reader: "clones_ok want s \<Longrightarrow> i < length (readers s) \<Longrightarrow> reader_ok want s (readers s ! i)"
  by (simp add: clones_ok_def)

lemma holders_deliver [simp]: "holders (s\<lparr>readers := map (deliver d b) (readers s)\<rparr>) e = holders s e"
  by (simp add: holders_def filter_map comp_def)

lemma idle_deliver: "idle_pc (rd_pc (deliver d b r)) = idle_pc (rd_pc r)" "rd_pc (deliver d b r) = Removing \<longleftrightarrow> rd_pc r = Removing"
  by (auto simp: deliver_def idle_pc_def)

text \<open>The waiting readers of a flight get its outcome; after a success the tree is there.\<close>

lemma clones_ok_deliver:
  assumes "clones_ok want s" "b \<Longrightarrow> disk s d = Some (want d) \<and> \<not> writing s d"
  shows "clones_ok want (s\<lparr>readers := map (deliver d b) (readers s)\<rparr>)"
proof -
  have "reader_ok want s (deliver d b (readers s ! i))" if "i < length (readers s)" for i
  proof (cases "rd_dir (readers s ! i) = d \<and> rd_pc (readers s ! i) = Waiting")
    case True
    with assms clones_ok_reader [OF assms(1) that] show ?thesis
      by (auto simp: deliver_def reader_ok_def using_pc_def has_tree_def)
  next
    case False
    with clones_ok_reader [OF assms(1) that] show ?thesis by (auto simp: deliver_def)
  qed
  with assms(1) show ?thesis
    by (auto simp: clones_ok_def counts_ok_def removing_ok_def idle_deliver)
qed

lemma clones_ok_call:
  assumes "clones_ok want s" "clone_dir opts = Inr d" "want d = (co_URL opts, co_Ref opts)"
  shows "clones_ok want (s\<lparr>readers := readers s @ [\<lparr>rd_dir = d, rd_url = co_URL opts, rd_ref = co_Ref opts, rd_pc = Stat\<rparr>]\<rparr>)"
    (is "clones_ok want (s\<lparr>readers := readers s @ [?r]\<rparr>)")
proof -
  have "holders (s\<lparr>readers := readers s @ [?r]\<rparr>) e = holders s e" for e by (simp add: holders_def holds_ref_def)
  moreover have "reader_ok want s ?r"
    using assms clone_dir_ne [OF assms(2)] by (simp add: reader_ok_def using_pc_def has_tree_def)
  ultimately show ?thesis
    using assms(1) by (auto simp: clones_ok_def counts_ok_def removing_ok_def nth_append idle_pc_def less_Suc_eq split: if_splits)
qed

lemma clones_ok_release:
  assumes "clones_ok want s" "quiet s (Release i)" "clone_exec s (Release i) = Some t"
  shows "clones_ok want t"
proof -
  obtain c' b where r: "ReleaseCloneRef (rd_dir (readers s ! i)) (counts s) = (c', b)" by fastforce
  from assms(3) r have i: "at_pc s i Holding"
    and t: "t = set_pc i (if b then Removing else Released) (s\<lparr>counts := c'\<rparr>)"
    by (auto split: if_splits)
  have ok: "counts_ok t" using release_counts(1) [OF _ i r] assms(1) unfolding t clones_ok_def by simp
  have "reader_ok want s ((readers s ! i)\<lparr>rd_pc := pc\<rparr>)" if "idle_pc pc" for pc
    using clones_ok_reader [OF assms(1), of i] i that
    by (intro reader_ok_pc) (auto simp: at_pc_def idle_pc_def using_pc_def has_tree_def)
  with assms(1) have readers: "\<forall>j<length (readers t). reader_ok want t (readers t ! j)"
    by (auto simp: t clones_ok_def idle_pc_def)
  have "removing_ok t"
  proof (cases b)
    case False
    with assms(1) i show ?thesis unfolding t
      by (auto intro!: removing_ok_pc simp: clones_ok_def at_pc_def idle_pc_def)
  next
    case True
    with r have "counts s (rd_dir (readers s ! i)) = 1" by (auto simp: ReleaseCloneRef_def split: if_splits nat.splits)
    with assms(2) have others: "idle_pc (rd_pc (readers s ! j))"
      if "j < length (readers s)" "j \<noteq> i" "rd_dir (readers s ! j) = rd_dir (readers s ! i)" for j
      using that by (simp add: Let_def)
    have "removing_ok s" using assms(1) by (simp add: clones_ok_def)
    with others i True show ?thesis
      unfolding t removing_ok_def by (auto simp: at_pc_def idle_pc_def)
  qed
  with ok readers assms(1) show ?thesis unfolding clones_ok_def t by simp
qed

lemma clones_ok_step:
  assumes ok: "clones_ok want s" and ex: "clone_exec s a = Some t" and q: "quiet s a" and ag: "agrees want a"
  shows "clones_ok want t"
proof (cases a)
  case (Call opts c)
  with ex ok ag show ?thesis
    by (auto simp: agrees_def intro: clones_ok_call split: if_splits sum.splits)
next
  case (StatStep i)
  with ex have i: "i < length (readers s)" "rd_pc (readers s ! i) = Stat"
    and t: "t = set_pc i (if disk s (rd_dir (readers s ! i)) = None then Joining else Refreshing) s"
    by (auto simp: at_pc_def split: if_splits)
  from q StatStep have q': "\<forall>r\<in>set (readers s). rd_dir r = rd_dir (readers s ! i) \<longrightarrow> rd_pc r \<noteq> Removing"
    "disk s (rd_dir (readers s ! i)) \<noteq> None \<Longrightarrow> \<not> writing s (rd_dir (readers s ! i))"
    by (auto simp: Let_def list_all_iff writing_def)
  let ?pc = "if disk s (rd_dir (readers s ! i)) = None then Joining else Refreshing"
  have "removing_ok t"
    using ok q'(1) i unfolding t clones_ok_def removing_ok_def by (auto simp: idle_pc_def)
  moreover have "reader_ok want s ((readers s ! i)\<lparr>rd_pc := ?pc\<rparr>)"
    using q'(2) clones_ok_reader [OF ok i(1)] by (intro reader_ok_pc) (auto simp: using_pc_def has_tree_def split: if_splits)
  moreover have "counts_ok t" unfolding t using ok i by (intro counts_ok_pc) (auto simp: clones_ok_def)
  ultimately show ?thesis using ok unfolding clones_ok_def t by auto
next
  case (Refresh i b)
  show ?thesis
  proof (cases b)
    case False
    with Refresh ex ok show ?thesis
      by (auto simp: at_pc_def Let_def idle_pc_def using_pc_def has_tree_def intro!: clones_ok_pc split: if_splits)
  next
    case True
    with Refresh ex obtain url ref where i: "i < length (readers s)" "rd_pc (readers s ! i) = Refreshing"
      and d: "disk s (rd_dir (readers s ! i)) = Some (url, ref)"
      and t: "t = set_pc i Cloned (put_tree (rd_dir (readers s ! i)) (Some (url, rd_ref (readers s ! i))) s)"
      by (auto simp: at_pc_def Let_def split: if_splits option.splits)
    have want: "(url, rd_ref (readers s ! i)) = want (rd_dir (readers s ! i))"
    proof -
      have "url = fst (want (rd_dir (readers s ! i)))"
        using ok d unfolding clones_ok_def disk_ok_def by (metis fst_conv)
      with clones_ok_reader [OF ok i(1)] show ?thesis by (simp add: reader_ok_def)
    qed
    show ?thesis unfolding t
      by (rule clones_ok_pc [OF clones_ok_put_eq [OF ok want]])
        (use i want in \<open>auto simp: idle_pc_def using_pc_def\<close>)
  qed
next
  case (Reclone i b)
  with ex have i: "i < length (readers s)" "rd_pc (readers s ! i) = Recloning" by (auto simp: at_pc_def split: if_splits)
  have want: "(rd_url (readers s ! i), rd_ref (readers s ! i)) = want (rd_dir (readers s ! i))"
    using clones_ok_reader [OF ok i(1)] by (simp add: reader_ok_def)
  have "clones_ok want (set_pc i Failed s)"
    using i ok by (intro clones_ok_pc) (auto simp: idle_pc_def using_pc_def has_tree_def)
  moreover have "clones_ok want (set_pc i Cloned (put_tree (rd_dir (readers s ! i)) (Some (rd_url (readers s ! i), rd_ref (readers s ! i))) s))"
    by (rule clones_ok_pc [OF clones_ok_put_eq [OF ok want]])
      (use i want in \<open>auto simp: idle_pc_def using_pc_def\<close>)
  ultimately show ?thesis using Reclone ex by (auto simp: Let_def split: if_splits)
next
  case (Join i)
  with ex have i: "i < length (readers s)" "rd_pc (readers s ! i) = Joining" by (auto simp: at_pc_def split: if_splits)
  let ?r = "readers s ! i"
  have "want (rd_dir ?r) = (rd_url ?r, rd_ref ?r)" using clones_ok_reader [OF ok i(1)] by (simp add: reader_ok_def)
  then have "clones_ok want (s\<lparr>flights := (flights s)(rd_dir ?r := Some \<lparr>fl_url = rd_url ?r, fl_ref = rd_ref ?r, fl_phase = Launched\<rparr>)\<rparr>)"
    by (intro clones_ok_flight [OF ok]) auto
  moreover have "clones_ok want (set_pc i Waiting u)" if "clones_ok want u" "readers u = readers s" for u
    using that i by (intro clones_ok_pc) (auto simp: idle_pc_def using_pc_def has_tree_def)
  ultimately show ?thesis using Join ex ok by (auto simp: Let_def split: if_splits option.splits)
next
  case (Receive i)
  with ex ok show ?thesis
    by (auto simp: at_pc_def idle_pc_def using_pc_def has_tree_def intro!: clones_ok_pc split: if_splits)
next
  case (GiveUp i)
  with ex ok show ?thesis
    by (auto simp: at_pc_def idle_pc_def using_pc_def has_tree_def intro!: clones_ok_pc split: if_splits)
next
  case (GitStart d)
  with ex obtain f where f: "flights s d = Some f" "fl_phase f = Launched"
    and t: "t = (if disk s d = None then put_tree d (Some (fl_url f, fl_ref f)) (s\<lparr>flights := (flights s)(d := Some (f\<lparr>fl_phase := Writing\<rparr>))\<rparr>)
      else s\<lparr>flights := (flights s)(d := Some (f\<lparr>fl_phase := Doomed\<rparr>))\<rparr>)"
    by (auto split: option.splits if_splits)
  have want: "want d = (fl_url f, fl_ref f)" using ok f by (simp add: clones_ok_def disk_ok_def)
  have "clones_ok want (s\<lparr>flights := (flights s)(d := Some (f\<lparr>fl_phase := Doomed\<rparr>))\<rparr>)"
    using want by (intro clones_ok_flight [OF ok]) auto
  moreover have "clones_ok want (put_tree d (Some (fl_url f, fl_ref f)) (s\<lparr>flights := (flights s)(d := Some (f\<lparr>fl_phase := Writing\<rparr>))\<rparr>))"
    if "disk s d = None"
  proof (rule clones_ok_put_eq)
    show "clones_ok want (s\<lparr>flights := (flights s)(d := Some (f\<lparr>fl_phase := Writing\<rparr>))\<rparr>)"
    proof (rule clones_ok_flight [OF ok])
      fix i
      assume "i < length (readers s)" "rd_dir (readers s ! i) = d"
      with that clones_ok_reader [OF ok, of i] show "\<not> using_pc (rd_pc (readers s ! i))" by (auto simp: reader_ok_def)
    qed (use want in auto)
  qed (simp add: want)
  ultimately show ?thesis unfolding t by simp
next
  case (FlightEnd d b)
  with ex obtain f where f: "flights s d = Some f" "b \<Longrightarrow> fl_phase f = Writing" by (auto split: option.splits if_splits)
  define u where "u = s\<lparr>flights := (flights s)(d := None)\<rparr>"
  have u: "clones_ok want u" unfolding u_def by (intro clones_ok_flight [OF ok]) auto
  have nw: "\<not> writing u d" by (simp add: u_def writing_def)
  have want: "want d = (fl_url f, fl_ref f)" using ok f by (simp add: clones_ok_def disk_ok_def)
  have deliver: "clones_ok want (v\<lparr>readers := map (deliver d b) (readers v)\<rparr>)"
    if "clones_ok want v" "b \<Longrightarrow> disk v d = Some (want d)" "\<not> writing v d" for v
    using that by (intro clones_ok_deliver) auto
  show ?thesis
  proof (cases "fl_phase f = Writing")
    case True
    have free: "\<not> using_pc (rd_pc (readers u ! i))" if "i < length (readers u)" "rd_dir (readers u ! i) = d" for i
      using clones_ok_reader [OF ok, of i] that True f(1) by (auto simp: u_def reader_ok_def writing_def)
    let ?t = "if b then Some (fl_url f, fl_ref f) else None"
    have "clones_ok want (put_tree d ?t u)"
      using clones_ok_put_eq [OF u, of "(fl_url f, fl_ref f)" d] clones_ok_remove [OF u, of d] free want by auto
    then have "clones_ok want ((put_tree d ?t u)\<lparr>readers := map (deliver d b) (readers (put_tree d ?t u))\<rparr>)"
      using nw want by (intro deliver) auto
    with FlightEnd ex f True show ?thesis by (auto simp only: clone_exec.simps Let_def u_def option.case option.inject split: if_splits)
  next
    case False
    with deliver [OF u] f nw have "clones_ok want (u\<lparr>readers := map (deliver d b) (readers u)\<rparr>)" by auto
    with FlightEnd ex f False show ?thesis by (auto simp only: clone_exec.simps Let_def u_def option.case option.inject split: if_splits)
  qed
next
  case (Acquire i)
  with ex have i: "at_pc s i Cloned"
    and t: "t = set_pc i Holding (s\<lparr>counts := AcquireCloneRef (rd_dir (readers s ! i)) (counts s)\<rparr>)"
    by (auto split: if_splits)
  have "counts_ok t" unfolding t using ok i by (intro counts_ok_acquire) (auto simp: clones_ok_def)
  moreover have "reader_ok want s ((readers s ! i)\<lparr>rd_pc := Holding\<rparr>)"
    using clones_ok_reader [OF ok, of i] i by (intro reader_ok_pc) (auto simp: at_pc_def using_pc_def has_tree_def)
  moreover have "removing_ok t"
    unfolding t using ok i by (intro removing_ok_pc) (auto simp: at_pc_def clones_ok_def idle_pc_def)
  ultimately show ?thesis using ok unfolding clones_ok_def t by auto
next
  case (Release i)
  with clones_ok_release [OF ok] q ex show ?thesis by simp
next
  case (Remove i)
  with ex have i: "i < length (readers s)" "rd_pc (readers s ! i) = Removing"
    and t: "t = set_pc i Released (put_tree (rd_dir (readers s ! i)) None s)"
    by (auto simp: at_pc_def split: if_splits)
  have "\<not> using_pc (rd_pc (readers s ! j))" if "j < length (readers s)" "rd_dir (readers s ! j) = rd_dir (readers s ! i)" for j
  proof -
    have "idle_pc (rd_pc (readers s ! j))" using ok i that unfolding clones_ok_def removing_ok_def by metis
    then show ?thesis by (auto simp: idle_pc_def using_pc_def)
  qed
  from clones_ok_remove [OF ok this] show ?thesis unfolding t
    by (rule clones_ok_pc) (use i in \<open>auto simp: idle_pc_def using_pc_def has_tree_def\<close>)
qed

lemma rd_dirs_set_pc [simp]: "map rd_dir (readers (set_pc i pc s)) = map rd_dir (readers s)"
  by (cases "i < length (readers s)") (auto simp: set_pc_def map_update list_update_same_conv list_update_beyond)

lemma rd_dirs_step:
  assumes "clone_exec s a = Some t"
  shows "map rd_dir (readers t) = map rd_dir (readers s) \<or> (\<exists>d. d \<noteq> [] \<and> map rd_dir (readers t) = map rd_dir (readers s) @ [d])"
proof (cases a)
  case (Call opts c)
  with assms clone_dir_ne show ?thesis by (auto split: if_splits sum.splits)
next
  case (FlightEnd d b)
  with assms show ?thesis by (auto simp: Let_def comp_def split: if_splits option.splits)
qed (use assms in \<open>auto simp: Let_def split: if_splits option.splits prod.splits\<close>)

lemma rd_dirs_run: "clone_run cond D s \<Longrightarrow> [] \<notin> set (map rd_dir (readers s))"
proof (induction rule: clone_run.induct)
  case start
  show ?case by (simp add: start_clones_def)
next
  case (step s a t)
  from rd_dirs_step [OF step.hyps(3)] show ?case
  proof
    assume "map rd_dir (readers t) = map rd_dir (readers s)"
    with step.IH show ?thesis by metis
  next
    assume "\<exists>d. d \<noteq> [] \<and> map rd_dir (readers t) = map rd_dir (readers s) @ [d]"
    then obtain d where d: "d \<noteq> []" "map rd_dir (readers t) = map rd_dir (readers s) @ [d]" by blast
    from step.IH d(1) have "[] \<notin> set (map rd_dir (readers s) @ [d])" by simp
    then show ?thesis unfolding d(2) .
  qed
qed

text \<open>C32: In every interleaving the count of a directory is the number of readers that hold it, and a reader goes on to remove the
  directory exactly when its release leaves no holder.\<close>

theorem CloneRefs_exact:
  assumes "clone_run cond D s"
  shows "counts s d = holders s d \<and>
    (\<forall>i t. clone_exec s (Release i) = Some t \<longrightarrow>
       (rd_pc (readers t ! i) = Removing \<longleftrightarrow> holders t (rd_dir (readers s ! i)) = 0))"
proof -
  have "holders s [] = 0" using rd_dirs_run [OF assms] by (force simp: holders_def filter_empty_conv holds_ref_def)
  with counts_ok_run [OF assms] have count: "counts s d = holders s d" by (auto simp: counts_ok_def)
  have "rd_pc (readers t ! i) = Removing \<longleftrightarrow> holders t (rd_dir (readers s ! i)) = 0"
    if "clone_exec s (Release i) = Some t" for i t
  proof -
    obtain c' b where r: "ReleaseCloneRef (rd_dir (readers s ! i)) (counts s) = (c', b)" by fastforce
    with that have i: "at_pc s i Holding" and t: "t = set_pc i (if b then Removing else Released) (s\<lparr>counts := c'\<rparr>)"
      by (auto split: if_splits)
    from i rd_dirs_run [OF assms] have "rd_dir (readers s ! i) \<noteq> []" by (metis at_pc_def length_map nth_map nth_mem)
    from release_counts(2) [OF counts_ok_run [OF assms] i r _ this, of "if b then Removing else Released"] i
    show ?thesis unfolding t by (auto simp: at_pc_def)
  qed
  with count show ?thesis by blast
qed

fun cond_steps :: "(clone_state \<Rightarrow> clone_action \<Rightarrow> bool) \<Rightarrow> clone_state \<Rightarrow> clone_action list \<Rightarrow> clone_state option" where
  "cond_steps cond s [] = Some s"
| "cond_steps cond s (a # as) =
     (if cond s a then (case clone_exec s a of None \<Rightarrow> None | Some s' \<Rightarrow> cond_steps cond s' as) else None)"

lemma cond_steps_run: "cond_steps cond s as = Some t \<Longrightarrow> clone_run cond D s \<Longrightarrow> clone_run cond D t"
  by (induction as arbitrary: s) (auto split: option.splits if_splits intro: clone_run.step)

definition repo_main :: CloneOpts where
  "repo_main = \<lparr>co_Slug = ''o/r'', co_Ref = ''main'', co_DestDir = ''/w'', co_URL = ''u''\<rparr>"

definition no_disk :: "string \<Rightarrow> (string \<times> string) option" where
  "no_disk = (\<lambda>_. None)"

lemma repo_dirs:
  "clone_dir repo_main = Inr ''/w/o_r''" "clone_dir (repo_main\<lparr>co_Ref := ref\<rparr>) = Inr ''/w/o_r''"
  by (subst clone_dir_def, simp add: repo_main_def, code_simp)+

lemma repo_fields: "co_Ref repo_main = ''main''" "co_URL repo_main = ''u''"
  by (simp_all add: repo_main_def)

definition two_readers :: "clone_action list" where
  "two_readers = [Call repo_main False, StatStep 0, Join 0, GitStart ''/w/o_r'', FlightEnd ''/w/o_r'' True, Receive 0, Acquire 0,
     Call repo_main False, StatStep 1, Refresh 1 True, Acquire 1]"

lemmas run_simps = two_readers_def repo_dirs repo_fields start_clones_def no_disk_def at_pc_def set_pc_def put_tree_def
  deliver_def AcquireCloneRef_def ReleaseCloneRef_def agrees_def Let_def

theorem CloneRefs_exact_witness:
  "\<exists>s t. clone_exec s (Release 0) = Some t \<and> counts s ''/w/o_r'' = 2 \<and> holders t ''/w/o_r'' = 1 \<and> rd_pc (readers t ! 0) \<noteq> Removing"
proof -
  obtain s where s: "cond_steps (\<lambda>_ _. True) (start_clones no_disk) two_readers = Some s"
    and c: "counts s ''/w/o_r'' = 2" and d: "rd_dir (readers s ! 0) = ''/w/o_r''"
    and e: "\<exists>t. clone_exec s (Release 0) = Some t \<and> holders t ''/w/o_r'' = 1"
    by (simp add: run_simps holders_def holds_ref_def)
  have "clone_run (\<lambda>_ _. True) no_disk s" using cond_steps_run [OF s] clone_run.start by blast
  from CloneRefs_exact [OF this] c d e show ?thesis by fastforce
qed

text \<open>C33: A reader finds the tree it asked for, from the origin and at the ref of its request, in the directory it holds, whatever the
  interleaving, if no call hits one of the windows described above, calls that share a directory agree on origin and ref, and clones
  left on disk come from the origin of their directory.\<close>

theorem held_clone_is_there:
  assumes "clone_run (\<lambda>s a. quiet s a \<and> agrees want a) D s"
    and "\<And>d t. D d = Some t \<Longrightarrow> fst t = fst (want d)"
    and "i < length (readers s)" and "rd_pc (readers s ! i) = Holding"
  shows "disk s (rd_dir (readers s ! i)) = Some (rd_url (readers s ! i), rd_ref (readers s ! i))"
proof -
  have "clones_ok want s"
    using assms(1)
  proof (induction rule: clone_run.induct)
    case start
    show ?case using assms(2)
      by (auto simp: clones_ok_def counts_ok_def start_clones_def holders_def disk_ok_def removing_ok_def)
  next
    case (step s a t)
    then show ?case using clones_ok_step by blast
  qed
  from clones_ok_reader [OF this assms(3)] assms(4) show ?thesis by (simp add: reader_ok_def has_tree_def)
qed

theorem held_clone_is_there_witness:
  "\<exists>s :: clone_state. length (readers s) = 2 \<and> rd_pc (readers s ! 1) = Holding \<and> disk s ''/w/o_r'' = Some (''u'', ''main'')"
proof -
  let ?cond = "\<lambda>s a. quiet s a \<and> agrees (\<lambda>_. (''u'', ''main'')) a"
  obtain s where s: "cond_steps ?cond (start_clones no_disk) two_readers = Some s"
    and l: "length (readers s) = 2" and r: "rd_pc (readers s ! 1) = Holding"
      "readers s ! 1 = \<lparr>rd_dir = ''/w/o_r'', rd_url = ''u'', rd_ref = ''main'', rd_pc = Holding\<rparr>"
    by (simp add: run_simps)
  have "clone_run ?cond no_disk s" using cond_steps_run [OF s] clone_run.start by blast
  from held_clone_is_there [OF this, of 1] l r have "disk s ''/w/o_r'' = Some (''u'', ''main'')" by (simp add: no_disk_def)
  with l r(1) show ?thesis by blast
qed

subsection \<open>The windows\<close>

text \<open>The last reader has left the critical section; another call finds the directory, acquires it, and loses it.\<close>

lemma held_clone_is_deleted:
  "\<exists>s. clone_steps (start_clones no_disk) [Call repo_main False, StatStep 0, Join 0, GitStart ''/w/o_r'', FlightEnd ''/w/o_r'' True,
       Receive 0, Acquire 0, Release 0, Call repo_main False, StatStep 1, Refresh 1 True, Acquire 1, Remove 0] = Some s \<and>
     rd_pc (readers s ! 1) = Holding \<and> rd_dir (readers s ! 1) = ''/w/o_r'' \<and> counts s ''/w/o_r'' = 1 \<and> disk s ''/w/o_r'' = None"
  by (simp add: run_simps)

text \<open>Two calls that want different refs share a flight, whose key is the directory; the second gets the tree of the first.\<close>

lemma waiter_gets_other_ref:
  "\<exists>s. clone_steps (start_clones no_disk) [Call repo_main False, Call (repo_main\<lparr>co_Ref := ''v2''\<rparr>) False, StatStep 0, StatStep 1,
       Join 0, Join 1, GitStart ''/w/o_r'', FlightEnd ''/w/o_r'' True, Receive 0, Receive 1, Acquire 1] = Some s \<and>
     rd_pc (readers s ! 1) = Holding \<and> rd_ref (readers s ! 1) = ''v2'' \<and> disk s ''/w/o_r'' = Some (''u'', ''main'')"
  by (simp add: run_simps)

text \<open>Two repositories share a directory: an underscore in a name stands for the slash as well.\<close>

lemma clone_dirs_collide:
  "clone_dir (repo_main\<lparr>co_Slug := ''a_b/c''\<rparr>) = Inr ''/w/a_b_c''" "clone_dir (repo_main\<lparr>co_Slug := ''a/b_c''\<rparr>) = Inr ''/w/a_b_c''"
  by (subst clone_dir_def, simp add: repo_main_def, code_simp)+

definition gitlab_repo :: CloneOpts where
  "gitlab_repo = \<lparr>co_Slug = ''gitlab.com/o/r'', co_Ref = ''main'', co_DestDir = ''/w'', co_URL = ''v''\<rparr>"

lemma gitlab_fields:
  "clone_dir gitlab_repo = Inr ''/w/o_r''" "co_Ref gitlab_repo = ''main''" "co_URL gitlab_repo = ''v''"
  by (subst clone_dir_def, simp add: gitlab_repo_def, code_simp) (simp_all add: gitlab_repo_def)

lemma collision_gives_other_repository:
  "\<exists>s. clone_steps (start_clones no_disk) [Call repo_main False, StatStep 0, Join 0, GitStart ''/w/o_r'', FlightEnd ''/w/o_r'' True,
       Receive 0, Acquire 0, Call gitlab_repo False,
       StatStep 1, Refresh 1 True, Acquire 1] = Some s \<and>
     rd_pc (readers s ! 1) = Holding \<and> rd_url (readers s ! 1) = ''v'' \<and> disk s ''/w/o_r'' = Some (''u'', ''main'')"
  by (simp add: run_simps gitlab_fields)

text \<open>A reader that releases twice drops the reference of another one.\<close>

lemma double_release_removes_held:
  assumes "c d = 2" "d \<noteq> []"
  shows "ReleaseCloneRef d (fst (ReleaseCloneRef d c)) = (c(d := 0), True)"
  using assms by (simp add: ReleaseCloneRef_def fun_eq_iff split: nat.split)

end
