(* ===== verification/IngestCache.thy ===== *)
theory IngestCache
  imports Ingest "HOL-Library.AList" "HOL-Library.Word"
begin

text \<open>
  The cache in front of the repository walk (\<open>internal/ingest/cache.go\<close> and \<open>IngestRepo\<close>): the key, the content
  hash that validates an entry, the table with its recency list, and the entries that come from Redis. The digest is a
  parameter; so is what Redis answers, with the decoding of its bytes. The slices of files live in a heap, because the callers of
  \<open>IngestRepo\<close> truncate and overwrite the slice they are given.

  The lemmas show what two keys share, that the recency list and the table agree and are bounded, and that no write of a caller
  reaches an entry, so that a hit is what was stored; and where a hit is not what a walk would return.
\<close>

subsection \<open>The key\<close>

record ingestOptsKey =
  ok_Focus :: string
  ok_Languages :: string
  ok_MaxFileBytes :: int
  ok_MaxRepoBytes :: int
  ok_MaxFiles :: int
  ok_FollowSymlinks :: bool
  ok_ExcludeTests :: bool

definition optsKey :: "IngestOpts \<Rightarrow> ingestOptsKey" where
  "optsKey opts =
     \<lparr>ok_Focus = Focus opts, ok_Languages = str_join '','' (sort (Languages opts)), ok_MaxFileBytes = MaxFileBytes opts,
      ok_MaxRepoBytes = MaxRepoBytes opts, ok_MaxFiles = MaxFiles opts, ok_FollowSymlinks = FollowSymlinks opts,
      ok_ExcludeTests = ExcludeTests opts\<rparr>"

fun le_bytes :: "nat \<Rightarrow> nat \<Rightarrow> string" where
  "le_bytes 0 n = []"
| "le_bytes (Suc k) n = char_of (n mod 256) # le_bytes k (n div 256)"

text \<open>\<open>PutUint64\<close> of a converted \<open>int64\<close>.\<close>

definition le64 :: "int \<Rightarrow> string" where
  "le64 i = le_bytes 8 (unat (word_of_int i :: 64 word))"

definition key_bytes :: "string \<Rightarrow> IngestOpts \<Rightarrow> string" where
  "key_bytes root opts =
     (let ok = optsKey opts in
      root @ [CHR 0x00] @ ok_Focus ok @ [CHR 0x00] @ ok_Languages ok @ [CHR 0x00] @
      le64 (ok_MaxFileBytes ok) @ le64 (ok_MaxRepoBytes ok) @ le64 (ok_MaxFiles ok) @
      (if ok_FollowSymlinks ok then [CHR 0x01] else []) @ (if ok_ExcludeTests ok then [CHR 0x01] else []))"

text \<open>\<open>sha\<close> is the digest in hexadecimal.\<close>

definition cacheKey :: "(string \<Rightarrow> string) \<Rightarrow> string \<Rightarrow> IngestOpts \<Rightarrow> string" where
  "cacheKey sha root opts = take 32 (sha (key_bytes root opts))"

subsection \<open>The content hash\<close>

definition hash_max_depth :: nat where "hash_max_depth = 10"
definition chunkSize :: nat where "chunkSize = 4096"

record hash_entry =
  he_rel :: string
  he_digest :: string
  he_size :: int

text \<open>
  What \<open>ReadRepoFilePrefix\<close> reads of a file, \<^const>\<open>None\<close> when it is refused or fails; then the digest is zero.
\<close>

definition hashFileChunk :: "(string \<Rightarrow> string) \<Rightarrow> (string \<Rightarrow> nat \<Rightarrow> string option) \<Rightarrow> string \<Rightarrow> string" where
  "hashFileChunk sum256 read rel =
     (case read rel chunkSize of None \<Rightarrow> replicate 32 CHR 0x00 | Some data \<Rightarrow> sum256 data)"

text \<open>
  The closure \<open>walk\<close>, on the entries of a directory. A link is not a directory and contributes like a file. An entry has no
  size when its information cannot be read.
\<close>

fun hash_walk :: "ingest_env \<Rightarrow> (string \<Rightarrow> hash_entry) \<Rightarrow> (string \<Rightarrow> int) \<Rightarrow> nat \<Rightarrow> string \<Rightarrow> repo_entry \<Rightarrow> hash_entry list" where
  "hash_walk E file link_size depth rel (RFile n info) =
     (if prefix ''.'' n then [] else [(file rel)\<lparr>he_size := (case info of None \<Rightarrow> 0 | Some (sz, _) \<Rightarrow> sz)\<rparr>])"
| "hash_walk E file link_size depth rel (RLink n) =
     (if prefix ''.'' n then [] else [(file rel)\<lparr>he_size := link_size rel\<rparr>])"
| "hash_walk E file link_size depth rel (RDir n es) =
     (if prefix ''.'' n \<or> n \<in> set (ignore_dirs E) \<or> depth > hash_max_depth then []
      else concat (map (\<lambda>e. hash_walk E file link_size (depth + 1) (rel @ ''/'' @ entry_name e) e) es))"

definition hash_entries :: "ingest_env \<Rightarrow> (string \<Rightarrow> hash_entry) \<Rightarrow> (string \<Rightarrow> int) \<Rightarrow> repo_entry option \<Rightarrow> hash_entry list" where
  "hash_entries E file link_size tree =
     (case tree of
        Some (RDir n es) \<Rightarrow> concat (map (\<lambda>e. hash_walk E file link_size 1 (entry_name e) e) es)
      | _ \<Rightarrow> [])"

definition hash_line :: "hash_entry \<Rightarrow> string" where
  "hash_line e = he_rel e @ '':'' @ he_digest e @ '':'' @ le64 (he_size e) @ [CHR 0x0A]"

definition RepoContentHash ::
  "(string \<Rightarrow> string) \<Rightarrow> (string \<Rightarrow> string) \<Rightarrow> ingest_env \<Rightarrow> (string \<Rightarrow> nat \<Rightarrow> string option) \<Rightarrow> (string \<Rightarrow> int) \<Rightarrow> repo_entry option \<Rightarrow> string" where
  "RepoContentHash sha sum256 E read link_size tree =
     (let file = (\<lambda>rel. \<lparr>he_rel = rel, he_digest = hashFileChunk sum256 read rel, he_size = 0\<rparr>)
      in take 32 (sha (concat (map hash_line (sort_key he_rel (hash_entries E file link_size tree))))))"

subsection \<open>The table\<close>

definition ingestCacheTTL :: int where "ingestCacheTTL = 5 * 60 * 1000000000"
definition ingestCacheMaxEntries :: nat where "ingestCacheMaxEntries = 32"

text \<open>A result whose \<open>Files\<close> is a slice in the heap; the field of \<open>info\<close> is not used.\<close>

record result_ref =
  slice :: nat
  info :: IngestResult

record ingestCacheEntry =
  result_of :: result_ref
  contentHash :: string
  validatedAt :: int

record ingestRepoCache =
  entries :: "(string \<times> ingestCacheEntry) list"
  order :: "string list"
  l2 :: bool
  heap :: "nat \<Rightarrow> File list"
  next_slice :: nat

definition make_slice :: "File list \<Rightarrow> ingestRepoCache \<Rightarrow> nat \<times> ingestRepoCache" where
  "make_slice fs c = (next_slice c, c\<lparr>heap := (heap c)(next_slice c := fs), next_slice := next_slice c + 1\<rparr>)"

definition copyResultLocked :: "result_ref \<Rightarrow> ingestRepoCache \<Rightarrow> result_ref \<times> ingestRepoCache" where
  "copyResultLocked r c = (let (a, c') = make_slice (heap c (slice r)) c in (r\<lparr>slice := a\<rparr>, c'))"

definition removeOrder :: "string \<Rightarrow> ingestRepoCache \<Rightarrow> ingestRepoCache" where
  "removeOrder key c = c\<lparr>order := remove1 key (order c)\<rparr>"

definition touch :: "string \<Rightarrow> ingestRepoCache \<Rightarrow> ingestRepoCache" where
  "touch key c = (let c' = removeOrder key c in c'\<lparr>order := order c' @ [key]\<rparr>)"

definition deleteEntryLocked :: "string \<Rightarrow> ingestRepoCache \<Rightarrow> ingestRepoCache" where
  "deleteEntryLocked key c = removeOrder key (c\<lparr>entries := AList.delete key (entries c)\<rparr>)"

fun evict :: "(string \<times> 'e) list \<Rightarrow> string list \<Rightarrow> (string \<times> 'e) list \<times> string list" where
  "evict es [] = (es, [])"
| "evict es (oldest # ks) =
     (if length es > ingestCacheMaxEntries then evict (AList.delete oldest es) ks else (es, oldest # ks))"

definition insertEntryLocked :: "string \<Rightarrow> ingestCacheEntry \<Rightarrow> ingestRepoCache \<Rightarrow> ingestRepoCache" where
  "insertEntryLocked key e c =
     (let c1 = touch key (c\<lparr>entries := AList.update key e (entries c)\<rparr>);
          (es, ks) = evict (entries c1) (order c1)
      in c1\<lparr>entries := es, order := ks\<rparr>)"

text \<open>\<open>hash\<close> is the content hash of the root at this time.\<close>

definition getL1Locked :: "int \<Rightarrow> string \<Rightarrow> string \<Rightarrow> ingestRepoCache \<Rightarrow> result_ref option \<times> ingestRepoCache" where
  "getL1Locked now hash key c =
     (case map_of (entries c) key of
        None \<Rightarrow> (None, c)
      | Some e \<Rightarrow>
          if now - validatedAt e > ingestCacheTTL then (None, deleteEntryLocked key c)
          else if hash \<noteq> contentHash e then (None, deleteEntryLocked key c)
          else (let (r, c') = copyResultLocked (result_of e) (touch key c) in (Some r, c')))"

text \<open>
  What Redis has for a key after decoding: an error, or a result with its hash and time. The second part of \<open>get\<close> returns whether
  the stale entry is deleted from Redis.
\<close>

record wireIngestEntry =
  w_Result :: IngestResult
  w_ContentHash :: string
  w_ValidatedAt :: int

definition decodeIngestEntry :: "wireIngestEntry \<Rightarrow> ingestRepoCache \<Rightarrow> ingestCacheEntry \<times> ingestRepoCache" where
  "decodeIngestEntry w c =
     (let (a, c') = make_slice (Files (w_Result w)) c
      in (\<lparr>result_of = \<lparr>slice = a, info = w_Result w\<rparr>, contentHash = w_ContentHash w, validatedAt = w_ValidatedAt w\<rparr>, c'))"

definition getL2 :: "string \<Rightarrow> string \<Rightarrow> wireIngestEntry option \<Rightarrow> ingestRepoCache \<Rightarrow> (result_ref option \<times> bool) \<times> ingestRepoCache" where
  "getL2 hash key answer c =
     (if \<not> l2 c then ((None, False), c)
      else case answer of
        None \<Rightarrow> ((None, False), c)
      | Some w \<Rightarrow>
          let (e, c1) = decodeIngestEntry w c in
          if hash \<noteq> contentHash e then ((None, True), c1)
          else (let (r, c2) = copyResultLocked (result_of e) (insertEntryLocked key e c1) in ((Some r, False), c2)))"

text \<open>The critical section of \<open>put\<close>, and what goes to Redis.\<close>

definition put :: "int \<Rightarrow> string \<Rightarrow> string \<Rightarrow> result_ref \<Rightarrow> ingestRepoCache \<Rightarrow> wireIngestEntry option \<times> ingestRepoCache" where
  "put now hash key r c =
     (let (stored, c1) = copyResultLocked r c;
          e = \<lparr>result_of = stored, contentHash = hash, validatedAt = now\<rparr>
      in (if l2 c1 then Some \<lparr>w_Result = (info stored)\<lparr>Files := heap c1 (slice stored)\<rparr>, w_ContentHash = hash, w_ValidatedAt = now\<rparr>
          else None,
          insertEntryLocked key e c1))"

definition ResetCache :: "ingestRepoCache \<Rightarrow> ingestRepoCache" where
  "ResetCache c = c\<lparr>entries := [], order := []\<rparr>"

definition SetL2 :: "string \<Rightarrow> ingestRepoCache \<Rightarrow> ingestRepoCache" where
  "SetL2 redisURL c = c\<lparr>l2 := (redisURL \<noteq> [])\<rparr>"

definition empty_cache :: ingestRepoCache where
  "empty_cache = \<lparr>entries = [], order = [], l2 = False, heap = (\<lambda>_. []), next_slice = 0\<rparr>"

text \<open>
  \<open>IngestRepo\<close>: the two reads, the walk and the store. The hashes are those that the repository has when each is computed; \<open>walked\<close>
  is what the walk returns.
\<close>

definition IngestRepo ::
  "int \<Rightarrow> string \<Rightarrow> string \<Rightarrow> wireIngestEntry option \<Rightarrow> unit + IngestResult \<Rightarrow> string \<Rightarrow> ingestRepoCache \<Rightarrow>
   (unit + result_ref) \<times> ingestRepoCache" where
  "IngestRepo now key hash answer walked hash' c =
     (case getL1Locked now hash key c of
        (Some r, c1) \<Rightarrow> (Inr r, c1)
      | (None, c1) \<Rightarrow>
          (case getL2 hash key answer c1 of
             ((Some r, del), c2) \<Rightarrow> (Inr r, c2)
           | ((None, del), c2) \<Rightarrow>
               (case walked of
                  Inl e \<Rightarrow> (Inl e, c2)
                | Inr res \<Rightarrow>
                    let (a, c3) = make_slice (Files res) c2; r = \<lparr>slice = a, info = res\<rparr>
                    in (Inr r, snd (put now hash' key r c3)))))"

subsection \<open>The table and its recency list\<close>

definition table_ok :: "(string \<times> 'e) list \<Rightarrow> string list \<Rightarrow> bool" where
  "table_ok es ks \<longleftrightarrow> distinct (map fst es) \<and> distinct ks \<and> set (map fst es) = set ks"

lemma table_ok_length: "table_ok es ks \<Longrightarrow> length es = length ks"
  unfolding table_ok_def using distinct_card [of "map fst es"] distinct_card [of ks] by simp

lemma table_ok_delete: "table_ok es ks \<Longrightarrow> table_ok (AList.delete k es) (remove1 k ks)"
  using distinct_delete [of es k] by (auto simp: table_ok_def delete_keys set_remove1_eq)

lemma table_ok_update: "table_ok es ks \<Longrightarrow> table_ok (AList.update k e es) (remove1 k ks @ [k])"
  by (auto simp: table_ok_def distinct_update dom_update set_remove1_eq)

lemma table_ok_touch: "table_ok es ks \<Longrightarrow> k \<in> set ks \<Longrightarrow> table_ok es (remove1 k ks @ [k])"
  by (auto simp: table_ok_def set_remove1_eq)

lemma evict_ok:
  "table_ok es ks \<Longrightarrow> length es \<le> ingestCacheMaxEntries + 1 \<Longrightarrow> evict es ks = (es', ks') \<Longrightarrow>
   table_ok es' ks' \<and> length es' \<le> ingestCacheMaxEntries \<and> (\<forall>k e. map_of es' k = Some e \<longrightarrow> map_of es k = Some e)"
proof (induction es ks rule: evict.induct)
  case (1 es)
  then have "es = []" by (simp add: table_ok_def)
  with 1 show ?case by (auto simp: ingestCacheMaxEntries_def)
next
  case (2 es k ks)
  show ?case
  proof (cases "length es > ingestCacheMaxEntries")
    case True
    from table_ok_delete [OF "2.prems"(1), of k] have d: "table_ok (AList.delete k es) ks" by simp
    moreover have "length (AList.delete k es) \<le> ingestCacheMaxEntries"
      using table_ok_length [OF d] table_ok_length [OF "2.prems"(1)] "2.prems"(2) by simp
    moreover have "evict (AList.delete k es) ks = (es', ks')" using "2.prems"(3) True by simp
    ultimately have "table_ok es' ks' \<and> length es' \<le> ingestCacheMaxEntries \<and>
        (\<forall>k' e. map_of es' k' = Some e \<longrightarrow> map_of (AList.delete k es) k' = Some e)"
      using "2.IH" [OF True d] by simp
    then show ?thesis by (metis delete_conv' fun_upd_apply option.distinct(1))
  next
    case False
    with "2.prems" show ?thesis by auto
  qed
qed

definition cache_ok :: "ingestRepoCache \<Rightarrow> bool" where
  "cache_ok c \<longleftrightarrow> table_ok (entries c) (order c) \<and> length (entries c) \<le> ingestCacheMaxEntries"

definition lookup :: "ingestRepoCache \<Rightarrow> string \<Rightarrow> ingestCacheEntry option" where
  "lookup c key = map_of (entries c) key"

lemma make_slice_simps:
  "make_slice fs c = (a, c') \<Longrightarrow> a = next_slice c \<and> entries c' = entries c \<and> order c' = order c \<and> l2 c' = l2 c \<and>
     next_slice c' = next_slice c + 1 \<and> heap c' = (heap c)(next_slice c := fs)"
  by (auto simp: make_slice_def)

lemma touch_fields:
  "entries (touch k c) = entries c" "order (touch k c) = remove1 k (order c) @ [k]" "heap (touch k c) = heap c"
  "next_slice (touch k c) = next_slice c" "l2 (touch k c) = l2 c"
  by (simp_all add: touch_def removeOrder_def Let_def)

lemma deleteEntry_fields:
  "entries (deleteEntryLocked k c) = AList.delete k (entries c)" "order (deleteEntryLocked k c) = remove1 k (order c)"
  "heap (deleteEntryLocked k c) = heap c" "next_slice (deleteEntryLocked k c) = next_slice c" "l2 (deleteEntryLocked k c) = l2 c"
  by (simp_all add: deleteEntryLocked_def removeOrder_def)

lemma insertEntry_fields:
  "heap (insertEntryLocked k e c) = heap c" "next_slice (insertEntryLocked k e c) = next_slice c" "l2 (insertEntryLocked k e c) = l2 c"
  by (simp_all add: insertEntryLocked_def Let_def touch_fields split: prod.split)

lemma insertEntry_ok:
  assumes "cache_ok c"
  shows "cache_ok (insertEntryLocked k e c)"
    and "lookup (insertEntryLocked k e c) k' = Some e' \<Longrightarrow> (k' = k \<and> e' = e) \<or> (k' \<noteq> k \<and> lookup c k' = Some e')"
proof -
  obtain es ks where ev: "evict (AList.update k e (entries c)) (remove1 k (order c) @ [k]) = (es, ks)" by fastforce
  have ins: "entries (insertEntryLocked k e c) = es" "order (insertEntryLocked k e c) = ks"
    using ev by (simp_all add: insertEntryLocked_def Let_def touch_fields)
  have t: "table_ok (AList.update k e (entries c)) (remove1 k (order c) @ [k])"
    using assms by (intro table_ok_update) (simp add: cache_ok_def)
  have "length (remove1 k (order c) @ [k]) \<le> length (order c) + 1" by (simp add: length_remove1)
  then have "length (AList.update k e (entries c)) \<le> ingestCacheMaxEntries + 1"
    using table_ok_length [OF t] assms table_ok_length [of "entries c" "order c"] by (simp add: cache_ok_def)
  from evict_ok [OF t this ev] show "cache_ok (insertEntryLocked k e c)"
    and "lookup (insertEntryLocked k e c) k' = Some e' \<Longrightarrow> (k' = k \<and> e' = e) \<or> (k' \<noteq> k \<and> lookup c k' = Some e')"
    by (auto simp: cache_ok_def lookup_def ins update_conv' split: if_splits)
qed

lemma deleteEntry_ok:
  assumes "cache_ok c"
  shows "cache_ok (deleteEntryLocked k c)" "lookup (deleteEntryLocked k c) k' = (if k' = k then None else lookup c k')"
proof -
  have "table_ok (AList.delete k (entries c)) (remove1 k (order c))"
    using assms by (intro table_ok_delete) (simp add: cache_ok_def)
  then show "cache_ok (deleteEntryLocked k c)"
    using assms length_delete_le [of k "entries c"] by (simp add: cache_ok_def deleteEntry_fields)
  show "lookup (deleteEntryLocked k c) k' = (if k' = k then None else lookup c k')"
    by (simp add: lookup_def deleteEntry_fields delete_conv')
qed

lemma touch_ok:
  assumes "cache_ok c" "lookup c k = Some e"
  shows "cache_ok (touch k c)" "lookup (touch k c) = lookup c"
proof -
  have "k \<in> set (order c)"
  proof -
    from assms(2) have "k \<in> set (map fst (entries c))" unfolding lookup_def by (metis map_of_eq_None_iff option.distinct(1) set_map)
    with assms(1) show ?thesis by (simp add: cache_ok_def table_ok_def)
  qed
  with assms show "cache_ok (touch k c)" by (simp add: cache_ok_def touch_fields table_ok_touch)
  show "lookup (touch k c) = lookup c" by (simp add: lookup_def touch_fields fun_eq_iff)
qed

subsection \<open>What a hit returns\<close>

text \<open>
  A run: atomic sections of \<open>IngestRepo\<close> calls in any order, with writes of callers to slices they were given. The state has the
  slices that were given out and, for each key, what was stored last: its hash, its time and the result.
\<close>

datatype cache_op = GetL1 int string string | GetL2 string string "wireIngestEntry option" | Walked int string string IngestResult
  | CallerWrite nat "File list" | Reset | Connect string

record cache_run =
  cache :: ingestRepoCache
  given :: "nat list"
  stored :: "string \<Rightarrow> (string \<times> int \<times> IngestResult) option"

definition give :: "result_ref option \<Rightarrow> cache_run \<Rightarrow> cache_run" where
  "give r s = (case r of None \<Rightarrow> s | Some x \<Rightarrow> s\<lparr>given := slice x # given s\<rparr>)"

fun cache_step :: "cache_run \<Rightarrow> cache_op \<Rightarrow> cache_run" where
  "cache_step s (GetL1 now hash key) =
     (let (r, c) = getL1Locked now hash key (cache s) in give r (s\<lparr>cache := c\<rparr>))"
| "cache_step s (GetL2 hash key answer) =
     (let ((r, del), c) = getL2 hash key answer (cache s);
          st = (case (r, answer) of
                  (Some x, Some w) \<Rightarrow> (stored s)(key := Some (w_ContentHash w, w_ValidatedAt w, w_Result w))
                | _ \<Rightarrow> stored s)
      in give r (s\<lparr>cache := c, stored := st\<rparr>))"
| "cache_step s (Walked now hash key res) =
     (let (a, c) = make_slice (Files res) (cache s);
          (w, c') = put now hash key \<lparr>slice = a, info = res\<rparr> c
      in s\<lparr>cache := c', given := a # given s, stored := (stored s)(key := Some (hash, now, res))\<rparr>)"
| "cache_step s (CallerWrite a fs) =
     (if a \<in> set (given s) then s\<lparr>cache := (cache s)\<lparr>heap := (heap (cache s))(a := fs)\<rparr>\<rparr> else s)"
| "cache_step s Reset = s\<lparr>cache := ResetCache (cache s)\<rparr>"
| "cache_step s (Connect url) = s\<lparr>cache := SetL2 url (cache s)\<rparr>"

definition start_run :: cache_run where
  "start_run = \<lparr>cache = empty_cache, given = [], stored = (\<lambda>_. None)\<rparr>"

definition read_result :: "ingestRepoCache \<Rightarrow> result_ref \<Rightarrow> IngestResult" where
  "read_result c r = (info r)\<lparr>Files := heap c (slice r)\<rparr>"

definition entry_ok :: "cache_run \<Rightarrow> string \<Rightarrow> ingestCacheEntry \<Rightarrow> bool" where
  "entry_ok s key e \<longleftrightarrow>
     slice (result_of e) < next_slice (cache s) \<and> slice (result_of e) \<notin> set (given s) \<and>
     stored s key = Some (contentHash e, validatedAt e, read_result (cache s) (result_of e))"

definition run_ok :: "cache_run \<Rightarrow> bool" where
  "run_ok s \<longleftrightarrow>
     cache_ok (cache s) \<and> (\<forall>a\<in>set (given s). a < next_slice (cache s)) \<and>
     (\<forall>key e. lookup (cache s) key = Some e \<longrightarrow> entry_ok s key e)"

lemma copyResult_simps:
  assumes "copyResultLocked r c = (r', c')"
  shows "slice r' = next_slice c" "info r' = info r" "entries c' = entries c" "order c' = order c" "l2 c' = l2 c"
    "next_slice c' = next_slice c + 1" "heap c' = (heap c)(next_slice c := heap c (slice r))"
  using assms by (auto simp: copyResultLocked_def make_slice_def Let_def)

lemma cache_ok_cong: "entries c' = entries c \<Longrightarrow> order c' = order c \<Longrightarrow> cache_ok c' = cache_ok c"
  by (simp add: cache_ok_def)

lemma lookup_cong: "entries c' = entries c \<Longrightarrow> lookup c' = lookup c"
  by (simp add: lookup_def fun_eq_iff)

text \<open>An entry keeps its contents when the heap changes only at other slices.\<close>

lemma entry_ok_frame:
  assumes "entry_ok s key e"
    and "heap (cache t) (slice (result_of e)) = heap (cache s) (slice (result_of e))"
    and "next_slice (cache s) \<le> next_slice (cache t)" "slice (result_of e) \<notin> set (given t)" "stored t key = stored s key"
  shows "entry_ok t key e"
  using assms by (auto simp: entry_ok_def read_result_def)

lemma getL1_run:
  assumes ok: "run_ok s" and g: "getL1Locked now hash key (cache s) = (r, c)"
  shows "run_ok (give r (s\<lparr>cache := c\<rparr>))"
    and "r = Some x \<Longrightarrow> \<exists>t. stored s key = Some (hash, t, read_result c x) \<and> now - t \<le> ingestCacheTTL"
proof -
  have c_ok: "cache_ok (cache s)" and entry: "\<And>k e. lookup (cache s) k = Some e \<Longrightarrow> entry_ok s k e"
    using ok by (auto simp: run_ok_def)
  have both: "run_ok (give r (s\<lparr>cache := c\<rparr>)) \<and>
    (\<forall>x. r = Some x \<longrightarrow> (\<exists>t. stored s key = Some (hash, t, read_result c x) \<and> now - t \<le> ingestCacheTTL))"
  proof (cases "lookup (cache s) key")
    case None
    with g ok show ?thesis by (auto simp: getL1Locked_def lookup_def give_def)
  next
    case (Some e)
    show ?thesis
    proof (cases "now - validatedAt e > ingestCacheTTL \<or> hash \<noteq> contentHash e")
      case True
      with g Some have r: "r = None" "c = deleteEntryLocked key (cache s)"
        by (auto simp: getL1Locked_def lookup_def split: if_splits)
      have "entry_ok (s\<lparr>cache := c\<rparr>) k e'" if "lookup c k = Some e'" for k e'
      proof -
        from that deleteEntry_ok(2) [OF c_ok, of key k] r(2) have e': "entry_ok s k e'"
          by (intro entry) (simp split: if_splits)
        then show ?thesis by (rule entry_ok_frame) (use e' in \<open>simp_all add: r deleteEntry_fields entry_ok_def\<close>)
      qed
      with r ok deleteEntry_ok(1) [OF c_ok] show ?thesis
        by (auto simp: run_ok_def give_def deleteEntry_fields)
    next
      case False
      then obtain x where cp: "copyResultLocked (result_of e) (touch key (cache s)) = (x, c)" and r: "r = Some x"
        using g Some by (auto simp: getL1Locked_def lookup_def Let_def split: prod.splits)
      note x = copyResult_simps [OF cp]
      have look: "lookup c = lookup (cache s)" using x(3) by (simp add: lookup_def touch_fields fun_eq_iff)
      have "cache_ok c" using touch_ok(1) [OF c_ok Some] cache_ok_cong [OF x(3,4)] by simp
      moreover have "entry_ok (give r (s\<lparr>cache := c\<rparr>)) k e'" if "lookup c k = Some e'" for k e'
      proof -
        from that look have e': "entry_ok s k e'" by (intro entry) simp
        then show ?thesis by (rule entry_ok_frame) (use e' x in \<open>auto simp: give_def r touch_fields entry_ok_def\<close>)
      qed
      moreover have "\<forall>a\<in>set (given (give r (s\<lparr>cache := c\<rparr>))). a < next_slice c"
        using ok x by (auto simp: run_ok_def give_def r touch_fields)
      ultimately have "run_ok (give r (s\<lparr>cache := c\<rparr>))" by (simp add: run_ok_def give_def r)
      moreover have "stored s key = Some (hash, validatedAt e, read_result c x) \<and> now - validatedAt e \<le> ingestCacheTTL"
        using entry [OF Some] False x by (auto simp: entry_ok_def read_result_def touch_fields)
      ultimately show ?thesis using r by blast
    qed
  qed
  then show "run_ok (give r (s\<lparr>cache := c\<rparr>))" by blast
  show "\<exists>t. stored s key = Some (hash, t, read_result c x) \<and> now - t \<le> ingestCacheTTL" if "r = Some x"
    using both that by blast
qed

lemma run_ok_slice:
  assumes ok: "run_ok s" and a: "make_slice fs (cache s) = (a, c)"
  shows "run_ok (s\<lparr>cache := c\<rparr>)" "a < next_slice c" "a \<notin> set (given s)" "heap c a = fs"
    "lookup c key = Some e \<Longrightarrow> slice (result_of e) \<noteq> a"
proof -
  note m = make_slice_simps [OF a]
  have look: "lookup c = lookup (cache s)" using m by (intro lookup_cong) simp
  have old: "entry_ok s k e'" if "lookup c k = Some e'" for k e'
    using ok that look by (simp add: run_ok_def)
  have "entry_ok (s\<lparr>cache := c\<rparr>) k e'" if "lookup c k = Some e'" for k e'
    by (rule entry_ok_frame [OF old [OF that]]) (use m old [OF that] in \<open>auto simp: entry_ok_def\<close>)
  with ok m show "run_ok (s\<lparr>cache := c\<rparr>)" by (fastforce simp: run_ok_def cache_ok_def)
  show "a < next_slice c" "heap c a = fs" using m by auto
  show "a \<notin> set (given s)" using ok m by (auto simp: run_ok_def)
  show "slice (result_of e) \<noteq> a" if "lookup c key = Some e" using old [OF that] m by (auto simp: entry_ok_def)
qed

lemma run_ok_give:
  assumes "run_ok s" "a < next_slice (cache s)" "\<And>k e. lookup (cache s) k = Some e \<Longrightarrow> slice (result_of e) \<noteq> a"
  shows "run_ok (s\<lparr>given := a # given s\<rparr>)"
proof -
  have "entry_ok (s\<lparr>given := a # given s\<rparr>) k e" if "lookup (cache s) k = Some e" for k e
  proof -
    have "entry_ok s k e" using assms(1) that by (simp add: run_ok_def)
    then show ?thesis by (rule entry_ok_frame) (use assms(3) [OF that] \<open>entry_ok s k e\<close> in \<open>auto simp: entry_ok_def\<close>)
  qed
  with assms(1,2) show ?thesis by (simp add: run_ok_def)
qed

lemma run_ok_insert:
  assumes ok: "run_ok s" and e: "slice (result_of e) < next_slice (cache s)" "slice (result_of e) \<notin> set (given s)"
    and t: "t = s\<lparr>cache := insertEntryLocked key e (cache s),
      stored := (stored s)(key := Some (contentHash e, validatedAt e, read_result (cache s) (result_of e)))\<rparr>"
  shows "run_ok t"
proof -
  have c_ok: "cache_ok (cache s)" using ok by (simp add: run_ok_def)
  have "entry_ok t k e'" if "lookup (cache t) k = Some e'" for k e'
  proof -
    from that t have "lookup (insertEntryLocked key e (cache s)) k = Some e'" by simp
    from insertEntry_ok(2) [OF c_ok this] show ?thesis
    proof
      assume "k = key \<and> e' = e"
      with e t show ?thesis by (simp add: entry_ok_def insertEntry_fields read_result_def)
    next
      assume old: "k \<noteq> key \<and> lookup (cache s) k = Some e'"
      with ok have "entry_ok s k e'" by (simp add: run_ok_def)
      then show ?thesis by (rule entry_ok_frame) (use \<open>entry_ok s k e'\<close> old t in \<open>auto simp: entry_ok_def insertEntry_fields\<close>)
    qed
  qed
  with insertEntry_ok(1) [OF c_ok] ok t show ?thesis by (simp add: run_ok_def insertEntry_fields)
qed

lemma copyResult_slice:
  "copyResultLocked r c = (r', c') \<Longrightarrow> make_slice (heap c (slice r)) c = (slice r', c') \<and> info r' = info r"
  by (auto simp: copyResultLocked_def Let_def split: prod.splits)

lemma getL2_run:
  assumes ok: "run_ok s" and g: "getL2 hash key answer (cache s) = ((r, del), c)"
  shows "run_ok (cache_step s (GetL2 hash key answer))"
    and "r = Some x \<Longrightarrow> \<exists>w. answer = Some w \<and> w_ContentHash w = hash \<and> read_result c x = w_Result w"
proof -
  have both: "run_ok (cache_step s (GetL2 hash key answer)) \<and>
    (\<forall>x. r = Some x \<longrightarrow> (\<exists>w. answer = Some w \<and> w_ContentHash w = hash \<and> read_result c x = w_Result w))"
  proof (cases "l2 (cache s)")
    case False
    with g ok show ?thesis by (auto simp: getL2_def give_def)
  next
    case l2: True
    show ?thesis
    proof (cases answer)
      case None
      with g l2 ok show ?thesis by (auto simp: getL2_def give_def)
    next
      case (Some w)
      obtain a c1 where m: "make_slice (Files (w_Result w)) (cache s) = (a, c1)" by fastforce
      define e where "e = \<lparr>result_of = \<lparr>slice = a, info = w_Result w\<rparr>, contentHash = w_ContentHash w, validatedAt = w_ValidatedAt w\<rparr>"
      have dec: "decodeIngestEntry w (cache s) = (e, c1)" by (simp add: decodeIngestEntry_def m e_def)
      note r1 = run_ok_slice [OF ok m]
      show ?thesis
      proof (cases "hash = w_ContentHash w")
        case False
        with g l2 Some dec have "r = None" "c = c1" by (auto simp: getL2_def e_def Let_def split: if_splits)
        with r1(1) g Some show ?thesis by (simp add: give_def)
      next
        case True
        obtain x c2 where cp: "copyResultLocked (result_of e) (insertEntryLocked key e c1) = (x, c2)" by fastforce
        from g l2 Some dec True cp have rc: "r = Some x" "c = c2" by (auto simp: getL2_def e_def Let_def)
        define s1 where "s1 = s\<lparr>cache := insertEntryLocked key e c1, stored := (stored s)(key := Some (w_ContentHash w, w_ValidatedAt w, w_Result w))\<rparr>"
        have read: "read_result c1 (result_of e) = w_Result w" using r1(4) by (simp add: read_result_def e_def)
        have "run_ok s1" using read r1(2,3) by (intro run_ok_insert [where e = e and key = key, OF r1(1)]) (auto simp: e_def s1_def)
        note r2 = run_ok_slice [OF this, of "heap (cache s1) a" "slice x" c2]
        have m2: "make_slice (heap (cache s1) a) (cache s1) = (slice x, c2)"
          using copyResult_slice [OF cp] by (simp add: s1_def e_def)
        have "run_ok (s1\<lparr>cache := c2, given := slice x # given s1\<rparr>)"
          using run_ok_give [OF r2(1) [OF m2], of "slice x"] r2(2,5) [OF m2] by simp
        moreover have "cache_step s (GetL2 hash key answer) = s1\<lparr>cache := c2, given := slice x # given s1\<rparr>"
          using g Some rc by (simp add: give_def s1_def)
        moreover have "read_result c x = w_Result w"
          using copyResult_slice [OF cp] r2(4) [OF m2] r1(4) rc by (simp add: read_result_def e_def s1_def insertEntry_fields)
        ultimately show ?thesis using rc True Some by simp
      qed
    qed
  qed
  then show "run_ok (cache_step s (GetL2 hash key answer))" by blast
  show "\<exists>w. answer = Some w \<and> w_ContentHash w = hash \<and> read_result c x = w_Result w" if "r = Some x" using both that by blast
qed

lemma walked_run:
  assumes ok: "run_ok s"
  shows "run_ok (cache_step s (Walked now hash key res))"
proof -
  obtain a c where m: "make_slice (Files res) (cache s) = (a, c)" by fastforce
  note r1 = run_ok_slice [OF ok m]
  define s1 where "s1 = s\<lparr>cache := c, given := a # given s\<rparr>"
  have s1: "run_ok s1" using run_ok_give [OF r1(1), of a] r1(2,5) by (simp add: s1_def)
  obtain x c1 where cp: "copyResultLocked \<lparr>slice = a, info = res\<rparr> c = (x, c1)" by fastforce
  have m2: "make_slice (heap c a) (cache s1) = (slice x, c1)" "info x = res" using copyResult_slice [OF cp] by (simp_all add: s1_def)
  note r2 = run_ok_slice [OF s1 m2(1)]
  define e where "e = \<lparr>result_of = x, contentHash = hash, validatedAt = now\<rparr>"
  have read: "read_result c1 x = res" using r2(4) r1(4) m2(2) by (simp add: read_result_def)
  have "run_ok (s1\<lparr>cache := insertEntryLocked key e c1, stored := (stored s)(key := Some (hash, now, res))\<rparr>)"
    using r2(2,3) read by (intro run_ok_insert [where e = e and key = key, OF r2(1)]) (auto simp: e_def s1_def)
  moreover have "cache_step s (Walked now hash key res) =
      s1\<lparr>cache := insertEntryLocked key e c1, stored := (stored s)(key := Some (hash, now, res))\<rparr>"
    by (simp add: m put_def cp e_def s1_def Let_def)
  ultimately show ?thesis by simp
qed

lemma cache_step_ok: "run_ok s \<Longrightarrow> run_ok (cache_step s op)"
proof (cases op)
  case (GetL1 now hash key)
  assume "run_ok s"
  with GetL1 getL1_run(1) show ?thesis by (auto split: prod.split)
next
  case (GetL2 hash key answer)
  assume "run_ok s"
  with GetL2 getL2_run(1) show ?thesis by (metis surj_pair)
next
  case (Walked now hash key res)
  assume "run_ok s"
  with Walked walked_run show ?thesis by simp
next
  case (CallerWrite a fs)
  assume ok: "run_ok s"
  show ?thesis
  proof (cases "a \<in> set (given s)")
    case True
    have "entry_ok (cache_step s op) k e" if "lookup (cache s) k = Some e" for k e
    proof -
      have e: "entry_ok s k e" using ok that by (simp add: run_ok_def)
      then show ?thesis by (rule entry_ok_frame) (use e True CallerWrite in \<open>auto simp: entry_ok_def\<close>)
    qed
    with ok True CallerWrite show ?thesis by (simp add: run_ok_def cache_ok_def lookup_def)
  qed (use ok CallerWrite in simp)
next
  case Reset
  assume "run_ok s"
  with Reset show ?thesis by (simp add: run_ok_def ResetCache_def cache_ok_def table_ok_def lookup_def)
next
  case (Connect url)
  assume ok: "run_ok s"
  have "entry_ok (cache_step s op) k e" if "lookup (cache s) k = Some e" for k e
  proof -
    have e: "entry_ok s k e" using ok that by (simp add: run_ok_def)
    then show ?thesis by (rule entry_ok_frame) (use e Connect in \<open>auto simp: entry_ok_def SetL2_def\<close>)
  qed
  with ok Connect show ?thesis by (simp add: run_ok_def cache_ok_def lookup_def SetL2_def)
qed

lemma run_ok_run: "run_ok (foldl cache_step start_run ops)"
proof (induction ops rule: rev_induct)
  case Nil
  show ?case by (simp add: start_run_def empty_cache_def run_ok_def cache_ok_def table_ok_def lookup_def)
next
  case (snoc op ops)
  with cache_step_ok show ?case by simp
qed

text \<open>C34: After any interleaving of reads, stores, resets and writes of callers to the slices they were given, \<open>IngestRepo\<close> returns what the
  walk returns now, or the last result that was stored for the key, unchanged, if it is at most five minutes old and the
  repository had the same content hash, or what Redis has for the key under the same content hash; and the table has at most
  32 entries, each once in the recency list.\<close>

theorem IngestRepo_result:
  assumes "s = foldl cache_step start_run ops"
    and "IngestRepo now key hash answer walked hash' (cache s) = (Inr r, c)"
  shows "length (entries (cache s)) \<le> 32 \<and> distinct (order (cache s)) \<and> set (map fst (entries (cache s))) = set (order (cache s)) \<and>
    (walked = Inr (read_result c r) \<or>
     (\<exists>t. stored s key = Some (hash, t, read_result c r) \<and> now - t \<le> ingestCacheTTL) \<or>
     (\<exists>w. answer = Some w \<and> w_ContentHash w = hash \<and> read_result c r = w_Result w))"
proof -
  have ok: "run_ok s" using run_ok_run assms(1) by simp
  obtain r1 c1 where g1: "getL1Locked now hash key (cache s) = (r1, c1)" by fastforce
  have "walked = Inr (read_result c r) \<or>
     (\<exists>t. stored s key = Some (hash, t, read_result c r) \<and> now - t \<le> ingestCacheTTL) \<or>
     (\<exists>w. answer = Some w \<and> w_ContentHash w = hash \<and> read_result c r = w_Result w)"
  proof (cases r1)
    case (Some x)
    with getL1_run(2) [OF ok g1] assms(2) g1 show ?thesis by (auto simp: IngestRepo_def)
  next
    case None
    define s1 where "s1 = s\<lparr>cache := c1\<rparr>"
    have ok1: "run_ok s1" using getL1_run(1) [OF ok g1] None by (simp add: give_def s1_def)
    obtain r2 del c2 where g2: "getL2 hash key answer (cache s1) = ((r2, del), c2)" by (metis surj_pair)
    show ?thesis
    proof (cases r2)
      case (Some x)
      with getL2_run(2) [OF ok1 g2] assms(2) g1 g2 None show ?thesis by (auto simp: IngestRepo_def s1_def)
    next
      case None2: None
      with assms(2) g1 g2 None obtain res where res: "walked = Inr res"
        "r = \<lparr>slice = next_slice c2, info = res\<rparr>"
        "c = snd (put now hash' key r (c2\<lparr>heap := (heap c2)(next_slice c2 := Files res), next_slice := next_slice c2 + 1\<rparr>))"
        by (auto simp: IngestRepo_def s1_def make_slice_def Let_def split: sum.splits)
      have "heap c (slice r) = Files res"
        unfolding res(3) put_def by (auto simp: res(2) Let_def insertEntry_fields copyResultLocked_def make_slice_def split: prod.split)
      with res show ?thesis by (simp add: read_result_def)
    qed
  qed
  with ok show ?thesis by (simp add: run_ok_def cache_ok_def table_ok_def ingestCacheMaxEntries_def)
qed

theorem IngestRepo_result_witness:
  "\<exists>r c. IngestRepo 20 ''k'' ''h'' None (Inl ()) ''h''
      (cache (foldl cache_step start_run [Walked 10 ''h'' ''k'' ((empty_result ''/r'')\<lparr>SkippedCount := 7\<rparr>), CallerWrite 0 []])) = (Inr r, c) \<and>
    SkippedCount (read_result c r) = 7"
proof -
  let ?ops = "[Walked 10 ''h'' ''k'' ((empty_result ''/r'')\<lparr>SkippedCount := 7\<rparr>), CallerWrite 0 []]"
  let ?s = "foldl cache_step start_run ?ops"
  have st: "stored ?s ''k'' = Some (''h'', 10, (empty_result ''/r'')\<lparr>SkippedCount := 7\<rparr>)"
    by (simp add: start_run_def make_slice_def split: prod.split)
  obtain r c where rc: "IngestRepo 20 ''k'' ''h'' None (Inl ()) ''h'' (cache ?s) = (Inr r, c)"
    by (simp add: IngestRepo_def getL1Locked_def start_run_def make_slice_def put_def copyResultLocked_def insertEntryLocked_def
      touch_def removeOrder_def empty_cache_def Let_def ingestCacheMaxEntries_def ingestCacheTTL_def)
  from IngestRepo_result [OF refl rc] have "\<exists>t. stored ?s ''k'' = Some (''h'', t, read_result c r)" by blast
  with st have "read_result c r = (empty_result ''/r'')\<lparr>SkippedCount := 7\<rparr>" by (simp only: option.inject prod.inject) metis
  then have "SkippedCount (read_result c r) = 7" by simp
  with rc show ?thesis by blast
qed

text \<open>
  The hash of a stored result is computed after the walk. A change of the repository between the two is not noticed: the old
  result passes the check of the next call.
\<close>

lemma stale_walk_is_served:
  "\<exists>r c r' c'. IngestRepo 1 ''k'' ''old'' None (Inr ((empty_result ''/r'')\<lparr>SkippedCount := 7\<rparr>)) ''new'' empty_cache = (Inr r, c) \<and>
     IngestRepo 2 ''k'' ''new'' None (Inr (empty_result ''/r'')) ''new'' c = (Inr r', c') \<and> SkippedCount (read_result c' r') = 7"
  by (simp add: IngestRepo_def getL1Locked_def getL2_def make_slice_def put_def copyResultLocked_def insertEntryLocked_def
      touch_def removeOrder_def empty_cache_def Let_def ingestCacheMaxEntries_def ingestCacheTTL_def read_result_def)

subsection \<open>What keys and hashes tell apart\<close>

lemma length_le_bytes [simp]: "length (le_bytes k n) = k"
  by (induction k n rule: le_bytes.induct) simp_all

lemma char_of_inj: "char_of (m mod 256 :: nat) = char_of (n mod 256) \<longleftrightarrow> m mod 256 = n mod 256"
  by (metis char_of_eq_iff mod_mod_trivial of_char_of)

lemma le_bytes_inj: "le_bytes k m = le_bytes k n \<Longrightarrow> m < 256 ^ k \<Longrightarrow> n < 256 ^ k \<Longrightarrow> m = n"
proof (induction k arbitrary: m n)
  case 0
  then show ?case by simp
next
  case (Suc k)
  from Suc.prems(1) have "m mod 256 = n mod 256" "le_bytes k (m div 256) = le_bytes k (n div 256)" by (auto simp: char_of_inj)
  moreover from Suc.prems(2,3) have "m div 256 < 256 ^ k" "n div 256 < 256 ^ k"
    by (simp_all add: less_mult_imp_div_less mult.commute)
  ultimately have "m div 256 = n div 256" using Suc.IH by blast
  with \<open>m mod 256 = n mod 256\<close> show ?case by (metis div_mult_mod_eq)
qed

definition int64 :: "int \<Rightarrow> bool" where
  "int64 i \<longleftrightarrow> - (2 ^ 63) \<le> i \<and> i < 2 ^ 63"

lemma le64_inj:
  assumes "le64 i = le64 j" "int64 i" "int64 j"
  shows "i = j"
proof -
  have lt: "unat (word_of_int x :: 64 word) < 256 ^ 8" for x
    using unsigned_less [where 'a = nat and w = "word_of_int x :: 64 word"] by simp
  from assms(1) le_bytes_inj [OF _ lt lt] have "unat (word_of_int i :: 64 word) = unat (word_of_int j :: 64 word)"
    by (simp add: le64_def)
  then have "(word_of_int i :: 64 word) = word_of_int j" by (rule unsigned_word_eqI)
  then have "sint (word_of_int i :: 64 word) = sint (word_of_int j :: 64 word)" by (rule arg_cong)
  moreover have "sint (word_of_int x :: 64 word) = x" if "int64 x" for x
    using that unfolding int64_def by (subst sint_sbintrunc') (simp add: signed_take_bit_int_eq_self)
  ultimately show ?thesis using assms(2,3) by simp
qed

lemma length_le64 [simp]: "length (le64 i) = 8"
  by (simp add: le64_def)

definition flag_count :: "IngestOpts \<Rightarrow> nat" where
  "flag_count p = of_bool (FollowSymlinks p) + of_bool (ExcludeTests p)"

definition plain_opts :: "IngestOpts \<Rightarrow> bool" where
  "plain_opts p \<longleftrightarrow>
     CHR 0x00 \<notin> set (Focus p) \<and> CHR 0x00 \<notin> set (ok_Languages (optsKey p)) \<and>
     int64 (MaxFileBytes p) \<and> int64 (MaxRepoBytes p) \<and> int64 (MaxFiles p)"

lemma key_bytes_eq:
  "key_bytes root p = root @ CHR 0x00 # Focus p @ CHR 0x00 # ok_Languages (optsKey p) @ CHR 0x00 #
     le64 (MaxFileBytes p) @ le64 (MaxRepoBytes p) @ le64 (MaxFiles p) @ replicate (flag_count p) CHR 0x01"
  by (simp add: key_bytes_def Let_def optsKey_def flag_count_def)

text \<open>Two calls are hashed from the same bytes exactly if they agree on the root, the focus, the sorted languages, the three limits
  and the number of flags that are set. So an entry is shared by the calls that set one flag, whichever it is; everything else
  is told apart, for paths and words without a NUL and limits of 64 bits.\<close>

lemma key_bytes_exact:
  assumes "CHR 0x00 \<notin> set root" "CHR 0x00 \<notin> set root'" "plain_opts a" "plain_opts b"
  shows "key_bytes root a = key_bytes root' b \<longleftrightarrow>
    root = root' \<and> Focus a = Focus b \<and> ok_Languages (optsKey a) = ok_Languages (optsKey b) \<and>
    MaxFileBytes a = MaxFileBytes b \<and> MaxRepoBytes a = MaxRepoBytes b \<and> MaxFiles a = MaxFiles b \<and> flag_count a = flag_count b"
    (is "?eq \<longleftrightarrow> ?same")
proof
  assume ?eq
  then have r: "root = root'" and e: "Focus a @ CHR 0x00 # ok_Languages (optsKey a) @ CHR 0x00 #
     le64 (MaxFileBytes a) @ le64 (MaxRepoBytes a) @ le64 (MaxFiles a) @ replicate (flag_count a) CHR 0x01 =
     Focus b @ CHR 0x00 # ok_Languages (optsKey b) @ CHR 0x00 #
     le64 (MaxFileBytes b) @ le64 (MaxRepoBytes b) @ le64 (MaxFiles b) @ replicate (flag_count b) CHR 0x01"
    unfolding key_bytes_eq using sep_split [OF assms(1,2)] by blast+
  have nul: "CHR 0x00 \<notin> set (Focus a)" "CHR 0x00 \<notin> set (Focus b)"
    "CHR 0x00 \<notin> set (ok_Languages (optsKey a))" "CHR 0x00 \<notin> set (ok_Languages (optsKey b))"
    using assms(3,4) by (simp_all add: plain_opts_def)
  from sep_split [OF nul(1,2) e] have f: "Focus a = Focus b" and e2: "ok_Languages (optsKey a) @ CHR 0x00 #
     le64 (MaxFileBytes a) @ le64 (MaxRepoBytes a) @ le64 (MaxFiles a) @ replicate (flag_count a) CHR 0x01 =
     ok_Languages (optsKey b) @ CHR 0x00 #
     le64 (MaxFileBytes b) @ le64 (MaxRepoBytes b) @ le64 (MaxFiles b) @ replicate (flag_count b) CHR 0x01"
    by simp_all
  from sep_split [OF nul(3,4) e2] have l: "ok_Languages (optsKey a) = ok_Languages (optsKey b)"
    and e3: "le64 (MaxFileBytes a) @ le64 (MaxRepoBytes a) @ le64 (MaxFiles a) @ replicate (flag_count a) CHR 0x01 =
      le64 (MaxFileBytes b) @ le64 (MaxRepoBytes b) @ le64 (MaxFiles b) @ replicate (flag_count b) CHR 0x01"
    by simp_all
  from e3 have "le64 (MaxFileBytes a) = le64 (MaxFileBytes b)" "le64 (MaxRepoBytes a) = le64 (MaxRepoBytes b)"
    "le64 (MaxFiles a) = le64 (MaxFiles b)" "replicate (flag_count a) CHR 0x01 = replicate (flag_count b) CHR 0x01"
    by simp_all
  then have "MaxFileBytes a = MaxFileBytes b \<and> MaxRepoBytes a = MaxRepoBytes b \<and> MaxFiles a = MaxFiles b \<and> flag_count a = flag_count b"
    using assms(3,4) by (auto simp: plain_opts_def replicate_eq_replicate dest: le64_inj)
  with r f l show ?same by blast
next
  assume ?same
  then show ?eq by (simp add: key_bytes_eq)
qed

lemma one_flag_like_the_other:
  "cacheKey sha root (all_files\<lparr>FollowSymlinks := True\<rparr>) = cacheKey sha root (all_files\<lparr>ExcludeTests := True\<rparr>)"
  by (simp add: cacheKey_def key_bytes_eq optsKey_def flag_count_def all_files_def)

text \<open>The content hash skips hidden names, which the walk does not, and stops at half the depth.\<close>

lemma hidden_files_do_not_count:
  "RepoContentHash sha sum256 E read ls (Some (RDir ''r'' [RDir ''.github'' [RFile ''a.py'' i]])) =
   RepoContentHash sha sum256 E read ls (Some (RDir ''r'' [])) \<and>
   map f_RelPath (case walk_repo plain_env None all_files ''/r'' None (Some (RDir ''r'' [RDir ''.github'' [RFile ''a.py'' None]])) of
     Inl _ \<Rightarrow> [] | Inr r \<Rightarrow> Files r) = [''.github/a.py'']"
proof
  show "map f_RelPath (case walk_repo plain_env None all_files ''/r'' None (Some (RDir ''r'' [RDir ''.github'' [RFile ''a.py'' None]])) of
     Inl _ \<Rightarrow> [] | Inr r \<Rightarrow> Files r) = [''.github/a.py'']" by code_simp
qed (simp add: RepoContentHash_def hash_entries_def)

end
