(* ===== verification/DeadCode.thy ===== *)
theory DeadCode
  imports CallGraph Complex_Main "HOL-Library.Multiset" "HOL-Library.List_Lexorder" "HOL-Library.Product_Lexorder" "HOL-Library.Char_ord"
begin

text \<open>
  Dead code (\<open>internal/deadcode\<close>): the functions and methods of a call graph that no edge calls, less those that are called in ways
  the graph does not show. The symbols carry the fields that the call graph itself does not read; a set of symbols is a
  set of references, as in the code. The search service \<open>ox-codes\<close> is a parameter of the options.

  The main result is exact: a function is reported if and only if it is not called and no rule exempts it, each
  once and in order of file and line; with the construction of the graph it follows that no call of the repository resolves to a
  reported function.
\<close>

record FullSymbol = Symbol +
  sym_Language :: string
  sym_Signature :: string
  sym_IsPublic :: bool
  sym_Attributes :: "string list"

record IfaceEdge = CallEdge +
  ce_IsInterface :: bool

record TypeRelationship =
  rel_Subject :: string
  rel_Target :: string
  rel_Kind :: string
  rel_Line :: "32 word"
  rel_File :: string

record dead_opts =
  IncludeExported :: bool
  IncludeTests :: bool
  HookCallbacks :: "string list"
  Relationships :: "TypeRelationship list"
  OxCodes :: "(string \<Rightarrow> string \<Rightarrow> string \<Rightarrow> bool \<Rightarrow> nat option) option"
  dc_Root :: string
  dc_Language :: string

record DeadSymbol =
  ds_Name :: string
  ds_Kind :: string
  ds_File :: string
  ds_Package :: string
  ds_StartLine :: nat
  ds_Lines :: nat
  ds_Exported :: bool
  ds_Confidence :: string

record DeadResult =
  TotalFunctions :: nat
  DeadCount :: nat
  DeadRatio :: rat
  DeadSymbols :: "DeadSymbol list"

subsection \<open>Tables\<close>

definition httpHandlerPatterns :: "string list" where
  "httpHandlerPatterns =
    [''http.ResponseWriter'', ''*http.Request'', ''gin.Context'', ''echo.Context'', ''fiber.Ctx'',
     ''chi.Router'']"

definition wellKnownInterfaceMethods :: "string list" where
  "wellKnownInterfaceMethods =
    [''ServeHTTP'', ''String'', ''Error'', ''MarshalJSON'', ''UnmarshalJSON'', ''MarshalXML'', ''UnmarshalXML'',
     ''MarshalText'', ''UnmarshalText'', ''MarshalBinary'', ''UnmarshalBinary'', ''Close'', ''Read'',
     ''Write'', ''Len'', ''Less'', ''Swap'', ''Value'', ''Scan'', ''Language'', ''Extensions'',
     ''SitterLanguage'', ''TagsQuery'', ''CallsQuery'', ''RelationshipsQuery'', ''MapCapture'', ''Match'',
     ''Kind'', ''Name'', ''Type'', ''FetchREADME'', ''SearchCode'', ''SearchIssues'', ''SearchRepos'',
     ''Latest'']"

definition constructorNames :: "string list" where
  "constructorNames =
    [''__construct'', ''__init__'', ''constructor'']"

definition rustWellKnownMethods :: "string list" where
  "rustWellKnownMethods =
    [''fmt'', ''clone'', ''drop'', ''default'', ''from'', ''into'', ''try_from'', ''try_into'', ''as_ref'',
     ''as_mut'', ''deref'', ''deref_mut'', ''next'', ''into_iter'', ''to_string'', ''serialize'',
     ''deserialize'', ''poll'', ''source'', ''description'', ''eq'', ''ne'', ''partial_cmp'', ''cmp'',
     ''hash'', ''add'', ''sub'', ''mul'', ''div'', ''index'', ''index_mut'', ''borrow'', ''borrow_mut'']"

definition pythonDunderMethods :: "string list" where
  "pythonDunderMethods =
    [''__str__'', ''__repr__'', ''__len__'', ''__getattr__'', ''__setattr__'', ''__delattr__'',
     ''__getattribute__'', ''__getitem__'', ''__setitem__'', ''__delitem__'', ''__contains__'',
     ''__enter__'', ''__exit__'', ''__aenter__'', ''__aexit__'', ''__iter__'', ''__next__'', ''__aiter__'',
     ''__anext__'', ''__call__'', ''__hash__'', ''__bool__'', ''__eq__'', ''__ne__'', ''__lt__'',
     ''__le__'', ''__gt__'', ''__ge__'', ''__add__'', ''__sub__'', ''__mul__'', ''__truediv__'',
     ''__floordiv__'', ''__mod__'', ''__pow__'', ''__radd__'', ''__rsub__'', ''__rmul__'', ''__iadd__'',
     ''__isub__'', ''__imul__'', ''__neg__'', ''__pos__'', ''__abs__'', ''__invert__'', ''__int__'',
     ''__float__'', ''__complex__'', ''__index__'', ''__format__'', ''__del__'', ''__new__'',
     ''__init_subclass__'', ''__class_getitem__'', ''__set_name__'', ''__get__'', ''__set__'',
     ''__delete__'', ''__missing__'', ''__reduce__'', ''__reduce_ex__'', ''__copy__'', ''__deepcopy__'',
     ''__await__'', ''__sizeof__'']"

definition cppSpecialMethods :: "string list" where
  "cppSpecialMethods =
    [''main'']"

definition pythonEntryPrefixes :: "string list" where
  "pythonEntryPrefixes =
    [''@app.route'', ''@router.'', ''@blueprint.'', ''@pytest.fixture'', ''@pytest.mark'', ''@property'', ''@staticmethod'',
     ''@classmethod'', ''@abstractmethod'', ''@override'', ''@click.command'', ''@click.group'', ''@celery.task'', ''@shared_task'']"

subsection \<open>Exemptions\<close>

definition str_has :: "string \<Rightarrow> string \<Rightarrow> bool" where
  "str_has s t \<longleftrightarrow> str_index s t \<noteq> None"

definition isHTTPHandler :: "FullSymbol \<Rightarrow> bool" where
  "isHTTPHandler sy = list_ex (str_has (sym_Signature sy)) httpHandlerPatterns"

definition isWellKnownInterfaceMethod :: "FullSymbol \<Rightarrow> bool" where
  "isWellKnownInterfaceMethod sy \<longleftrightarrow> sym_Kind sy = ''method'' \<and> sym_Name sy \<in> set wellKnownInterfaceMethods"

definition isEntryPoint :: "string \<Rightarrow> bool" where
  "isEntryPoint name \<longleftrightarrow> name \<in> set [''main'', ''init'', ''TestMain'']"

text \<open>\<open>unicode.IsUpper\<close> of a single byte taken as a rune.\<close>

definition byte_upper :: "char \<Rightarrow> bool" where
  "byte_upper c \<longleftrightarrow> ascii_upper c \<or> (0xC0 \<le> (of_char c :: nat) \<and> (of_char c :: nat) \<le> 0xDE \<and> (of_char c :: nat) \<noteq> 0xD7)"

definition isTestFunc :: "string \<Rightarrow> bool" where
  "isTestFunc name =
     list_ex (\<lambda>p. prefix p name \<and> length name > length p \<and> (let c = name ! length p in byte_upper c \<or> c = CHR ''_''))
       [''Test'', ''Benchmark'', ''Example'', ''Fuzz'']"

definition hasTestAttribute :: "FullSymbol \<Rightarrow> bool" where
  "hasTestAttribute sy = list_ex (\<lambda>a. str_has a ''test'') (sym_Attributes sy)"

definition isRustWellKnownMethod :: "FullSymbol \<Rightarrow> bool" where
  "isRustWellKnownMethod sy \<longleftrightarrow>
     sym_Language sy = ''rust'' \<and> sym_Kind sy = ''method'' \<and> sym_Name sy \<in> set rustWellKnownMethods"

definition isRustFrameworkHandler :: "FullSymbol \<Rightarrow> bool" where
  "isRustFrameworkHandler sy =
     (if sym_Language sy \<noteq> ''rust'' then False
      else sym_Name sy \<in> set [''handler'', ''serve'', ''run''] \<or> prefix ''handle_'' (sym_Name sy) \<or> suffix ''_handler'' (sym_Name sy))"

definition isPythonFrameworkEntryPoint :: "FullSymbol \<Rightarrow> bool" where
  "isPythonFrameworkEntryPoint sy =
     (if sym_Language sy \<noteq> ''python'' then False
      else list_ex (\<lambda>a. list_ex (\<lambda>p. prefix p a) pythonEntryPrefixes) (sym_Attributes sy))"

definition isCppImplicitMethod :: "FullSymbol \<Rightarrow> bool" where
  "isCppImplicitMethod sy =
     (if sym_Language sy \<noteq> ''cpp'' \<and> sym_Language sy \<noteq> ''c'' then False
      else sym_Name sy \<in> set cppSpecialMethods \<or> prefix ''~'' (sym_Name sy) \<or> prefix ''operator'' (sym_Name sy) \<or>
        list_ex (\<lambda>a. a \<in> set [''virtual'', ''override'', ''friend'']) (sym_Attributes sy))"

definition isSymbolExported :: "FullSymbol \<Rightarrow> bool" where
  "isSymbolExported sy =
     (if sym_IsPublic sy then True
      else if sym_Language sy = ''rust'' then False
      else IsExportedForDoc (sym_Name sy) (if sym_Language sy = [] then ''go'' else sym_Language sy) (sym_IsPublic sy))"

definition classifyConfidence :: "FullSymbol \<Rightarrow> bool \<Rightarrow> string" where
  "classifyConfidence sy exported =
     (if sym_Language sy = ''rust'' \<and> exported then ''medium''
      else if exported then ''low''
      else if sym_Kind sy = ''method'' then ''medium''
      else if sym_Receiver sy \<noteq> [] \<and> str_has (sym_Receiver sy) '' for '' then ''medium''
      else ''high'')"

definition sym_lines :: "FullSymbol \<Rightarrow> nat" where
  "sym_lines sy = (if sym_EndLine sy \<ge> sym_StartLine sy then unat (sym_EndLine sy - sym_StartLine sy) + 1 else 1)"

definition shouldSkipSymbol :: "unicode \<Rightarrow> FullSymbol \<Rightarrow> dead_opts \<Rightarrow> bool" where
  "shouldSkipSymbol u sy opts =
     (if isEntryPoint (sym_Name sy) \<or> isTestFunc (sym_Name sy) then True
      else if hasTestAttribute sy then True
      else if sym_Name sy \<in> set constructorNames then True
      else if sym_Language sy = ''python'' \<and> sym_Name sy \<in> set pythonDunderMethods then True
      else if isPythonFrameworkEntryPoint sy then True
      else if isHTTPHandler sy \<or> isWellKnownInterfaceMethod sy then True
      else if isRustWellKnownMethod sy then True
      else if isRustFrameworkHandler sy then True
      else if isCppImplicitMethod sy then True
      else if \<not> IncludeTests opts \<and> IsTestFile u (sym_File sy) then True
      else if \<not> IncludeExported opts \<and> isSymbolExported sy \<and> \<not> (sym_Language sy = ''rust'' \<and> sym_IsPublic sy) then True
      else False)"

subsection \<open>Interfaces\<close>

record interfaceInfo =
  implementors :: "string set"
  interfaceMethodNames :: "string set"

definition edge_info :: "interfaceInfo \<Rightarrow> IfaceEdge \<Rightarrow> interfaceInfo" where
  "edge_info info e =
     (if ce_IsInterface e \<and> ce_CalleeName e \<noteq> [] then
        info\<lparr>interfaceMethodNames := insert (ce_CalleeName e) (interfaceMethodNames info),
             implementors := (if ce_Receiver e \<noteq> [] then insert (ce_Receiver e) (implementors info) else implementors info)\<rparr>
      else info)"

definition rel_info :: "string set \<Rightarrow> interfaceInfo \<Rightarrow> TypeRelationship \<Rightarrow> interfaceInfo" where
  "rel_info ifaceTypes info rel =
     (let i1 = (if rel_Kind rel = ''implements'' \<or> rel_Kind rel = ''extends''
                then info\<lparr>implementors := insert (rel_Subject rel) (implementors info)\<rparr> else info)
      in if rel_Kind rel = ''embeds'' \<and> rel_Target rel \<in> ifaceTypes
         then i1\<lparr>implementors := insert (rel_Subject rel) (implementors i1)\<rparr> else i1)"

definition buildInterfaceInfo ::
  "(sym_ref \<Rightarrow> FullSymbol) \<Rightarrow> sym_ref list \<Rightarrow> TypeRelationship list \<Rightarrow> IfaceEdge list \<Rightarrow> interfaceInfo" where
  "buildInterfaceInfo S symbols rels edges =
     (let i1 = foldl edge_info \<lparr>implementors = {}, interfaceMethodNames = {}\<rparr> edges;
          ifaceTypes = set (map (\<lambda>r. sym_Name (S r)) (filter (\<lambda>r. sym_Kind (S r) = ''interface'') symbols));
          ms = map (\<lambda>r. sym_Name (S r)) (filter (\<lambda>r. sym_Kind (S r) = ''method'' \<and> sym_Receiver (S r) \<in> ifaceTypes) symbols);
          i2 = i1\<lparr>interfaceMethodNames := interfaceMethodNames i1 \<union> set ms\<rparr>
      in foldl (rel_info ifaceTypes) i2 rels)"

definition isInterfaceImpl :: "FullSymbol \<Rightarrow> interfaceInfo \<Rightarrow> bool" where
  "isInterfaceImpl sy info =
     (if sym_Kind sy \<noteq> ''method'' then False
      else if sym_Receiver sy = [] then False
      else sym_Receiver sy \<in> implementors info \<and> sym_Name sy \<in> interfaceMethodNames info)"

subsection \<open>The analysis\<close>

definition buildCalledSet :: "IfaceEdge list \<Rightarrow> sym_ref set" where
  "buildCalledSet edges = set (concat (map (\<lambda>e. case ce_Callee e of None \<Rightarrow> [] | Some r \<Rightarrow> [r]) edges))"

definition filterFuncSymbols :: "(sym_ref \<Rightarrow> FullSymbol) \<Rightarrow> sym_ref list \<Rightarrow> sym_ref list" where
  "filterFuncSymbols S symbols = filter (\<lambda>r. sym_Kind (S r) = ''function'' \<or> sym_Kind (S r) = ''method'') symbols"

definition dead_row :: "FullSymbol \<Rightarrow> DeadSymbol" where
  "dead_row sy =
     (let exported = isSymbolExported sy in
      \<lparr>ds_Name = sym_Name sy, ds_Kind = sym_Kind sy, ds_File = sym_File sy, ds_Package = path_dir (sym_File sy),
       ds_StartLine = unat (sym_StartLine sy), ds_Lines = sym_lines sy, ds_Exported = exported,
       ds_Confidence = classifyConfidence sy exported\<rparr>)"

definition collectDeadSymbols ::
  "unicode \<Rightarrow> (sym_ref \<Rightarrow> FullSymbol) \<Rightarrow> sym_ref list \<Rightarrow> sym_ref set \<Rightarrow> string set \<Rightarrow> interfaceInfo \<Rightarrow> dead_opts \<Rightarrow> DeadSymbol list" where
  "collectDeadSymbols u S funcSymbols called hookSet ifaceInfo opts =
     concat (map (\<lambda>r.
       if r \<in> called \<or> sym_Name (S r) \<in> hookSet \<or> shouldSkipSymbol u (S r) opts then []
       else if isInterfaceImpl (S r) ifaceInfo then []
       else [dead_row (S r)]) funcSymbols)"

definition maxOxCodesSymbols :: nat where "maxOxCodesSymbols = 50"

text \<open>The requests run in parallel and only add to a set; a failed one adds nothing.\<close>

definition has_reference :: "(string \<Rightarrow> bool \<Rightarrow> nat option) \<Rightarrow> string \<Rightarrow> bool" where
  "has_reference search name =
     (case (if length name < 4 then search ([CHR 0x5C] @ ''b'' @ name @ [CHR 0x5C] @ ''b'') True else search name False) of
        None \<Rightarrow> False
      | Some n \<Rightarrow> n > 0)"

definition filterByStringRefs :: "(string \<Rightarrow> bool \<Rightarrow> nat option) \<Rightarrow> DeadSymbol list \<Rightarrow> DeadSymbol list" where
  "filterByStringRefs search dead =
     (let referenced = filter (has_reference search) (map ds_Name (take maxOxCodesSymbols dead))
      in if referenced = [] then dead else filter (\<lambda>d. ds_Name d \<notin> set referenced) dead)"

definition Analyze :: "unicode \<Rightarrow> (sym_ref \<Rightarrow> FullSymbol) \<Rightarrow> sym_ref list \<Rightarrow> IfaceEdge list \<Rightarrow> dead_opts \<Rightarrow> DeadResult" where
  "Analyze u S symbols edges opts =
     (let called = buildCalledSet edges;
          funcSymbols = filterFuncSymbols S symbols;
          info = buildInterfaceInfo S symbols (Relationships opts) edges;
          dead1 = collectDeadSymbols u S funcSymbols called (set (HookCallbacks opts)) info opts;
          dead2 = (case OxCodes opts of
                     Some search \<Rightarrow>
                       if dc_Root opts \<noteq> [] then filterByStringRefs (search (dc_Root opts) (dc_Language opts)) dead1 else dead1
                   | None \<Rightarrow> dead1);
          dead = sort_key (\<lambda>d. (ds_File d, ds_StartLine d)) dead2;
          n = length funcSymbols
      in \<lparr>TotalFunctions = n, DeadCount = length dead, DeadRatio = (if n > 0 then of_nat (length dead) / of_nat n else 0),
          DeadSymbols = dead\<rparr>)"

subsection \<open>What is reported\<close>

text \<open>The types that implement an interface, and the names of interface methods, without the fold of the code.\<close>

definition is_interface_type :: "(sym_ref \<Rightarrow> FullSymbol) \<Rightarrow> sym_ref list \<Rightarrow> string \<Rightarrow> bool" where
  "is_interface_type S symbols t \<longleftrightarrow> (\<exists>r\<in>set symbols. sym_Kind (S r) = ''interface'' \<and> sym_Name (S r) = t)"

definition implements_one :: "(sym_ref \<Rightarrow> FullSymbol) \<Rightarrow> sym_ref list \<Rightarrow> TypeRelationship list \<Rightarrow> IfaceEdge list \<Rightarrow> string \<Rightarrow> bool" where
  "implements_one S symbols rels edges t \<longleftrightarrow>
     (\<exists>e\<in>set edges. ce_IsInterface e \<and> ce_CalleeName e \<noteq> [] \<and> ce_Receiver e \<noteq> [] \<and> ce_Receiver e = t) \<or>
     (\<exists>rel\<in>set rels. rel_Subject rel = t \<and>
        (rel_Kind rel \<in> {''implements'', ''extends''} \<or> rel_Kind rel = ''embeds'' \<and> is_interface_type S symbols (rel_Target rel)))"

definition interface_method :: "(sym_ref \<Rightarrow> FullSymbol) \<Rightarrow> sym_ref list \<Rightarrow> IfaceEdge list \<Rightarrow> string \<Rightarrow> bool" where
  "interface_method S symbols edges m \<longleftrightarrow>
     (\<exists>e\<in>set edges. ce_IsInterface e \<and> ce_CalleeName e \<noteq> [] \<and> ce_CalleeName e = m) \<or>
     (\<exists>r\<in>set symbols. sym_Kind (S r) = ''method'' \<and> sym_Name (S r) = m \<and> is_interface_type S symbols (sym_Receiver (S r)))"

lemma edge_info_fold:
  "implementors (foldl edge_info i edges) =
     implementors i \<union> {t. \<exists>e\<in>set edges. ce_IsInterface e \<and> ce_CalleeName e \<noteq> [] \<and> ce_Receiver e \<noteq> [] \<and> ce_Receiver e = t}"
  "interfaceMethodNames (foldl edge_info i edges) =
     interfaceMethodNames i \<union> {m. \<exists>e\<in>set edges. ce_IsInterface e \<and> ce_CalleeName e \<noteq> [] \<and> ce_CalleeName e = m}"
  by (induction edges arbitrary: i) (auto simp: edge_info_def)

lemma rel_info_fold:
  "implementors (foldl (rel_info T) i rels) =
     implementors i \<union> {t. \<exists>rel\<in>set rels. rel_Subject rel = t \<and>
       (rel_Kind rel \<in> {''implements'', ''extends''} \<or> rel_Kind rel = ''embeds'' \<and> rel_Target rel \<in> T)}"
  "interfaceMethodNames (foldl (rel_info T) i rels) = interfaceMethodNames i"
  by (induction rels arbitrary: i) (auto simp: rel_info_def Let_def)

lemma buildInterfaceInfo_exact:
  "t \<in> implementors (buildInterfaceInfo S symbols rels edges) \<longleftrightarrow> implements_one S symbols rels edges t"
  "m \<in> interfaceMethodNames (buildInterfaceInfo S symbols rels edges) \<longleftrightarrow> interface_method S symbols edges m"
proof -
  have T: "x \<in> set (map (\<lambda>r. sym_Name (S r)) (filter (\<lambda>r. sym_Kind (S r) = ''interface'') symbols)) \<longleftrightarrow> is_interface_type S symbols x" for x
    by (force simp: is_interface_type_def)
  have M: "x \<in> set (map (\<lambda>r. sym_Name (S r)) (filter (\<lambda>r. sym_Kind (S r) = ''method'' \<and> is_interface_type S symbols (sym_Receiver (S r))) symbols)) \<longleftrightarrow>
      (\<exists>r\<in>set symbols. sym_Kind (S r) = ''method'' \<and> sym_Name (S r) = x \<and> is_interface_type S symbols (sym_Receiver (S r)))" for x
    by force
  show "t \<in> implementors (buildInterfaceInfo S symbols rels edges) \<longleftrightarrow> implements_one S symbols rels edges t"
    by (simp add: buildInterfaceInfo_def Let_def edge_info_fold rel_info_fold implements_one_def T del: set_map set_filter)
  show "m \<in> interfaceMethodNames (buildInterfaceInfo S symbols rels edges) \<longleftrightarrow> interface_method S symbols edges m"
    by (simp add: buildInterfaceInfo_def Let_def edge_info_fold rel_info_fold interface_method_def T M del: set_map set_filter)
qed

text \<open>A function or method that nothing calls and nothing exempts.\<close>

definition is_dead :: "unicode \<Rightarrow> (sym_ref \<Rightarrow> FullSymbol) \<Rightarrow> sym_ref list \<Rightarrow> IfaceEdge list \<Rightarrow> dead_opts \<Rightarrow> sym_ref \<Rightarrow> bool" where
  "is_dead u S symbols edges opts r \<longleftrightarrow>
     sym_Kind (S r) \<in> {''function'', ''method''} \<and>
     \<not> (\<exists>e\<in>set edges. ce_Callee e = Some r) \<and>
     sym_Name (S r) \<notin> set (HookCallbacks opts) \<and> \<not> shouldSkipSymbol u (S r) opts \<and>
     \<not> (sym_Kind (S r) = ''method'' \<and> sym_Receiver (S r) \<noteq> [] \<and> interface_method S symbols edges (sym_Name (S r)) \<and>
        implements_one S symbols (Relationships opts) edges (sym_Receiver (S r)))"

lemma collect_is_dead:
  "collectDeadSymbols u S (filterFuncSymbols S symbols) (buildCalledSet edges) (set (HookCallbacks opts))
     (buildInterfaceInfo S symbols (Relationships opts) edges) opts =
   map (\<lambda>r. dead_row (S r)) (filter (is_dead u S symbols edges opts) symbols)"
proof -
  have called: "r \<in> buildCalledSet edges \<longleftrightarrow> (\<exists>e\<in>set edges. ce_Callee e = Some r)" for r
    by (force simp: buildCalledSet_def split: option.splits)
  have step: "(if r \<in> buildCalledSet edges \<or> sym_Name (S r) \<in> set (HookCallbacks opts) \<or> shouldSkipSymbol u (S r) opts then []
       else if isInterfaceImpl (S r) (buildInterfaceInfo S symbols (Relationships opts) edges) then []
       else [dead_row (S r)]) =
      (if is_dead u S symbols edges opts r then [dead_row (S r)] else [])"
    if "sym_Kind (S r) = ''function'' \<or> sym_Kind (S r) = ''method''" for r
    using that by (auto simp: is_dead_def called isInterfaceImpl_def buildInterfaceInfo_exact)
  have "concat (map (\<lambda>r. if r \<in> buildCalledSet edges \<or> sym_Name (S r) \<in> set (HookCallbacks opts) \<or> shouldSkipSymbol u (S r) opts then []
       else if isInterfaceImpl (S r) (buildInterfaceInfo S symbols (Relationships opts) edges) then []
       else [dead_row (S r)]) (filterFuncSymbols S xs)) =
      map (\<lambda>r. dead_row (S r)) (filter (is_dead u S symbols edges opts) xs)" for xs
  proof (induction xs)
    case Nil
    then show ?case by (simp add: filterFuncSymbols_def)
  next
    case (Cons r xs)
    show ?case
    proof (cases "sym_Kind (S r) = ''function'' \<or> sym_Kind (S r) = ''method''")
      case True
      then have f: "filterFuncSymbols S (r # xs) = r # filterFuncSymbols S xs" by (simp add: filterFuncSymbols_def)
      show ?thesis unfolding f list.map concat.simps step [OF True] Cons.IH by simp
    next
      case False
      then have f: "filterFuncSymbols S (r # xs) = filterFuncSymbols S xs" by (simp add: filterFuncSymbols_def)
      from False have "\<not> is_dead u S symbols edges opts r" by (auto simp: is_dead_def)
      then show ?thesis unfolding f Cons.IH by simp
    qed
  qed
  then show ?thesis by (simp add: collectDeadSymbols_def)
qed


subsection \<open>With the search service, and on a graph that was built\<close>

lemma filterByStringRefs_subset: "set (filterByStringRefs search dead) \<subseteq> set dead"
  by (auto simp: filterByStringRefs_def Let_def)

text \<open>Only the names of the first fifty rows are looked up, before the rows are sorted; a failed request exempts nothing.\<close>

lemma filterByStringRefs_exact:
  "filterByStringRefs search dead =
     filter (\<lambda>d. \<not> (has_reference search (ds_Name d) \<and> ds_Name d \<in> set (map ds_Name (take maxOxCodesSymbols dead)))) dead"
proof -
  have "filterByStringRefs search dead =
      filter (\<lambda>d. ds_Name d \<notin> set (filter (has_reference search) (map ds_Name (take maxOxCodesSymbols dead)))) dead"
  proof (cases "filter (has_reference search) (map ds_Name (take maxOxCodesSymbols dead)) = []")
    case True
    show ?thesis unfolding filterByStringRefs_def Let_def True by simp
  next
    case False
    then show ?thesis by (simp only: filterByStringRefs_def Let_def if_False)
  qed
  also have "\<dots> = filter (\<lambda>d. \<not> (has_reference search (ds_Name d) \<and> ds_Name d \<in> set (map ds_Name (take maxOxCodesSymbols dead)))) dead"
    by (rule filter_cong) auto
  finally show ?thesis .
qed

lemma Analyze_rows:
  assumes "d \<in> set (DeadSymbols (Analyze u S symbols edges opts))"
  shows "\<exists>r\<in>set symbols. is_dead u S symbols edges opts r \<and> d = dead_row (S r)"
proof -
  from assms have "d \<in> set (map (\<lambda>r. dead_row (S r)) (filter (is_dead u S symbols edges opts) symbols))"
    unfolding Analyze_def Let_def collect_is_dead
    by (auto split: option.splits if_splits dest!: subsetD [OF filterByStringRefs_subset] simp del: set_map set_filter)
  then show ?thesis by auto
qed

text \<open>An edge of the basic graph is never an interface dispatch.\<close>

definition basic_edge :: "CallEdge \<Rightarrow> IfaceEdge" where
  "basic_edge e = CallEdge.extend e (IfaceEdge.fields False)"

lemma basic_edge_callee [simp]: "ce_Callee (basic_edge e) = ce_Callee e"
  by (simp add: basic_edge_def CallEdge.defs IfaceEdge.defs)

text \<open>C36: No call of the repository resolves to a function that is reported as dead: every row of the report on the graph built from the
  calls belongs to a symbol of the table to which the resolution of no call site leads.\<close>

theorem dead_functions_are_uncalled:
  assumes "d \<in> set (DeadSymbols (Analyze u S symbols (map basic_edge (BuildCallGraph E symbols calls)) opts))"
  shows "\<exists>r\<in>set symbols. d = dead_row (S r) \<and> list_all (\<lambda>cs. resolved E symbols cs \<noteq> Some r) calls"
proof -
  let ?edges = "BuildCallGraph E symbols calls"
  from Analyze_rows [OF assms] obtain r where r: "r \<in> set symbols" "d = dead_row (S r)"
    "\<And>e. e \<in> set ?edges \<Longrightarrow> ce_Callee e \<noteq> Some r"
    by (fastforce simp: is_dead_def)
  have "resolved E symbols cs \<noteq> Some r" if cs: "cs \<in> set calls" for cs
  proof
    assume res: "resolved E symbols cs = Some r"
    then obtain e where "build_edge E False symbols cs = [e]" "ce_Callee e = Some r"
      by (auto simp: build_edge_def resolved_def Let_def)
    then have "e \<in> set (build_edge E False symbols cs)" by simp
    with cs have "e \<in> set ?edges" unfolding BuildCallGraph_def BuildCallGraphWithOpts_def by auto
    with r(3) \<open>ce_Callee e = Some r\<close> show False by blast
  qed
  with r show ?thesis by (auto simp: list_all_iff)
qed

definition lone_helper :: FullSymbol where
  "lone_helper = \<lparr>sym_Name = ''helper'', sym_Kind = ''function'', sym_File = ''a.go'', sym_StartLine = 3, sym_EndLine = 5,
     sym_Receiver = [], sym_Language = ''go'', sym_Signature = [], sym_IsPublic = False, sym_Attributes = []\<rparr>"

definition default_opts :: dead_opts where
  "default_opts = \<lparr>IncludeExported = False, IncludeTests = False, HookCallbacks = [], Relationships = [], OxCodes = None,
     dc_Root = [], dc_Language = []\<rparr>"

definition ascii_only :: unicode where
  "ascii_only = \<lparr>u_lower = id, u_upper1 = (\<lambda>_. False)\<rparr>"

lemma lone_helper_kept: "\<not> shouldSkipSymbol ascii_only lone_helper default_opts"
  by code_simp

theorem dead_functions_are_uncalled_witness:
  "\<forall>E. \<exists>d. d \<in> set (DeadSymbols (Analyze ascii_only (\<lambda>_. lone_helper) [0] (map basic_edge (BuildCallGraph E [0] [])) default_opts)) \<and>
     (\<exists>r\<in>set [0 :: nat]. d = dead_row lone_helper)"
proof
  fix E
  have "dead_row lone_helper \<in> set (DeadSymbols (Analyze ascii_only (\<lambda>_. lone_helper) [0] (map basic_edge (BuildCallGraph E [0] [])) default_opts))"
    unfolding Analyze_def Let_def collect_is_dead using lone_helper_kept
    by (simp add: is_dead_def BuildCallGraph_def BuildCallGraphWithOpts_def lone_helper_def default_opts_def)
  from dead_functions_are_uncalled [OF this] this
  show "\<exists>d. d \<in> set (DeadSymbols (Analyze ascii_only (\<lambda>_. lone_helper) [0] (map basic_edge (BuildCallGraph E [0] [])) default_opts)) \<and>
     (\<exists>r\<in>set [0 :: nat]. d = dead_row lone_helper)" by auto
qed

text \<open>The test for attributes is a substring test, for every language: a decorator such as \<open>@latest\<close> counts.\<close>

lemma latest_is_no_test:
  "shouldSkipSymbol ascii_only (lone_helper\<lparr>sym_Language := ''python'', sym_Attributes := [''@api.latest'']\<rparr>) default_opts"
  by code_simp

end
