(* ===== verification/GraphMerge.thy ===== *)
theory GraphMerge
  imports DeadCode GoStrconv PathNorm
begin

text \<open>
  What happens to a call graph after it was built: the union with a graph from go/types or SCIP
  (\<open>internal/callgraph/convert.go\<close>), and the copy that comes back from Redis (\<open>repo_cache.go\<close>). Both are about the identity
  of symbols: a typed edge is bound to a symbol by its definition site, and decoding gives every pointer a
  copy of its own, which \<open>relinkCallGraphSymbols\<close> undoes.

  The lemmas show that an endpoint is never guessed, that the union loses no call, and that a decoded and relinked graph
  is the encoded one up to the names of references; so the dead code of a cached graph is that of the graph.
\<close>

record RepoGraph =
  g_Symbols :: "sym_ref list"
  g_Edges :: "IfaceEdge list"
  g_TypeRels :: "TypeRelationship list"
  g_HookCallbacks :: "string list"
  g_Tier :: string
  g_Backend :: string

record TypedEdge =
  te_CallerName :: string
  te_CallerFile :: string
  te_CallerLine :: "32 word"
  te_CalleeName :: string
  te_CalleeFile :: string
  te_CalleeLine :: "32 word"
  te_ReceiverType :: string
  te_Line :: "32 word"
  te_IsInterface :: bool

subsection \<open>Binding typed edges\<close>

definition pathSuffixComponents :: nat where "pathSuffixComponents = 3"

definition sharesPathSuffix :: "string \<Rightarrow> string \<Rightarrow> bool" where
  "sharesPathSuffix full rel =
     (let as = split_on CHR ''/'' (path_clean full); rs = split_on CHR ''/'' (path_clean rel);
          n = min pathSuffixComponents (min (length as) (length rs))
      in list_all (\<lambda>i. as ! (length as - i) = rs ! (length rs - i)) [1..<n + 1])"

definition pickByLine :: "(sym_ref \<Rightarrow> FullSymbol) \<Rightarrow> sym_ref list \<Rightarrow> 32 word \<Rightarrow> sym_ref option" where
  "pickByLine S syms line =
     (if length syms = 1 \<or> line = 0 then Some (hd syms)
      else find (\<lambda>r. line \<ge> sym_StartLine (S r) \<and> line \<le> sym_EndLine (S r)) syms)"

definition byNameFile :: "(sym_ref \<Rightarrow> FullSymbol) \<Rightarrow> sym_ref list \<Rightarrow> string \<Rightarrow> sym_ref list" where
  "byNameFile S symbols k = filter (\<lambda>r. sym_Name (S r) @ [CHR 0x00] @ path_clean (sym_File (S r)) = k) symbols"

definition convert_resolve :: "(sym_ref \<Rightarrow> FullSymbol) \<Rightarrow> sym_ref list \<Rightarrow> string \<Rightarrow> string \<Rightarrow> 32 word \<Rightarrow> sym_ref option" where
  "convert_resolve S symbols name path line =
     (if name = [] \<or> path = [] then None
      else let syms = byNameFile S symbols (name @ [CHR 0x00] @ path_clean path) in
        if syms \<noteq> [] then pickByLine S syms line
        else if prefix ''/'' path then None
        else (case filter (\<lambda>r. sym_Name (S r) = name \<and> sharesPathSuffix (sym_File (S r)) path) symbols of
                [r] \<Rightarrow> Some r
              | _ \<Rightarrow> None))"

definition convert_edge :: "(sym_ref \<Rightarrow> FullSymbol) \<Rightarrow> sym_ref list \<Rightarrow> TypedEdge \<Rightarrow> IfaceEdge" where
  "convert_edge S symbols te =
     \<lparr>ce_Caller = convert_resolve S symbols (te_CallerName te) (te_CallerFile te) (te_CallerLine te),
      ce_Callee = convert_resolve S symbols (te_CalleeName te) (te_CalleeFile te) (te_CalleeLine te),
      ce_CalleeName = te_CalleeName te, ce_Receiver = te_ReceiverType te, ce_Line = te_Line te, ce_IsInterface = te_IsInterface te\<rparr>"

definition ConvertToCallGraph :: "(sym_ref \<Rightarrow> FullSymbol) \<Rightarrow> TypedEdge list \<Rightarrow> sym_ref list \<Rightarrow> RepoGraph" where
  "ConvertToCallGraph S typedEdges tsSymbols =
     \<lparr>g_Symbols = tsSymbols, g_Edges = map (convert_edge S tsSymbols) typedEdges, g_TypeRels = [], g_HookCallbacks = [],
      g_Tier = [], g_Backend = []\<rparr>"

subsection \<open>The union\<close>

definition edgeKey :: "(sym_ref \<Rightarrow> FullSymbol) \<Rightarrow> IfaceEdge \<Rightarrow> string" where
  "edgeKey S e =
     (case ce_Caller e of
        None \<Rightarrow> []
      | Some r \<Rightarrow> sym_File (S r) @ [CHR 0x00] @ sym_Name (S r) @ [CHR 0x00] @ nat_dec (unat (sym_StartLine (S r)))) @
     ''->'' @ ce_CalleeName e"

text \<open>The first element of every key, in order.\<close>

fun first_by :: "('a \<Rightarrow> 'k) \<Rightarrow> 'k list \<Rightarrow> 'a list \<Rightarrow> 'a list" where
  "first_by f seen [] = []"
| "first_by f seen (x # xs) = (if f x \<in> set seen then first_by f seen xs else x # first_by f (f x # seen) xs)"

definition mergeSymbols :: "(sym_ref \<Rightarrow> FullSymbol) \<Rightarrow> sym_ref list \<Rightarrow> sym_ref list \<Rightarrow> sym_ref list" where
  "mergeSymbols S primary secondary = first_by (\<lambda>r. sym_Name (S r) @ '':'' @ sym_File (S r)) [] (primary @ secondary)"

definition relKey :: "TypeRelationship \<Rightarrow> string" where
  "relKey r = rel_Subject r @ '':'' @ rel_Target r @ '':'' @ rel_Kind r @ '':'' @ rel_File r @ '':'' @ nat_dec (unat (rel_Line r))"

definition mergeTypeRels :: "TypeRelationship list \<Rightarrow> TypeRelationship list \<Rightarrow> TypeRelationship list" where
  "mergeTypeRels primary secondary =
     (if primary = [] then secondary else if secondary = [] then primary else first_by relKey [] (primary @ secondary))"

definition MergeCallGraphs :: "(sym_ref \<Rightarrow> FullSymbol) \<Rightarrow> RepoGraph option \<Rightarrow> RepoGraph option \<Rightarrow> RepoGraph option" where
  "MergeCallGraphs S tsGraph typedGraph =
     (case (tsGraph, typedGraph) of
        (_, None) \<Rightarrow> tsGraph
      | (None, Some t) \<Rightarrow> Some t
      | (Some g, Some t) \<Rightarrow>
          let seen = map (edgeKey S) (g_Edges t)
          in Some (g\<lparr>g_Edges := g_Edges t @ filter (\<lambda>e. edgeKey S e \<notin> set seen) (g_Edges g),
                     g_Symbols := mergeSymbols S (g_Symbols t) (g_Symbols g),
                     g_TypeRels := mergeTypeRels (g_TypeRels g) (g_TypeRels t), g_Tier := [], g_Backend := []\<rparr>))"

subsection \<open>The copy in Redis\<close>

type_synonym symbolKey = "string \<times> string \<times> 32 word \<times> 32 word \<times> string \<times> string \<times> string"

definition makeSymbolKey :: "FullSymbol \<Rightarrow> symbolKey" where
  "makeSymbolKey s = (sym_Language s, sym_File s, sym_StartLine s, sym_EndLine s, sym_Name s, sym_Kind s, sym_Receiver s)"

definition relink_ref :: "(sym_ref \<Rightarrow> FullSymbol) \<Rightarrow> sym_ref list \<Rightarrow> sym_ref \<Rightarrow> sym_ref" where
  "relink_ref S symbols r =
     (case find (\<lambda>q. makeSymbolKey (S q) = makeSymbolKey (S r)) symbols of Some q \<Rightarrow> q | None \<Rightarrow> r)"

definition relinkCallGraphSymbols :: "(sym_ref \<Rightarrow> FullSymbol) \<Rightarrow> RepoGraph \<Rightarrow> RepoGraph" where
  "relinkCallGraphSymbols S g =
     (if g_Symbols g = [] then g
      else g\<lparr>g_Edges := map (\<lambda>e. e\<lparr>ce_Caller := map_option (relink_ref S (g_Symbols g)) (ce_Caller e),
                                   ce_Callee := map_option (relink_ref S (g_Symbols g)) (ce_Callee e)\<rparr>) (g_Edges g)\<rparr>)"

text \<open>
  \<open>gob\<close> writes the value behind a pointer, and reads it into a fresh allocation. Decoding puts the symbols at the first references and
  the caller and callee of every edge at two references of their own.
\<close>

record wireCG =
  wc_Symbols :: "FullSymbol list"
  wc_Edges :: "(FullSymbol option \<times> FullSymbol option \<times> IfaceEdge) list"
  wc_graph :: RepoGraph

definition gob_encode :: "(sym_ref \<Rightarrow> FullSymbol) \<Rightarrow> RepoGraph \<Rightarrow> wireCG" where
  "gob_encode S g =
     \<lparr>wc_Symbols = map S (g_Symbols g),
      wc_Edges = map (\<lambda>e. (map_option S (ce_Caller e), map_option S (ce_Callee e), e\<lparr>ce_Caller := None, ce_Callee := None\<rparr>)) (g_Edges g),
      wc_graph = g\<lparr>g_Symbols := [], g_Edges := []\<rparr>\<rparr>"

definition wire_store :: "wireCG \<Rightarrow> sym_ref \<Rightarrow> FullSymbol" where
  "wire_store w r =
     (let n = length (wc_Symbols w) in
      if r < n then wc_Symbols w ! r
      else let (c, d, e) = wc_Edges w ! ((r - n) div 2) in the (if even (r - n) then c else d))"

definition wire_edge :: "nat \<Rightarrow> nat \<times> FullSymbol option \<times> FullSymbol option \<times> IfaceEdge \<Rightarrow> IfaceEdge" where
  "wire_edge n je =
     (let (j, c, d, e) = je
      in e\<lparr>ce_Caller := (if c = None then None else Some (n + 2 * j)), ce_Callee := (if d = None then None else Some (n + 2 * j + 1))\<rparr>)"

definition decodeCGEntry :: "wireCG \<Rightarrow> (sym_ref \<Rightarrow> FullSymbol) \<times> RepoGraph" where
  "decodeCGEntry w =
     (let n = length (wc_Symbols w); S = wire_store w;
          g = (wc_graph w)\<lparr>g_Symbols := [0..<n], g_Edges := map (wire_edge n) (enumerate 0 (wc_Edges w))\<rparr>
      in (S, relinkCallGraphSymbols S g))"

subsection \<open>Graphs that differ in the names of references\<close>

text \<open>The place of a reference in a list.\<close>

definition place :: "sym_ref list \<Rightarrow> sym_ref \<Rightarrow> nat" where
  "place xs r = length (takeWhile (\<lambda>x. x \<noteq> r) xs)"

lemma place_nth: "r \<in> set xs \<Longrightarrow> place xs r < length xs \<and> xs ! place xs r = r"
proof (induction xs)
  case (Cons x xs)
  then show ?case by (cases "x = r") (auto simp: place_def)
qed simp

lemma map_place: "distinct xs \<Longrightarrow> map (place xs) xs = [0..<length xs]"
proof (rule nth_equalityI)
  fix i
  assume "distinct xs" "i < length (map (place xs) xs)"
  then show "map (place xs) xs ! i = [0..<length xs] ! i"
    using place_nth [of "xs ! i" xs] nth_eq_iff_index_eq [of xs "place xs (xs ! i)" i] by simp
qed simp

lemma inj_place: "inj_on (place xs) (set xs)"
  by (rule inj_onI) (metis place_nth)

text \<open>
  An end of an edge after decoding: a symbol of the table is the symbol at its place, one that is not in the table has a
  reference behind the table; the symbol it refers to is the same.
\<close>

definition linked_end :: "(sym_ref \<Rightarrow> FullSymbol) \<Rightarrow> (sym_ref \<Rightarrow> FullSymbol) \<Rightarrow> sym_ref list \<Rightarrow> sym_ref option \<Rightarrow> sym_ref option \<Rightarrow> bool" where
  "linked_end S S' symbols a b \<longleftrightarrow>
     (case (a, b) of
        (None, None) \<Rightarrow> True
      | (Some r, Some r') \<Rightarrow> S' r' = S r \<and> (if r \<in> set symbols then r' = place symbols r else length symbols \<le> r')
      | _ \<Rightarrow> False)"

definition linked_edge :: "(sym_ref \<Rightarrow> FullSymbol) \<Rightarrow> (sym_ref \<Rightarrow> FullSymbol) \<Rightarrow> sym_ref list \<Rightarrow> IfaceEdge \<Rightarrow> IfaceEdge \<Rightarrow> bool" where
  "linked_edge S S' symbols e e' \<longleftrightarrow>
     linked_end S S' symbols (ce_Caller e) (ce_Caller e') \<and> linked_end S S' symbols (ce_Callee e) (ce_Callee e') \<and>
     e'\<lparr>ce_Caller := ce_Caller e, ce_Callee := ce_Callee e\<rparr> = e"

lemma linked_end_symbol:
  assumes "linked_end S S' symbols a b" "r \<in> set symbols"
  shows "b = Some (place symbols r) \<longleftrightarrow> a = Some r"
proof (cases a; cases b)
  fix q q'
  assume ab: "a = Some q" "b = Some q'"
  with assms(1) have q: "if q \<in> set symbols then q' = place symbols q else length symbols \<le> q'" by (simp add: linked_end_def)
  show ?thesis
  proof (cases "q \<in> set symbols")
    case True
    with q ab inj_place [of symbols] assms(2) show ?thesis by (auto dest: inj_onD)
  next
    case False
    with q ab place_nth [OF assms(2)] assms(2) show ?thesis by auto
  qed
qed (use assms(1) in \<open>simp_all add: linked_end_def\<close>)

lemma linked_edge_fields:
  assumes "linked_edge S S' symbols e e'"
  shows "ce_IsInterface e' = ce_IsInterface e" "ce_CalleeName e' = ce_CalleeName e" "ce_Receiver e' = ce_Receiver e"
proof -
  from assms have e: "e = e'\<lparr>ce_Caller := ce_Caller e, ce_Callee := ce_Callee e\<rparr>" by (simp add: linked_edge_def)
  show "ce_IsInterface e' = ce_IsInterface e" "ce_CalleeName e' = ce_CalleeName e" "ce_Receiver e' = ce_Receiver e"
    by (subst e, simp)+
qed

lemma list_all2_bex:
  "list_all2 R xs ys \<Longrightarrow> (\<And>x y. R x y \<Longrightarrow> P x = Q y) \<Longrightarrow> (\<exists>x\<in>set xs. P x) = (\<exists>y\<in>set ys. Q y)"
  by (induction rule: list_all2_induct) auto

text \<open>Dead code depends on the symbols of the table, not on where they are, nor on the symbols outside the table.\<close>

lemma is_dead_linked:
  assumes "\<forall>r\<in>set symbols. S' (place symbols r) = S r" "list_all2 (linked_edge S S' symbols) edges edges'" "r \<in> set symbols"
  shows "is_dead u S' (map (place symbols) symbols) edges' opts (place symbols r) = is_dead u S symbols edges opts r"
proof -
  have called: "(\<exists>e\<in>set edges. ce_Callee e = Some r) = (\<exists>e\<in>set edges'. ce_Callee e = Some (place symbols r))"
    using assms(2) by (rule list_all2_bex) (use linked_end_symbol [OF _ assms(3)] in \<open>auto simp: linked_edge_def\<close>)
  have iface: "is_interface_type S' (map (place symbols) symbols) t = is_interface_type S symbols t" for t
    using assms(1) by (auto simp: is_interface_type_def)
  have dispatch: "(\<exists>e\<in>set edges. ce_IsInterface e \<and> ce_CalleeName e \<noteq> [] \<and> ce_CalleeName e = m) =
      (\<exists>e\<in>set edges'. ce_IsInterface e \<and> ce_CalleeName e \<noteq> [] \<and> ce_CalleeName e = m)"
    "(\<exists>e\<in>set edges. ce_IsInterface e \<and> ce_CalleeName e \<noteq> [] \<and> ce_Receiver e \<noteq> [] \<and> ce_Receiver e = m) =
      (\<exists>e\<in>set edges'. ce_IsInterface e \<and> ce_CalleeName e \<noteq> [] \<and> ce_Receiver e \<noteq> [] \<and> ce_Receiver e = m)" for m
    by (rule list_all2_bex [OF assms(2)], simp add: linked_edge_fields)+
  have "interface_method S' (map (place symbols) symbols) edges' m = interface_method S symbols edges m" for m
    unfolding interface_method_def dispatch(1) using assms(1) by (auto simp: iface)
  moreover have "implements_one S' (map (place symbols) symbols) rels edges' t = implements_one S symbols rels edges t" for rels t
    unfolding implements_one_def dispatch(2) by (simp add: iface)
  ultimately show ?thesis using assms(1,3) by (simp add: is_dead_def called del: set_map)
qed

lemma Analyze_linked:
  assumes "\<forall>r\<in>set symbols. S' (place symbols r) = S r" "list_all2 (linked_edge S S' symbols) edges edges'"
  shows "DeadCode.Analyze u S' (map (place symbols) symbols) edges' opts = DeadCode.Analyze u S symbols edges opts"
proof -
  have "map (\<lambda>r. dead_row (S' r)) (filter (is_dead u S' (map (place symbols) symbols) edges' opts) (map (place symbols) xs)) =
      map (\<lambda>r. dead_row (S r)) (filter (is_dead u S symbols edges opts) xs)" if "set xs \<subseteq> set symbols" for xs
    using that is_dead_linked [OF assms] assms(1) by (induction xs) auto
  from this [OF order_refl] have rows:
    "map (\<lambda>r. dead_row (S' r)) (filter (is_dead u S' (map (place symbols) symbols) edges' opts) (map (place symbols) symbols)) =
      map (\<lambda>r. dead_row (S r)) (filter (is_dead u S symbols edges opts) symbols)" .
  have "length (filterFuncSymbols S' (map (place symbols) xs)) = length (filterFuncSymbols S xs)" if "set xs \<subseteq> set symbols" for xs
    using that assms(1) by (induction xs) (auto simp: filterFuncSymbols_def)
  from this [OF order_refl] have count: "length (filterFuncSymbols S' (map (place symbols) symbols)) = length (filterFuncSymbols S symbols)" .
  show ?thesis unfolding DeadCode.Analyze_def Let_def collect_is_dead rows count by (rule refl)
qed

text \<open>
  What relinking by keys relies on: no two symbols of the table share a key, and an end of an edge that is not in the table
  does not share the key of one that is.
\<close>

definition keyed :: "(sym_ref \<Rightarrow> FullSymbol) \<Rightarrow> sym_ref list \<Rightarrow> bool" where
  "keyed S symbols \<longleftrightarrow> distinct (map (\<lambda>r. makeSymbolKey (S r)) symbols)"

definition edge_ends :: "IfaceEdge \<Rightarrow> sym_ref list" where
  "edge_ends e = (case ce_Caller e of None \<Rightarrow> [] | Some r \<Rightarrow> [r]) @ (case ce_Callee e of None \<Rightarrow> [] | Some r \<Rightarrow> [r])"

definition linkable :: "(sym_ref \<Rightarrow> FullSymbol) \<Rightarrow> RepoGraph \<Rightarrow> bool" where
  "linkable S g \<longleftrightarrow> keyed S (g_Symbols g) \<and>
     list_all (\<lambda>e. list_all (\<lambda>r. r \<in> set (g_Symbols g) \<or> makeSymbolKey (S r) \<notin> set (map (\<lambda>q. makeSymbolKey (S q)) (g_Symbols g)))
       (edge_ends e)) (g_Edges g)"

lemma wire_store_symbols:
  assumes "r \<in> set (g_Symbols g)"
  shows "wire_store (gob_encode S g) (place (g_Symbols g) r) = S r"
  using place_nth [OF assms] by (simp add: wire_store_def gob_encode_def Let_def)

lemma wire_store_edges:
  assumes "j < length (g_Edges g)"
  shows "ce_Caller (g_Edges g ! j) = Some r \<Longrightarrow> wire_store (gob_encode S g) (length (g_Symbols g) + 2 * j) = S r"
    and "ce_Callee (g_Edges g ! j) = Some r \<Longrightarrow> wire_store (gob_encode S g) (length (g_Symbols g) + 2 * j + 1) = S r"
  using assms by (simp_all add: wire_store_def gob_encode_def Let_def)

lemma relink_ref_place:
  assumes "keyed S (g_Symbols g)" "r \<in> set (g_Symbols g)" "wire_store (gob_encode S g) q = S r"
  shows "relink_ref (wire_store (gob_encode S g)) [0..<length (g_Symbols g)] q = place (g_Symbols g) r"
proof -
  let ?n = "length (g_Symbols g)" and ?W = "wire_store (gob_encode S g)"
  have W: "?W i = S (g_Symbols g ! i)" if "i < ?n" for i using that by (simp add: wire_store_def gob_encode_def Let_def)
  have p: "place (g_Symbols g) r < ?n" "g_Symbols g ! place (g_Symbols g) r = r" using place_nth [OF assms(2)] by auto
  have key: "makeSymbolKey (?W i) = makeSymbolKey (S r) \<longleftrightarrow> i = place (g_Symbols g) r" if "i < ?n" for i
    using nth_eq_iff_index_eq [OF assms(1) [unfolded keyed_def], of i "place (g_Symbols g) r"] that p W [OF that] by simp
  have "find (\<lambda>i. makeSymbolKey (?W i) = makeSymbolKey (?W q)) [0..<?n] = Some (place (g_Symbols g) r)"
    unfolding find_Some_iff assms(3) using key p(1) by (intro exI [of _ "place (g_Symbols g) r"]) auto
  then show ?thesis by (simp add: relink_ref_def)
qed

lemma relink_ref_outside:
  assumes "makeSymbolKey (S r) \<notin> set (map (\<lambda>q. makeSymbolKey (S q)) (g_Symbols g))" "wire_store (gob_encode S g) q = S r"
  shows "relink_ref (wire_store (gob_encode S g)) [0..<length (g_Symbols g)] q = q"
proof -
  let ?n = "length (g_Symbols g)" and ?W = "wire_store (gob_encode S g)"
  have "makeSymbolKey (?W i) \<noteq> makeSymbolKey (S r)" if "i < ?n" for i
  proof -
    have "?W i = S (g_Symbols g ! i)" using that by (simp add: wire_store_def gob_encode_def Let_def)
    moreover have "makeSymbolKey (S (g_Symbols g ! i)) \<in> set (map (\<lambda>q. makeSymbolKey (S q)) (g_Symbols g))"
      using that by simp
    ultimately show ?thesis using assms(1) by (auto simp del: set_map)
  qed
  then have "find (\<lambda>i. makeSymbolKey (?W i) = makeSymbolKey (?W q)) [0..<?n] = None"
    by (auto simp: find_None_iff assms(2))
  then show ?thesis by (simp add: relink_ref_def)
qed

lemma relinked_end:
  assumes "linkable S g" "e \<in> set (g_Edges g)" "a \<in> {ce_Caller e, ce_Callee e}"
    and "\<And>r. a = Some r \<Longrightarrow> wire_store (gob_encode S g) q = S r" and "length (g_Symbols g) \<le> q"
  shows "linked_end S (wire_store (gob_encode S g)) (g_Symbols g) a
    (map_option (relink_ref (wire_store (gob_encode S g)) [0..<length (g_Symbols g)]) (if a = None then None else Some q))"
proof (cases a)
  case None
  then show ?thesis by (simp add: linked_end_def)
next
  case (Some r)
  with assms(3) have "r \<in> set (edge_ends e)" by (auto simp: edge_ends_def split: option.splits)
  with assms(1,2) have r: "keyed S (g_Symbols g)"
      "r \<in> set (g_Symbols g) \<or> makeSymbolKey (S r) \<notin> set (map (\<lambda>q. makeSymbolKey (S q)) (g_Symbols g))"
    by (auto simp: linkable_def list_all_iff)
  have W: "wire_store (gob_encode S g) q = S r" by (rule assms(4) [OF Some])
  show ?thesis
  proof (cases "r \<in> set (g_Symbols g)")
    case True
    then show ?thesis using relink_ref_place [OF r(1) True W] wire_store_symbols [OF True] Some by (simp add: linked_end_def)
  next
    case False
    with r(2) have "relink_ref (wire_store (gob_encode S g)) [0..<length (g_Symbols g)] q = q"
      using relink_ref_outside [OF _ W] by blast
    with False Some W assms(5) show ?thesis by (simp add: linked_end_def)
  qed
qed

lemma relink_ref_Nil: "relink_ref S [] = (\<lambda>r. r)"
  by (simp add: relink_ref_def fun_eq_iff)

lemma relinked_edges:
  "relinkCallGraphSymbols S g = g\<lparr>g_Edges := map (\<lambda>e. e\<lparr>ce_Caller := map_option (relink_ref S (g_Symbols g)) (ce_Caller e),
     ce_Callee := map_option (relink_ref S (g_Symbols g)) (ce_Callee e)\<rparr>) (g_Edges g)\<rparr>"
  by (simp add: relinkCallGraphSymbols_def relink_ref_Nil option.map_ident)

text \<open>Decoding and relinking give the graph back, with its symbols at the first references.\<close>

lemma decodeCGEntry_encode:
  assumes "linkable S g" "decodeCGEntry (gob_encode S g) = (S', g')"
  shows "S' = wire_store (gob_encode S g)" "g_Symbols g' = map (place (g_Symbols g)) (g_Symbols g)"
    "list_all2 (linked_edge S S' (g_Symbols g)) (g_Edges g) (g_Edges g')" "g'\<lparr>g_Symbols := g_Symbols g, g_Edges := g_Edges g\<rparr> = g"
proof -
  let ?n = "length (g_Symbols g)" and ?W = "wire_store (gob_encode S g)"
  have d: "distinct (g_Symbols g)"
    using assms(1) unfolding linkable_def keyed_def by (blast intro: distinct_map [THEN iffD1, THEN conjunct1])
  have n: "length (wc_Symbols (gob_encode S g)) = ?n" "wc_graph (gob_encode S g) = g\<lparr>g_Symbols := [], g_Edges := []\<rparr>"
    by (simp_all add: gob_encode_def)
  define relink where "relink e = e\<lparr>ce_Caller := map_option (relink_ref ?W [0..<?n]) (ce_Caller e),
      ce_Callee := map_option (relink_ref ?W [0..<?n]) (ce_Callee e)\<rparr>" for e :: IfaceEdge
  define es where "es = map (wire_edge ?n) (enumerate 0 (wc_Edges (gob_encode S g)))"
  have len: "length es = length (g_Edges g)" by (simp add: es_def gob_encode_def)
  from assms(2) have S': "S' = ?W" and g': "g' = g\<lparr>g_Symbols := [0..<?n], g_Edges := map relink es\<rparr>"
    by (auto simp: decodeCGEntry_def Let_def n relinked_edges es_def relink_def [abs_def])
  show "S' = ?W" by (rule S')
  show "g_Symbols g' = map (place (g_Symbols g)) (g_Symbols g)" by (simp add: g' map_place [OF d])
  show "g'\<lparr>g_Symbols := g_Symbols g, g_Edges := g_Edges g\<rparr> = g" by (simp add: g')
  have "linked_edge S ?W (g_Symbols g) (g_Edges g ! j) (relink (es ! j))" if j: "j < length (g_Edges g)" for j
  proof -
    let ?e = "g_Edges g ! j"
    have mem: "?e \<in> set (g_Edges g)" using j by simp
    have "es ! j = ?e\<lparr>ce_Caller := (if ce_Caller ?e = None then None else Some (?n + 2 * j)),
        ce_Callee := (if ce_Callee ?e = None then None else Some (?n + 2 * j + 1))\<rparr>"
      using j by (simp add: es_def gob_encode_def wire_edge_def nth_enumerate_eq)
    then have "ce_Caller (relink (es ! j)) = map_option (relink_ref ?W [0..<?n]) (if ce_Caller ?e = None then None else Some (?n + 2 * j))"
      "ce_Callee (relink (es ! j)) = map_option (relink_ref ?W [0..<?n]) (if ce_Callee ?e = None then None else Some (?n + 2 * j + 1))"
      "(relink (es ! j))\<lparr>ce_Caller := ce_Caller ?e, ce_Callee := ce_Callee ?e\<rparr> = ?e"
      by (simp_all add: relink_def)
    then show ?thesis unfolding linked_edge_def
      using relinked_end [OF assms(1) mem _ wire_store_edges(1) [OF j], of "ce_Caller ?e"]
        relinked_end [OF assms(1) mem _ wire_store_edges(2) [OF j], of "ce_Callee ?e"] by simp
  qed
  then show "list_all2 (linked_edge S S' (g_Symbols g)) (g_Edges g) (g_Edges g')"
    by (intro list_all2_all_nthI) (simp_all add: g' S' len)
qed

text \<open>C37: A graph whose symbols have keys of their own, and whose edges lead to these symbols or to ones that share no key with
  them, comes back from Redis as it was written: the same table, the same edges in order, each end the symbol it was, linked to the
  entry of the table when it has one, and all other fields; so the report of dead code on the cached graph is the report
  on the graph itself.\<close>

theorem cached_graph_dead_code:
  assumes "linkable S g" and "decodeCGEntry (gob_encode S g) = (S', g')"
  shows "map S' (g_Symbols g') = map S (g_Symbols g) \<and>
    list_all2 (linked_edge S S' (g_Symbols g)) (g_Edges g) (g_Edges g') \<and>
    g'\<lparr>g_Symbols := g_Symbols g, g_Edges := g_Edges g\<rparr> = g \<and>
    DeadCode.Analyze u S' (g_Symbols g') (g_Edges g') opts = DeadCode.Analyze u S (g_Symbols g) (g_Edges g) opts"
proof -
  note g' = decodeCGEntry_encode [OF assms]
  have store: "\<forall>r\<in>set (g_Symbols g). S' (place (g_Symbols g) r) = S r" using wire_store_symbols unfolding g'(1) by blast
  from Analyze_linked [OF store g'(3)] store g'(2-4) show ?thesis by simp
qed

definition two_symbols :: "sym_ref \<Rightarrow> FullSymbol" where
  "two_symbols r = (if r = 7 then lone_helper else lone_helper\<lparr>sym_Name := ''main'', sym_StartLine := 10\<rparr>)"

definition one_call :: RepoGraph where
  "one_call = \<lparr>g_Symbols = [7, 3], g_Edges = [\<lparr>ce_Caller = Some 3, ce_Callee = Some 7, ce_CalleeName = ''helper'', ce_Receiver = [],
     ce_Line = 11, ce_IsInterface = False\<rparr>], g_TypeRels = [], g_HookCallbacks = [], g_Tier = [], g_Backend = []\<rparr>"

text \<open>With both symbols in the table, and with the caller outside it.\<close>

theorem cached_graph_dead_code_witness:
  "(\<exists>S' g'. decodeCGEntry (gob_encode two_symbols one_call) = (S', g') \<and>
     map (\<lambda>e. (ce_Caller e, ce_Callee e)) (g_Edges g') = [(Some 1, Some 0)] \<and>
     DeadCode.Analyze ascii_only S' (g_Symbols g') (g_Edges g') default_opts =
     DeadCode.Analyze ascii_only two_symbols [7, 3] (g_Edges one_call) default_opts) \<and>
   (\<exists>S' g' r. decodeCGEntry (gob_encode two_symbols (one_call\<lparr>g_Symbols := [7]\<rparr>)) = (S', g') \<and>
     map (\<lambda>e. (ce_Caller e, ce_Callee e)) (g_Edges g') = [(Some r, Some 0)] \<and> r \<notin> set (g_Symbols g') \<and> sym_Name (S' r) = ''main'')"
proof -
  have k: "linkable two_symbols one_call" "linkable two_symbols (one_call\<lparr>g_Symbols := [7]\<rparr>)"
    by (simp_all add: linkable_def edge_ends_def keyed_def one_call_def two_symbols_def makeSymbolKey_def lone_helper_def)
  obtain S1 g1 where d1: "decodeCGEntry (gob_encode two_symbols one_call) = (S1, g1)" by fastforce
  obtain S2 g2 where d2: "decodeCGEntry (gob_encode two_symbols (one_call\<lparr>g_Symbols := [7]\<rparr>)) = (S2, g2)" by fastforce
  note same = cached_graph_dead_code [OF k(1) d1, of ascii_only default_opts] cached_graph_dead_code [OF k(2) d2]
  obtain e where "g_Edges g1 = [e]" "linked_edge two_symbols S1 [7, 3] (hd (g_Edges one_call)) e"
    using same(1) by (auto simp: one_call_def list_all2_Cons1 simp del: list.set)
  then have e1: "map (\<lambda>e. (ce_Caller e, ce_Callee e)) (g_Edges g1) = [(Some 1, Some 0)]"
    by (simp add: one_call_def linked_edge_def linked_end_def place_def split: option.splits)
  obtain e' where "g_Edges g2 = [e']" "linked_edge two_symbols S2 [7] (hd (g_Edges one_call)) e'"
    using same(2) by (auto simp: one_call_def list_all2_Cons1 simp del: list.set)
  then obtain r where r: "map (\<lambda>e. (ce_Caller e, ce_Callee e)) (g_Edges g2) = [(Some r, Some 0)]" "S2 r = two_symbols 3" "1 \<le> r"
    by (simp add: one_call_def linked_edge_def linked_end_def place_def split: option.splits)
  have "g_Symbols g2 = [0]" using decodeCGEntry_encode(2) [OF k(2) d2] by (simp add: place_def)
  with r have "r \<notin> set (g_Symbols g2)" "sym_Name (S2 r) = ''main''" by (auto simp: two_symbols_def)
  with same(1) d1 d2 e1 r(1) show ?thesis by (auto simp: one_call_def)
qed

text \<open>Without the relinking no symbol of the decoded table is called.\<close>

lemma unlinked_edges_call_nothing:
  "e \<in> set (map (wire_edge n) (enumerate 0 es)) \<Longrightarrow> ce_Callee e = Some r \<Longrightarrow> r \<notin> set [0..<n]"
  by (auto simp: wire_edge_def split: if_splits)

subsection \<open>The union loses no call\<close>

definition caller_site :: "(sym_ref \<Rightarrow> FullSymbol) \<Rightarrow> IfaceEdge \<Rightarrow> (string \<times> string \<times> 32 word) option" where
  "caller_site S e = map_option (\<lambda>r. (sym_File (S r), sym_Name (S r), sym_StartLine (S r))) (ce_Caller e)"

text \<open>Names and paths have no NUL.\<close>

definition plain_edge :: "(sym_ref \<Rightarrow> FullSymbol) \<Rightarrow> IfaceEdge \<Rightarrow> bool" where
  "plain_edge S e \<longleftrightarrow> CHR 0x00 \<notin> set (ce_CalleeName e) \<and>
     (case ce_Caller e of None \<Rightarrow> True | Some r \<Rightarrow> CHR 0x00 \<notin> set (sym_File (S r)) \<and> CHR 0x00 \<notin> set (sym_Name (S r)))"

lemma nat_dec_inj: "nat_dec m = nat_dec n \<Longrightarrow> m < 2 ^ 32 \<Longrightarrow> n < 2 ^ 32 \<Longrightarrow> m = n"
proof -
  assume eq: "nat_dec m = nat_dec n" and "m < 2 ^ 32" "n < 2 ^ 32"
  then have "m \<le> maxUint64" "n \<le> maxUint64" by (simp_all add: maxUint64_def)
  then have p: "parse_uint (nat_dec m) = NumOk m \<and> parse_uint (nat_dec n) = NumOk n" using parse_uint_nat_dec by blast
  have "NumOk m = NumOk n" unfolding p [THEN conjunct1, symmetric] p [THEN conjunct2, symmetric] eq ..
  then show ?thesis by simp
qed

lemma nul_edgeKey: "plain_edge S e \<Longrightarrow> CHR 0x00 \<in> set (edgeKey S e) \<longleftrightarrow> ce_Caller e \<noteq> None"
  by (auto simp: edgeKey_def plain_edge_def split: option.splits)

lemma edgeKey_inj:
  assumes "edgeKey S e = edgeKey S e'" "plain_edge S e" "plain_edge S e'"
  shows "ce_CalleeName e = ce_CalleeName e' \<and> caller_site S e = caller_site S e'"
proof (cases "ce_Caller e"; cases "ce_Caller e'")
  fix r r'
  assume r: "ce_Caller e = Some r" "ce_Caller e' = Some r'"
  let ?d = "\<lambda>q. nat_dec (unat (sym_StartLine (S q)))"
  have nul: "CHR 0x00 \<notin> set (sym_File (S r))" "CHR 0x00 \<notin> set (sym_File (S r'))"
    "CHR 0x00 \<notin> set (sym_Name (S r))" "CHR 0x00 \<notin> set (sym_Name (S r'))"
    using assms(2,3) r by (auto simp: plain_edge_def)
  have dash: "CHR ''-'' \<notin> set (?d q)" for q using nat_dec_digits [of "CHR ''-''"] by auto
  from assms(1) r have eq: "sym_File (S r) @ CHR 0x00 # sym_Name (S r) @ CHR 0x00 # ?d r @ CHR ''-'' # CHR ''>'' # ce_CalleeName e =
      sym_File (S r') @ CHR 0x00 # sym_Name (S r') @ CHR 0x00 # ?d r' @ CHR ''-'' # CHR ''>'' # ce_CalleeName e'"
    by (simp add: edgeKey_def)
  from sep_split [OF nul(1,2) eq] have f: "sym_File (S r) = sym_File (S r')"
    and eq2: "sym_Name (S r) @ CHR 0x00 # ?d r @ CHR ''-'' # CHR ''>'' # ce_CalleeName e =
      sym_Name (S r') @ CHR 0x00 # ?d r' @ CHR ''-'' # CHR ''>'' # ce_CalleeName e'" by auto
  from sep_split [OF nul(3,4) eq2] have n: "sym_Name (S r) = sym_Name (S r')"
    and eq3: "?d r @ CHR ''-'' # CHR ''>'' # ce_CalleeName e = ?d r' @ CHR ''-'' # CHR ''>'' # ce_CalleeName e'" by auto
  from sep_split [OF dash dash eq3] have l: "?d r = ?d r'" "ce_CalleeName e = ce_CalleeName e'" by auto
  have lt: "unat (sym_StartLine (S q)) < 2 ^ 32" for q using unsigned_less [where 'a = nat and w = "sym_StartLine (S q)"] by simp
  from nat_dec_inj [OF l(1) lt lt] have "sym_StartLine (S r) = sym_StartLine (S r')" by (rule unsigned_word_eqI)
  with f n l r show ?thesis by (simp add: caller_site_def)
next
  assume "ce_Caller e = None" "ce_Caller e' = None"
  with assms(1) show ?thesis by (simp add: edgeKey_def caller_site_def)
next
  fix r
  assume "ce_Caller e = None" "ce_Caller e' = Some r"
  with nul_edgeKey [OF assms(2)] nul_edgeKey [OF assms(3)] assms(1) show ?thesis by simp
next
  fix r
  assume "ce_Caller e = Some r" "ce_Caller e' = None"
  with nul_edgeKey [OF assms(2)] nul_edgeKey [OF assms(3)] assms(1) show ?thesis by simp
qed

text \<open>C38: The union of a parsed and a typed graph loses no call: all typed edges are kept, every parsed edge is kept or stands for a
  typed edge from the same caller, by file, name and line, to the same name, and nothing else is added.\<close>

theorem MergeCallGraphs_keeps_calls:
  assumes "MergeCallGraphs S (Some g) (Some t) = Some m" and "list_all (plain_edge S) (g_Edges g @ g_Edges t)"
  shows "list_all (\<lambda>e. e \<in> set (g_Edges m) \<or>
        list_ex (\<lambda>e'. ce_CalleeName e' = ce_CalleeName e \<and> caller_site S e' = caller_site S e) (g_Edges t)) (g_Edges g) \<and>
    prefix (g_Edges t) (g_Edges m) \<and> set (g_Edges m) \<subseteq> set (g_Edges t) \<union> set (g_Edges g)"
proof -
  from assms(1) have m: "g_Edges m = g_Edges t @ filter (\<lambda>e. edgeKey S e \<notin> set (map (edgeKey S) (g_Edges t))) (g_Edges g)"
    by (auto simp: MergeCallGraphs_def Let_def)
  have "e \<in> set (g_Edges m) \<or> list_ex (\<lambda>e'. ce_CalleeName e' = ce_CalleeName e \<and> caller_site S e' = caller_site S e) (g_Edges t)"
    if "e \<in> set (g_Edges g)" for e
  proof (cases "edgeKey S e \<in> set (map (edgeKey S) (g_Edges t))")
    case True
    then obtain e' where e': "e' \<in> set (g_Edges t)" "edgeKey S e' = edgeKey S e" by auto
    with assms(2) that have "plain_edge S e'" "plain_edge S e" by (auto simp: list_all_iff)
    with edgeKey_inj [OF e'(2)] e'(1) show ?thesis by (auto simp: list_ex_iff)
  next
    case False
    with that show ?thesis unfolding m by auto
  qed
  then show ?thesis unfolding m by (auto simp: list_all_iff)
qed

theorem MergeCallGraphs_keeps_calls_witness:
  "\<exists>m. MergeCallGraphs two_symbols (Some one_call) (Some (one_call\<lparr>g_Edges := []\<rparr>)) = Some m \<and>
     set (g_Edges m) \<subseteq> set (g_Edges one_call)"
proof -
  have p: "list_all (plain_edge two_symbols) (g_Edges one_call @ g_Edges (one_call\<lparr>g_Edges := []\<rparr>))"
    by (simp add: one_call_def plain_edge_def two_symbols_def lone_helper_def)
  obtain m where m: "MergeCallGraphs two_symbols (Some one_call) (Some (one_call\<lparr>g_Edges := []\<rparr>)) = Some m"
    by (simp add: MergeCallGraphs_def Let_def)
  from MergeCallGraphs_keeps_calls [OF m p] m show ?thesis by auto
qed

text \<open>The symbols of the union are told apart by name and file alone: of two methods \<open>helper\<close> in one file only one is left.\<close>

lemma merge_drops_methods:
  "MergeCallGraphs (\<lambda>r. lone_helper\<lparr>sym_Kind := ''method'', sym_StartLine := of_nat r, sym_Receiver := if r = 1 then ''A'' else ''B''\<rparr>)
     (Some (one_call\<lparr>g_Symbols := [1, 5], g_Edges := []\<rparr>)) (Some (one_call\<lparr>g_Symbols := [1, 5], g_Edges := []\<rparr>)) =
   Some (one_call\<lparr>g_Symbols := [1], g_Edges := []\<rparr>)"
  by (simp add: MergeCallGraphs_def mergeSymbols_def one_call_def lone_helper_def mergeTypeRels_def Let_def)

lemma first_by_distinct: "distinct (map f (first_by f seen xs)) \<and> set (map f (first_by f seen xs)) \<inter> set seen = {}"
proof (induction xs arbitrary: seen)
  case (Cons x xs)
  from Cons [of seen] Cons [of "f x # seen"] show ?case by auto
qed simp

lemma first_by_subset: "set (first_by f seen xs) \<subseteq> set xs"
  by (induction xs arbitrary: seen) auto

text \<open>
  A union is a graph to which the round trip through Redis applies, although its edges lead to symbols that were left out of
  its table, if no two symbols of the two tables share a key.
\<close>

lemma merged_graph_linkable:
  assumes "MergeCallGraphs S (Some g) (Some t) = Some m"
    and "\<forall>e\<in>set (g_Edges g) \<union> set (g_Edges t). set (edge_ends e) \<subseteq> set (g_Symbols g) \<union> set (g_Symbols t)"
    and inj: "inj_on (\<lambda>r. makeSymbolKey (S r)) (set (g_Symbols g) \<union> set (g_Symbols t))"
  shows "linkable S m"
proof -
  let ?f = "\<lambda>r. sym_Name (S r) @ '':'' @ sym_File (S r)" and ?key = "\<lambda>r. makeSymbolKey (S r)"
  from assms(1) have m: "g_Symbols m = first_by ?f [] (g_Symbols t @ g_Symbols g)"
      "set (g_Edges m) \<subseteq> set (g_Edges g) \<union> set (g_Edges t)"
    by (auto simp: MergeCallGraphs_def mergeSymbols_def Let_def)
  have sub: "set (g_Symbols m) \<subseteq> set (g_Symbols g) \<union> set (g_Symbols t)" using first_by_subset [of ?f "[]" "g_Symbols t @ g_Symbols g"] m(1) by auto
  have "distinct (map ?f (g_Symbols m))" using first_by_distinct [of ?f "[]"] m(1) by simp
  then have "distinct (g_Symbols m)" by (simp add: distinct_map)
  then have keyed: "keyed S (g_Symbols m)" using inj_on_subset [OF inj sub] by (simp add: keyed_def distinct_map)
  have "r \<in> set (g_Symbols m) \<or> ?key r \<notin> set (map ?key (g_Symbols m))" if "e \<in> set (g_Edges m)" "r \<in> set (edge_ends e)" for e r
  proof -
    from that m(2) assms(2) have "r \<in> set (g_Symbols g) \<union> set (g_Symbols t)" by blast
    with inj sub show ?thesis by (auto dest!: inj_onD)
  qed
  with keyed show ?thesis by (simp add: linkable_def list_all_iff del: set_map)
qed

text \<open>A bound endpoint has the name that was asked for, and a place that was asked for.\<close>

lemma convert_resolve_sound:
  assumes "convert_resolve S symbols name path line = Some r"
  shows "r \<in> set symbols \<and> sym_Name (S r) @ [CHR 0x00] @ path_clean (sym_File (S r)) = name @ [CHR 0x00] @ path_clean path \<or>
    r \<in> set symbols \<and> sym_Name (S r) = name \<and> \<not> prefix ''/'' path \<and> sharesPathSuffix (sym_File (S r)) path \<and>
      (\<forall>q\<in>set symbols. sym_Name (S q) = name \<longrightarrow> sharesPathSuffix (sym_File (S q)) path \<longrightarrow> q = r)"
proof (cases "byNameFile S symbols (name @ [CHR 0x00] @ path_clean path) = []")
  case False
  let ?syms = "byNameFile S symbols (name @ [CHR 0x00] @ path_clean path)"
  from assms False have p: "pickByLine S ?syms line = Some r" by (simp add: convert_resolve_def Let_def split: if_splits)
  have "r \<in> set ?syms"
  proof (cases "length ?syms = 1 \<or> line = 0")
    case True
    with p False show ?thesis by (auto simp: pickByLine_def)
  next
    case False
    with p show ?thesis by (auto simp: pickByLine_def find_Some_iff)
  qed
  then show ?thesis by (simp add: byNameFile_def)
next
  case True
  define ms where "ms = filter (\<lambda>r. sym_Name (S r) = name \<and> sharesPathSuffix (sym_File (S r)) path) symbols"
  from assms True have r: "ms = [r]" "\<not> prefix ''/'' path"
    by (auto simp: convert_resolve_def Let_def ms_def split: if_splits list.splits)
  have "set ms = {q \<in> set symbols. sym_Name (S q) = name \<and> sharesPathSuffix (sym_File (S q)) path}" by (simp add: ms_def)
  with r show ?thesis by auto
qed

end
