(* ===== verification/Flows.thy ===== *)
theory Flows
  imports DeadCode
begin

text \<open>
  Execution flows (\<open>internal/codegraph/flows.go\<close>): from every entry point of the call graph, a depth-first walk
  bounded in depth and by the community of the entry, whose symbols make a flow named after the most important one. The
  page rank is a parameter with values of any linear order, \<open>filepath.Rel\<close> and the random identifiers are parameters.

  The lemmas show what a walk collects: only symbols within the bound, each once, the entry first; all that are
  reachable when there are no more of them than the bound; but not, in general, all within the bound. Of the flows the
  ones of highest priority are kept.
\<close>

definition RelPath :: "(string \<Rightarrow> string \<Rightarrow> string option) \<Rightarrow> string \<Rightarrow> string \<Rightarrow> string" where
  "RelPath rel full base =
     (if base = [] then full
      else case rel base full of None \<Rightarrow> trim_prefix full (base @ ''/'') | Some r \<Rightarrow> r)"

record 'p Flow =
  FlowID :: string
  fl_Name :: string
  EntrySym :: string
  EntryFile :: string
  LeafSym :: string
  MemberSyms :: "string list"
  Priority :: 'p
  fl_Community :: string

definition flowsMax :: int where "flowsMax = 50"
definition flowsDFSDepth :: int where "flowsDFSDepth = 8"

definition flowArrow :: string where
  "flowArrow = [CHR '' '', CHR 0xE2, CHR 0x86, CHR 0x92, CHR '' '']"

text \<open>What the functions read: the symbols, the root, the communities and ranks by key.\<close>

record 'p flow_env =
  fe_store :: "sym_ref \<Rightarrow> FullSymbol"
  fe_rel :: "string \<Rightarrow> string \<Rightarrow> string option"
  fe_root :: string
  communities :: "string \<Rightarrow> int option"
  pagerank :: "string \<Rightarrow> 'p"
  newFlowID :: "nat \<Rightarrow> string"

definition flowSymKey :: "'p flow_env \<Rightarrow> sym_ref \<Rightarrow> string" where
  "flowSymKey E s = sym_Name (fe_store E s) @ [CHR 0x00] @ RelPath (fe_rel E) (sym_File (fe_store E s)) (fe_root E)"

definition flowSymCommunity :: "'p flow_env \<Rightarrow> sym_ref \<Rightarrow> int" where
  "flowSymCommunity E s = (case communities E (flowSymKey E s) of Some c \<Rightarrow> c | None \<Rightarrow> 0)"

definition buildSymCalleeIndex :: "IfaceEdge list \<Rightarrow> sym_ref \<Rightarrow> sym_ref list" where
  "buildSymCalleeIndex edges s =
     concat (map (\<lambda>e. case (ce_Caller e, ce_Callee e) of (Some c, Some d) \<Rightarrow> if c = s then [d] else [] | _ \<Rightarrow> []) edges)"

definition buildInDegree :: "'p flow_env \<Rightarrow> IfaceEdge list \<Rightarrow> string \<Rightarrow> nat" where
  "buildInDegree E edges k =
     length (filter (\<lambda>e. case ce_Callee e of None \<Rightarrow> False | Some d \<Rightarrow> flowSymKey E d = k) edges)"

definition isExported :: "FullSymbol \<Rightarrow> bool" where
  "isExported s = IsExportedForDoc (sym_Name s) (sym_Language s) (sym_IsPublic s)"

definition isZeroCallerExported :: "FullSymbol \<Rightarrow> nat \<Rightarrow> bool" where
  "isZeroCallerExported s inEdges \<longleftrightarrow> inEdges = 0 \<and> isExported s"

fun entry_points :: "'p flow_env \<Rightarrow> (string \<Rightarrow> nat) \<Rightarrow> (string \<Rightarrow> bool) \<Rightarrow> string list \<Rightarrow> sym_ref list \<Rightarrow> sym_ref list" where
  "entry_points E inDegree handlesTargets seen [] = []"
| "entry_points E inDegree handlesTargets seen (s # ss) =
     (let sy = fe_store E s; k = flowSymKey E s in
      if sym_Kind sy \<noteq> ''function'' \<and> sym_Kind sy \<noteq> ''method'' then entry_points E inDegree handlesTargets seen ss
      else if k \<in> set seen then entry_points E inDegree handlesTargets seen ss
      else if handlesTargets k \<or> isZeroCallerExported sy (inDegree k)
      then s # entry_points E inDegree handlesTargets (k # seen) ss
      else entry_points E inDegree handlesTargets seen ss)"

definition collectEntryPoints :: "'p flow_env \<Rightarrow> sym_ref list \<Rightarrow> (string \<Rightarrow> nat) \<Rightarrow> (string \<Rightarrow> bool) \<Rightarrow> sym_ref list" where
  "collectEntryPoints E symbols inDegree handlesTargets =
     sort_key (flowSymKey E) (entry_points E inDegree handlesTargets [] symbols)"

subsection \<open>The walk\<close>

definition leaves_community :: "'p flow_env \<Rightarrow> int \<Rightarrow> sym_ref \<Rightarrow> bool" where
  "leaves_community E entryCommunity callee \<longleftrightarrow>
     (case communities E (flowSymKey E callee) of Some c \<Rightarrow> c \<noteq> entryCommunity | None \<Rightarrow> False)"

text \<open>
  \<open>dfsCollectChain\<close> and its loop over the callees, on the visited set and the chain; \<open>out\<close> tells the callees outside of the
  community.
\<close>

function dfsCollectChain :: "(sym_ref \<Rightarrow> sym_ref list) \<Rightarrow> (sym_ref \<Rightarrow> bool) \<Rightarrow> nat \<Rightarrow> sym_ref \<Rightarrow> nat \<Rightarrow>
      sym_ref set \<times> sym_ref list \<Rightarrow> sym_ref set \<times> sym_ref list"
  and dfs_callees :: "(sym_ref \<Rightarrow> sym_ref list) \<Rightarrow> (sym_ref \<Rightarrow> bool) \<Rightarrow> nat \<Rightarrow> sym_ref list \<Rightarrow> nat \<Rightarrow>
      sym_ref set \<times> sym_ref list \<Rightarrow> sym_ref set \<times> sym_ref list" where
  "dfsCollectChain adj out maxDepth src depth st =
     (if depth > maxDepth \<or> src \<in> fst st then st
      else dfs_callees adj out maxDepth (adj src) depth (insert src (fst st), snd st @ [src]))"
| "dfs_callees adj out maxDepth [] depth st = st"
| "dfs_callees adj out maxDepth (callee # cs) depth st =
     dfs_callees adj out maxDepth cs depth
       (if callee \<in> fst st \<or> out callee then st else dfsCollectChain adj out maxDepth callee (depth + 1) st)"
  by pat_completeness auto
termination
  by (relation "measures [\<lambda>x. case x of Inl (adj, out, m, src, d, st) \<Rightarrow> Suc m - d | Inr (adj, out, m, cs, d, st) \<Rightarrow> m - d,
      \<lambda>x. case x of Inl _ \<Rightarrow> 0 | Inr (adj, out, m, cs, d, st) \<Rightarrow> Suc (length cs)]") auto

definition flow_chain :: "'p flow_env \<Rightarrow> (sym_ref \<Rightarrow> sym_ref list) \<Rightarrow> nat \<Rightarrow> sym_ref \<Rightarrow> sym_ref list" where
  "flow_chain E adj dfsDepth e =
     snd (dfsCollectChain adj (leaves_community E (flowSymCommunity E e)) dfsDepth e 0 ({}, []))"

subsection \<open>Flows\<close>

definition intToString :: "int \<Rightarrow> string" where
  "intToString n = (if n < 0 then ''-'' @ nat_dec (nat (- n)) else nat_dec (nat n))"

text \<open>The first element of highest rank.\<close>

definition better_leaf :: "('a \<Rightarrow> 'p :: linorder) \<Rightarrow> 'a \<times> 'p \<Rightarrow> 'a \<Rightarrow> 'a \<times> 'p" where
  "better_leaf rank best s = (if rank s > snd best then (s, rank s) else best)"

definition buildFlow :: "('p :: {linorder, zero}) flow_env \<Rightarrow> nat \<Rightarrow> sym_ref list \<Rightarrow> 'p Flow option" where
  "buildFlow E i chain =
     (case chain of
        [] \<Rightarrow> None
      | entry # rest \<Rightarrow>
          let rank = (\<lambda>s. pagerank E (flowSymKey E s));
              leaf = (case rest of [] \<Rightarrow> entry | l # ls \<Rightarrow> fst (foldl (better_leaf rank) (l, rank l) ls));
              priority = foldl (\<lambda>p s. if rank s > p then rank s else p) 0 chain;
              nm = (\<lambda>s. sym_Name (fe_store E s))
          in Some \<lparr>FlowID = newFlowID E i, fl_Name = nm entry @ flowArrow @ nm leaf, EntrySym = nm entry,
                   EntryFile = RelPath (fe_rel E) (sym_File (fe_store E entry)) (fe_root E), LeafSym = nm leaf,
                   MemberSyms = map nm chain, Priority = priority,
                   fl_Community = (case communities E (flowSymKey E entry) of Some c \<Rightarrow> intToString c | None \<Rightarrow> ''0'')\<rparr>)"

text \<open>\<open>sort.Slice\<close> with a comparison. Elements that are not told apart keep their order here and have any order in the code.\<close>

fun insert_by :: "('a \<Rightarrow> 'a \<Rightarrow> bool) \<Rightarrow> 'a \<Rightarrow> 'a list \<Rightarrow> 'a list" where
  "insert_by lt x [] = [x]"
| "insert_by lt x (y # ys) = (if lt y x then y # insert_by lt x ys else x # y # ys)"

definition sort_slice :: "('a \<Rightarrow> 'a \<Rightarrow> bool) \<Rightarrow> 'a list \<Rightarrow> 'a list" where
  "sort_slice lt xs = foldr (insert_by lt) xs []"

definition capFlows :: "('p :: linorder) Flow list \<Rightarrow> nat \<Rightarrow> 'p Flow list" where
  "capFlows flows m =
     (if length flows \<le> m then flows else take m (sort_slice (\<lambda>f g. Priority f > Priority g) flows))"

definition flow_less :: "('p :: linorder) Flow \<Rightarrow> 'p Flow \<Rightarrow> bool" where
  "flow_less f g = (if Priority f \<noteq> Priority g then Priority f > Priority g else fl_Name f < fl_Name g)"

definition sortFlows :: "('p :: linorder) Flow list \<Rightarrow> 'p Flow list" where
  "sortFlows flows = sort_slice flow_less flows"

definition flows_of :: "('p :: {linorder, zero}) flow_env \<Rightarrow> (sym_ref \<Rightarrow> sym_ref list) \<Rightarrow> nat \<Rightarrow> sym_ref list \<Rightarrow> 'p Flow list" where
  "flows_of E adj dfsDepth entries =
     concat (map (\<lambda>(i, e). case buildFlow E i (flow_chain E adj dfsDepth e) of None \<Rightarrow> [] | Some f \<Rightarrow> [f]) (enumerate 0 entries))"

definition ExtractFlows ::
  "('p :: {linorder, zero}) flow_env \<Rightarrow> sym_ref list \<Rightarrow> IfaceEdge list \<Rightarrow> (string \<Rightarrow> bool) \<Rightarrow> int \<Rightarrow> int \<Rightarrow> 'p Flow list" where
  "ExtractFlows E symbols edges handlesTargets maxFlows0 dfsDepth0 =
     (let maxFlows = nat (if maxFlows0 \<le> 0 then flowsMax else maxFlows0);
          dfsDepth = nat (if dfsDepth0 \<le> 0 then flowsDFSDepth else dfsDepth0);
          adj = buildSymCalleeIndex edges;
          entries = collectEntryPoints E symbols (buildInDegree E edges) handlesTargets
      in if symbols = [] then [] else if entries = [] then []
         else sortFlows (capFlows (flows_of E adj dfsDepth entries) maxFlows))"

declare dfsCollectChain.simps [simp del]

subsection \<open>What the walk collects\<close>

text \<open>\<open>hops k s t\<close>: there is a chain of at most \<open>k\<close> calls from \<open>s\<close> to \<open>t\<close> that enters no symbol outside of the community.\<close>

inductive hops :: "(sym_ref \<Rightarrow> sym_ref list) \<Rightarrow> (sym_ref \<Rightarrow> bool) \<Rightarrow> nat \<Rightarrow> sym_ref \<Rightarrow> sym_ref \<Rightarrow> bool"
  for adj :: "sym_ref \<Rightarrow> sym_ref list" and out :: "sym_ref \<Rightarrow> bool" where
  here: "hops adj out k s s"
| step: "hops adj out k s t \<Longrightarrow> u \<in> set (adj t) \<Longrightarrow> \<not> out u \<Longrightarrow> hops adj out (Suc k) s u"

inductive_cases hops_0: "hops adj out 0 s t"

lemma hops_mono: "hops adj out k s t \<Longrightarrow> k \<le> l \<Longrightarrow> hops adj out l s t"
proof (induction arbitrary: l rule: hops.induct)
  case (here k s)
  show ?case by (rule hops.here)
next
  case (step k s t u)
  from step.prems obtain m where l: "l = Suc m" "k \<le> m" by (cases l) auto
  from step.IH [OF l(2)] step.hyps(2,3) show ?case unfolding l(1) by (rule hops.step)
qed

definition chain_ok :: "sym_ref set \<times> sym_ref list \<Rightarrow> bool" where
  "chain_ok st \<longleftrightarrow> fst st = set (snd st) \<and> distinct (snd st)"

text \<open>The chain grows; every new symbol is within the bound of the place where the walk is.\<close>

lemma dfs_sound:
  "chain_ok st \<Longrightarrow> depth \<le> k \<Longrightarrow> hops adj out depth e src \<Longrightarrow>
     (\<exists>new. snd (dfsCollectChain adj out k src depth st) = snd st @ new \<and> (\<forall>t\<in>set new. hops adj out k e t)) \<and>
     chain_ok (dfsCollectChain adj out k src depth st)"
  "chain_ok st \<Longrightarrow> depth \<le> k \<Longrightarrow> \<forall>c\<in>set cs. \<not> out c \<longrightarrow> hops adj out (Suc depth) e c \<Longrightarrow>
     (\<exists>new. snd (dfs_callees adj out k cs depth st) = snd st @ new \<and> (\<forall>t\<in>set new. hops adj out k e t)) \<and>
     chain_ok (dfs_callees adj out k cs depth st)"
proof (induction adj out k src depth st and adj out k cs depth st rule: dfsCollectChain_dfs_callees.induct)
  case (1 adj out k src depth st)
  show ?case
  proof (cases "depth > k \<or> src \<in> fst st")
    case True
    with "1.prems" show ?thesis by (simp add: dfsCollectChain.simps)
  next
    case False
    let ?st = "(insert src (fst st), snd st @ [src])"
    have st: "chain_ok ?st" using "1.prems"(1) False by (auto simp: chain_ok_def)
    have cs: "\<forall>c\<in>set (adj src). \<not> out c \<longrightarrow> hops adj out (Suc depth) e c"
      using "1.prems"(3) by (auto intro: hops.step)
    from "1.IH" [OF False st "1.prems"(2) cs] obtain new where
      "snd (dfs_callees adj out k (adj src) depth ?st) = (snd st @ [src]) @ new" "\<forall>t\<in>set new. hops adj out k e t"
      and ok: "chain_ok (dfs_callees adj out k (adj src) depth ?st)" by auto
    moreover have "hops adj out k e src" using hops_mono [OF "1.prems"(3,2)] .
    ultimately have "snd (dfs_callees adj out k (adj src) depth ?st) = snd st @ (src # new)"
      "\<forall>t\<in>set (src # new). hops adj out k e t" by auto
    then show ?thesis using False ok by (auto simp: dfsCollectChain.simps)
  qed
next
  case (2 adj out k depth st)
  then show ?case by simp
next
  case (3 adj out k c cs depth st)
  define st' where "st' = (if c \<in> fst st \<or> out c then st else dfsCollectChain adj out k c (depth + 1) st)"
  have "(\<exists>new. snd st' = snd st @ new \<and> (\<forall>t\<in>set new. hops adj out k e t)) \<and> chain_ok st'"
  proof (cases "c \<in> fst st \<or> out c")
    case True
    with "3.prems"(1) show ?thesis by (simp add: st'_def)
  next
    case False
    show ?thesis
    proof (cases "depth + 1 \<le> k")
      case True
      with "3.IH"(1) [OF False "3.prems"(1) True] "3.prems"(3) False show ?thesis by (simp add: st'_def)
    next
      case deep: False
      with "3.prems"(1) show ?thesis by (simp add: st'_def dfsCollectChain.simps)
    qed
  qed
  then obtain new where new: "snd st' = snd st @ new" "\<forall>t\<in>set new. hops adj out k e t" and ok: "chain_ok st'" by blast
  from "3.IH"(2) ok "3.prems"(2,3) obtain new' where
    "snd (dfs_callees adj out k cs depth st') = snd st' @ new'" "\<forall>t\<in>set new'. hops adj out k e t"
    "chain_ok (dfs_callees adj out k cs depth st')" by (auto simp: st'_def)
  with new show ?case by (auto simp: st'_def [symmetric])
qed

text \<open>When the walk cannot run into its bound, what it adds is closed under calls.\<close>

lemma dfs_complete:
  "finite R \<Longrightarrow> card R \<le> k + 1 \<Longrightarrow> \<forall>r\<in>R. \<forall>u\<in>set (adj r). \<not> out u \<longrightarrow> u \<in> R \<Longrightarrow> fst st \<subseteq> R \<Longrightarrow> src \<in> R \<Longrightarrow>
     src \<notin> fst st \<Longrightarrow> depth \<le> card (fst st) \<Longrightarrow>
     (let W = fst (dfsCollectChain adj out k src depth st) in
      insert src (fst st) \<subseteq> W \<and> W \<subseteq> R \<and> (\<forall>x\<in>W - fst st. \<forall>u\<in>set (adj x). \<not> out u \<longrightarrow> u \<in> W))"
  "finite R \<Longrightarrow> card R \<le> k + 1 \<Longrightarrow> \<forall>r\<in>R. \<forall>u\<in>set (adj r). \<not> out u \<longrightarrow> u \<in> R \<Longrightarrow> fst st \<subseteq> R \<Longrightarrow>
     \<forall>c\<in>set cs. \<not> out c \<longrightarrow> c \<in> R \<Longrightarrow> Suc depth \<le> card (fst st) \<Longrightarrow>
     (let W = fst (dfs_callees adj out k cs depth st) in
      fst st \<subseteq> W \<and> W \<subseteq> R \<and> (\<forall>c\<in>set cs. \<not> out c \<longrightarrow> c \<in> W) \<and> (\<forall>x\<in>W - fst st. \<forall>u\<in>set (adj x). \<not> out u \<longrightarrow> u \<in> W))"
proof (induction adj out k src depth st and adj out k cs depth st rule: dfsCollectChain_dfs_callees.induct)
  case (1 adj out k src depth st)
  have "insert src (fst st) \<subseteq> R" using "1.prems" by simp
  with "1.prems"(1) have "card (insert src (fst st)) \<le> card R" by (rule card_mono)
  moreover have fin: "finite (fst st)" using "1.prems"(1,4) finite_subset by blast
  ultimately have d: "depth \<le> k" using "1.prems"(2,6,7) by simp
  with "1.prems"(6) have c: "\<not> (depth > k \<or> src \<in> fst st)" by simp
  let ?st = "(insert src (fst st), snd st @ [src])"
  have "Suc depth \<le> card (fst ?st)" using "1.prems"(6,7) fin by simp
  with "1.IH" [OF c "1.prems"(1,2,3)] "1.prems"(3,4,5) have
    "let W = fst (dfs_callees adj out k (adj src) depth ?st) in
      insert src (fst st) \<subseteq> W \<and> W \<subseteq> R \<and> (\<forall>c\<in>set (adj src). \<not> out c \<longrightarrow> c \<in> W) \<and>
      (\<forall>x\<in>W - insert src (fst st). \<forall>u\<in>set (adj x). \<not> out u \<longrightarrow> u \<in> W)" by simp
  moreover have "dfsCollectChain adj out k src depth st = dfs_callees adj out k (adj src) depth ?st"
    using c by (subst dfsCollectChain.simps) simp
  ultimately show ?case unfolding Let_def by (metis Diff_iff insert_iff insert_subset)
next
  case (2 adj out k depth st)
  then show ?case by simp
next
  case (3 adj out k c cs depth st)
  define st' where "st' = (if c \<in> fst st \<or> out c then st else dfsCollectChain adj out k c (depth + 1) st)"
  have s: "fst st \<subseteq> fst st' \<and> fst st' \<subseteq> R \<and> (\<not> out c \<longrightarrow> c \<in> fst st') \<and>
      (\<forall>x\<in>fst st' - fst st. \<forall>u\<in>set (adj x). \<not> out u \<longrightarrow> u \<in> fst st')"
  proof (cases "c \<in> fst st \<or> out c")
    case True
    with "3.prems"(4) show ?thesis by (auto simp: st'_def)
  next
    case False
    with "3.IH"(1) [OF False "3.prems"(1,2,3,4)] "3.prems"(5,6) show ?thesis by (simp add: st'_def Let_def)
  qed
  have "finite (fst st')" using s "3.prems"(1) finite_subset by blast
  then have "card (fst st) \<le> card (fst st')" using s by (intro card_mono) auto
  then have "Suc depth \<le> card (fst st')" using "3.prems"(6) by simp
  have W:
    "let W = fst (dfs_callees adj out k cs depth st') in
      fst st' \<subseteq> W \<and> W \<subseteq> R \<and> (\<forall>c\<in>set cs. \<not> out c \<longrightarrow> c \<in> W) \<and> (\<forall>x\<in>W - fst st'. \<forall>u\<in>set (adj x). \<not> out u \<longrightarrow> u \<in> W)"
    using "3.IH"(2) [folded st'_def, OF "3.prems"(1,2,3)] s \<open>Suc depth \<le> card (fst st')\<close> "3.prems"(5) by simp
  have "dfs_callees adj out k (c # cs) depth st = dfs_callees adj out k cs depth st'" by (simp add: st'_def)
  moreover have "u \<in> W" if "fst st' \<subseteq> W" "\<forall>x\<in>W - fst st'. \<forall>u\<in>set (adj x). \<not> out u \<longrightarrow> u \<in> W" "x \<in> W - fst st" "u \<in> set (adj x)" "\<not> out u"
    for W x u using that s by (cases "x \<in> fst st'") blast+
  ultimately show ?case using W s unfolding Let_def by (simp only: list.set) blast
qed

definition in_reach :: "(sym_ref \<Rightarrow> sym_ref list) \<Rightarrow> (sym_ref \<Rightarrow> bool) \<Rightarrow> sym_ref \<Rightarrow> sym_ref set" where
  "in_reach adj out e = {t. \<exists>n. hops adj out n e t}"

text \<open>C39: The symbols of a flow: the entry first, each symbol once, and only symbols that at most as many calls away as the bound within the
  community of the entry; all that can be reached there, if they are no more than the bound and one.\<close>

theorem flow_chain_members:
  fixes E :: "'p flow_env" and e :: sym_ref
  defines "out \<equiv> leaves_community E (flowSymCommunity E e)"
  shows "hd (flow_chain E adj k e) = e \<and> distinct (flow_chain E adj k e) \<and>
    (\<forall>t\<in>set (flow_chain E adj k e). hops adj out k e t) \<and>
    (finite (in_reach adj out e) \<longrightarrow> card (in_reach adj out e) \<le> k + 1 \<longrightarrow> set (flow_chain E adj k e) = in_reach adj out e)"
proof -
  let ?W = "dfsCollectChain adj out k e 0 ({}, [])"
  have chain: "flow_chain E adj k e = snd ?W" by (simp add: flow_chain_def out_def)
  have st: "chain_ok ({}, [])" by (simp add: chain_ok_def)
  from dfs_sound(1) [where adj = adj and out = out and e = e and k = k and src = e, OF st le0 hops.here] have sound: "\<forall>t\<in>set (snd ?W). hops adj out k e t" and ok: "chain_ok ?W"
    by auto
  have W: "?W = dfs_callees adj out k (adj e) 0 ({e}, [e])" by (subst dfsCollectChain.simps) simp
  have "chain_ok ({e}, [e])" by (simp add: chain_ok_def)
  from dfs_sound(2) [where cs = "adj e" and out = out and adj = adj and e = e and k = k, OF this le0] have "\<exists>new. snd ?W = [e] @ new"
    unfolding W by (auto intro: hops.step hops.here)
  then have hd: "hd (snd ?W) = e" by auto
  have "set (snd ?W) = in_reach adj out e" if R: "finite (in_reach adj out e)" "card (in_reach adj out e) \<le> k + 1"
  proof
    show "set (snd ?W) \<subseteq> in_reach adj out e" using sound by (auto simp: in_reach_def)
    have closed: "\<forall>r\<in>in_reach adj out e. \<forall>u\<in>set (adj r). \<not> out u \<longrightarrow> u \<in> in_reach adj out e"
      unfolding in_reach_def by (auto intro: hops.step)
    have e: "e \<in> in_reach adj out e" unfolding in_reach_def by (auto intro: hops.here)
    from dfs_complete(1) [OF R closed _ e, of "({}, [])" 0] have W: "e \<in> fst ?W"
      "\<forall>x\<in>fst ?W. \<forall>u\<in>set (adj x). \<not> out u \<longrightarrow> u \<in> fst ?W" by (auto simp: Let_def)
    have "t \<in> fst ?W" if "hops adj out n e t" for n t
      using that W by (induction n e t rule: hops.induct) auto
    then show "in_reach adj out e \<subseteq> set (snd ?W)" using ok by (auto simp: in_reach_def chain_ok_def)
  qed
  with sound hd ok show ?thesis unfolding chain by (auto simp: chain_ok_def)
qed

theorem flow_chain_members_witness:
  "let E = \<lparr>fe_store = (\<lambda>_. undefined), fe_rel = (\<lambda>_ _. None), fe_root = [], communities = (\<lambda>_. None),
      pagerank = (\<lambda>_. 0 :: nat), newFlowID = (\<lambda>_. [])\<rparr>; adj = (\<lambda>s. if s = 0 then [Suc 0] else [])
   in set (flow_chain E adj 1 0) = in_reach adj (leaves_community E (flowSymCommunity E 0)) 0"
proof -
  let ?E = "\<lparr>fe_store = (\<lambda>_. undefined), fe_rel = (\<lambda>_ _. None), fe_root = [], communities = (\<lambda>_. None),
      pagerank = (\<lambda>_. 0 :: nat), newFlowID = (\<lambda>_. [])\<rparr>"
  let ?adj = "\<lambda>s. if s = 0 then [Suc 0] else []" and ?out = "leaves_community ?E (flowSymCommunity ?E 0)"
  have sub: "t \<in> {0, Suc 0}" if "hops ?adj ?out n s t" "s = 0" for n s t
    using that by (induction rule: hops.induct) (auto split: if_splits)
  have R: "in_reach ?adj ?out 0 \<subseteq> {0, Suc 0}" using sub unfolding in_reach_def by blast
  then have "finite (in_reach ?adj ?out 0)" by (rule finite_subset) simp
  moreover have "card (in_reach ?adj ?out 0) \<le> 1 + 1" using card_mono [OF _ R] by simp
  ultimately show ?thesis using flow_chain_members [where E = ?E and e = 0 and adj = ?adj and k = 1] unfolding Let_def by blast
qed

subsection \<open>Which flows are kept\<close>

lemma mset_insert_by: "mset (insert_by lt x xs) = add_mset x (mset xs)"
  by (induction xs) auto

lemma mset_sort_slice: "mset (sort_slice lt xs) = mset xs"
  by (induction xs) (simp_all add: sort_slice_def mset_insert_by)

definition weak_order :: "('a \<Rightarrow> 'a \<Rightarrow> bool) \<Rightarrow> bool" where
  "weak_order lt \<longleftrightarrow> (\<forall>x y. lt x y \<longrightarrow> \<not> lt y x) \<and> (\<forall>x y z. \<not> lt x y \<longrightarrow> \<not> lt y z \<longrightarrow> \<not> lt x z)"

lemma set_insert_by: "set (insert_by lt x ys) = insert x (set ys)"
  by (induction ys) auto

lemma sorted_insert_by:
  assumes "weak_order lt" "sorted_wrt (\<lambda>a b. \<not> lt b a) ys"
  shows "sorted_wrt (\<lambda>a b. \<not> lt b a) (insert_by lt x ys)"
  using assms(2)
proof (induction ys)
  case Nil
  show ?case by simp
next
  case (Cons y ys)
  have asym: "lt y x \<Longrightarrow> \<not> lt x y" and trans: "\<not> lt z y \<Longrightarrow> \<not> lt y x \<Longrightarrow> \<not> lt z x" for z
    using assms(1) unfolding weak_order_def by blast+
  show ?case
  proof (cases "lt y x")
    case True
    with Cons asym show ?thesis by (simp add: set_insert_by)
  next
    case False
    with Cons.prems trans show ?thesis by simp
  qed
qed

lemma sorted_sort_slice:
  assumes "weak_order lt"
  shows "sorted_wrt (\<lambda>a b. \<not> lt b a) (sort_slice lt xs)"
  by (induction xs) (simp_all add: sort_slice_def sorted_insert_by [OF assms])

lemma weak_order_priority: "weak_order (\<lambda>f g :: ('p :: linorder) Flow. Priority f > Priority g)"
  by (auto simp: weak_order_def)

lemma weak_order_flow_less: "weak_order (flow_less :: ('p :: linorder) Flow \<Rightarrow> _)"
proof -
  have asym: "\<not> flow_less g f" if "flow_less f g" for f g :: "'p Flow"
  proof (cases "Priority f = Priority g")
    case True
    then have "fl_Name f < fl_Name g" using that by (simp add: flow_less_def)
    then have "\<not> fl_Name g < fl_Name f" by (rule less_not_sym)
    then show ?thesis using True by (simp add: flow_less_def)
  next
    case False
    then have "Priority g < Priority f" using that by (simp add: flow_less_def)
    then have "\<not> Priority f < Priority g" by (rule less_not_sym)
    then show ?thesis using False by (simp add: flow_less_def)
  qed
  have le: "Priority f \<le> Priority g \<and> (Priority f = Priority g \<longrightarrow> fl_Name g \<le> fl_Name f)" if "\<not> flow_less f g" for f g :: "'p Flow"
    using that by (simp add: flow_less_def not_less split: if_splits)
  have ge: "\<not> flow_less f g" if "Priority f \<le> Priority g" "Priority f = Priority g \<longrightarrow> fl_Name g \<le> fl_Name f" for f g :: "'p Flow"
    using that by (simp add: flow_less_def not_less)
  have "\<not> flow_less f h" if "\<not> flow_less f g" "\<not> flow_less g h" for f g h :: "'p Flow"
  proof (rule ge)
    show "Priority f \<le> Priority h" using le [OF that(1)] le [OF that(2)] by (blast intro: order_trans)
    show "Priority f = Priority h \<longrightarrow> fl_Name h \<le> fl_Name f"
    proof
      assume eq: "Priority f = Priority h"
      with le [OF that(1)] le [OF that(2)] have "Priority f = Priority g" by (metis order_antisym)
      with eq le [OF that(1)] le [OF that(2)] have "fl_Name h \<le> fl_Name g" "fl_Name g \<le> fl_Name f" by simp_all
      then show "fl_Name h \<le> fl_Name f" by (rule order_trans)
    qed
  qed
  with asym show ?thesis unfolding weak_order_def by blast
qed

lemma capFlows_best:
  "\<exists>dropped. mset (capFlows flows m) + mset dropped = mset flows \<and> length (capFlows flows m) = min m (length flows) \<and>
     (\<forall>f\<in>set (capFlows flows m). \<forall>g\<in>set dropped. Priority g \<le> Priority f)"
proof (cases "length flows \<le> m")
  case True
  then show ?thesis by (intro exI [of _ "[]"]) (simp add: capFlows_def)
next
  case False
  let ?s = "sort_slice (\<lambda>f g. Priority f > Priority g) flows"
  have len: "length ?s = length flows" by (metis mset_sort_slice size_mset)
  have parts: "?s = take m ?s @ drop m ?s" by simp
  have "sorted_wrt (\<lambda>a b. \<not> Priority b > Priority a) ?s" by (rule sorted_sort_slice [OF weak_order_priority])
  then have "sorted_wrt (\<lambda>a b. \<not> Priority b > Priority a) (take m ?s @ drop m ?s)" by simp
  then have "\<forall>f\<in>set (take m ?s). \<forall>g\<in>set (drop m ?s). Priority g \<le> Priority f"
    unfolding sorted_wrt_append by (auto simp: not_less)
  moreover have "mset (take m ?s) + mset (drop m ?s) = mset flows"
    by (metis mset_append mset_sort_slice parts)
  ultimately show ?thesis using False len by (intro exI [of _ "drop m ?s"]) (simp add: capFlows_def)
qed

lemma flow_chain_not_Nil: "flow_chain E adj k e \<noteq> []"
proof -
  have "dfsCollectChain adj out k e 0 ({}, []) = dfs_callees adj out k (adj e) 0 ({e}, [e])" for out
    by (subst dfsCollectChain.simps) simp
  moreover have "chain_ok ({e}, [e])" by (simp add: chain_ok_def)
  from dfs_sound(2) [where cs = "adj e" and adj = adj and e = e and k = k, OF this le0] have "\<exists>new. snd (dfs_callees adj out k (adj e) 0 ({e}, [e])) = [e] @ new" for out
    by (auto intro: hops.step hops.here)
  ultimately show ?thesis unfolding flow_chain_def by (metis append_is_Nil_conv list.distinct(1))
qed

lemma flows_of_eq:
  "flows_of E adj k entries = map (\<lambda>(i, e). the (buildFlow E i (flow_chain E adj k e))) (enumerate 0 entries)"
proof -
  have "buildFlow E i (flow_chain E adj k e) \<noteq> None" for i e
    using flow_chain_not_Nil [of E adj k e] by (auto simp: buildFlow_def Let_def split: list.splits)
  then have "(case buildFlow E i (flow_chain E adj k e) of None \<Rightarrow> [] | Some f \<Rightarrow> [f]) = [the (buildFlow E i (flow_chain E adj k e))]" for i e
    by (metis option.case(2) option.collapse)
  then show ?thesis by (simp add: flows_of_def split_def concat_map_singleton)
qed

text \<open>C40: Every entry point gives one flow; the flows of highest priority are kept, as many as the cap allows, and they are returned in order
  of priority, then of name.\<close>

theorem ExtractFlows_best:
  fixes E :: "('p :: {linorder, zero}) flow_env" and symbols :: "sym_ref list" and edges :: "IfaceEdge list"
    and handlesTargets :: "string \<Rightarrow> bool"
  shows "let fs = ExtractFlows E symbols edges handlesTargets maxFlows dfsDepth;
        entries = collectEntryPoints E symbols (buildInDegree E edges) handlesTargets in \<exists>dropped.
     mset fs + mset dropped =
      mset (map (\<lambda>(i, e). the (buildFlow E i (flow_chain E (buildSymCalleeIndex edges)
        (nat (if dfsDepth \<le> 0 then flowsDFSDepth else dfsDepth)) e))) (enumerate 0 entries)) \<and>
    length fs =
      min (nat (if maxFlows \<le> 0 then flowsMax else maxFlows)) (length entries) \<and>
    list_all (\<lambda>f. list_all (\<lambda>g. Priority g \<le> Priority f) dropped) fs \<and>
    sorted_wrt (\<lambda>f g. \<not> flow_less g f) fs"
proof -
  define entries where "entries = collectEntryPoints E symbols (buildInDegree E edges) handlesTargets"
  show ?thesis
  proof (cases "entries = []")
    case True
    then have empty: "ExtractFlows E symbols edges handlesTargets maxFlows dfsDepth = []"
      by (simp add: ExtractFlows_def Let_def entries_def [symmetric])
    show ?thesis unfolding Let_def empty entries_def [symmetric] True by (rule exI [of _ "[]"]) simp
  next
    case False
    define k where "k = nat (if dfsDepth \<le> 0 then flowsDFSDepth else dfsDepth)"
    define m where "m = nat (if maxFlows \<le> 0 then flowsMax else maxFlows)"
    define fs where "fs = flows_of E (buildSymCalleeIndex edges) k entries"
    have "symbols \<noteq> []" using False by (auto simp: entries_def collectEntryPoints_def)
    with False have r: "ExtractFlows E symbols edges handlesTargets maxFlows dfsDepth = sortFlows (capFlows fs m)"
      unfolding ExtractFlows_def Let_def entries_def [symmetric] k_def [symmetric] m_def [symmetric] fs_def [symmetric] by simp
    obtain dropped where d: "mset (capFlows fs m) + mset dropped = mset fs" "length (capFlows fs m) = min m (length fs)"
      "\<forall>f\<in>set (capFlows fs m). \<forall>g\<in>set dropped. Priority g \<le> Priority f" using capFlows_best by blast
    have s: "mset (sortFlows (capFlows fs m)) = mset (capFlows fs m)" by (simp add: sortFlows_def mset_sort_slice)
    then have "set (sortFlows (capFlows fs m)) = set (capFlows fs m)" "length (sortFlows (capFlows fs m)) = length (capFlows fs m)"
      by (metis set_mset_mset, metis size_mset)
    moreover have "fs = map (\<lambda>(i, e). the (buildFlow E i (flow_chain E (buildSymCalleeIndex edges) k e))) (enumerate 0 entries)"
      by (simp add: fs_def flows_of_eq)
    moreover from this have "length fs = length entries" by simp
    moreover have "sorted_wrt (\<lambda>f g. \<not> flow_less g f) (sortFlows (capFlows fs m))"
      unfolding sortFlows_def by (rule sorted_sort_slice [OF weak_order_flow_less])
    ultimately show ?thesis unfolding Let_def r entries_def [symmetric] k_def [symmetric] m_def [symmetric]
      using d s by (intro exI [of _ dropped]) (simp add: list_all_iff)
  qed
qed

text \<open>
  A symbol that is first met at the bound is not left again, even if a shorter way leads to it: with a bound of two, the walk from
  0 meets 2 by way of 1 and misses 3, which is two calls away.
\<close>

lemma depth_bound_hides_symbols:
  "snd (dfsCollectChain (\<lambda>s. if s = 0 then [1, 2] else if s = 1 then [2] else if s = 2 then [3] else []) (\<lambda>_. False) 2 0 0 ({}, [])) = [0, 1, 2] \<and>
   hops (\<lambda>s. if s = 0 then [1, 2] else if s = 1 then [2] else if s = 2 then [3] else []) (\<lambda>_. False) 2 0 3"
proof
  let ?adj = "\<lambda>s :: nat. if s = 0 then [1, 2] else if s = 1 then [2] else if s = 2 then [3] else []"
  show "snd (dfsCollectChain ?adj (\<lambda>_. False) 2 0 0 ({}, [])) = [0, 1, 2]" by (simp add: dfsCollectChain.simps)
  have "hops ?adj (\<lambda>_. False) 1 0 2" using hops.step [OF hops.here, of 2 ?adj 0 "\<lambda>_. False" 0] by simp
  from hops.step [OF this, of 3] show "hops ?adj (\<lambda>_. False) 2 0 3" by (simp add: numeral_2_eq_2)
qed

end
