(* ===== verification/EmbedStore.thy ===== *)
theory EmbedStore
  imports DeadCode Ingest GoUtf8 Cypher "HOL-Library.State_Monad" "HOL-Library.AList"
begin

text \<open>
  The embedding index (\<open>internal/embeddings\<close>): the text a symbol is embedded by (\<open>pipeline_helpers.go\<close>), the tables
  \<open>code_embeddings\<close> and \<open>code_repo_state\<close> with the statements of \<open>store.go\<close>, \<open>repo_state.go\<close>, \<open>reconcile_paths.go\<close>
  and \<open>store_wipe.go\<close> that read and write them.

  A statement is one atomic step on the two tables. It may fail without an effect, and it may take effect although the
  caller is told that it failed; which happens to the n-th call is a parameter, and so is the time a call sees. A
  statement with a text that has a NUL, and an insert that names one key twice, are refused as PostgreSQL refuses them.
\<close>

subsection \<open>Texts\<close>

record EmbSymbol = FullSymbol +
  sym_Body :: string
  sym_DocComment :: string

definition maxEmbedText :: nat where "maxEmbedText = 1500"
definition loiBodyLines :: nat where "loiBodyLines = 8"

definition IsEmbeddableKind :: "string \<Rightarrow> bool" where
  "IsEmbeddableKind k \<longleftrightarrow> k \<in> {''function'', ''method'', ''type'', ''struct'', ''interface'', ''class''}"

definition IsEmbeddableKindExpanded :: "string \<Rightarrow> bool \<Rightarrow> bool" where
  "IsEmbeddableKindExpanded k expanded \<longleftrightarrow>
     (if IsEmbeddableKind k then True
      else if \<not> expanded then False
      else k \<in> {''macro'', ''module'', ''type_alias''})"

definition embed_header :: "EmbSymbol \<Rightarrow> string \<Rightarrow> string" where
  "embed_header sy filePath =
     (let doc = go_trim_space (sym_DocComment sy) in
      filePath @ '' '' @ sym_Language sy @ '' '' @ sym_Kind sy @ '' '' @ sym_Name sy @ '': '' @ sym_Signature sy @ [newline] @
      (if doc \<noteq> [] then doc @ [newline] else []))"

text \<open>The body is cut after its last line break within the room that is left, or at the room when there is no such break.\<close>

definition fit_body :: "string \<Rightarrow> nat \<Rightarrow> string" where
  "fit_body body remaining =
     (if length body > remaining
      then (case str_last_index (take remaining body) [newline] of
              Some i \<Rightarrow> if i > 0 then take (i + 1) body else take remaining body
            | None \<Rightarrow> take remaining body)
      else body)"

definition with_body :: "string \<Rightarrow> string \<Rightarrow> string" where
  "with_body header body =
     (if length header \<ge> maxEmbedText then take maxEmbedText header
      else header @ fit_body body (maxEmbedText - length header))"

definition buildEmbedText :: "EmbSymbol \<Rightarrow> string \<Rightarrow> string" where
  "buildEmbedText sy filePath = with_body (embed_header sy filePath) (sym_Body sy)"

text \<open>The first \<open>n\<close> lines with their breaks; \<open>passed\<close> breaks have been passed.\<close>

fun limit_from :: "nat \<Rightarrow> nat \<Rightarrow> string \<Rightarrow> string" where
  "limit_from passed n [] = []"
| "limit_from passed n (c # s) =
     (if c = newline then if passed + 1 \<ge> n then [c] else c # limit_from (passed + 1) n s
      else c # limit_from passed n s)"

definition limitLines :: "string \<Rightarrow> nat \<Rightarrow> string" where
  "limitLines s n = (if n = 0 \<or> s = [] then [] else limit_from 0 n s)"

definition buildEmbedTextExpanded :: "EmbSymbol \<Rightarrow> string \<Rightarrow> bool \<Rightarrow> string" where
  "buildEmbedTextExpanded sy filePath expanded =
     (if \<not> expanded then buildEmbedText sy filePath
      else with_body (embed_header sy filePath) (limitLines (sym_Body sy) loiBodyLines))"

subsection \<open>The tables\<close>

record 'v emb_row =
  rw_RepoKey :: string
  rw_FilePath :: string
  rw_SymbolName :: string
  rw_SymbolKind :: string
  rw_Language :: string
  rw_StartLine :: nat
  rw_BodyHash :: "64 word"
  rw_EmbedModel :: string
  rw_Embedding :: 'v
  rw_Sparse :: "string option"
  rw_UpdatedAt :: int

record repo_row =
  rs_HeadSHA :: string
  rs_IndexedAt :: int
  rs_EmbedModel :: string
  rs_SourcePath :: string

record 'v emb_db =
  emb_rows :: "'v emb_row list"
  repo_rows :: "string \<Rightarrow> repo_row option"
  db_clock :: nat

type_synonym row_key = "string \<times> string \<times> string"

definition row_key :: "'v emb_row \<Rightarrow> row_key" where
  "row_key r = (rw_RepoKey r, rw_FilePath r, rw_SymbolName r)"

datatype db_fault = Fine | Refused | Unanswered

datatype orphanCompensation = orphanRolledBack | orphanSuperseded | orphanLeftInPlace

datatype index_error =
  DbError | EmbedError | IngestError | ParseError string | CtxError | FirstIndexFailed orphanCompensation index_error

record disk_entry =
  de_IsDir :: bool
  de_Regular :: bool
  de_Size :: int
  de_Source :: "string option"

datatype stat_result = Missing | StatFails | Found disk_entry

text \<open>
  The surroundings of an index run: what happens to each call and when, the model, the clients of the two embedding
  services (one vector, one literal for each text, or an error), the disk by absolute path (an entry is regular when the
  name itself is that of a regular file, not of a link), git, the walk of \<open>ingest\<close>, the parser, and the order in which a map
  with given keys is visited.
\<close>

record 'v embed_env =
  fault :: "nat \<Rightarrow> db_fault"
  now :: "nat \<Rightarrow> int"
  ctx_done :: "nat \<Rightarrow> bool"
  embedModel :: string
  expandSymbolKinds :: bool
  dense :: "nat \<Rightarrow> (string \<Rightarrow> 'v) option"
  sparseClient :: "(nat \<Rightarrow> (string \<Rightarrow> string) option) option"
  sparseMaxBatch :: nat
  disk :: "string \<Rightarrow> stat_result"
  main_sha :: string
  git_diff :: "string \<Rightarrow> string \<Rightarrow> string option"
  ingested :: "unit + File list"
  parse :: "string \<Rightarrow> string \<Rightarrow> string \<Rightarrow> EmbSymbol list option"
  map_order :: "string list \<Rightarrow> string list"
  env_unicode :: unicode
  slot_free :: bool
  maxEmbedded :: int

type_synonym ('v, 'a) db_io = "('v emb_db, index_error + 'a) state"

definition db_call :: "'v embed_env \<Rightarrow> (int \<Rightarrow> 'v emb_db \<Rightarrow> 'a \<times> 'v emb_db) \<Rightarrow> ('v, 'a) db_io" where
  "db_call E op = State (\<lambda>w.
     let t = db_clock w; (a, w') = op (now E t) w in
     case fault E t of
       Fine \<Rightarrow> (Inr a, w'\<lparr>db_clock := t + 1\<rparr>)
     | Refused \<Rightarrow> (Inl DbError, w\<lparr>db_clock := t + 1\<rparr>)
     | Unanswered \<Rightarrow> (Inl DbError, w'\<lparr>db_clock := t + 1\<rparr>))"

definition db_read :: "'v embed_env \<Rightarrow> ('v emb_db \<Rightarrow> 'a) \<Rightarrow> ('v, 'a) db_io" where
  "db_read E f = db_call E (\<lambda>_ w. (f w, w))"

text \<open>A call of another service, or a look at the context: it sees the number of the call.\<close>

definition service :: "(nat \<Rightarrow> 'a) \<Rightarrow> ('v emb_db, 'a) state" where
  "service f = State (\<lambda>w. (f (db_clock w), w\<lparr>db_clock := db_clock w + 1\<rparr>))"

definition on_rows :: "('v emb_row list \<Rightarrow> 'v emb_row list) \<Rightarrow> 'v emb_db \<Rightarrow> 'v emb_db" where
  "on_rows f w = w\<lparr>emb_rows := f (emb_rows w)\<rparr>"

text \<open>A statement that deletes the rows with a property returns how many there were.\<close>

definition db_delete :: "'v embed_env \<Rightarrow> ('v emb_db \<Rightarrow> 'v emb_row \<Rightarrow> bool) \<Rightarrow> ('v, nat) db_io" where
  "db_delete E P = db_call E (\<lambda>_ w.
     (length (filter (P w) (emb_rows w)), on_rows (filter (\<lambda>r. \<not> P w r)) w))"

subsection \<open>Statements on the embeddings\<close>

definition text_ok :: "string \<Rightarrow> bool" where "text_ok s \<longleftrightarrow> CHR 0x00 \<notin> set s"

definition batchSize :: nat where "batchSize = 50"
definition sparseBatchSize :: nat where "sparseBatchSize = 100"
definition intraKeyOrphanChunkSize :: nat where "intraKeyOrphanChunkSize = 500"

function chunks :: "nat \<Rightarrow> 'a list \<Rightarrow> 'a list list" where
  "chunks n xs = (if xs = [] then [] else take (max 1 n) xs # chunks n (drop (max 1 n) xs))"
  by pat_completeness auto
termination
  by (relation "measure (\<lambda>(n, xs). length xs)") (auto simp: neq_Nil_conv)

declare chunks.simps [simp del]

text \<open>On a conflict everything but the sparse vector is overwritten.\<close>

definition upsert_row :: "'v emb_row \<Rightarrow> 'v emb_row list \<Rightarrow> 'v emb_row list" where
  "upsert_row rec rows =
     (if list_ex (\<lambda>r. row_key r = row_key rec) rows
      then map (\<lambda>r. if row_key r = row_key rec then rec\<lparr>rw_Sparse := rw_Sparse r\<rparr> else r) rows
      else rows @ [rec\<lparr>rw_Sparse := None\<rparr>])"

definition batch_ok :: "'v emb_row list \<Rightarrow> bool" where
  "batch_ok records \<longleftrightarrow> distinct (map row_key records) \<and>
     list_all (\<lambda>r. text_ok (rw_RepoKey r) \<and> text_ok (rw_FilePath r) \<and> text_ok (rw_SymbolName r)) records"

definition upsertBatch :: "'v embed_env \<Rightarrow> 'v emb_row list \<Rightarrow> ('v, unit) db_io" where
  "upsertBatch E records =
     (if batch_ok records
      then db_call E (\<lambda>t w. ((), on_rows (fold (\<lambda>r. upsert_row (r\<lparr>rw_UpdatedAt := t\<rparr>)) records) w))
      else State_Monad.return (Inl DbError))"

text \<open>Statements one after the other, up to the first error.\<close>

fun in_turn :: "('b \<Rightarrow> ('v, 'a) db_io) \<Rightarrow> 'b list \<Rightarrow> ('v, unit) db_io" where
  "in_turn f [] = State_Monad.return (Inr ())"
| "in_turn f (x # xs) = do {
     r \<leftarrow> f x;
     case r of Inl e \<Rightarrow> State_Monad.return (Inl e) | Inr _ \<Rightarrow> in_turn f xs
   }"

definition Upsert :: "'v embed_env \<Rightarrow> 'v emb_row list \<Rightarrow> ('v, unit) db_io" where
  "Upsert E records = in_turn (upsertBatch E) (chunks batchSize records)"

record SparseUpdate =
  su_RepoKey :: string
  su_FilePath :: string
  su_SymbolName :: string
  su_Literal :: string

definition set_sparse :: "int \<Rightarrow> SparseUpdate \<Rightarrow> 'v emb_row \<Rightarrow> 'v emb_row" where
  "set_sparse t u r =
     (if row_key r = (su_RepoKey u, su_FilePath u, su_SymbolName u)
      then r\<lparr>rw_Sparse := Some (su_Literal u), rw_UpdatedAt := t\<rparr> else r)"

definition updateSparseEmbeddingsBatchChunk :: "'v embed_env \<Rightarrow> SparseUpdate list \<Rightarrow> ('v, unit) db_io" where
  "updateSparseEmbeddingsBatchChunk E us = db_call E (\<lambda>t w. ((), on_rows (map (fold (set_sparse t) us)) w))"

definition UpdateSparseEmbeddingsBatch :: "'v embed_env \<Rightarrow> SparseUpdate list \<Rightarrow> ('v, unit) db_io" where
  "UpdateSparseEmbeddingsBatch E us = in_turn (updateSparseEmbeddingsBatchChunk E) (chunks sparseBatchSize us)"

definition DeleteRepo :: "'v embed_env \<Rightarrow> string \<Rightarrow> ('v, nat) db_io" where
  "DeleteRepo E repoKey = db_delete E (\<lambda>_ r. rw_RepoKey r = repoKey)"

record SymbolIdentity =
  si_SymbolName :: string
  si_BodyHash :: "64 word"
  si_StartLine :: nat

definition GetSymbolsForFile :: "'v embed_env \<Rightarrow> string \<Rightarrow> string \<Rightarrow> ('v, SymbolIdentity list) db_io" where
  "GetSymbolsForFile E repoKey filePath = db_read E (\<lambda>w.
     sort_key si_SymbolName
       (map (\<lambda>r. \<lparr>si_SymbolName = rw_SymbolName r, si_BodyHash = rw_BodyHash r, si_StartLine = rw_StartLine r\<rparr>)
         (filter (\<lambda>r. rw_RepoKey r = repoKey \<and> rw_FilePath r = filePath) (emb_rows w))))"

definition DeleteSymbolsForFile :: "'v embed_env \<Rightarrow> string \<Rightarrow> string \<Rightarrow> string list \<Rightarrow> ('v, nat) db_io" where
  "DeleteSymbolsForFile E repoKey filePath keepSymbolNames =
     (if keepSymbolNames = [] then db_delete E (\<lambda>_ r. rw_RepoKey r = repoKey \<and> rw_FilePath r = filePath)
      else db_delete E (\<lambda>_ r. rw_RepoKey r = repoKey \<and> rw_FilePath r = filePath \<and> rw_SymbolName r \<notin> set keepSymbolNames))"

text \<open>\<open>strings.Cut\<close> at the separator of a key; a key without one is skipped.\<close>

definition cut_key :: "string \<Rightarrow> (string \<times> string) option" where
  "cut_key key =
     (case str_index key [CHR 0x00] of None \<Rightarrow> None | Some i \<Rightarrow> Some (take i key, drop (i + 1) key))"

definition deleteExplicitOrphanChunk :: "'v embed_env \<Rightarrow> string \<Rightarrow> (string \<times> string) list \<Rightarrow> ('v, nat) db_io" where
  "deleteExplicitOrphanChunk E repoKey pairs =
     db_delete E (\<lambda>_ r. rw_RepoKey r = repoKey \<and> (rw_FilePath r, rw_SymbolName r) \<in> set pairs)"

definition DeleteExplicitOrphans :: "'v embed_env \<Rightarrow> string \<Rightarrow> string list \<Rightarrow> ('v, unit) db_io" where
  "DeleteExplicitOrphans E repoKey orphanKeys =
     (if orphanKeys = [] then State_Monad.return (Inr ())
      else in_turn (deleteExplicitOrphanChunk E repoKey) (chunks intraKeyOrphanChunkSize (List.map_filter cut_key orphanKeys)))"

definition hashes_of :: "string \<Rightarrow> 'v emb_row list \<Rightarrow> (string \<times> 64 word) list" where
  "hashes_of repoKey rows =
     fold (\<lambda>r. AList.update (rw_FilePath r @ CHR 0x00 # rw_SymbolName r) (rw_BodyHash r)) (filter (\<lambda>r. rw_RepoKey r = repoKey) rows) []"

definition GetHashes :: "'v embed_env \<Rightarrow> string \<Rightarrow> ('v, (string \<times> 64 word) list) db_io" where
  "GetHashes E repoKey = db_read E (\<lambda>w. hashes_of repoKey (emb_rows w))"

definition CountEmbeddings :: "'v embed_env \<Rightarrow> string \<Rightarrow> ('v, nat) db_io" where
  "CountEmbeddings E repoKey = db_read E (\<lambda>w. length (filter (\<lambda>r. rw_RepoKey r = repoKey) (emb_rows w)))"

definition CountEmbeddingsForModel :: "'v embed_env \<Rightarrow> string \<Rightarrow> string \<Rightarrow> ('v, nat) db_io" where
  "CountEmbeddingsForModel E repoKey model =
     db_read E (\<lambda>w. length (filter (\<lambda>r. rw_RepoKey r = repoKey \<and> rw_EmbedModel r = model) (emb_rows w)))"

definition GetEmbedModelForRepo :: "'v embed_env \<Rightarrow> string \<Rightarrow> ('v emb_db, string) state" where
  "GetEmbedModelForRepo E repoKey = do {
     r \<leftarrow> db_read E (\<lambda>w. filter (\<lambda>r. rw_RepoKey r = repoKey) (emb_rows w));
     State_Monad.return (case r of Inr (x # _) \<Rightarrow> rw_EmbedModel x | _ \<Rightarrow> [])
   }"

text \<open>Rows of repositories without a state row.\<close>

definition orphanRepoKeyPredicate :: "'v emb_db \<Rightarrow> 'v emb_row \<Rightarrow> bool" where
  "orphanRepoKeyPredicate w r \<longleftrightarrow> repo_rows w (rw_RepoKey r) = None"

definition DeleteOrphanRepoKeys :: "'v embed_env \<Rightarrow> ('v, nat) db_io" where
  "DeleteOrphanRepoKeys E = db_delete E orphanRepoKeyPredicate"

definition PreviewOrphanRepoKeys :: "'v embed_env \<Rightarrow> ('v, string list \<times> nat) db_io" where
  "PreviewOrphanRepoKeys E = do {
     ks \<leftarrow> db_read E (\<lambda>w. remdups (map rw_RepoKey (filter (orphanRepoKeyPredicate w) (emb_rows w))));
     case ks of Inl e \<Rightarrow> State_Monad.return (Inl e)
     | Inr repoKeys \<Rightarrow> do {
         n \<leftarrow> db_read E (\<lambda>w. length (filter (orphanRepoKeyPredicate w) (emb_rows w)));
         State_Monad.return (case n of Inl e \<Rightarrow> Inl e | Inr rowCount \<Rightarrow> Inr (repoKeys, rowCount))
       }
   }"

definition CountOrphanRepoKeys :: "'v embed_env \<Rightarrow> ('v, nat) db_io" where
  "CountOrphanRepoKeys E =
     db_read E (\<lambda>w. length (remdups (map rw_RepoKey (filter (orphanRepoKeyPredicate w) (emb_rows w)))))"

definition CountOrphanRepoKeysForRepo :: "'v embed_env \<Rightarrow> string \<Rightarrow> ('v, nat) db_io" where
  "CountOrphanRepoKeysForRepo E repoKey =
     db_read E (\<lambda>w. length (filter (\<lambda>r. orphanRepoKeyPredicate w r \<and> rw_RepoKey r = repoKey) (emb_rows w)))"

definition DeleteOrphanRepoKeysForRepo :: "'v embed_env \<Rightarrow> string \<Rightarrow> ('v, nat) db_io" where
  "DeleteOrphanRepoKeysForRepo E repoKey =
     db_delete E (\<lambda>w r. orphanRepoKeyPredicate w r \<and> rw_RepoKey r = repoKey)"

subsection \<open>Statements on the state of repositories\<close>

definition GetRepoState :: "'v embed_env \<Rightarrow> string \<Rightarrow> ('v, string) db_io" where
  "GetRepoState E repoKey = db_read E (\<lambda>w. case repo_rows w repoKey of Some s \<Rightarrow> rs_HeadSHA s | None \<Rightarrow> [])"

definition GetRepoSourcePath :: "'v embed_env \<Rightarrow> string \<Rightarrow> ('v, string) db_io" where
  "GetRepoSourcePath E repoKey = db_read E (\<lambda>w. case repo_rows w repoKey of Some s \<Rightarrow> rs_SourcePath s | None \<Rightarrow> [])"

definition RepoStateExists :: "'v embed_env \<Rightarrow> string \<Rightarrow> ('v, bool) db_io" where
  "RepoStateExists E repoKey = db_read E (\<lambda>w. repo_rows w repoKey \<noteq> None)"

definition GetStoredModel :: "'v embed_env \<Rightarrow> string \<Rightarrow> ('v emb_db, string) state" where
  "GetStoredModel E repoKey = do {
     r \<leftarrow> db_read E (\<lambda>w. case repo_rows w repoKey of Some s \<Rightarrow> rs_EmbedModel s | None \<Rightarrow> []);
     State_Monad.return (case r of Inr m \<Rightarrow> m | Inl _ \<Rightarrow> [])
   }"

definition SetRepoStateWithPath :: "'v embed_env \<Rightarrow> string \<Rightarrow> string \<Rightarrow> string \<Rightarrow> string \<Rightarrow> ('v, unit) db_io" where
  "SetRepoStateWithPath E repoKey sha model sourcePath = db_call E (\<lambda>t w.
     ((), w\<lparr>repo_rows := (repo_rows w)(repoKey \<mapsto>
        \<lparr>rs_HeadSHA = sha, rs_IndexedAt = t, rs_EmbedModel = model, rs_SourcePath = sourcePath\<rparr>)\<rparr>))"

definition BackfillRepoSourcePath :: "'v embed_env \<Rightarrow> string \<Rightarrow> string \<Rightarrow> ('v, unit) db_io" where
  "BackfillRepoSourcePath E repoKey sourcePath =
     (if sourcePath = [] then State_Monad.return (Inr ())
      else db_call E (\<lambda>_ w. ((), case repo_rows w repoKey of
               None \<Rightarrow> w
             | Some s \<Rightarrow> if rs_SourcePath s = [] then w\<lparr>repo_rows := (repo_rows w)(repoKey \<mapsto> s\<lparr>rs_SourcePath := sourcePath\<rparr>)\<rparr> else w)))"

text \<open>
  \<open>WipeRepo\<close> is one transaction. Deleting a state row also deletes the embeddings of the repository, by a trigger.
\<close>

definition WipeRepo :: "'v embed_env \<Rightarrow> string \<Rightarrow> ('v, unit) db_io" where
  "WipeRepo E repoKey =
     (if repoKey = [] then State_Monad.return (Inl DbError)
      else db_call E (\<lambda>_ w. ((), (on_rows (filter (\<lambda>r. rw_RepoKey r \<noteq> repoKey)) w)\<lparr>repo_rows := (repo_rows w)(repoKey := None)\<rparr>)))"

definition InvalidateRepoIfModelChanged :: "'v embed_env \<Rightarrow> string \<Rightarrow> string \<Rightarrow> ('v, bool) db_io" where
  "InvalidateRepoIfModelChanged E repoKey activeModel = do {
     m \<leftarrow> db_read E (\<lambda>w. map_option rs_EmbedModel (repo_rows w repoKey));
     case m of
       Inl e \<Rightarrow> State_Monad.return (Inl e)
     | Inr None \<Rightarrow> State_Monad.return (Inr False)
     | Inr (Some storedModel) \<Rightarrow>
         if storedModel = activeModel then do {
           n \<leftarrow> db_delete E (\<lambda>_ r. rw_RepoKey r = repoKey \<and> rw_EmbedModel r \<noteq> activeModel);
           State_Monad.return (case n of Inl e \<Rightarrow> Inl e | Inr k \<Rightarrow> Inr (k > 0))
         } else do {
           r \<leftarrow> WipeRepo E repoKey;
           State_Monad.return (case r of Inl e \<Rightarrow> Inl e | Inr _ \<Rightarrow> Inr True)
         }
   }"

subsection \<open>Paths that are gone\<close>

definition ListFilePathCounts :: "'v embed_env \<Rightarrow> string \<Rightarrow> ('v, (string \<times> nat) list) db_io" where
  "ListFilePathCounts E repoKey = db_read E (\<lambda>w.
     let ps = map rw_FilePath (filter (\<lambda>r. rw_RepoKey r = repoKey) (emb_rows w))
     in map (\<lambda>p. (p, count_list ps p)) (remdups ps))"

definition DeleteRowsByFilePaths :: "'v embed_env \<Rightarrow> string \<Rightarrow> string list \<Rightarrow> ('v, nat) db_io" where
  "DeleteRowsByFilePaths E repoKey paths =
     (if paths = [] then State_Monad.return (Inr 0)
      else db_delete E (\<lambda>_ r. rw_RepoKey r = repoKey \<and> rw_FilePath r \<in> set paths))"

definition stat_ok :: "stat_result \<Rightarrow> bool" where
  "stat_ok s \<longleftrightarrow> (case s of Found _ \<Rightarrow> True | _ \<Rightarrow> False)"

text \<open>The stale paths, or nothing when the rootDir is no directory.\<close>

definition CheckStalePaths :: "'v embed_env \<Rightarrow> string \<Rightarrow> (string \<times> nat) list \<Rightarrow> (string \<times> nat) list option" where
  "CheckStalePaths E rootDir cnts =
     (case disk E rootDir of
        Found d \<Rightarrow>
          if de_IsDir d
          then Some (filter (\<lambda>pc. \<not> stat_ok (disk E (path_join [rootDir, fst pc]))) cnts)
          else None
      | _ \<Rightarrow> None)"

record ReconcileResult =
  rr_TotalRows :: nat
  rr_StalePaths :: nat
  rr_StaleRows :: nat
  rr_Deleted :: nat
  rr_SkipReason :: string

definition ReconcileRepoPaths :: "'v embed_env \<Rightarrow> string \<Rightarrow> string \<Rightarrow> bool \<Rightarrow> ('v, ReconcileResult) db_io" where
  "ReconcileRepoPaths E repoKey sourcePath dryRun =
     (let res = \<lparr>rr_TotalRows = 0, rr_StalePaths = 0, rr_StaleRows = 0, rr_Deleted = 0, rr_SkipReason = []\<rparr> in
      if sourcePath = [] then State_Monad.return (Inr (res\<lparr>rr_SkipReason := ''source_path_empty''\<rparr>))
      else do {
        c \<leftarrow> ListFilePathCounts E repoKey;
        case c of
          Inl e \<Rightarrow> State_Monad.return (Inl e)
        | Inr cnts \<Rightarrow>
            let res1 = res\<lparr>rr_TotalRows := sum_list (map snd cnts)\<rparr> in
            case CheckStalePaths E sourcePath cnts of
              None \<Rightarrow> State_Monad.return (Inr (res1\<lparr>rr_SkipReason := ''root_missing''\<rparr>))
            | Some stale \<Rightarrow>
                let res2 = res1\<lparr>rr_StalePaths := length stale, rr_StaleRows := sum_list (map snd stale)\<rparr> in
                if dryRun then State_Monad.return (Inr res2)
                else do {
                  d \<leftarrow> DeleteRowsByFilePaths E repoKey (map fst stale);
                  State_Monad.return (case d of Inl e \<Rightarrow> Inl e | Inr n \<Rightarrow> Inr (res2\<lparr>rr_Deleted := n\<rparr>))
                }
      })"

subsection \<open>What statements keep\<close>

text \<open>A property of the two tables that a program keeps, whatever the faults; one rule for each way to build a program.\<close>

definition keeps :: "('v emb_row list \<Rightarrow> (string \<Rightarrow> repo_row option) \<Rightarrow> bool) \<Rightarrow> ('v emb_db, 'a) state \<Rightarrow> bool" where
  "keeps I m \<longleftrightarrow> (\<forall>w. I (emb_rows w) (repo_rows w) \<longrightarrow>
     I (emb_rows (snd (run_state m w))) (repo_rows (snd (run_state m w))))"

named_theorems keeps_rules

lemma keeps_return [keeps_rules]: "keeps I (State_Monad.return a)"
  by (simp add: keeps_def)

lemma keeps_bind [keeps_rules]: "keeps I m \<Longrightarrow> (\<And>a. keeps I (f a)) \<Longrightarrow> keeps I (State_Monad.bind m f)"
  unfolding keeps_def by (auto split: prod.split)

lemma keeps_service [keeps_rules]: "keeps I (service f)"
  by (simp add: keeps_def service_def)

lemma keeps_if [keeps_rules]: "(b \<Longrightarrow> keeps I m) \<Longrightarrow> (\<not> b \<Longrightarrow> keeps I n) \<Longrightarrow> keeps I (if b then m else n)"
  by simp

lemma keeps_sum [keeps_rules]:
  "(\<And>e. r = Inl e \<Longrightarrow> keeps I (f e)) \<Longrightarrow> (\<And>a. r = Inr a \<Longrightarrow> keeps I (g a)) \<Longrightarrow> keeps I (case r of Inl e \<Rightarrow> f e | Inr a \<Rightarrow> g a)"
  by (cases r) simp_all

lemma keeps_option [keeps_rules]:
  "(x = None \<Longrightarrow> keeps I m) \<Longrightarrow> (\<And>a. x = Some a \<Longrightarrow> keeps I (f a)) \<Longrightarrow> keeps I (case x of None \<Rightarrow> m | Some a \<Rightarrow> f a)"
  by (cases x) simp_all

lemma keeps_bool [keeps_rules]: "(x \<Longrightarrow> keeps I m) \<Longrightarrow> (\<not> x \<Longrightarrow> keeps I n) \<Longrightarrow> keeps I (case x of True \<Rightarrow> m | False \<Rightarrow> n)"
  by (cases x) simp_all

lemma keeps_prod [keeps_rules]: "(\<And>a b. x = (a, b) \<Longrightarrow> keeps I (f a b)) \<Longrightarrow> keeps I (case x of (a, b) \<Rightarrow> f a b)"
  by (cases x) simp

lemma keeps_db_call:
  assumes "\<And>t w. I (emb_rows w) (repo_rows w) \<Longrightarrow> I (emb_rows (snd (op t w))) (repo_rows (snd (op t w)))"
  shows "keeps I (db_call E op)"
  using assms unfolding keeps_def db_call_def
  by (auto simp: Let_def split: prod.split db_fault.split) (metis snd_conv)+

lemma keeps_db_read [keeps_rules]: "keeps I (db_read E f)"
  unfolding db_read_def by (rule keeps_db_call) simp

text \<open>A read whose value has a property that holds of every value it can have.\<close>

lemma keeps_read_bind:
  assumes "\<And>w. I (emb_rows w) (repo_rows w) \<Longrightarrow> V (f w)" and "\<And>e. keeps I (g (Inl e))" and "\<And>a. V a \<Longrightarrow> keeps I (g (Inr a))"
  shows "keeps I (State_Monad.bind (db_read E f) g)"
  unfolding keeps_def
proof (intro allI impI)
  fix w :: "'a emb_db"
  assume i: "I (emb_rows w) (repo_rows w)"
  obtain r w' where r: "run_state (db_read E f) w = (r, w')" by fastforce
  then have same: "emb_rows w' = emb_rows w" "repo_rows w' = repo_rows w" and v: "r = Inr (f w) \<or> r = Inl DbError"
    by (auto simp: db_read_def db_call_def Let_def split: db_fault.splits)
  from v assms(1) [OF i] assms(2,3) have "keeps I (g r)" by blast
  then have "I (emb_rows (snd (run_state (g r) w'))) (repo_rows (snd (run_state (g r) w')))"
    using i unfolding keeps_def same [symmetric] by blast
  then show "I (emb_rows (snd (run_state (State_Monad.bind (db_read E f) g) w))) (repo_rows (snd (run_state (State_Monad.bind (db_read E f) g) w)))"
    by (simp add: r)
qed

lemma keeps_db_delete:
  assumes "\<And>w. I (emb_rows w) (repo_rows w) \<Longrightarrow> I (filter (\<lambda>r. \<not> P w r) (emb_rows w)) (repo_rows w)"
  shows "keeps I (db_delete E P)"
  unfolding db_delete_def by (rule keeps_db_call) (simp add: on_rows_def assms)

lemma keeps_in_turn: "(\<And>x. x \<in> set xs \<Longrightarrow> keeps I (f x)) \<Longrightarrow> keeps I (in_turn f xs)"
  by (induction xs) (auto intro!: keeps_rules)

text \<open>What a program returns and leaves when a property of the tables holds before.\<close>

definition hoare :: "('v emb_db \<Rightarrow> bool) \<Rightarrow> ('v emb_db, 'a) state \<Rightarrow> ('a \<Rightarrow> 'v emb_db \<Rightarrow> bool) \<Rightarrow> bool" where
  "hoare P m Q \<longleftrightarrow> (\<forall>w. P w \<longrightarrow> Q (fst (run_state m w)) (snd (run_state m w)))"

named_theorems hoare_rules

lemma hoare_return [hoare_rules]: "(\<And>w. P w \<Longrightarrow> Q a w) \<Longrightarrow> hoare P (State_Monad.return a) Q"
  by (simp add: hoare_def)

lemma hoare_bind: "hoare P m R \<Longrightarrow> (\<And>a. hoare (R a) (f a) Q) \<Longrightarrow> hoare P (State_Monad.bind m f) Q"
  unfolding hoare_def by (auto split: prod.split)

lemma hoare_if [hoare_rules]: "(b \<Longrightarrow> hoare P m Q) \<Longrightarrow> (\<not> b \<Longrightarrow> hoare P n Q) \<Longrightarrow> hoare P (if b then m else n) Q"
  by simp

lemma hoare_sum [hoare_rules]:
  "(\<And>e. r = Inl e \<Longrightarrow> hoare P (f e) Q) \<Longrightarrow> (\<And>a. r = Inr a \<Longrightarrow> hoare P (g a) Q) \<Longrightarrow> hoare P (case r of Inl e \<Rightarrow> f e | Inr a \<Rightarrow> g a) Q"
  by (cases r) simp_all

lemma hoare_option [hoare_rules]:
  "(x = None \<Longrightarrow> hoare P m Q) \<Longrightarrow> (\<And>a. x = Some a \<Longrightarrow> hoare P (f a) Q) \<Longrightarrow> hoare P (case x of None \<Rightarrow> m | Some a \<Rightarrow> f a) Q"
  by (cases x) simp_all

lemma hoare_bool [hoare_rules]: "(x \<Longrightarrow> hoare P m Q) \<Longrightarrow> (\<not> x \<Longrightarrow> hoare P n Q) \<Longrightarrow> hoare P (case x of True \<Rightarrow> m | False \<Rightarrow> n) Q"
  by (cases x) simp_all

lemma hoare_prod [hoare_rules]: "(\<And>a b. x = (a, b) \<Longrightarrow> hoare P (f a b) Q) \<Longrightarrow> hoare P (case x of (a, b) \<Rightarrow> f a b) Q"
  by (cases x) simp

lemma hoare_weaken: "hoare P m Q \<Longrightarrow> (\<And>w. P' w \<Longrightarrow> P w) \<Longrightarrow> (\<And>a w. Q a w \<Longrightarrow> Q' a w) \<Longrightarrow> hoare P' m Q'"
  by (auto simp: hoare_def)

lemma keeps_hoare: "keeps I m \<Longrightarrow> hoare (\<lambda>w. I (emb_rows w) (repo_rows w)) m (\<lambda>_ w. I (emb_rows w) (repo_rows w))"
  by (simp add: keeps_def hoare_def)

lemma hoare_D: "hoare P m Q \<Longrightarrow> P w \<Longrightarrow> run_state m w = (a, w') \<Longrightarrow> Q a w'"
  by (force simp: hoare_def)

lemma hoare_db_call:
  assumes "\<And>w a w' n. P w \<Longrightarrow> op (now E (db_clock w)) w = (a, w') \<Longrightarrow>
    Q (Inr a) (w'\<lparr>db_clock := n\<rparr>) \<and> Q (Inl DbError) (w\<lparr>db_clock := n\<rparr>) \<and> Q (Inl DbError) (w'\<lparr>db_clock := n\<rparr>)"
  shows "hoare P (db_call E op) Q"
  using assms unfolding hoare_def db_call_def by (auto simp: Let_def split: prod.split db_fault.split)

lemma hoare_db_read:
  "hoare (\<lambda>w. I (emb_rows w) (repo_rows w)) (db_read E f)
     (\<lambda>r w. I (emb_rows w) (repo_rows w) \<and>
       (r = Inl DbError \<or> (\<exists>v. emb_rows v = emb_rows w \<and> repo_rows v = repo_rows w \<and> r = Inr (f v))))"
  unfolding hoare_def db_read_def db_call_def by (auto simp: Let_def split: db_fault.split)

subsection \<open>The invariant of the tables\<close>

text \<open>The primary key, texts without a NUL, and everything that belongs to other repositories.\<close>

definition rows_ok :: "'v emb_row list \<Rightarrow> bool" where
  "rows_ok rows \<longleftrightarrow> distinct (map row_key rows) \<and>
     list_all (\<lambda>r. text_ok (rw_RepoKey r) \<and> text_ok (rw_FilePath r) \<and> text_ok (rw_SymbolName r)) rows"

definition others :: "string \<Rightarrow> 'v emb_row list \<Rightarrow> 'v emb_row list" where
  "others k rows = filter (\<lambda>r. rw_RepoKey r \<noteq> k) rows"

definition only_repo :: "string \<Rightarrow> 'v emb_row list \<Rightarrow> (string \<Rightarrow> repo_row option) \<Rightarrow> 'v emb_row list \<Rightarrow> (string \<Rightarrow> repo_row option) \<Rightarrow> bool" where
  "only_repo k R S rows st \<longleftrightarrow> rows_ok rows \<and> others k rows = R \<and> (\<forall>k'. k' \<noteq> k \<longrightarrow> st k' = S k')"

lemma row_key_update [simp]: "row_key (r\<lparr>rw_Sparse := x\<rparr>) = row_key r" "row_key (r\<lparr>rw_UpdatedAt := t\<rparr>) = row_key r"
  by (simp_all add: row_key_def)

lemma upsert_row_same: "row_key (if row_key r = row_key rec then rec\<lparr>rw_Sparse := x\<rparr> else r) = row_key r"
  by simp

lemma keys_upsert_present:
  "list_ex (\<lambda>r. row_key r = row_key rec) rows \<Longrightarrow> map row_key (upsert_row rec rows) = map row_key rows"
  by (simp add: upsert_row_def upsert_row_same)

lemma keys_upsert_row: "row_key ` set (upsert_row rec rows) = insert (row_key rec) (row_key ` set rows)"
proof (cases "list_ex (\<lambda>r. row_key r = row_key rec) rows")
  case True
  then have "row_key rec \<in> row_key ` set rows" by (metis (mono_tags, lifting) image_eqI list_ex_iff)
  with keys_upsert_present [OF True] show ?thesis by (metis insert_absorb list.set_map)
next
  case False
  then show ?thesis by (simp add: upsert_row_def)
qed

lemma rows_ok_upsert:
  assumes "rows_ok rows" "text_ok (rw_RepoKey rec)" "text_ok (rw_FilePath rec)" "text_ok (rw_SymbolName rec)"
  shows "rows_ok (upsert_row rec rows)"
proof (cases "list_ex (\<lambda>r. row_key r = row_key rec) rows")
  case True
  note keys = keys_upsert_present [OF True]
  have "list_all (\<lambda>r. text_ok (rw_RepoKey r) \<and> text_ok (rw_FilePath r) \<and> text_ok (rw_SymbolName r)) (upsert_row rec rows)"
    using True assms by (auto simp: rows_ok_def upsert_row_def list_all_iff)
  then show ?thesis using assms(1) unfolding rows_ok_def keys by simp
next
  case False
  then have "row_key rec \<notin> row_key ` set rows" by (auto simp: list_ex_iff)
  with False assms show ?thesis by (auto simp: rows_ok_def upsert_row_def list_all_iff)
qed

lemma others_upsert:
  assumes "rw_RepoKey rec = k"
  shows "others k (upsert_row rec rows) = others k rows"
proof -
  have "others k (map (\<lambda>r. if row_key r = row_key rec then rec\<lparr>rw_Sparse := rw_Sparse r\<rparr> else r) rows) = others k rows"
    using assms by (induction rows) (auto simp: others_def row_key_def)
  then show ?thesis using assms by (simp add: upsert_row_def others_def)
qed

lemma rows_ok_filter: "rows_ok rows \<Longrightarrow> rows_ok (filter P rows)"
  by (auto simp: rows_ok_def list_all_iff distinct_map_filter)

lemma others_filter: "(\<And>r. rw_RepoKey r \<noteq> k \<Longrightarrow> P r) \<Longrightarrow> others k (filter P rows) = others k rows"
  unfolding others_def filter_filter by (rule filter_cong) auto

lemma set_chunks: "\<Union> (set ` set (chunks n xs)) = set xs"
proof (induction n xs rule: chunks.induct)
  case (1 n xs)
  show ?case
  proof (cases "xs = []")
    case False
    then have "set xs = set (take (max 1 n) xs) \<union> set (drop (max 1 n) xs)" by (metis append_take_drop_id set_append)
    with False 1 show ?thesis by (subst chunks.simps) simp
  qed (simp add: chunks.simps)
qed

lemma only_repo_db_delete:
  assumes "\<And>w r. P w r \<Longrightarrow> rw_RepoKey r = k"
  shows "keeps (only_repo k R S) (db_delete E P)"
proof (rule keeps_db_delete)
  fix w :: "'a emb_db"
  assume "only_repo k R S (emb_rows w) (repo_rows w)"
  moreover have "others k (filter (\<lambda>r. \<not> P w r) (emb_rows w)) = others k (emb_rows w)"
    using assms by (intro others_filter) blast
  ultimately show "only_repo k R S (filter (\<lambda>r. \<not> P w r) (emb_rows w)) (repo_rows w)"
    by (simp add: only_repo_def rows_ok_filter)
qed

lemma fold_upsert_only:
  assumes "only_repo k R S rows st" "list_all (\<lambda>r. rw_RepoKey r = k \<and> text_ok (rw_RepoKey r) \<and> text_ok (rw_FilePath r) \<and> text_ok (rw_SymbolName r)) records"
  shows "only_repo k R S (fold (\<lambda>r. upsert_row (r\<lparr>rw_UpdatedAt := t\<rparr>)) records rows) st"
  using assms
proof (induction records arbitrary: rows)
  case (Cons r records)
  then have "only_repo k R S (upsert_row (r\<lparr>rw_UpdatedAt := t\<rparr>) rows) st"
    by (auto simp: only_repo_def others_upsert intro!: rows_ok_upsert)
  with Cons show ?case by simp
qed simp

lemma only_repo_Upsert [keeps_rules]:
  assumes "\<And>r. r \<in> set records \<Longrightarrow> rw_RepoKey r = k"
  shows "keeps (only_repo k R S) (Upsert E records)"
  unfolding Upsert_def
proof (rule keeps_in_turn)
  fix batch
  assume "batch \<in> set (chunks batchSize records)"
  then have batch: "\<And>r. r \<in> set batch \<Longrightarrow> rw_RepoKey r = k" using assms set_chunks [of batchSize records] by blast
  show "keeps (only_repo k R S) (upsertBatch E batch)"
  proof (cases "batch_ok batch")
    case True
    then have ok: "list_all (\<lambda>r. rw_RepoKey r = k \<and> text_ok (rw_RepoKey r) \<and> text_ok (rw_FilePath r) \<and> text_ok (rw_SymbolName r)) batch"
      using batch by (simp add: batch_ok_def list_all_iff)
    have "keeps (only_repo k R S) (db_call E (\<lambda>t w. ((), on_rows (fold (\<lambda>r. upsert_row (r\<lparr>rw_UpdatedAt := t\<rparr>)) batch) w)))"
      by (rule keeps_db_call) (simp add: on_rows_def fold_upsert_only [OF _ ok])
    then show ?thesis using True by (simp add: upsertBatch_def)
  next
    case False
    then show ?thesis by (simp add: upsertBatch_def keeps_return)
  qed
qed
lemma set_sparse_fields [simp]:
  "row_key (fold (set_sparse t) us r) = row_key r" "rw_RepoKey (fold (set_sparse t) us r) = rw_RepoKey r"
  "rw_FilePath (fold (set_sparse t) us r) = rw_FilePath r" "rw_SymbolName (fold (set_sparse t) us r) = rw_SymbolName r"
  by (induction us arbitrary: r) (simp_all add: set_sparse_def)

text \<open>No update names a row of another repository.\<close>

lemma set_sparse_other: "list_all (\<lambda>u. su_RepoKey u = k) us \<Longrightarrow> rw_RepoKey r \<noteq> k \<Longrightarrow> fold (set_sparse t) us r = r"
  by (induction us) (auto simp: set_sparse_def row_key_def)

lemma others_set_sparse: "list_all (\<lambda>u. su_RepoKey u = k) us \<Longrightarrow> others k (map (fold (set_sparse t) us) rows) = others k rows"
  by (induction rows) (auto simp: others_def set_sparse_other)

lemma only_repo_sparse [keeps_rules]:
  assumes "list_all (\<lambda>u. su_RepoKey u = k) us"
  shows "keeps (only_repo k R S) (UpdateSparseEmbeddingsBatch E us)"
  unfolding UpdateSparseEmbeddingsBatch_def
proof (rule keeps_in_turn)
  fix batch
  assume "batch \<in> set (chunks sparseBatchSize us)"
  then have "list_all (\<lambda>u. su_RepoKey u = k) batch"
    using assms set_chunks [of sparseBatchSize us] by (auto simp: list_all_iff)
  then show "keeps (only_repo k R S) (updateSparseEmbeddingsBatchChunk E batch)"
    unfolding updateSparseEmbeddingsBatchChunk_def
    by (intro keeps_db_call) (auto simp: on_rows_def only_repo_def rows_ok_def others_set_sparse list_all_iff comp_def)
qed

lemma only_repo_deletes [keeps_rules]:
  "keeps (only_repo k R S) (DeleteRepo E k)"
  "keeps (only_repo k R S) (DeleteSymbolsForFile E k f names)"
  "keeps (only_repo k R S) (DeleteRowsByFilePaths E k paths)"
  "keeps (only_repo k R S) (DeleteExplicitOrphans E k ks)"
  unfolding DeleteRepo_def DeleteSymbolsForFile_def DeleteRowsByFilePaths_def DeleteExplicitOrphans_def deleteExplicitOrphanChunk_def
  by (auto intro!: keeps_rules keeps_in_turn only_repo_db_delete)

lemma keeps_reads [keeps_rules]:
  "keeps I (CountEmbeddings E k)" "keeps I (GetHashes E k)" "keeps I (GetRepoState E k)" "keeps I (GetRepoSourcePath E k)"
  "keeps I (RepoStateExists E k)" "keeps I (GetSymbolsForFile E k f)" "keeps I (ListFilePathCounts E k)"
  unfolding CountEmbeddings_def GetHashes_def GetRepoState_def GetRepoSourcePath_def RepoStateExists_def GetSymbolsForFile_def
    ListFilePathCounts_def
  by (rule keeps_db_read)+

lemma only_repo_states [keeps_rules]:
  "keeps (only_repo k R S) (SetRepoStateWithPath E k sha model sp)"
  "keeps (only_repo k R S) (BackfillRepoSourcePath E k sp)"
  "keeps (only_repo k R S) (WipeRepo E k)"
  unfolding SetRepoStateWithPath_def BackfillRepoSourcePath_def WipeRepo_def
  by (auto intro!: keeps_rules keeps_db_call simp: only_repo_def on_rows_def rows_ok_filter others_filter split: option.split)

lemma only_repo_reconcile [keeps_rules]: "keeps (only_repo k R S) (ReconcileRepoPaths E k sp dry)"
  unfolding ReconcileRepoPaths_def Let_def by (intro keeps_rules)

lemma only_repo_invalidate [keeps_rules]: "keeps (only_repo k R S) (InvalidateRepoIfModelChanged E k m)"
  unfolding InvalidateRepoIfModelChanged_def by (intro keeps_rules only_repo_db_delete) blast

lemma keys_hashes_of: "fst ` set (hashes_of k rows) = (\<lambda>r. rw_FilePath r @ CHR 0x00 # rw_SymbolName r) ` {r \<in> set rows. rw_RepoKey r = k}"
proof -
  have "fst ` set (fold (\<lambda>r. AList.update (rw_FilePath r @ CHR 0x00 # rw_SymbolName r) (rw_BodyHash r)) rs acc) =
      fst ` set acc \<union> (\<lambda>r. rw_FilePath r @ CHR 0x00 # rw_SymbolName r) ` set rs" for rs :: "'v emb_row list" and acc
    by (induction rs arbitrary: acc) (auto simp: dom_update)
  from this [of "filter (\<lambda>r. rw_RepoKey r = k) rows" "[]"] show ?thesis by (simp add: hashes_of_def)
qed

lemma hashes_of_Nil: "hashes_of k rows = [] \<longleftrightarrow> (\<forall>r\<in>set rows. rw_RepoKey r \<noteq> k)"
proof -
  have "hashes_of k rows = [] \<longleftrightarrow> fst ` set (hashes_of k rows) = {}" by simp
  then show ?thesis unfolding keys_hashes_of by auto
qed

subsection \<open>The index as a map\<close>

text \<open>What the rows of a repository say: the hash for every file and name.\<close>

definition index_of :: "string \<Rightarrow> 'v emb_row list \<Rightarrow> string \<times> string \<Rightarrow> 64 word option" where
  "index_of k rows =
     map_of (map (\<lambda>r. ((rw_FilePath r, rw_SymbolName r), rw_BodyHash r)) (filter (\<lambda>r. rw_RepoKey r = k) rows))"

lemma index_of_simps [simp]:
  "index_of k [] = Map.empty"
  "index_of k (r # rows) =
     (if rw_RepoKey r = k then (index_of k rows)((rw_FilePath r, rw_SymbolName r) \<mapsto> rw_BodyHash r) else index_of k rows)"
  by (simp_all add: index_of_def)

lemma index_of_append: "index_of k (rows @ rows') = index_of k rows' ++ index_of k rows"
  by (simp add: index_of_def)

lemma index_of_absent: "(k, x) \<notin> row_key ` set rows \<Longrightarrow> index_of k rows x = None"
  by (induction rows) (auto simp: row_key_def)

lemma index_of_dom: "dom (index_of k rows) = {x. (k, x) \<in> row_key ` set rows}"
  by (induction rows) (auto simp: row_key_def)

lemma index_of_upsert:
  "index_of k (upsert_row rec rows) =
     (if rw_RepoKey rec = k then (index_of k rows)((rw_FilePath rec, rw_SymbolName rec) \<mapsto> rw_BodyHash rec) else index_of k rows)"
proof (cases "list_ex (\<lambda>r. row_key r = row_key rec) rows")
  case True
  have "index_of k (map (\<lambda>r. if row_key r = row_key rec then rec\<lparr>rw_Sparse := rw_Sparse r\<rparr> else r) rows) =
     (if rw_RepoKey rec = k \<and> list_ex (\<lambda>r. row_key r = row_key rec) rows
      then (index_of k rows)((rw_FilePath rec, rw_SymbolName rec) \<mapsto> rw_BodyHash rec) else index_of k rows)"
    by (induction rows) (auto simp: row_key_def fun_upd_twist)
  with True show ?thesis by (simp add: upsert_row_def)
next
  case False
  then have "row_key rec \<notin> row_key ` set rows" by (auto simp: list_ex_iff)
  then have "rw_RepoKey rec = k \<Longrightarrow> index_of k rows (rw_FilePath rec, rw_SymbolName rec) = None"
    by (intro index_of_absent) (auto simp: row_key_def)
  with False show ?thesis by (auto simp: upsert_row_def index_of_append map_add_def fun_eq_iff split: option.split)
qed

lemma index_of_filter:
  "(\<And>r. rw_RepoKey r = k \<Longrightarrow> P r \<longleftrightarrow> Q (rw_FilePath r, rw_SymbolName r)) \<Longrightarrow>
   index_of k (filter P rows) x = (if Q x then index_of k rows x else None)"
  by (induction rows) auto

lemma index_of_map:
  "(\<And>r. row_key (f r) = row_key r \<and> rw_BodyHash (f r) = rw_BodyHash r) \<Longrightarrow> index_of k (map f rows) = index_of k rows"
proof (induction rows)
  case (Cons r rows)
  from Cons.prems [of r] have "rw_RepoKey (f r) = rw_RepoKey r" "rw_FilePath (f r) = rw_FilePath r" "rw_SymbolName (f r) = rw_SymbolName r"
    "rw_BodyHash (f r) = rw_BodyHash r" by (auto simp: row_key_def)
  with Cons show ?case by simp
qed simp

lemma fold_update_map_of:
  "map_of (fold (\<lambda>r. AList.update (g r) (h r)) rs acc) = map_of acc ++ map_of (rev (map (\<lambda>r. (g r, h r)) rs))"
  by (induction rs arbitrary: acc) (simp_all add: update_conv' map_add_def fun_eq_iff split: option.split)

lemma map_of_rev: "distinct (map fst xs) \<Longrightarrow> map_of (rev xs) = map_of xs"
  by (rule map_of_eqI) (auto simp: map_of_eq_Some_iff distinct_map rev_map [symmetric] intro: map_of_is_SomeI)

lemma row_keys_filter: "rows_ok rows \<Longrightarrow> distinct (map (\<lambda>r. rw_FilePath r @ CHR 0x00 # rw_SymbolName r) (filter (\<lambda>r. rw_RepoKey r = k) rows))"
proof -
  assume ok: "rows_ok rows"
  have "inj_on (\<lambda>r. rw_FilePath r @ CHR 0x00 # rw_SymbolName r) (set (filter (\<lambda>r. rw_RepoKey r = k) rows))"
  proof (rule inj_onI)
    fix a b
    assume ab: "a \<in> set (filter (\<lambda>r. rw_RepoKey r = k) rows)" "b \<in> set (filter (\<lambda>r. rw_RepoKey r = k) rows)"
      "rw_FilePath a @ CHR 0x00 # rw_SymbolName a = rw_FilePath b @ CHR 0x00 # rw_SymbolName b"
    with ok have "CHR 0x00 \<notin> set (rw_FilePath a)" "CHR 0x00 \<notin> set (rw_FilePath b)" by (auto simp: rows_ok_def list_all_iff text_ok_def)
    from sep_split [OF this ab(3)] ab have "row_key a = row_key b" by (simp add: row_key_def)
    with ok ab show "a = b" by (auto simp: rows_ok_def distinct_map inj_on_def)
  qed
  with ok show ?thesis by (auto simp: rows_ok_def distinct_map)
qed

lemma map_of_hashes_rows:
  "rows_ok rows \<Longrightarrow> text_ok f \<Longrightarrow>
   map_of (map (\<lambda>r. (rw_FilePath r @ CHR 0x00 # rw_SymbolName r, rw_BodyHash r)) (filter (\<lambda>r. rw_RepoKey r = k) rows)) (f @ CHR 0x00 # n) =
     index_of k rows (f, n)"
proof (induction rows)
  case (Cons r rows)
  then have ok: "rows_ok rows" and t: "text_ok (rw_FilePath r)" by (auto simp: rows_ok_def)
  have "rw_FilePath r @ CHR 0x00 # rw_SymbolName r = f @ CHR 0x00 # n \<longleftrightarrow> (rw_FilePath r, rw_SymbolName r) = (f, n)"
    using sep_split [of "CHR 0x00" "rw_FilePath r" f "rw_SymbolName r" n] t Cons.prems(2) by (auto simp: text_ok_def)
  with Cons.IH [OF ok Cons.prems(2)] show ?case by auto
qed simp

lemma map_of_hashes:
  assumes "rows_ok rows" "text_ok f"
  shows "map_of (hashes_of k rows) (f @ CHR 0x00 # n) = index_of k rows (f, n)"
proof -
  have "map_of (hashes_of k rows) = map_of (map (\<lambda>r. (rw_FilePath r @ CHR 0x00 # rw_SymbolName r, rw_BodyHash r)) (filter (\<lambda>r. rw_RepoKey r = k) rows))"
    using row_keys_filter [OF assms(1), of k] unfolding hashes_of_def fold_update_map_of by (subst map_of_rev) (simp_all add: comp_def)
  then show ?thesis by (simp only: map_of_hashes_rows [OF assms])
qed

lemma length_hashes:
  assumes "rows_ok rows"
  shows "length (hashes_of k rows) = length (filter (\<lambda>r. rw_RepoKey r = k) rows)"
proof -
  have "distinct (map fst (fold (\<lambda>r. AList.update (rw_FilePath r @ CHR 0x00 # rw_SymbolName r) (rw_BodyHash r)) rs acc))"
    if "distinct (map fst acc)" for rs :: "'a emb_row list" and acc
    using that by (induction rs arbitrary: acc) (simp_all add: distinct_update)
  from this [of "[]"] have "distinct (map fst (hashes_of k rows))" by (simp add: hashes_of_def)
  then have "length (hashes_of k rows) = card (fst ` set (hashes_of k rows))"
    using distinct_card [of "map fst (hashes_of k rows)"] by simp
  moreover have "fst ` set (hashes_of k rows) = set (map (\<lambda>r. rw_FilePath r @ CHR 0x00 # rw_SymbolName r) (filter (\<lambda>r. rw_RepoKey r = k) rows))"
    unfolding keys_hashes_of by auto
  ultimately show ?thesis using distinct_card [OF row_keys_filter [OF assms, of k]] by simp
qed

end
