(* ===== verification/EmbedIndex.thy ===== *)
theory EmbedIndex
  imports EmbedStore
begin

text \<open>
  Indexing of a repository (\<open>internal/embeddings/pipeline.go\<close>, \<open>pipeline_sparse.go\<close>, \<open>pipeline_helpers.go\<close>): the whole run with its
  fast path, the comparison of hashes, the reconciliation with the disk, the deletion of orphans behind the shrink
  guard, the chunks that are embedded and stored one after the other, the state row, and the compensation when a
  first index fails.
\<close>

definition maxIndexFileBytes :: int where "maxIndexFileBytes = 512 * 1024"
definition indexChunkSize :: nat where "indexChunkSize = 100"
definition sparseServerMaxDocs :: nat where "sparseServerMaxDocs = 32"

record symbolEntry =
  en_sym :: EmbSymbol
  en_RelPath :: string
  en_hash :: "64 word"
  en_embedText :: string

record IndexResult =
  Indexed :: nat
  Skipped :: nat
  Total :: nat

subsection \<open>The symbols of the repository\<close>

text \<open>What a read of a whole file gives: \<open>os.ReadFile\<close> follows links, a directory cannot be read.\<close>

definition read_file :: "'v embed_env \<Rightarrow> string \<Rightarrow> string option" where
  "read_file E p = (case disk E p of Found d \<Rightarrow> if de_IsDir d then None else de_Source d | _ \<Rightarrow> None)"

definition file_symbols :: "'v embed_env \<Rightarrow> File \<Rightarrow> EmbSymbol list" where
  "file_symbols E f =
     (case read_file E (f_Path f) of
        None \<Rightarrow> []
      | Some source \<Rightarrow>
          (case parse E (f_Path f) (f_Language f) source of
             None \<Rightarrow> []
           | Some syms \<Rightarrow> filter (\<lambda>s. IsEmbeddableKindExpanded (sym_Kind s) (expandSymbolKinds E)) syms))"

definition collectSymbols :: "'v embed_env \<Rightarrow> index_error + (EmbSymbol \<times> string) list" where
  "collectSymbols E =
     (case ingested E of
        Inl _ \<Rightarrow> Inl IngestError
      | Inr files \<Rightarrow>
          Inr (concat (map (\<lambda>f. if IsTestFile (env_unicode E) (f_RelPath f) then []
                               else map (\<lambda>s. (s, f_RelPath f)) (file_symbols E f)) files)))"

definition sym_key :: "string \<Rightarrow> string \<Rightarrow> string" where
  "sym_key relPath name = relPath @ CHR 0x00 # name"

text \<open>The entries to embed, the keys that were seen (the latest first) and the number of unchanged symbols.\<close>

definition entry_of :: "bool \<Rightarrow> EmbSymbol \<times> string \<Rightarrow> symbolEntry" where
  "entry_of expanded x =
     (let t = buildEmbedTextExpanded (fst x) (snd x) expanded
      in \<lparr>en_sym = fst x, en_RelPath = snd x, en_hash = TextHash t, en_embedText = t\<rparr>)"

fun filter_loop :: "bool \<Rightarrow> (string \<times> 64 word) list \<Rightarrow> (EmbSymbol \<times> string) list \<Rightarrow>
      symbolEntry list \<times> string list \<times> nat \<Rightarrow> symbolEntry list \<times> string list \<times> nat" where
  "filter_loop expanded existing [] acc = acc"
| "filter_loop expanded existing (x # xs) (toEmbed, seen, skipped) =
     (let key = sym_key (snd x) (sym_Name (fst x)) in
      if key \<in> set seen then filter_loop expanded existing xs (toEmbed, seen, skipped)
      else
        let e = entry_of expanded x in
        if map_of existing key = Some (en_hash e)
        then filter_loop expanded existing xs (toEmbed, key # seen, skipped + 1)
        else filter_loop expanded existing xs (toEmbed @ [e], key # seen, skipped))"

definition filterSymbols :: "(EmbSymbol \<times> string) list \<Rightarrow> (string \<times> 64 word) list \<Rightarrow> bool \<Rightarrow>
      symbolEntry list \<times> string list \<times> nat" where
  "filterSymbols symbols existing expanded = filter_loop expanded existing symbols ([], [], 0)"

subsection \<open>Embedding a chunk\<close>

fun sparse_loop :: "(nat \<Rightarrow> (string \<Rightarrow> string) option) \<Rightarrow> string list list \<Rightarrow> string list \<Rightarrow> ('v emb_db, string list option) state" where
  "sparse_loop client [] out = State_Monad.return (Some out)"
| "sparse_loop client (batch # batches) out = do {
     v \<leftarrow> service client;
     case v of None \<Rightarrow> State_Monad.return None | Some f \<Rightarrow> sparse_loop client batches (out @ map f batch)
   }"

definition embedSparseBatched :: "'v embed_env \<Rightarrow> (nat \<Rightarrow> (string \<Rightarrow> string) option) \<Rightarrow> string list \<Rightarrow>
      ('v emb_db, string list option) state" where
  "embedSparseBatched E client texts =
     sparse_loop client (chunks (if sparseMaxBatch E = 0 then sparseServerMaxDocs else sparseMaxBatch E) texts) []"

definition runSparseWrites :: "'v embed_env \<Rightarrow> 'v emb_row list \<Rightarrow> string list \<Rightarrow> ('v emb_db, unit) state" where
  "runSparseWrites E records lits =
     (let batch = map (\<lambda>(r, l). \<lparr>su_RepoKey = rw_RepoKey r, su_FilePath = rw_FilePath r, su_SymbolName = rw_SymbolName r, su_Literal = l\<rparr>)
                   (filter (\<lambda>(r, l). l \<noteq> []) (zip records lits))
      in if batch = [] then State_Monad.return ()
         else do { _ \<leftarrow> UpdateSparseEmbeddingsBatch E batch; State_Monad.return () })"

definition record_of :: "'v embed_env \<Rightarrow> string \<Rightarrow> (string \<Rightarrow> 'v) \<Rightarrow> symbolEntry \<Rightarrow> 'v emb_row" where
  "record_of E repoKey vec e =
     \<lparr>rw_RepoKey = repoKey, rw_FilePath = en_RelPath e, rw_SymbolName = sym_Name (en_sym e), rw_SymbolKind = sym_Kind (en_sym e),
      rw_Language = sym_Language (en_sym e), rw_StartLine = unat (sym_StartLine (en_sym e)), rw_BodyHash = en_hash e,
      rw_EmbedModel = embedModel E, rw_Embedding = vec (en_embedText e), rw_Sparse = None, rw_UpdatedAt = 0\<rparr>"

definition embedAndUpsert :: "'v embed_env \<Rightarrow> string \<Rightarrow> symbolEntry list \<Rightarrow> ('v, nat) db_io" where
  "embedAndUpsert E repoKey chunk = do {
     vectors \<leftarrow> service (dense E);
     case vectors of
       None \<Rightarrow> State_Monad.return (Inl EmbedError)
     | Some vec \<Rightarrow> do {
         lits \<leftarrow> (case sparseClient E of
                    None \<Rightarrow> State_Monad.return None
                  | Some client \<Rightarrow> embedSparseBatched E client (map en_embedText chunk));
         let records = map (record_of E repoKey vec) chunk;
         r \<leftarrow> Upsert E records;
         case r of
           Inl e \<Rightarrow> State_Monad.return (Inl e)
         | Inr _ \<Rightarrow> do {
             _ \<leftarrow> (case lits of None \<Rightarrow> State_Monad.return () | Some ls \<Rightarrow> runSparseWrites E records ls);
             State_Monad.return (Inr (length chunk))
           }
       }
   }"

fun embed_loop :: "'v embed_env \<Rightarrow> string \<Rightarrow> symbolEntry list list \<Rightarrow> nat \<Rightarrow> ('v, nat) db_io" where
  "embed_loop E repoKey [] indexed = State_Monad.return (Inr indexed)"
| "embed_loop E repoKey (c # cs) indexed = do {
     cancelled \<leftarrow> service (ctx_done E);
     if cancelled then State_Monad.return (Inl CtxError)
     else do {
       n \<leftarrow> embedAndUpsert E repoKey c;
       case n of Inl e \<Rightarrow> State_Monad.return (Inl e) | Inr k \<Rightarrow> embed_loop E repoKey cs (indexed + k)
     }
   }"

definition embedChunks :: "'v embed_env \<Rightarrow> string \<Rightarrow> symbolEntry list \<Rightarrow> ('v, nat) db_io" where
  "embedChunks E repoKey toEmbed = embed_loop E repoKey (chunks indexChunkSize toEmbed) 0"

subsection \<open>The state row and the compensation\<close>

definition writeRepoState :: "'v embed_env \<Rightarrow> string \<Rightarrow> string \<Rightarrow> string \<Rightarrow> ('v, unit) db_io" where
  "writeRepoState E repoKey sha sourcePath = SetRepoStateWithPath E repoKey sha (embedModel E) sourcePath"

definition writeRepoStateWithRetry :: "'v embed_env \<Rightarrow> string \<Rightarrow> string \<Rightarrow> string \<Rightarrow> ('v, unit) db_io" where
  "writeRepoStateWithRetry E repoKey sha sourcePath = do {
     r \<leftarrow> writeRepoState E repoKey sha sourcePath;
     case r of
       Inr _ \<Rightarrow> State_Monad.return (Inr ())
     | Inl e \<Rightarrow> do {
         cancelled \<leftarrow> service (ctx_done E);
         if cancelled then State_Monad.return (Inl e) else writeRepoState E repoKey sha sourcePath
       }
   }"

definition firstIndexVerdict :: "bool \<Rightarrow> bool \<Rightarrow> bool \<Rightarrow> nat \<Rightarrow> bool" where
  "firstIndexVerdict prevErr stateExists existErr existingRows \<longleftrightarrow>
     \<not> prevErr \<and> \<not> existErr \<and> \<not> stateExists \<and> existingRows = 0"

definition compensateFirstIndexOrphan :: "'v embed_env \<Rightarrow> string \<Rightarrow> ('v emb_db, orphanCompensation) state" where
  "compensateFirstIndexOrphan E repoKey = do {
     ex \<leftarrow> RepoStateExists E repoKey;
     case ex of
       Inl _ \<Rightarrow> State_Monad.return orphanLeftInPlace
     | Inr True \<Rightarrow> State_Monad.return orphanSuperseded
     | Inr False \<Rightarrow> do {
         d \<leftarrow> DeleteRepo E repoKey;
         State_Monad.return (case d of Inl _ \<Rightarrow> orphanLeftInPlace | Inr _ \<Rightarrow> orphanRolledBack)
       }
   }"

text \<open>
  \<open>0.7 * n\<close> in floating point differs from the exact product by less than the distance to the next integer below, so the
  comparison with an integer is the exact one.
\<close>

definition shrinkGuardFires :: "nat \<Rightarrow> nat \<Rightarrow> bool" where
  "shrinkGuardFires seen existing \<longleftrightarrow> existing > 0 \<and> 10 * seen < 7 * existing"

definition deleteIntraKeyOrphans :: "'v embed_env \<Rightarrow> string \<Rightarrow> string list \<Rightarrow> (string \<times> 64 word) list \<Rightarrow> string list \<Rightarrow> ('v emb_db, unit) state" where
  "deleteIntraKeyOrphans E repoKey seen existing orphanKeys =
     (if shrinkGuardFires (length seen) (length existing) then State_Monad.return ()
      else do { _ \<leftarrow> DeleteExplicitOrphans E repoKey orphanKeys; State_Monad.return () })"

definition advanceStateNoEmbed :: "'v embed_env \<Rightarrow> string \<Rightarrow> string \<Rightarrow> IndexResult \<Rightarrow> ('v emb_db, unit) state" where
  "advanceStateNoEmbed E repoKey rootDir result = do {
     c \<leftarrow> CountEmbeddings E repoKey;
     if c = Inr 0 \<and> Total result > 0 then State_Monad.return ()
     else if main_sha E \<noteq> [] then do { _ \<leftarrow> writeRepoState E repoKey (main_sha E) rootDir; State_Monad.return () }
     else State_Monad.return ()
   }"

subsection \<open>Reconciliation with the disk\<close>

definition is_err :: "'e + 'a \<Rightarrow> bool" where
  "is_err r = (case r of Inl _ \<Rightarrow> True | Inr _ \<Rightarrow> False)"

definition reconcile_with :: "'v embed_env \<Rightarrow> string \<Rightarrow> string \<Rightarrow> string \<Rightarrow> bool \<Rightarrow> ('v emb_db, unit) state" where
  "reconcile_with E repoKey rootDir sourcePath dryRun =
     (let fallback = sourcePath = [] \<and> rootDir \<noteq> [];
          reconcileRoot = (if fallback then rootDir else sourcePath)
      in do {
        r \<leftarrow> ReconcileRepoPaths E repoKey reconcileRoot dryRun;
        if dryRun \<and> is_err r \<or> \<not> fallback then State_Monad.return ()
        else do { _ \<leftarrow> BackfillRepoSourcePath E repoKey rootDir; State_Monad.return () }
      })"

definition run_reconcile :: "'v embed_env \<Rightarrow> string \<Rightarrow> string \<Rightarrow> bool \<Rightarrow> ('v emb_db, unit) state" where
  "run_reconcile E repoKey rootDir dryRun = do {
     sp \<leftarrow> GetRepoSourcePath E repoKey;
     case sp of Inl _ \<Rightarrow> State_Monad.return () | Inr sourcePath \<Rightarrow> reconcile_with E repoKey rootDir sourcePath dryRun
   }"

definition runFastPathDryRunReconcile :: "'v embed_env \<Rightarrow> string \<Rightarrow> string \<Rightarrow> ('v emb_db, unit) state" where
  "runFastPathDryRunReconcile E repoKey rootDir = run_reconcile E repoKey rootDir True"

definition checkSameSHAFastPath :: "'v embed_env \<Rightarrow> string \<Rightarrow> string \<Rightarrow> index_error + string \<Rightarrow> ('v emb_db, IndexResult option) state" where
  "checkSameSHAFastPath E repoKey rootDir prev =
     (if prev \<noteq> Inr (main_sha E) then State_Monad.return None
      else do {
        c \<leftarrow> CountEmbeddings E repoKey;
        case c of
          Inl _ \<Rightarrow> State_Monad.return None
        | Inr n \<Rightarrow>
            if n > 0 then do {
              _ \<leftarrow> runFastPathDryRunReconcile E repoKey rootDir;
              _ \<leftarrow> writeRepoState E repoKey (main_sha E) rootDir;
              State_Monad.return (Some \<lparr>Indexed = 0, Skipped = 0, Total = 0\<rparr>)
            } else State_Monad.return None
      })"

subsection \<open>The run\<close>

definition index_rest :: "'v embed_env \<Rightarrow> string \<Rightarrow> string \<Rightarrow> bool \<Rightarrow> (EmbSymbol \<times> string) list \<Rightarrow> (string \<times> 64 word) list \<Rightarrow>
      ('v, IndexResult) db_io" where
  "index_rest E repoKey rootDir firstIndex symbols existing =
     (let (toEmbed, seen, skipped) = filterSymbols symbols existing (expandSymbolKinds E);
          result = \<lparr>Indexed = 0, Skipped = skipped, Total = length symbols\<rparr>;
          orphanKeys = filter (\<lambda>k. k \<notin> set seen) (map fst existing)
      in do {
        _ \<leftarrow> run_reconcile E repoKey rootDir False;
        if toEmbed = [] then do {
          _ \<leftarrow> deleteIntraKeyOrphans E repoKey seen existing orphanKeys;
          _ \<leftarrow> advanceStateNoEmbed E repoKey rootDir result;
          _ \<leftarrow> CountEmbeddings E repoKey;
          State_Monad.return (Inr result)
        }
        else do {
          emb \<leftarrow> embedChunks E repoKey toEmbed;
          case emb of
            Inl e \<Rightarrow>
              if firstIndex then do {
                outcome \<leftarrow> compensateFirstIndexOrphan E repoKey;
                State_Monad.return (Inl (FirstIndexFailed outcome e))
              } else State_Monad.return (Inl e)
          | Inr n \<Rightarrow> do {
              _ \<leftarrow> deleteIntraKeyOrphans E repoKey seen existing orphanKeys;
              st \<leftarrow> (if main_sha E = [] then State_Monad.return (Inr ())
                     else writeRepoStateWithRetry E repoKey (main_sha E) rootDir);
              case st of
                Inl e \<Rightarrow>
                  if firstIndex then do {
                    outcome \<leftarrow> compensateFirstIndexOrphan E repoKey;
                    State_Monad.return (Inl (FirstIndexFailed outcome e))
                  } else State_Monad.return (Inr (result\<lparr>Indexed := n\<rparr>))
              | Inr _ \<Rightarrow> State_Monad.return (Inr (result\<lparr>Indexed := n\<rparr>))
            }
        }
      })"

definition index_collected :: "'v embed_env \<Rightarrow> string \<Rightarrow> string \<Rightarrow> index_error + string \<Rightarrow> index_error + bool \<Rightarrow>
      (EmbSymbol \<times> string) list \<Rightarrow> ('v, IndexResult) db_io" where
  "index_collected E repoKey rootDir prev ex symbols = do {
     h \<leftarrow> GetHashes E repoKey;
     case h of
       Inl e \<Rightarrow> State_Monad.return (Inl e)
     | Inr existing \<Rightarrow>
         index_rest E repoKey rootDir
           (firstIndexVerdict (is_err prev) (ex = Inr True) (is_err ex) (length existing)) symbols existing
   }"

definition indexRepoWithTool :: "'v embed_env \<Rightarrow> string \<Rightarrow> string \<Rightarrow> ('v, IndexResult) db_io" where
  "indexRepoWithTool E repoKey rootDir = do {
     prev \<leftarrow> GetRepoState E repoKey;
     ex \<leftarrow> (if prev = Inr [] then RepoStateExists E repoKey else State_Monad.return (Inr True));
     fast \<leftarrow> (if main_sha E \<noteq> [] then checkSameSHAFastPath E repoKey rootDir prev else State_Monad.return None);
     case fast of
       Some r \<Rightarrow> State_Monad.return (Inr r)
     | None \<Rightarrow>
         (case collectSymbols E of
            Inl e \<Rightarrow> State_Monad.return (Inl e)
          | Inr symbols \<Rightarrow> index_collected E repoKey rootDir prev ex symbols)
   }"

definition IndexRepo :: "'v embed_env \<Rightarrow> string \<Rightarrow> string \<Rightarrow> ('v, IndexResult) db_io" where
  "IndexRepo E repoKey rootDir =
     (if slot_free E then indexRepoWithTool E repoKey rootDir
      else State_Monad.return (Inr \<lparr>Indexed = 0, Skipped = 0, Total = 0\<rparr>))"

definition InvalidateIfModelChanged :: "'v embed_env \<Rightarrow> string \<Rightarrow> ('v emb_db, bool) state" where
  "InvalidateIfModelChanged E repoKey =
     (if embedModel E = [] then State_Monad.return False
      else do {
        r \<leftarrow> InvalidateRepoIfModelChanged E repoKey (embedModel E);
        State_Monad.return (r = Inr True)
      })"

text \<open>The entry for a background run, with the run it starts when the slot is free.\<close>

definition IndexRepoAsyncWithTool :: "'v embed_env \<Rightarrow> string \<Rightarrow> string \<Rightarrow> ('v emb_db, bool) state" where
  "IndexRepoAsyncWithTool E repoKey rootDir = do {
     _ \<leftarrow> InvalidateIfModelChanged E repoKey;
     if slot_free E then do { _ \<leftarrow> indexRepoWithTool E repoKey rootDir; State_Monad.return True }
     else State_Monad.return False
   }"

subsection \<open>Other repositories\<close>

lemma keeps_writeRepoState [keeps_rules]:
  "keeps (only_repo k R S) (writeRepoState E k sha sp)" "keeps (only_repo k R S) (writeRepoStateWithRetry E k sha sp)"
  unfolding writeRepoState_def writeRepoStateWithRetry_def by (intro keeps_rules)+

lemma keeps_sparse_loop [keeps_rules]: "keeps I (sparse_loop client batches out)"
  by (induction batches arbitrary: out) (auto intro!: keeps_rules)

lemma keeps_embedSparseBatched [keeps_rules]: "keeps I (embedSparseBatched E client texts)"
  unfolding embedSparseBatched_def by (rule keeps_sparse_loop)

lemma sparse_updates_repo:
  "(\<And>r. r \<in> set records \<Longrightarrow> rw_RepoKey r = k) \<Longrightarrow>
   list_all (\<lambda>u. su_RepoKey u = k) (map (\<lambda>(r, l). \<lparr>su_RepoKey = rw_RepoKey r, su_FilePath = rw_FilePath r, su_SymbolName = rw_SymbolName r, su_Literal = l\<rparr>)
      (filter (\<lambda>(r, l). l \<noteq> []) (zip records lits)))"
  by (auto simp: list_all_iff dest: set_zip_leftD)

lemma only_repo_sparse_writes [keeps_rules]:
  "(\<And>r. r \<in> set records \<Longrightarrow> rw_RepoKey r = k) \<Longrightarrow> keeps (only_repo k R S) (runSparseWrites E records lits)"
  unfolding runSparseWrites_def Let_def by (intro keeps_rules sparse_updates_repo)

lemma record_of_repo: "r \<in> set (map (record_of E k vec) chunk) \<Longrightarrow> rw_RepoKey r = k"
  by (auto simp: record_of_def)

lemma only_repo_embed [keeps_rules]: "keeps (only_repo k R S) (embedAndUpsert E k chunk)"
  unfolding embedAndUpsert_def Let_def by (intro keeps_rules record_of_repo)

lemma only_repo_embed_loop: "keeps (only_repo k R S) (embed_loop E k cs n)"
  by (induction cs arbitrary: n) (auto intro!: keeps_rules)

lemma only_repo_parts [keeps_rules]:
  "keeps (only_repo k R S) (embedChunks E k es)"
  "keeps (only_repo k R S) (compensateFirstIndexOrphan E k)"
  "keeps (only_repo k R S) (deleteIntraKeyOrphans E k seen existing ks)"
  "keeps (only_repo k R S) (advanceStateNoEmbed E k rt res)"
  "keeps (only_repo k R S) (run_reconcile E k rt dry)"
  unfolding embedChunks_def compensateFirstIndexOrphan_def deleteIntraKeyOrphans_def advanceStateNoEmbed_def run_reconcile_def
    reconcile_with_def Let_def
  by (intro only_repo_embed_loop keeps_rules)+

lemma only_repo_run [keeps_rules]:
  "keeps (only_repo k R S) (indexRepoWithTool E k rt)" "keeps (only_repo k R S) (InvalidateIfModelChanged E k)"
  unfolding indexRepoWithTool_def index_collected_def index_rest_def checkSameSHAFastPath_def runFastPathDryRunReconcile_def Let_def InvalidateIfModelChanged_def
  by (intro keeps_rules)+

subsection \<open>Live rows\<close>

text \<open>
  The rows of repository \<open>k\<close> for the keys \<open>L\<close> are there, and the recorded root is one of \<open>SP\<close>.
\<close>

definition lives :: "string \<Rightarrow> (string \<times> string) set \<Rightarrow> string set \<Rightarrow> 'v emb_row list \<Rightarrow> (string \<Rightarrow> repo_row option) \<Rightarrow> bool" where
  "lives k L SP rows st \<longleftrightarrow> (\<forall>x\<in>L. (k, x) \<in> row_key ` set rows) \<and> (\<forall>s. st k = Some s \<longrightarrow> rs_SourcePath s \<in> SP)"

lemma lives_delete:
  assumes "\<And>w r x. P w r \<Longrightarrow> x \<in> L \<Longrightarrow> row_key r \<noteq> (k, x)"
  shows "keeps (lives k L SP) (db_delete E P)"
proof (rule keeps_db_delete)
  fix w :: "'a emb_db"
  assume l: "lives k L SP (emb_rows w) (repo_rows w)"
  have "(k, x) \<in> row_key ` set (filter (\<lambda>r. \<not> P w r) (emb_rows w))" if "x \<in> L" for x
  proof -
    from l that obtain r where "r \<in> set (emb_rows w)" "row_key r = (k, x)" by (force simp: lives_def)
    with assms [OF _ that, of w r] show ?thesis by (force simp: image_iff)
  qed
  with l show "lives k L SP (filter (\<lambda>r. \<not> P w r) (emb_rows w)) (repo_rows w)" by (simp add: lives_def)
qed

lemma keys_fold_upsert: "row_key ` set rows \<subseteq> row_key ` set (fold (\<lambda>r. upsert_row (r\<lparr>rw_UpdatedAt := t\<rparr>)) records rows)"
proof (induction records arbitrary: rows)
  case (Cons r records)
  show ?case using Cons [of "upsert_row (r\<lparr>rw_UpdatedAt := t\<rparr>) rows"] by (auto simp: keys_upsert_row)
qed simp

lemma lives_mono: "lives k L SP rows st \<Longrightarrow> row_key ` set rows \<subseteq> row_key ` set rows' \<Longrightarrow> lives k L SP rows' st"
  unfolding lives_def by blast

lemma lives_Upsert [keeps_rules]: "keeps (lives k L SP) (Upsert E records)"
  unfolding Upsert_def upsertBatch_def
  by (intro keeps_in_turn keeps_rules keeps_db_call) (auto simp: on_rows_def intro!: lives_mono [OF _ keys_fold_upsert])

lemma lives_sparse [keeps_rules]: "keeps (lives k L SP) (UpdateSparseEmbeddingsBatch E us)"
  unfolding UpdateSparseEmbeddingsBatch_def updateSparseEmbeddingsBatchChunk_def
  by (intro keeps_in_turn keeps_db_call) (auto simp: on_rows_def image_image elim!: lives_mono)

lemma lives_states [keeps_rules]:
  "sp \<in> SP \<Longrightarrow> keeps (lives k L SP) (SetRepoStateWithPath E k sha model sp)"
  "sp \<in> SP \<Longrightarrow> keeps (lives k L SP) (BackfillRepoSourcePath E k sp)"
  unfolding SetRepoStateWithPath_def BackfillRepoSourcePath_def
  by (auto intro!: keeps_rules keeps_db_call simp: lives_def split: option.split)

lemma cut_key_Some: "cut_key key = Some (f, n) \<Longrightarrow> key = sym_key f n"
proof -
  assume "cut_key key = Some (f, n)"
  then obtain i where i: "str_index key [CHR 0x00] = Some i" "f = take i key" "n = drop (i + 1) key"
    by (auto simp: cut_key_def split: option.splits)
  from str_index_SomeD [OF i(1)] obtain z where z: "drop i key = CHR 0x00 # z" by (auto simp: prefix_def)
  then have "drop (i + 1) key = z" by (metis Suc_eq_plus1 drop_Suc list.sel(3) tl_drop)
  with z have "key = take i key @ CHR 0x00 # drop (i + 1) key" by (metis append_take_drop_id)
  with i show ?thesis by (simp add: sym_key_def)
qed

lemma lives_orphans [keeps_rules]:
  assumes "\<And>f n. (f, n) \<in> L \<Longrightarrow> sym_key f n \<notin> set ks"
  shows "keeps (lives k L SP) (DeleteExplicitOrphans E k ks)"
proof -
  have "x \<notin> L" if "x \<in> set pairs" "pairs \<in> set (chunks intraKeyOrphanChunkSize (List.map_filter cut_key ks))" for x pairs
  proof
    assume "x \<in> L"
    from that set_chunks [of intraKeyOrphanChunkSize "List.map_filter cut_key ks"] have "x \<in> set (List.map_filter cut_key ks)" by blast
    then obtain key where "key \<in> set ks" "cut_key key = Some x" by (auto simp: map_filter_def)
    with cut_key_Some [of key "fst x" "snd x"] assms [of "fst x" "snd x"] \<open>x \<in> L\<close> show False by simp
  qed
  then show ?thesis unfolding DeleteExplicitOrphans_def deleteExplicitOrphanChunk_def
    by (intro keeps_rules keeps_in_turn lives_delete) (auto simp: row_key_def)
qed

lemma lives_reconcile [keeps_rules]:
  assumes "\<And>f n. (f, n) \<in> L \<Longrightarrow> sp \<noteq> [] \<Longrightarrow> stat_ok (disk E (path_join [sp, f]))"
  shows "keeps (lives k L SP) (ReconcileRepoPaths E k sp dry)"
proof -
  have "keeps (lives k L SP) (DeleteRowsByFilePaths E k (map fst stale))"
    if "CheckStalePaths E sp cnts = Some stale" "sp \<noteq> []" for stale cnts
  proof -
    from that(1) have "\<forall>pc\<in>set stale. \<not> stat_ok (disk E (path_join [sp, fst pc]))"
      by (auto simp: CheckStalePaths_def split: stat_result.splits if_splits)
    with assms that(2) show ?thesis unfolding DeleteRowsByFilePaths_def
      by (intro keeps_rules lives_delete) (auto simp: row_key_def)
  qed
  then show ?thesis unfolding ReconcileRepoPaths_def Let_def by (intro keeps_rules) simp
qed

lemma lives_run_reconcile [keeps_rules]:
  assumes "\<And>f n sp. (f, n) \<in> L \<Longrightarrow> sp \<in> SP \<Longrightarrow> sp \<noteq> [] \<Longrightarrow> stat_ok (disk E (path_join [sp, f]))" and "rt \<in> SP" and "[] \<in> SP"
  shows "keeps (lives k L SP) (run_reconcile E k rt dry)"
  unfolding run_reconcile_def GetRepoSourcePath_def
proof (rule keeps_read_bind [where V = "\<lambda>sp. sp \<in> SP"])
  show "(case repo_rows w k of None \<Rightarrow> [] | Some s \<Rightarrow> rs_SourcePath s) \<in> SP"
    if "lives k L SP (emb_rows w) (repo_rows w)" for w :: "'a emb_db"
    using that assms(3) by (auto simp: lives_def split: option.split)
next
  fix sp
  assume "sp \<in> SP"
  with assms show "keeps (lives k L SP) (case Inr sp of Inl x \<Rightarrow> State_Monad.return () | Inr sourcePath \<Rightarrow> reconcile_with E k rt sourcePath dry)"
    unfolding reconcile_with_def Let_def by (auto intro!: keeps_rules)
qed (auto intro: keeps_rules)

lemma lives_embedAndUpsert [keeps_rules]: "keeps (lives k L SP) (embedAndUpsert E k' chunk)"
  unfolding embedAndUpsert_def runSparseWrites_def Let_def by (intro keeps_rules)

lemma lives_embedChunks [keeps_rules]: "keeps (lives k L SP) (embedChunks E k' es)"
proof -
  have "keeps (lives k L SP) (embed_loop E k' cs n)" for cs n
    by (induction cs arbitrary: n) (auto intro!: keeps_rules)
  then show ?thesis by (simp add: embedChunks_def)
qed

lemma lives_writeRepoState [keeps_rules]:
  "sp \<in> SP \<Longrightarrow> keeps (lives k L SP) (writeRepoState E k sha sp)" "sp \<in> SP \<Longrightarrow> keeps (lives k L SP) (writeRepoStateWithRetry E k sha sp)"
  unfolding writeRepoState_def writeRepoStateWithRetry_def by (intro keeps_rules; assumption)+

lemma filter_loop_seen:
  "filter_loop expanded existing xs (es, seen, n) = (es', seen', n') \<Longrightarrow>
   set seen' = set seen \<union> (\<lambda>x. sym_key (snd x) (sym_Name (fst x))) ` set xs"
proof (induction xs arbitrary: es seen n)
  case (Cons x xs)
  from Cons.prems show ?case
    by (auto simp: Let_def split: if_splits dest!: Cons.IH)
qed simp

lemma lives_index_rest:
  assumes "\<And>f n sp. (f, n) \<in> L \<Longrightarrow> sp \<in> SP \<Longrightarrow> sp \<noteq> [] \<Longrightarrow> stat_ok (disk E (path_join [sp, f]))" and "rt \<in> SP" and "[] \<in> SP"
    and "\<And>f n. (f, n) \<in> L \<Longrightarrow> sym_key f n \<in> (\<lambda>x. sym_key (snd x) (sym_Name (fst x))) ` set symbols"
    and "firstIndex \<Longrightarrow> L = {}"
  shows "keeps (lives k L SP) (index_rest E k rt firstIndex symbols existing)"
proof -
  obtain es seen n where f: "filterSymbols symbols existing (expandSymbolKinds E) = (es, seen, n)" by (cases "filterSymbols symbols existing (expandSymbolKinds E)")
  then have seen: "set seen = (\<lambda>x. sym_key (snd x) (sym_Name (fst x))) ` set symbols"
    unfolding filterSymbols_def by (auto dest!: filter_loop_seen)
  have orphans: "keeps (lives k L SP) (deleteIntraKeyOrphans E k seen existing (filter (\<lambda>key. key \<notin> set seen) (map fst existing)))"
    unfolding deleteIntraKeyOrphans_def using assms(4) by (intro keeps_rules) (auto simp: seen)
  have comp: "keeps (lives k L SP) (compensateFirstIndexOrphan E k)" if firstIndex
    unfolding compensateFirstIndexOrphan_def DeleteRepo_def using assms(5) [OF that] by (intro keeps_rules lives_delete) simp
  show ?thesis
    unfolding index_rest_def f prod.case Let_def advanceStateNoEmbed_def using assms(1-3)
    by (intro keeps_rules orphans comp) blast+
qed

lemma lives_run:
  assumes "\<And>f n sp. (f, n) \<in> L \<Longrightarrow> sp \<in> SP \<Longrightarrow> sp \<noteq> [] \<Longrightarrow> stat_ok (disk E (path_join [sp, f]))" and "rt \<in> SP" and "[] \<in> SP"
    and "\<And>f n symbols. (f, n) \<in> L \<Longrightarrow> collectSymbols E = Inr symbols \<Longrightarrow> sym_key f n \<in> (\<lambda>x. sym_key (snd x) (sym_Name (fst x))) ` set symbols"
  shows "keeps (lives k L SP) (indexRepoWithTool E k rt)"
proof -
  have fast: "keeps (lives k L SP) (checkSameSHAFastPath E k rt prev)" for prev
    unfolding checkSameSHAFastPath_def runFastPathDryRunReconcile_def using assms(1-3) by (intro keeps_rules) blast+
  have "keeps (lives k L SP) (index_collected E k rt prev ex symbols)" if "collectSymbols E = Inr symbols" for prev ex symbols
    unfolding index_collected_def GetHashes_def
  proof (rule keeps_read_bind [where V = "\<lambda>h. L = {} \<or> h \<noteq> []"])
    fix w :: "'a emb_db"
    assume l: "lives k L SP (emb_rows w) (repo_rows w)"
    show "L = {} \<or> hashes_of k (emb_rows w) \<noteq> []"
    proof (cases "L = {}")
      case False
      then obtain x where "x \<in> L" by blast
      with l have "(k, x) \<in> row_key ` set (emb_rows w)" unfolding lives_def by blast
      then show ?thesis by (auto simp: row_key_def hashes_of_Nil)
    qed simp
  next
    fix h :: "(string \<times> 64 word) list"
    assume "L = {} \<or> h \<noteq> []"
    then have "firstIndexVerdict (is_err prev) (ex = Inr True) (is_err ex) (length h) \<Longrightarrow> L = {}" by (auto simp: firstIndexVerdict_def)
    then show "keeps (lives k L SP) (case Inr h of Inl e \<Rightarrow> State_Monad.return (Inl e)
      | Inr existing \<Rightarrow> index_rest E k rt (firstIndexVerdict (is_err prev) (ex = Inr True) (is_err ex) (length existing)) symbols existing)"
      unfolding sum.case using assms(4) [OF _ that] by (intro lives_index_rest [OF assms(1-3)])
  qed (auto intro: keeps_rules)
  then show ?thesis unfolding indexRepoWithTool_def by (intro keeps_rules fast)
qed

subsection \<open>A first index that fails\<close>

definition no_rows :: "string \<Rightarrow> 'v emb_row list \<Rightarrow> bool" where
  "no_rows k rows \<longleftrightarrow> list_all (\<lambda>r. rw_RepoKey r \<noteq> k) rows"

definition compensated :: "string \<Rightarrow> orphanCompensation \<Rightarrow> 'v emb_db \<Rightarrow> bool" where
  "compensated k outcome w \<longleftrightarrow>
     (case outcome of orphanRolledBack \<Rightarrow> no_rows k (emb_rows w) | orphanSuperseded \<Rightarrow> repo_rows w k \<noteq> None | orphanLeftInPlace \<Rightarrow> True)"

lemma hoare_compensate: "hoare P (compensateFirstIndexOrphan E k) (compensated k)"
  unfolding compensateFirstIndexOrphan_def RepoStateExists_def
proof (rule hoare_bind)
  show "hoare P (db_read E (\<lambda>w. repo_rows w k \<noteq> None)) (\<lambda>r w. r = Inr True \<longrightarrow> repo_rows w k \<noteq> None)"
    unfolding db_read_def by (rule hoare_db_call) auto
next
  fix r :: "index_error + bool"
  have "hoare (\<lambda>_. True) (DeleteRepo E k) (\<lambda>d w. is_err d \<or> no_rows k (emb_rows w))"
    unfolding DeleteRepo_def db_delete_def by (rule hoare_db_call) (auto simp: is_err_def on_rows_def no_rows_def list_all_iff)
  then show "hoare (\<lambda>w. r = Inr True \<longrightarrow> repo_rows w k \<noteq> None)
     (case r of Inl _ \<Rightarrow> State_Monad.return orphanLeftInPlace | Inr True \<Rightarrow> State_Monad.return orphanSuperseded
      | Inr False \<Rightarrow> do { d \<leftarrow> DeleteRepo E k; State_Monad.return (case d of Inl _ \<Rightarrow> orphanLeftInPlace | Inr _ \<Rightarrow> orphanRolledBack) })
     (compensated k)"
    by (intro hoare_rules hoare_bind [where R = "\<lambda>d w. is_err d \<or> no_rows k (emb_rows w)"])
      (auto simp: compensated_def is_err_def hoare_def split: sum.splits)
qed

definition nothing_yet :: "string \<Rightarrow> 'v emb_row list \<Rightarrow> (string \<Rightarrow> repo_row option) \<Rightarrow> bool" where
  "nothing_yet k rows st \<longleftrightarrow> no_rows k rows \<and> st k = None"

text \<open>What is left when a first index ends.\<close>

definition first_index_end :: "string \<Rightarrow> index_error + IndexResult \<Rightarrow> 'v emb_db \<Rightarrow> bool" where
  "first_index_end k res w \<longleftrightarrow>
     (case res of
        Inr _ \<Rightarrow> no_rows k (emb_rows w) \<or> repo_rows w k \<noteq> None
      | Inl (FirstIndexFailed outcome _) \<Rightarrow> compensated k outcome w
      | Inl _ \<Rightarrow> no_rows k (emb_rows w))"

lemma nothing_yet_reconcile: "keeps (nothing_yet k) (run_reconcile E k rt dry)"
proof -
  have "keeps (nothing_yet k) (db_delete E P)" for P
    by (rule keeps_db_delete) (auto simp: nothing_yet_def no_rows_def list_all_iff)
  moreover have "keeps (nothing_yet k) (BackfillRepoSourcePath E k sp)" for sp
    unfolding BackfillRepoSourcePath_def by (intro keeps_rules keeps_db_call) (auto simp: nothing_yet_def split: option.split)
  ultimately show ?thesis unfolding run_reconcile_def reconcile_with_def ReconcileRepoPaths_def DeleteRowsByFilePaths_def Let_def
    by (intro keeps_rules)
qed

lemma no_rows_keeps: "keeps (\<lambda>rows st. no_rows k rows) (deleteIntraKeyOrphans E k seen existing ks)"
  "keeps (\<lambda>rows st. no_rows k rows) (advanceStateNoEmbed E k rt res)"
  unfolding deleteIntraKeyOrphans_def DeleteExplicitOrphans_def deleteExplicitOrphanChunk_def advanceStateNoEmbed_def writeRepoState_def
    SetRepoStateWithPath_def
  by (auto intro!: keeps_rules keeps_in_turn keeps_db_delete keeps_db_call simp: no_rows_def list_all_iff)

lemma hoare_writeRepoState:
  "hoare P (writeRepoStateWithRetry E k sha sp) (\<lambda>r w. r = Inr () \<longrightarrow> repo_rows w k \<noteq> None)"
proof -
  have one: "hoare P (writeRepoState E k sha sp) (\<lambda>r w. r = Inr () \<longrightarrow> repo_rows w k \<noteq> None)" for P
    unfolding writeRepoState_def SetRepoStateWithPath_def by (rule hoare_db_call) auto
  have tick: "hoare Q (service f) (\<lambda>_ _. True)" for Q and f :: "nat \<Rightarrow> bool" by (simp add: hoare_def)
  show ?thesis unfolding writeRepoStateWithRetry_def
    by (intro hoare_rules hoare_bind [OF one] hoare_bind [OF tick] one) auto
qed

lemma hoare_any: "hoare P m (\<lambda>_ _. True)"
  by (simp add: hoare_def)

lemma first_index_rest:
  assumes "main_sha E \<noteq> []"
  shows "hoare (\<lambda>w. nothing_yet k (emb_rows w) (repo_rows w)) (index_rest E k rt True symbols []) (first_index_end k)"
proof -
  obtain es seen n where f: "filterSymbols symbols [] (expandSymbolKinds E) = (es, seen, n)" by (cases "filterSymbols symbols [] (expandSymbolKinds E)")
  have fail: "hoare P (do { outcome \<leftarrow> compensateFirstIndexOrphan E k; State_Monad.return (Inl (FirstIndexFailed outcome e)) }) (first_index_end k)" for P e
    by (rule hoare_bind [OF hoare_compensate]) (auto simp: first_index_end_def hoare_def)
  note rows = keeps_hoare [OF no_rows_keeps(1) [of k E]] keeps_hoare [OF no_rows_keeps(2) [of k E]]
    keeps_hoare [OF keeps_reads(1), of "\<lambda>rows st. no_rows k rows"]
  show ?thesis
    unfolding index_rest_def f prod.case Let_def using assms
    apply (rule_tac hoare_bind [OF keeps_hoare [OF nothing_yet_reconcile]])
    apply (rule hoare_if)
     apply (rule hoare_weaken [where P = "\<lambda>w. no_rows k (emb_rows w)"])
       apply (rule hoare_bind [OF rows(1)], rule hoare_bind [OF rows(2)], rule hoare_bind [OF rows(3)])
       apply (auto simp: hoare_def first_index_end_def nothing_yet_def)[3]
    apply (rule hoare_bind [OF hoare_any], rule hoare_sum)
     apply (simp add: fail)
    apply (rule hoare_bind [OF hoare_any], simp)
    apply (rule hoare_bind [OF hoare_writeRepoState], rule hoare_sum)
     apply (simp add: fail)
    apply (auto simp: hoare_def first_index_end_def)
    done
qed

lemma first_index_collected:
  assumes "main_sha E \<noteq> []"
  shows "hoare (\<lambda>w. nothing_yet k (emb_rows w) (repo_rows w)) (index_collected E k rt (Inr []) (Inr False) symbols) (first_index_end k)"
  unfolding index_collected_def GetHashes_def
proof (rule hoare_bind [OF hoare_db_read [of "nothing_yet k"]], rule hoare_sum)
  fix r :: "index_error + (string \<times> 64 word) list" and h
  assume r: "r = Inr h"
  have "firstIndexVerdict (is_err (Inr [] :: index_error + string)) (Inr False = (Inr True :: index_error + bool))
      (is_err (Inr False :: index_error + bool)) (length []) = True" by (simp add: firstIndexVerdict_def is_err_def)
  then have rest: "hoare (\<lambda>w. nothing_yet k (emb_rows w) (repo_rows w)) (index_rest E k rt (firstIndexVerdict
      (is_err (Inr [] :: index_error + string)) (Inr False = (Inr True :: index_error + bool)) (is_err (Inr False :: index_error + bool)) (length h))
      symbols h) (first_index_end k)" if "h = []"
    using first_index_rest [OF assms] that by simp
  show "hoare (\<lambda>w. nothing_yet k (emb_rows w) (repo_rows w) \<and>
       (r = Inl DbError \<or> (\<exists>v. emb_rows v = emb_rows w \<and> repo_rows v = repo_rows w \<and> r = Inr (hashes_of k (emb_rows v)))))
     (index_rest E k rt (firstIndexVerdict (is_err (Inr [] :: index_error + string)) (Inr False = (Inr True :: index_error + bool))
       (is_err (Inr False :: index_error + bool)) (length h)) symbols h) (first_index_end k)"
  proof (cases "h = []")
    case True
    show ?thesis by (rule hoare_weaken [OF rest [OF True]]) simp_all
  next
    case False
    have "h = []" if "nothing_yet k rows st" "h = hashes_of k rows" for rows :: "'a emb_row list" and st
      using that by (simp add: hashes_of_Nil nothing_yet_def no_rows_def list_all_iff)
    with False r show ?thesis unfolding hoare_def by (metis (no_types, lifting) sum.distinct(1) sum.inject(2))
  qed
qed (auto simp: hoare_def first_index_end_def nothing_yet_def)

subsection \<open>A small repository\<close>

definition demo_symbol :: EmbSymbol where
  "demo_symbol = \<lparr>sym_Name = ''f'', sym_Kind = ''function'', sym_File = ''a.go'', sym_StartLine = 1, sym_EndLine = 3,
     sym_Receiver = [], sym_Language = ''go'', sym_Signature = ''func f()'', sym_IsPublic = False, sym_Attributes = [],
     sym_Body = ''{}'', sym_DocComment = []\<rparr>"

definition demo_env :: "nat embed_env" where
  "demo_env = \<lparr>fault = (\<lambda>_. Fine), now = int, ctx_done = (\<lambda>_. False), embedModel = ''m'', expandSymbolKinds = False,
     dense = (\<lambda>_. Some length), sparseClient = None, sparseMaxBatch = 0,
     disk = (\<lambda>p. Found \<lparr>de_IsDir = p = ''/x'', de_Regular = True, de_Size = 1, de_Source = Some ''f''\<rparr>),
     main_sha = ''c2'', git_diff = (\<lambda>_ _. Some ''a.go''),
     ingested = Inr [\<lparr>f_Path = ''/x/a.go'', f_RelPath = ''a.go'', f_Language = ''go'', f_Size = 1, f_ModTime = 0\<rparr>],
     parse = (\<lambda>_ _ _. Some [demo_symbol, demo_symbol]), map_order = id, env_unicode = ascii_only, slot_free = True, maxEmbedded = 0\<rparr>"

text \<open>One row is stale, one is up to date, one is of another repository.\<close>

definition demo_row :: "string \<Rightarrow> string \<Rightarrow> string \<Rightarrow> 64 word \<Rightarrow> nat emb_row" where
  "demo_row k f n h = \<lparr>rw_RepoKey = k, rw_FilePath = f, rw_SymbolName = n, rw_SymbolKind = ''function'', rw_Language = ''go'',
     rw_StartLine = 1, rw_BodyHash = h, rw_EmbedModel = ''m'', rw_Embedding = 0, rw_Sparse = None, rw_UpdatedAt = 0\<rparr>"

definition demo_db :: "nat emb_db" where
  "demo_db = \<lparr>emb_rows = [demo_row ''k'' ''a.go'' ''f'' 0, demo_row ''o'' ''a.go'' ''f'' 0],
     repo_rows = [''k'' \<mapsto> \<lparr>rs_HeadSHA = ''c1'', rs_IndexedAt = 0, rs_EmbedModel = ''m'', rs_SourcePath = ''/x''\<rparr>], db_clock = 0\<rparr>"

text \<open>
  C29: A repository with a revision and with neither rows nor a state row has no rows without a state row after its first index, whatever
  fails in the run, provided the two lookups at its start were answered: after a result there is a state row or there are no rows;
  after the error of a failed first index the rows are gone if it says rolled back and a state row backs them if it says
  superseded, while nothing is promised if it says that the compensation failed too; after any other error there are no rows.
\<close>

theorem first_index_leaves_no_orphan:
  assumes "nothing_yet k (emb_rows w) (repo_rows w)" and "fault E (db_clock w) = Fine" and "fault E (db_clock w + 1) = Fine"
    and "main_sha E \<noteq> []" and "run_state (indexRepoWithTool E k rt) w = (res, w')"
  shows "first_index_end k res w'"
proof -
  let ?w = "w\<lparr>db_clock := db_clock w + 2\<rparr>"
  from assms(1) have st: "repo_rows w k = None" by (simp add: nothing_yet_def)
  have "run_state (GetRepoState E k) w = (Inr [], w\<lparr>db_clock := db_clock w + 1\<rparr>)"
    using assms(2) st by (simp add: GetRepoState_def db_read_def db_call_def Let_def)
  moreover have "run_state (RepoStateExists E k) (w\<lparr>db_clock := db_clock w + 1\<rparr>) = (Inr False, ?w)"
    using assms(3) st by (simp add: RepoStateExists_def db_read_def db_call_def Let_def)
  ultimately have run: "(res, w') = run_state (case collectSymbols E of Inl e \<Rightarrow> State_Monad.return (Inl e)
      | Inr symbols \<Rightarrow> index_collected E k rt (Inr []) (Inr False) symbols) ?w"
    using assms(4,5) by (simp add: indexRepoWithTool_def checkSameSHAFastPath_def)
  have start: "nothing_yet k (emb_rows ?w) (repo_rows ?w)" using assms(1) by simp
  show ?thesis
  proof (cases "collectSymbols E")
    case (Inl e)
    then have "e = IngestError" by (auto simp: collectSymbols_def split: sum.splits)
    with run Inl assms(1) show ?thesis by (simp add: first_index_end_def nothing_yet_def)
  next
    case (Inr symbols)
    with run have "run_state (index_collected E k rt (Inr []) (Inr False) symbols) ?w = (res, w')" by simp
    moreover from first_index_collected [OF assms(4)] start
    have "first_index_end k (fst (run_state (index_collected E k rt (Inr []) (Inr False) symbols) ?w))
        (snd (run_state (index_collected E k rt (Inr []) (Inr False) symbols) ?w))" unfolding hoare_def by blast
    ultimately show ?thesis by simp
  qed
qed

theorem first_index_leaves_no_orphan_witness:
  "let E = demo_env\<lparr>fault := (\<lambda>n. if n < 2 then Fine else Unanswered)\<rparr>;
       run = run_state (indexRepoWithTool E ''k'' ''/x'') (demo_db\<lparr>emb_rows := [], repo_rows := Map.empty\<rparr>)
   in first_index_end ''k'' (fst run) (snd run)"
  unfolding Let_def
  by (rule first_index_leaves_no_orphan [OF _ _ _ _ prod.collapse [symmetric]])
    (simp_all add: nothing_yet_def no_rows_def demo_db_def demo_env_def)

end
