(* ===== verification/EmbedExact.thy ===== *)
theory EmbedExact
  imports EmbedIndex GraphMerge
begin

text \<open>
  What an index run computes when nothing fails: the rows of the repository are, for every file and name, the first
  symbol of that name with the hash of its text, and nothing else; only what changed is embedded.
\<close>

definition healthy :: "'v embed_env \<Rightarrow> bool" where
  "healthy E \<longleftrightarrow> (\<forall>n. fault E n = Fine \<and> \<not> ctx_done E n \<and> dense E n \<noteq> None)"

definition entry_key :: "symbolEntry \<Rightarrow> string \<times> string" where
  "entry_key e = (en_RelPath e, sym_Name (en_sym e))"

subsection \<open>Calls that are answered\<close>

lemma fine_db_call:
  assumes "healthy E" and "\<And>w a w' n. P w \<Longrightarrow> op (now E (db_clock w)) w = (a, w') \<Longrightarrow> Q (Inr a) (w'\<lparr>db_clock := n\<rparr>)"
  shows "hoare P (db_call E op) Q"
  using assms unfolding hoare_def db_call_def healthy_def by (auto simp: Let_def split: prod.split)

lemma fine_db_read:
  assumes "healthy E" and "\<And>w n. P w \<Longrightarrow> Q (Inr (f w)) (w\<lparr>db_clock := n\<rparr>)"
  shows "hoare P (db_read E f) Q"
  unfolding db_read_def by (rule fine_db_call [OF assms(1)]) (use assms(2) in auto)

lemma fine_db_delete:
  assumes "healthy E" and "\<And>w n m. P w \<Longrightarrow> Q (Inr m) ((on_rows (filter (\<lambda>r. \<not> D w r)) w)\<lparr>db_clock := n\<rparr>)"
  shows "hoare P (db_delete E D) Q"
  unfolding db_delete_def by (rule fine_db_call [OF assms(1)]) (use assms(2) in auto)

lemma hoare_service: "(\<And>w n. P w \<Longrightarrow> Q (f (db_clock w)) (w\<lparr>db_clock := n\<rparr>)) \<Longrightarrow> hoare P (service f) Q"
  by (simp add: hoare_def service_def)

text \<open>Statements in turn, with an assertion on the list of those that were run.\<close>

lemma hoare_in_turn:
  assumes "\<And>ys x zs. xs = ys @ x # zs \<Longrightarrow> hoare (A ys) (f x) (\<lambda>r w. \<not> is_err r \<and> A (ys @ [x]) w)"
  shows "hoare (A []) (in_turn f xs) (\<lambda>r w. r = Inr () \<and> A xs w)"
proof -
  have "hoare (A ys) (in_turn f zs) (\<lambda>r w. r = Inr () \<and> A xs w)" if "xs = ys @ zs" for ys zs
    using that
  proof (induction zs arbitrary: ys)
    case (Cons z zs)
    show ?case
      unfolding in_turn.simps
      by (rule hoare_bind [OF assms [OF Cons.prems]], rule hoare_sum) (use Cons in \<open>auto simp: hoare_def is_err_def\<close>)
  qed (simp add: hoare_def)
  from this [of "[]" xs] show ?thesis by simp
qed

lemma concat_chunks: "concat (chunks n xs) = xs"
  by (induction n xs rule: chunks.induct) (subst chunks.simps, simp)

lemma hoare_conj_pure: "(p \<Longrightarrow> hoare P m Q) \<Longrightarrow> hoare (\<lambda>w. p \<and> P w) m Q"
  by (auto simp: hoare_def)

subsection \<open>The index after each step\<close>

definition has_index :: "string \<Rightarrow> (string \<times> string \<Rightarrow> 64 word option) \<Rightarrow> 'v emb_row list \<Rightarrow> bool" where
  "has_index k M rows \<longleftrightarrow> rows_ok rows \<and> index_of k rows = M"

definition put_entries :: "symbolEntry list \<Rightarrow> (string \<times> string \<Rightarrow> 64 word option) \<Rightarrow> string \<times> string \<Rightarrow> 64 word option" where
  "put_entries es = fold (\<lambda>e M. M(entry_key e \<mapsto> en_hash e)) es"

lemma put_entries_append: "put_entries (es @ es') M = put_entries es' (put_entries es M)"
  by (simp add: put_entries_def)

lemma put_entries_at:
  "distinct (map entry_key es) \<Longrightarrow> put_entries es M x = (case map_of (map (\<lambda>e. (entry_key e, en_hash e)) es) x of Some h \<Rightarrow> Some h | None \<Rightarrow> M x)"
proof (induction es arbitrary: M)
  case (Cons e es)
  then have "entry_key e \<notin> entry_key ` set es" "distinct (map entry_key es)" by auto
  then have none: "map_of (map (\<lambda>e. (entry_key e, en_hash e)) es) (entry_key e) = None" by (auto simp: map_of_eq_None_iff)
  have "put_entries (e # es) M x = put_entries es (M(entry_key e \<mapsto> en_hash e)) x" by (simp add: put_entries_def)
  also have "\<dots> = (case map_of (map (\<lambda>e. (entry_key e, en_hash e)) es) x of Some h \<Rightarrow> Some h | None \<Rightarrow> (M(entry_key e \<mapsto> en_hash e)) x)"
    using Cons by simp
  finally show ?case using none by (auto split: option.split)
qed (simp add: put_entries_def)

text \<open>What the rows of a batch need for the statement to accept it.\<close>

definition writable :: "string \<Rightarrow> symbolEntry list \<Rightarrow> bool" where
  "writable k es \<longleftrightarrow> text_ok k \<and> distinct (map entry_key es) \<and> list_all (\<lambda>e. text_ok (en_RelPath e) \<and> text_ok (sym_Name (en_sym e))) es"

lemma record_of_fields [simp]:
  "rw_RepoKey (record_of E k vec e) = k" "rw_FilePath (record_of E k vec e) = en_RelPath e"
  "rw_SymbolName (record_of E k vec e) = sym_Name (en_sym e)" "rw_BodyHash (record_of E k vec e) = en_hash e"
  "row_key (record_of E k vec e) = (k, entry_key e)"
  by (simp_all add: record_of_def row_key_def entry_key_def)

lemma writable_batch: "writable k es \<Longrightarrow> batch_ok (map (record_of E k vec) es)"
  by (auto simp: writable_def batch_ok_def list_all_iff distinct_map inj_on_def)

lemma writable_part: "writable k (xs @ ys @ zs) \<Longrightarrow> writable k ys"
  by (simp add: writable_def)

lemma fold_upsert_index:
  assumes "has_index k M rows" "writable k es"
  shows "has_index k (put_entries es M) (fold (\<lambda>r. upsert_row (r\<lparr>rw_UpdatedAt := t\<rparr>)) (map (record_of E k vec) es) rows)"
  using assms
proof (induction es arbitrary: rows M)
  case (Cons e es)
  then have e: "text_ok k" "text_ok (en_RelPath e)" "text_ok (sym_Name (en_sym e))" and es: "writable k es" by (auto simp: writable_def)
  have "has_index k (M(entry_key e \<mapsto> en_hash e)) (upsert_row ((record_of E k vec e)\<lparr>rw_UpdatedAt := t\<rparr>) rows)"
    using Cons.prems(1) e by (auto simp: has_index_def index_of_upsert entry_key_def intro!: rows_ok_upsert)
  from Cons.IH [OF this es] show ?case by (simp add: put_entries_def fun_upd_def)
qed (simp add: put_entries_def)

lemma map_chunks: "chunks n (map f xs) = map (map f) (chunks n xs)"
proof (induction n xs rule: chunks.induct)
  case (1 n xs)
  then show ?case by (subst (1 2) chunks.simps) (simp add: take_map drop_map)
qed

lemma Upsert_index:
  assumes "healthy E" "writable k es"
  shows "hoare (\<lambda>w. has_index k M (emb_rows w)) (Upsert E (map (record_of E k vec) es))
    (\<lambda>r w. r = Inr () \<and> has_index k (put_entries es M) (emb_rows w))"
proof -
  let ?A = "\<lambda>done w. has_index k (put_entries (concat done) M) (emb_rows w)"
  have part: "hoare (?A ys) (upsertBatch E (map (record_of E k vec) x)) (\<lambda>r w. \<not> is_err r \<and> ?A (ys @ [x]) w)"
    if "chunks batchSize es = ys @ x # zs" for ys x zs
  proof -
    have "concat ys @ x @ concat zs = es" using that concat_chunks [of batchSize es] by simp
    with assms(2) have "writable k x" using writable_part [of k "concat ys" x "concat zs"] by simp
    then show ?thesis unfolding upsertBatch_def
      by (auto simp: writable_batch on_rows_def put_entries_append is_err_def fold_upsert_index
          intro!: fine_db_call [OF assms(1)])
  qed
  have "hoare (?A []) (in_turn (\<lambda>x. upsertBatch E (map (record_of E k vec) x)) (chunks batchSize es)) (\<lambda>r w. r = Inr () \<and> ?A (chunks batchSize es) w)"
    by (rule hoare_in_turn) (rule part)
  moreover have "in_turn (upsertBatch E) (map (map (record_of E k vec)) cs) = in_turn (\<lambda>x. upsertBatch E (map (record_of E k vec) x)) cs" for cs
    by (induction cs) simp_all
  ultimately show ?thesis by (simp add: Upsert_def map_chunks concat_chunks put_entries_def)
qed


text \<open>Sparse vectors do not change what is indexed.\<close>

lemma keeps_index_sparse [keeps_rules]: "keeps (\<lambda>rows st. has_index k M rows) (UpdateSparseEmbeddingsBatch E us)"
proof -
  have step: "rw_BodyHash (fold (set_sparse t) us r) = rw_BodyHash r" for t us and r :: "'a emb_row"
    by (induction us arbitrary: r) (simp_all add: set_sparse_def)
  have "has_index k M (map (fold (set_sparse t) us) rows)" if "has_index k M rows" for t us and rows :: "'a emb_row list"
    using that by (simp add: has_index_def index_of_map step rows_ok_def list_all_iff comp_def)
  then show ?thesis unfolding UpdateSparseEmbeddingsBatch_def updateSparseEmbeddingsBatchChunk_def
    by (intro keeps_in_turn keeps_db_call) (simp add: on_rows_def)
qed

lemma keeps_index_sparse_writes [keeps_rules]: "keeps (\<lambda>rows st. has_index k M rows) (runSparseWrites E records lits)"
  unfolding runSparseWrites_def Let_def by (intro keeps_rules)

lemma embedAndUpsert_index:
  assumes "healthy E" "writable k es"
  shows "hoare (\<lambda>w. has_index k M (emb_rows w)) (embedAndUpsert E k es)
    (\<lambda>r w. r = Inr (length es) \<and> has_index k (put_entries es M) (emb_rows w))"
proof -
  have service: "hoare (\<lambda>w. has_index k M (emb_rows w)) (service (dense E)) (\<lambda>v w. v \<noteq> None \<and> has_index k M (emb_rows w))"
    using assms(1) by (intro hoare_service) (simp add: healthy_def)
  have lits: "hoare (\<lambda>w. has_index k M (emb_rows w))
      (case sparseClient E of None \<Rightarrow> State_Monad.return None | Some client \<Rightarrow> embedSparseBatched E client (map en_embedText es))
      (\<lambda>_ w. has_index k M (emb_rows w))"
    by (rule keeps_hoare [where I = "\<lambda>rows st. has_index k M rows"]) (intro keeps_rules)
  have writes: "hoare (\<lambda>w. has_index k M' (emb_rows w))
      (case ls of None \<Rightarrow> State_Monad.return () | Some l \<Rightarrow> runSparseWrites E records l) (\<lambda>_ w. has_index k M' (emb_rows w))" for M' ls records
    by (rule keeps_hoare [where I = "\<lambda>rows st. has_index k M' rows"]) (intro keeps_rules)
  show ?thesis unfolding embedAndUpsert_def Let_def
    by (intro hoare_bind [OF service] hoare_option hoare_conj_pure hoare_bind [OF lits] hoare_bind [OF Upsert_index [OF assms]]
        hoare_sum hoare_bind [OF writes])
      (auto simp: hoare_def)
qed

lemma embedChunks_index:
  assumes "healthy E" "writable k es"
  shows "hoare (\<lambda>w. has_index k M (emb_rows w)) (embedChunks E k es)
    (\<lambda>r w. r = Inr (length es) \<and> has_index k (put_entries es M) (emb_rows w))"
proof -
  have ctx: "hoare P (service (ctx_done E)) (\<lambda>b w. \<not> b \<and> P w)" if "\<And>w n. P w \<Longrightarrow> P (w\<lparr>db_clock := n\<rparr>)" for P :: "'a emb_db \<Rightarrow> bool"
    using assms(1) that by (intro hoare_service) (simp add: healthy_def)
  have "hoare (\<lambda>w. has_index k M (emb_rows w)) (embed_loop E k cs n)
      (\<lambda>r w. r = Inr (n + length (concat cs)) \<and> has_index k (put_entries (concat cs) M) (emb_rows w))"
    if "writable k (concat cs)" for cs n M
    using that
  proof (induction cs arbitrary: n M)
    case (Cons c cs)
    then have c: "writable k c" and cs: "writable k (concat cs)" using writable_part [of k "[]" c "concat cs"] writable_part [of k c "concat cs" "[]"] by simp_all
    show ?case unfolding embed_loop.simps
      by (intro hoare_bind [OF ctx] hoare_if hoare_conj_pure hoare_bind [OF embedAndUpsert_index [OF assms(1) c]] hoare_sum
          hoare_weaken [OF Cons.IH [OF cs]])
        (auto simp: put_entries_append hoare_def)
  qed (simp add: hoare_def put_entries_def)
  from this [of "chunks indexChunkSize es" M 0] assms(2) show ?thesis by (simp add: embedChunks_def concat_chunks)
qed


lemma has_index_filter:
  assumes "has_index k M rows" and "\<And>r. rw_RepoKey r = k \<Longrightarrow> P r \<longleftrightarrow> (rw_FilePath r, rw_SymbolName r) \<in> S"
  shows "has_index k (M |` S) (filter P rows)"
  using assms(1) index_of_filter [where k = k and P = P and Q = "\<lambda>x. x \<in> S" and rows = rows] assms(2)
  by (auto simp: has_index_def rows_ok_filter restrict_map_def fun_eq_iff)

lemma cut_sym_key: "text_ok f \<Longrightarrow> cut_key (sym_key f n) = Some (f, n)"
  by (simp add: cut_key_def sym_key_def text_ok_def str_index_single_append)

lemma deleteIntraKeyOrphans_index:
  assumes "healthy E" "\<not> shrinkGuardFires (length seen) (length existing)"
  shows "hoare (\<lambda>w. has_index k M (emb_rows w)) (deleteIntraKeyOrphans E k seen existing ks)
    (\<lambda>_ w. has_index k (M |` (- set (List.map_filter cut_key ks))) (emb_rows w))"
proof (cases "ks = []")
  case False
  let ?A = "\<lambda>done w. has_index k (M |` (- set (concat done))) (emb_rows w)"
  let ?cs = "chunks intraKeyOrphanChunkSize (List.map_filter cut_key ks)"
  have part: "hoare (?A ys) (deleteExplicitOrphanChunk E k x) (\<lambda>r w. \<not> is_err r \<and> ?A (ys @ [x]) w)" for ys x
    unfolding deleteExplicitOrphanChunk_def
  proof (rule fine_db_delete [OF assms(1)])
    fix w :: "'a emb_db" and n m
    assume "?A ys w"
    from has_index_filter [OF this, of "\<lambda>r. \<not> (rw_RepoKey r = k \<and> (rw_FilePath r, rw_SymbolName r) \<in> set x)" "- set x"]
    show "\<not> is_err (Inr m) \<and> ?A (ys @ [x]) ((on_rows (filter (\<lambda>r. \<not> (rw_RepoKey r = k \<and> (rw_FilePath r, rw_SymbolName r) \<in> set x))) w)\<lparr>db_clock := n\<rparr>)"
      by (simp add: on_rows_def is_err_def Int_commute)
  qed
  have "hoare (?A []) (in_turn (deleteExplicitOrphanChunk E k) ?cs) (\<lambda>r w. r = Inr () \<and> ?A ?cs w)"
    by (rule hoare_in_turn) (rule part)
  then show ?thesis using False assms(2) unfolding deleteIntraKeyOrphans_def DeleteExplicitOrphans_def concat_chunks
    by (auto simp: hoare_def restrict_map_def split: prod.split)
qed (use assms(2) in \<open>auto simp: deleteIntraKeyOrphans_def DeleteExplicitOrphans_def hoare_def map_filter_def restrict_map_def\<close>)


lemma run_reconcile_index:
  "keeps (\<lambda>rows st. rows_ok rows \<and> (\<forall>x. index_of k rows x = M x \<or> index_of k rows x = None)) (run_reconcile E k rt dry)"
proof -
  have del: "keeps (\<lambda>rows st. rows_ok rows \<and> (\<forall>x. index_of k rows x = M x \<or> index_of k rows x = None)) (DeleteRowsByFilePaths E k paths)" for paths
    unfolding DeleteRowsByFilePaths_def
  proof (intro keeps_rules keeps_db_delete)
    fix w :: "'a emb_db"
    assume i: "rows_ok (emb_rows w) \<and> (\<forall>x. index_of k (emb_rows w) x = M x \<or> index_of k (emb_rows w) x = None)"
    have "index_of k (filter (\<lambda>r. \<not> (rw_RepoKey r = k \<and> rw_FilePath r \<in> set paths)) (emb_rows w)) x =
        (if fst x \<notin> set paths then index_of k (emb_rows w) x else None)" for x
      by (rule index_of_filter) simp
    with i show "rows_ok (filter (\<lambda>r. \<not> (rw_RepoKey r = k \<and> rw_FilePath r \<in> set paths)) (emb_rows w)) \<and>
        (\<forall>x. index_of k (filter (\<lambda>r. \<not> (rw_RepoKey r = k \<and> rw_FilePath r \<in> set paths)) (emb_rows w)) x = M x \<or>
             index_of k (filter (\<lambda>r. \<not> (rw_RepoKey r = k \<and> rw_FilePath r \<in> set paths)) (emb_rows w)) x = None)"
      by (simp add: rows_ok_filter)
  qed
  have backfill: "keeps (\<lambda>rows st. J rows) (BackfillRepoSourcePath E k sp)" for J :: "'a emb_row list \<Rightarrow> bool" and sp
    unfolding BackfillRepoSourcePath_def by (intro keeps_rules keeps_db_call) (auto split: option.split)
  show ?thesis unfolding run_reconcile_def reconcile_with_def ReconcileRepoPaths_def Let_def
    by (intro keeps_rules del backfill)
qed

subsection \<open>What is embedded\<close>

text \<open>The first symbol of every file and name.\<close>

definition symbol_pair :: "EmbSymbol \<times> string \<Rightarrow> string \<times> string" where
  "symbol_pair x = (snd x, sym_Name (fst x))"

definition symbols_ok :: "(EmbSymbol \<times> string) list \<Rightarrow> bool" where
  "symbols_ok symbols \<longleftrightarrow> list_all (\<lambda>x. text_ok (snd x) \<and> text_ok (sym_Name (fst x))) symbols"

definition wanted_index :: "bool \<Rightarrow> (EmbSymbol \<times> string) list \<Rightarrow> string \<times> string \<Rightarrow> 64 word option" where
  "wanted_index expanded symbols = map_of (map (\<lambda>x. (symbol_pair x, en_hash (entry_of expanded x))) symbols)"

lemma sym_key_inj: "text_ok f \<Longrightarrow> text_ok f' \<Longrightarrow> sym_key f n = sym_key f' n' \<longleftrightarrow> f = f' \<and> n = n'"
  using sep_split [of "CHR 0x00" f f' n n'] by (auto simp: sym_key_def text_ok_def)

lemma first_by_cong: 
  "(\<And>x y. x \<in> S \<Longrightarrow> y \<in> S \<Longrightarrow> f x = f y \<longleftrightarrow> g x = g y) \<Longrightarrow> set xs \<subseteq> S \<Longrightarrow> set ys \<subseteq> S \<Longrightarrow>
   first_by f (map f ys) xs = first_by g (map g ys) xs"
proof (induction xs arbitrary: ys)
  case (Cons x xs)
  have "f x \<in> f ` set ys \<longleftrightarrow> g x \<in> g ` set ys" using Cons.prems by (auto simp: image_iff subset_iff)
  with Cons.IH [of ys] Cons.IH [of "x # ys"] Cons.prems show ?case by auto
qed simp

lemma first_by_props:
  "set (first_by f seen xs) \<subseteq> set xs" "distinct (map f (first_by f seen xs))"
  "f ` set (first_by f seen xs) = f ` set xs - set seen"
proof (induction xs arbitrary: seen)
  case (Cons x xs)
  { case 1 show ?case using Cons(1) by auto }
  { case 2 show ?case using Cons(2,3) by simp }
  { case 3 show ?case using Cons(3) by auto }
qed simp_all

lemma map_of_first_by:
  "f x \<notin> set seen \<Longrightarrow> map_of (map (\<lambda>y. (f y, h y)) (first_by f seen xs)) (f x) = map_of (map (\<lambda>y. (f y, h y)) xs) (f x)"
  by (induction xs arbitrary: seen) auto

lemma filter_loop_closed:
  "filter_loop expanded existing xs (es, seen, n) =
     (let ys = first_by (\<lambda>x. sym_key (snd x) (sym_Name (fst x))) seen xs;
          same = (\<lambda>x. map_of existing (sym_key (snd x) (sym_Name (fst x))) = Some (en_hash (entry_of expanded x)))
      in (es @ map (entry_of expanded) (filter (\<lambda>x. \<not> same x) ys), rev (map (\<lambda>x. sym_key (snd x) (sym_Name (fst x))) ys) @ seen,
          n + length (filter same ys)))"
  by (induction xs arbitrary: es seen n) (simp_all add: Let_def)


lemma entry_of_fields [simp]:
  "entry_key (entry_of expanded x) = symbol_pair x" "en_RelPath (entry_of expanded x) = snd x" "en_sym (entry_of expanded x) = fst x"
  by (simp_all add: entry_of_def Let_def entry_key_def symbol_pair_def)

definition first_symbols :: "(EmbSymbol \<times> string) list \<Rightarrow> (EmbSymbol \<times> string) list" where
  "first_symbols symbols = first_by symbol_pair [] symbols"

lemma first_symbols_props:
  "set (first_symbols symbols) \<subseteq> set symbols" "distinct (map symbol_pair (first_symbols symbols))"
  "symbol_pair ` set (first_symbols symbols) = dom (wanted_index expanded symbols)"
  using first_by_props [where f = symbol_pair and seen = "[]" and xs = symbols]
  by (auto simp: first_symbols_def wanted_index_def dom_map_of_conv_image_fst image_image)

lemma wanted_first: "y \<in> set (first_symbols symbols) \<Longrightarrow> wanted_index expanded symbols (symbol_pair y) = Some (en_hash (entry_of expanded y))"
proof -
  assume y: "y \<in> set (first_symbols symbols)"
  have "map_of (map (\<lambda>y. (symbol_pair y, en_hash (entry_of expanded y))) (first_symbols symbols)) (symbol_pair y) = Some (en_hash (entry_of expanded y))"
    using y first_symbols_props(2) [of symbols] by (intro map_of_is_SomeI) (auto simp: comp_def)
  then show ?thesis using map_of_first_by [of symbol_pair y "[]" "\<lambda>y. en_hash (entry_of expanded y)" symbols]
    by (simp add: first_symbols_def wanted_index_def)
qed

lemma first_symbols_keys:
  "symbols_ok symbols \<Longrightarrow> first_by (\<lambda>x. sym_key (snd x) (sym_Name (fst x))) [] symbols = first_symbols symbols"
  using first_by_cong [of "set symbols" "\<lambda>x. sym_key (snd x) (sym_Name (fst x))" symbol_pair symbols "[]"]
  by (simp add: first_symbols_def symbols_ok_def list_all_iff symbol_pair_def sym_key_inj)

definition changed_symbols :: "bool \<Rightarrow> (string \<times> string \<Rightarrow> 64 word option) \<Rightarrow> (EmbSymbol \<times> string) list \<Rightarrow> (EmbSymbol \<times> string) list" where
  "changed_symbols expanded M symbols = filter (\<lambda>x. M (symbol_pair x) \<noteq> Some (en_hash (entry_of expanded x))) (first_symbols symbols)"

lemma filterSymbols_index:
  assumes "symbols_ok symbols" "rows_ok rows"
  shows "filterSymbols symbols (hashes_of k rows) expanded =
     (map (entry_of expanded) (changed_symbols expanded (index_of k rows) symbols),
      rev (map (\<lambda>x. sym_key (snd x) (sym_Name (fst x))) (first_symbols symbols)),
      length (filter (\<lambda>x. index_of k rows (symbol_pair x) = Some (en_hash (entry_of expanded x))) (first_symbols symbols)))"
proof -
  have look: "map_of (hashes_of k rows) (sym_key (snd x) (sym_Name (fst x))) = index_of k rows (symbol_pair x)" if "x \<in> set symbols" for x
    using that assms map_of_hashes [OF assms(2), of "snd x" k "sym_Name (fst x)"] by (simp add: sym_key_def symbol_pair_def symbols_ok_def list_all_iff)
  have cong: "filter (\<lambda>x. P (map_of (hashes_of k rows) (sym_key (snd x) (sym_Name (fst x)))) x) (first_symbols symbols) =
      filter (\<lambda>x. P (index_of k rows (symbol_pair x)) x) (first_symbols symbols)" for P
    by (intro filter_cong refl) (simp add: look subsetD [OF first_symbols_props(1)])
  show ?thesis unfolding filterSymbols_def filter_loop_closed Let_def first_symbols_keys [OF assms(1)]
    using cong [of "\<lambda>h x. h = Some (en_hash (entry_of expanded x))"] cong [of "\<lambda>h x. h \<noteq> Some (en_hash (entry_of expanded x))"]
    by (simp add: changed_symbols_def)
qed

lemma changed_writable: "text_ok k \<Longrightarrow> symbols_ok symbols \<Longrightarrow> writable k (map (entry_of expanded) (changed_symbols expanded M symbols))"
  using first_symbols_props(2) [of symbols]
  by (simp add: writable_def changed_symbols_def comp_def distinct_map_filter symbols_ok_def list_all_iff
      subsetD [OF first_symbols_props(1)])

lemma length_first_symbols:
  "length (filter (\<lambda>x. P (symbol_pair x) (Some (en_hash (entry_of expanded x)))) (first_symbols symbols)) =
   card {x \<in> dom (wanted_index expanded symbols). P x (wanted_index expanded symbols x)}"
proof -
  let ?ys = "filter (\<lambda>x. P (symbol_pair x) (Some (en_hash (entry_of expanded x)))) (first_symbols symbols)"
  have "length ?ys = card (set (map symbol_pair ?ys))"
    using first_symbols_props(2) [of symbols] distinct_card [of "map symbol_pair ?ys"] by (simp add: distinct_map_filter)
  also have "set (map symbol_pair ?ys) = {x \<in> symbol_pair ` set (first_symbols symbols). P x (wanted_index expanded symbols x)}"
    by (auto simp: wanted_first)
  also have "symbol_pair ` set (first_symbols symbols) = dom (wanted_index expanded symbols)" by (rule first_symbols_props(3))
  finally show ?thesis .
qed

text \<open>Writing the changed symbols over an index that agrees with the old one where it matters gives the wanted one on its keys.\<close>

lemma put_changed:
  assumes "x \<in> dom (wanted_index expanded symbols)" and "M' x = M x"
  shows "put_entries (map (entry_of expanded) (changed_symbols expanded M symbols)) M' x = wanted_index expanded symbols x"
    and "x' \<notin> dom (wanted_index expanded symbols) \<Longrightarrow> put_entries (map (entry_of expanded) (changed_symbols expanded M symbols)) M' x' = M' x'"
proof -
  let ?ys = "changed_symbols expanded M symbols"
  have d: "distinct (map symbol_pair ?ys)" using first_symbols_props(2) [of symbols] by (simp add: changed_symbols_def distinct_map_filter)
  have at: "put_entries (map (entry_of expanded) ?ys) M' z =
      (case map_of (map (\<lambda>y. (symbol_pair y, en_hash (entry_of expanded y))) ?ys) z of Some h \<Rightarrow> Some h | None \<Rightarrow> M' z)" for z
    using d put_entries_at [of "map (entry_of expanded) ?ys" M' z] by (simp add: comp_def)
  from assms(1) obtain y where y: "y \<in> set (first_symbols symbols)" "x = symbol_pair y"
    unfolding first_symbols_props(3) [symmetric] by blast
  show "put_entries (map (entry_of expanded) ?ys) M' x = wanted_index expanded symbols x"
  proof (cases "y \<in> set ?ys")
    case True
    then have "map_of (map (\<lambda>y. (symbol_pair y, en_hash (entry_of expanded y))) ?ys) x = Some (en_hash (entry_of expanded y))"
      using d y(2) by (intro map_of_is_SomeI) (auto simp: comp_def)
    with at wanted_first [OF y(1)] y(2) show ?thesis by simp
  next
    case False
    then have M: "M x = Some (en_hash (entry_of expanded y))" using y by (simp add: changed_symbols_def)
    have "x \<notin> symbol_pair ` set ?ys"
    proof
      assume "x \<in> symbol_pair ` set ?ys"
      then obtain z where z: "z \<in> set ?ys" "symbol_pair z = symbol_pair y" using y(2) by auto
      then have "z \<in> set (first_symbols symbols)" by (simp add: changed_symbols_def)
      with z y first_symbols_props(2) [of symbols] have "z = y" by (auto simp: distinct_map inj_on_def)
      with z False show False by simp
    qed
    then have "map_of (map (\<lambda>y. (symbol_pair y, en_hash (entry_of expanded y))) ?ys) x = None" by (auto simp: map_of_eq_None_iff)
    with at M assms(2) wanted_first [OF y(1)] y(2) show ?thesis by simp
  qed
  assume "x' \<notin> dom (wanted_index expanded symbols)"
  then have "x' \<notin> symbol_pair ` set ?ys"
    using first_symbols_props(3) [of symbols expanded] by (auto simp: changed_symbols_def)
  then have "map_of (map (\<lambda>y. (symbol_pair y, en_hash (entry_of expanded y))) ?ys) x' = None" by (auto simp: map_of_eq_None_iff)
  with at show "put_entries (map (entry_of expanded) ?ys) M' x' = M' x'" by simp
qed


subsection \<open>The run\<close>

lemma keeps_conj: "keeps I m \<Longrightarrow> keeps J m \<Longrightarrow> keeps (\<lambda>rows st. I rows st \<and> J rows st) m"
  by (simp add: keeps_def)

text \<open>No file with a wanted symbol is missing under a root that the reconciliation may use.\<close>

definition files_there :: "'v embed_env \<Rightarrow> string list \<Rightarrow> (EmbSymbol \<times> string) list \<Rightarrow> bool" where
  "files_there E roots symbols \<longleftrightarrow>
     list_all (\<lambda>sp. sp = [] \<or> list_all (\<lambda>x. stat_ok (disk E (path_join [sp, snd x]))) symbols) roots"

definition recorded_root :: "string \<Rightarrow> (string \<Rightarrow> repo_row option) \<Rightarrow> string" where
  "recorded_root k st = (case st k of Some s \<Rightarrow> rs_SourcePath s | None \<Rightarrow> [])"

definition reconciled :: "string \<Rightarrow> (string \<times> string) set \<Rightarrow> (string \<times> string \<Rightarrow> 64 word option) \<Rightarrow> 'v emb_row list \<Rightarrow> bool" where
  "reconciled k D M rows \<longleftrightarrow> rows_ok rows \<and> (\<forall>x. index_of k rows x = M x \<or> index_of k rows x = None) \<and>
     (\<forall>x\<in>D. index_of k rows x = M x)"

lemma reconcile_exact:
  assumes "rows_ok rows" and "files_there E [recorded_root k st, rt] symbols" and "D \<subseteq> symbol_pair ` set symbols"
  shows "hoare (\<lambda>w. emb_rows w = rows \<and> repo_rows w = st) (run_reconcile E k rt dry)
    (\<lambda>_ w. reconciled k D (index_of k rows) (emb_rows w))"
proof -
  let ?M = "index_of k rows" and ?SP = "{[], recorded_root k st, rt}"
  let ?L = "D \<inter> dom ?M"
  have "keeps (lives k ?L ?SP) (run_reconcile E k rt dry)"
    using assms(2,3) by (intro lives_run_reconcile) (force simp: files_there_def list_all_iff symbol_pair_def)+
  from keeps_hoare [OF keeps_conj [OF this run_reconcile_index [of k ?M E rt dry]]] show ?thesis
  proof (rule hoare_weaken)
    fix w :: "'a emb_db"
    assume "emb_rows w = rows \<and> repo_rows w = st"
    with assms(1) show "lives k ?L ?SP (emb_rows w) (repo_rows w) \<and> rows_ok (emb_rows w) \<and>
        (\<forall>x. index_of k (emb_rows w) x = ?M x \<or> index_of k (emb_rows w) x = None)"
      by (auto simp: lives_def index_of_dom recorded_root_def split: option.split)
  next
    fix a and w :: "'a emb_db"
    assume w: "lives k ?L ?SP (emb_rows w) (repo_rows w) \<and> rows_ok (emb_rows w) \<and>
        (\<forall>x. index_of k (emb_rows w) x = ?M x \<or> index_of k (emb_rows w) x = None)"
    have "index_of k (emb_rows w) x = ?M x" if "x \<in> D" for x
    proof (cases "x \<in> dom ?M")
      case True
      with w that have "x \<in> dom (index_of k (emb_rows w))" unfolding lives_def index_of_dom by blast
      with w show ?thesis by (metis domIff)
    next
      case False
      with w show ?thesis by (metis domIff)
    qed
    with w show "reconciled k D ?M (emb_rows w)" by (simp add: reconciled_def)
  qed
qed

text \<open>The orphans are the keys of the index that no symbol has.\<close>

lemma orphans_exact:
  assumes "symbols_ok symbols" "rows_ok rows" and "\<And>x. x \<in> dom (wanted_index expanded symbols) \<Longrightarrow> N x = wanted_index expanded symbols x"
    and "\<And>x. x \<notin> dom (wanted_index expanded symbols) \<Longrightarrow> N x = index_of k rows x \<or> N x = None"
    and "set seen = (\<lambda>x. sym_key (snd x) (sym_Name (fst x))) ` set symbols"
  shows "N |` (- set (List.map_filter cut_key (filter (\<lambda>key. key \<notin> set seen) (map fst (hashes_of k rows))))) = wanted_index expanded symbols"
proof
  fix x :: "string \<times> string"
  obtain f n where x: "x = (f, n)" by (cases x)
  let ?ks = "filter (\<lambda>key. key \<notin> set seen) (map fst (hashes_of k rows))"
  have dom: "dom (wanted_index expanded symbols) = symbol_pair ` set symbols"
    by (simp add: wanted_index_def dom_map_of_conv_image_fst image_image)
  have ok: "\<And>r. r \<in> set rows \<Longrightarrow> text_ok (rw_FilePath r)" "\<And>y. y \<in> set symbols \<Longrightarrow> text_ok (snd y)"
    using assms(1,2) by (auto simp: rows_ok_def symbols_ok_def list_all_iff)
  have orphan: "x \<in> set (List.map_filter cut_key ?ks) \<longleftrightarrow> x \<in> dom (index_of k rows) \<and> x \<notin> dom (wanted_index expanded symbols)"
  proof
    assume "x \<in> set (List.map_filter cut_key ?ks)"
    then obtain key where key: "key \<in> fst ` set (hashes_of k rows)" "key \<notin> set seen" "cut_key key = Some x"
      by (force simp: map_filter_def)
    from key(1) obtain r where r: "r \<in> set rows" "rw_RepoKey r = k" "key = sym_key (rw_FilePath r) (rw_SymbolName r)"
      unfolding keys_hashes_of sym_key_def by auto
    with key(3) ok(1) have xr: "x = (rw_FilePath r, rw_SymbolName r)" by (simp add: cut_sym_key)
    then have "x \<in> dom (index_of k rows)" using r by (auto simp: index_of_dom row_key_def)
    moreover have "x \<notin> symbol_pair ` set symbols"
      using key(2) r(3) xr assms(5) by (force simp: symbol_pair_def)
    ultimately show "x \<in> dom (index_of k rows) \<and> x \<notin> dom (wanted_index expanded symbols)" by (simp add: dom)
  next
    assume d: "x \<in> dom (index_of k rows) \<and> x \<notin> dom (wanted_index expanded symbols)"
    then have "(k, x) \<in> row_key ` set rows" using index_of_dom [of k rows] by blast
    then obtain r where r: "r \<in> set rows" "row_key r = (k, x)" by (metis imageE)
    then have f: "text_ok f" and key: "sym_key f n \<in> fst ` set (hashes_of k rows)"
      using ok(1) x by (auto simp: row_key_def keys_hashes_of sym_key_def)
    have "sym_key f n \<notin> set seen"
    proof
      assume "sym_key f n \<in> set seen"
      then obtain y where y: "y \<in> set symbols" "sym_key f n = sym_key (snd y) (sym_Name (fst y))" using assms(5) by auto
      with sym_key_inj [OF f ok(2)] have "x = symbol_pair y" by (simp add: x symbol_pair_def)
      with y d show False by (simp add: dom)
    qed
    with key cut_sym_key [OF f, of n] x show "x \<in> set (List.map_filter cut_key ?ks)" by (force simp: map_filter_def)
  qed
  show "(N |` (- set (List.map_filter cut_key ?ks))) x = wanted_index expanded symbols x"
  proof (cases "x \<in> dom (wanted_index expanded symbols)")
    case True
    with orphan assms(3) show ?thesis by (simp add: restrict_map_def)
  next
    case False
    with orphan assms(4) [OF False] show ?thesis by (auto simp: restrict_map_def)
  qed
qed


text \<open>What an exact run returns and leaves.\<close>

definition indexed_exactly :: "'v embed_env \<Rightarrow> string \<Rightarrow> (string \<times> string \<Rightarrow> 64 word option) \<Rightarrow> (EmbSymbol \<times> string) list \<Rightarrow>
      index_error + IndexResult \<Rightarrow> 'v emb_db \<Rightarrow> bool" where
  "indexed_exactly E k M symbols res w \<longleftrightarrow>
     (let T = wanted_index (expandSymbolKinds E) symbols in
      res = Inr \<lparr>Indexed = card {x \<in> dom T. M x \<noteq> T x}, Skipped = card {x \<in> dom T. M x = T x}, Total = length symbols\<rparr> \<and>
      index_of k (emb_rows w) = T \<and>
      (main_sha E \<noteq> [] \<longrightarrow> map_option rs_HeadSHA (repo_rows w k) = Some (main_sha E)))"

lemma writes_state:
  assumes "healthy E"
  shows "hoare (\<lambda>w. I (emb_rows w)) (writeRepoState E k sha sp) (\<lambda>r w. r = Inr () \<and> I (emb_rows w) \<and> map_option rs_HeadSHA (repo_rows w k) = Some sha)"
  unfolding writeRepoState_def SetRepoStateWithPath_def by (rule fine_db_call [OF assms]) auto

lemma reconciled_start:
  assumes "\<And>M'. (\<And>x. M' x = M x \<or> M' x = None) \<Longrightarrow> (\<And>x. x \<in> D \<Longrightarrow> M' x = M x) \<Longrightarrow> hoare (\<lambda>w. has_index k M' (emb_rows w)) m Q"
  shows "hoare (\<lambda>w. reconciled k D M (emb_rows w)) m Q"
  using assms unfolding hoare_def reconciled_def has_index_def by blast

lemma advance_exact:
  assumes "healthy E" and "Total result > 0 \<Longrightarrow> T \<noteq> Map.empty"
  shows "hoare (\<lambda>w. has_index k T (emb_rows w)) (advanceStateNoEmbed E k rt result)
    (\<lambda>_ w. has_index k T (emb_rows w) \<and> (main_sha E \<noteq> [] \<longrightarrow> map_option rs_HeadSHA (repo_rows w k) = Some (main_sha E)))"
proof -
  have count: "hoare (\<lambda>w. has_index k T (emb_rows w)) (CountEmbeddings E k)
      (\<lambda>c w. has_index k T (emb_rows w) \<and> c = Inr (length (filter (\<lambda>r. rw_RepoKey r = k) (emb_rows w))))"
    unfolding CountEmbeddings_def by (rule fine_db_read [OF assms(1)]) simp
  have empty: "T = Map.empty" if "has_index k T rows" "filter (\<lambda>r. rw_RepoKey r = k) rows = []" for rows :: "'a emb_row list"
    using that by (simp add: has_index_def index_of_def)
  have absurd: "hoare (\<lambda>w. has_index k T (emb_rows w) \<and> c = Inr (length (filter (\<lambda>r. rw_RepoKey r = k) (emb_rows w)))) m Q"
    if "c = Inr 0 \<and> Total result > 0" for c Q and m :: "('a emb_db, 'c) state"
  proof -
    have "\<not> (has_index k T (emb_rows w) \<and> c = Inr (length (filter (\<lambda>r. rw_RepoKey r = k) (emb_rows w))))" for w :: "'a emb_db"
      using that assms(2) empty [of "emb_rows w"] by auto
    then show ?thesis unfolding hoare_def by blast
  qed
  have stored: "hoare (\<lambda>w. has_index k T (emb_rows w)) (do { _ \<leftarrow> writeRepoState E k (main_sha E) rt; State_Monad.return () })
    (\<lambda>_ w. has_index k T (emb_rows w) \<and> map_option rs_HeadSHA (repo_rows w k) = Some (main_sha E))"
    by (rule hoare_bind [OF writes_state [OF assms(1), of "has_index k T" k "main_sha E" rt]]) (auto simp: hoare_def)
  show ?thesis unfolding advanceStateNoEmbed_def
    by (intro hoare_bind [OF count] hoare_if absurd hoare_weaken [OF stored] hoare_return) auto
qed

lemma retry_exact:
  assumes "healthy E"
  shows "hoare (\<lambda>w. I (emb_rows w)) (writeRepoStateWithRetry E k sha sp)
    (\<lambda>r w. r = Inr () \<and> I (emb_rows w) \<and> map_option rs_HeadSHA (repo_rows w k) = Some sha)"
  unfolding writeRepoStateWithRetry_def
  by (rule hoare_bind [OF writes_state [OF assms]], rule hoare_sum) (auto simp: hoare_def)

lemma index_rest_exact:
  assumes "healthy E" "text_ok k" "symbols_ok symbols" "rows_ok rows"
    and "files_there E [recorded_root k st, rt] symbols"
    and "\<not> shrinkGuardFires (card (dom (wanted_index (expandSymbolKinds E) symbols))) (length (filter (\<lambda>r. rw_RepoKey r = k) rows))"
  shows "hoare (\<lambda>w. emb_rows w = rows \<and> repo_rows w = st) (index_rest E k rt first symbols (hashes_of k rows))
    (indexed_exactly E k (index_of k rows) symbols)"
proof -
  let ?x = "expandSymbolKinds E" and ?M = "index_of k rows" and ?n = "length (hashes_of k rows)"
  let ?T = "wanted_index ?x symbols"
  let ?es = "map (entry_of ?x) (changed_symbols ?x ?M symbols)"
  let ?seen = "rev (map (\<lambda>x. sym_key (snd x) (sym_Name (fst x))) (first_symbols symbols))"
  let ?ks = "filter (\<lambda>key. key \<notin> set ?seen) (map fst (hashes_of k rows))"
  let ?skipped = "length (filter (\<lambda>x. ?M (symbol_pair x) = Some (en_hash (entry_of ?x x))) (first_symbols symbols))"
  have dom: "dom ?T = symbol_pair ` set symbols"
    by (simp add: wanted_index_def dom_map_of_conv_image_fst image_image)
  have seen: "set ?seen = (\<lambda>x. sym_key (snd x) (sym_Name (fst x))) ` set symbols"
    using first_by_props(3) [where f = "\<lambda>x. sym_key (snd x) (sym_Name (fst x))" and seen = "[]" and xs = symbols]
    unfolding first_symbols_keys [OF assms(3)] by simp
  have counts: "length ?es = card {x \<in> dom ?T. ?M x \<noteq> ?T x}" "?skipped = card {x \<in> dom ?T. ?M x = ?T x}"
    using length_first_symbols [of "\<lambda>x h. ?M x \<noteq> h" ?x symbols] length_first_symbols [of "\<lambda>x h. ?M x = h" ?x symbols]
    by (simp_all add: changed_symbols_def)
  have "length ?seen = card (dom ?T)"
    using length_first_symbols [of "\<lambda>x h. True" ?x symbols] by simp
  then have guard: "\<not> shrinkGuardFires (length ?seen) ?n" using assms(6) by (simp add: length_hashes [OF assms(4)])
  have reconcile: "hoare (\<lambda>w. emb_rows w = rows \<and> repo_rows w = st) (run_reconcile E k rt False) (\<lambda>_ w. reconciled k (dom ?T) ?M (emb_rows w))"
    by (rule reconcile_exact [OF assms(4,5)]) (simp add: dom)
  have orphans: "hoare (\<lambda>w. has_index k (put_entries ?es M') (emb_rows w)) (deleteIntraKeyOrphans E k ?seen (hashes_of k rows) ?ks)
      (\<lambda>_ w. has_index k ?T (emb_rows w))"
    if "\<And>x. M' x = ?M x \<or> M' x = None" "\<And>x. x \<in> dom ?T \<Longrightarrow> M' x = ?M x" for M'
  proof -
    have "put_entries ?es M' |` (- set (List.map_filter cut_key ?ks)) = ?T"
    proof (rule orphans_exact [OF assms(3,4) _ _ seen])
      show "put_entries ?es M' x = ?T x" if "x \<in> dom ?T" for x
        using put_changed(1) [OF that, of M' ?M] \<open>x \<in> dom ?T \<Longrightarrow> M' x = ?M x\<close> that by blast
    next
      fix x
      assume x: "x \<notin> dom ?T"
      show "put_entries ?es M' x = ?M x \<or> put_entries ?es M' x = None"
      proof (cases "symbols = []")
        case True
        then show ?thesis using that(1) by (simp add: changed_symbols_def first_symbols_def put_entries_def)
      next
        case False
        then have "symbol_pair (hd symbols) \<in> dom ?T" unfolding dom by simp
        then obtain z where "z \<in> dom ?T" by blast
        with put_changed(2) [of z ?x symbols M' ?M x] that x show ?thesis by auto
      qed
    qed
    with deleteIntraKeyOrphans_index [OF assms(1) guard, of k "put_entries ?es M'" ?ks] show ?thesis by simp
  qed
  note f = filterSymbols_index [OF assms(3,4), of k ?x]
  have total: "?T \<noteq> Map.empty" if "0 < length symbols" 
    using that dom by (metis dom_empty image_is_empty length_greater_0_conv set_empty)
  have count: "hoare (\<lambda>w. I (emb_rows w) (repo_rows w)) (CountEmbeddings E k) (\<lambda>_ w. I (emb_rows w) (repo_rows w))" for I
    by (rule keeps_hoare [OF keeps_reads(1)])
  have unchanged: "indexed_exactly E k ?M symbols (Inr \<lparr>Indexed = 0, Skipped = ?skipped, Total = length symbols\<rparr>) w"
    if "?es = []" "has_index k ?T (emb_rows w)" "main_sha E \<noteq> [] \<longrightarrow> map_option rs_HeadSHA (repo_rows w k) = Some (main_sha E)" for w
    using that counts by (simp add: indexed_exactly_def has_index_def Let_def)
  have changed: "indexed_exactly E k ?M symbols (Inr (\<lparr>Indexed = 0, Skipped = ?skipped, Total = length symbols\<rparr>\<lparr>Indexed := length ?es\<rparr>)) w"
    if "has_index k ?T (emb_rows w)" "main_sha E \<noteq> [] \<longrightarrow> map_option rs_HeadSHA (repo_rows w k) = Some (main_sha E)" for w
    using that counts by (simp add: indexed_exactly_def has_index_def Let_def)
  have state: "hoare (\<lambda>w. has_index k ?T (emb_rows w))
      (if main_sha E = [] then State_Monad.return (Inr ()) else writeRepoStateWithRetry E k (main_sha E) rt)
      (\<lambda>r w. r = Inr () \<and> has_index k ?T (emb_rows w) \<and> (main_sha E \<noteq> [] \<longrightarrow> map_option rs_HeadSHA (repo_rows w k) = Some (main_sha E)))"
    by (intro hoare_if hoare_return hoare_weaken [OF retry_exact [OF assms(1)]]) auto
  show ?thesis unfolding index_rest_def f prod.case Let_def
  proof (rule hoare_bind [OF reconcile], rule reconciled_start, rule hoare_if)
    fix M'
    assume M': "\<And>x. M' x = ?M x \<or> M' x = None" "\<And>x. x \<in> dom ?T \<Longrightarrow> M' x = ?M x" and es: "?es = []"
    show "hoare (\<lambda>w. has_index k M' (emb_rows w)) (do {
        _ \<leftarrow> deleteIntraKeyOrphans E k ?seen (hashes_of k rows) ?ks;
        _ \<leftarrow> advanceStateNoEmbed E k rt \<lparr>Indexed = 0, Skipped = ?skipped, Total = length symbols\<rparr>;
        _ \<leftarrow> CountEmbeddings E k;
        State_Monad.return (Inr \<lparr>Indexed = 0, Skipped = ?skipped, Total = length symbols\<rparr>) }) (indexed_exactly E k ?M symbols)"
      using orphans [OF M'] es total
      by (intro hoare_bind [OF _ hoare_bind [OF advance_exact [OF assms(1)] hoare_bind [OF count]]] hoare_return unchanged)
        (auto simp: put_entries_def)
  next
    fix M'
    assume M': "\<And>x. M' x = ?M x \<or> M' x = None" "\<And>x. x \<in> dom ?T \<Longrightarrow> M' x = ?M x"
    show "hoare (\<lambda>w. has_index k M' (emb_rows w)) (do {
        emb \<leftarrow> embedChunks E k ?es;
        case emb of
          Inl e \<Rightarrow> if first then do { outcome \<leftarrow> compensateFirstIndexOrphan E k; State_Monad.return (Inl (FirstIndexFailed outcome e)) }
                  else State_Monad.return (Inl e)
        | Inr n \<Rightarrow> do {
            _ \<leftarrow> deleteIntraKeyOrphans E k ?seen (hashes_of k rows) ?ks;
            st \<leftarrow> (if main_sha E = [] then State_Monad.return (Inr ()) else writeRepoStateWithRetry E k (main_sha E) rt);
            case st of
              Inl e \<Rightarrow> if first then do { outcome \<leftarrow> compensateFirstIndexOrphan E k; State_Monad.return (Inl (FirstIndexFailed outcome e)) }
                      else State_Monad.return (Inr (\<lparr>Indexed = 0, Skipped = ?skipped, Total = length symbols\<rparr>\<lparr>Indexed := n\<rparr>))
            | Inr _ \<Rightarrow> State_Monad.return (Inr (\<lparr>Indexed = 0, Skipped = ?skipped, Total = length symbols\<rparr>\<lparr>Indexed := n\<rparr>)) } })
        (indexed_exactly E k ?M symbols)"
      by (intro hoare_bind [OF embedChunks_index [OF assms(1) changed_writable [OF assms(2,3)]]] hoare_sum hoare_conj_pure
          hoare_bind [OF orphans [OF M']] hoare_bind [OF state])
        (auto simp: hoare_def intro!: changed [simplified])
  qed
qed


definition up_to_date :: "'v embed_env \<Rightarrow> string \<Rightarrow> 'v emb_db \<Rightarrow> bool" where
  "up_to_date E k w \<longleftrightarrow> main_sha E \<noteq> [] \<and> map_option rs_HeadSHA (repo_rows w k) = Some (main_sha E) \<and> \<not> no_rows k (emb_rows w)"

lemma fast_path_exact:
  assumes "healthy E" "\<not> up_to_date E k \<lparr>emb_rows = rows, repo_rows = st, db_clock = 0\<rparr>"
  shows "hoare (\<lambda>w. emb_rows w = rows \<and> repo_rows w = st)
    (if main_sha E \<noteq> [] then checkSameSHAFastPath E k rt (Inr (case st k of Some s \<Rightarrow> rs_HeadSHA s | None \<Rightarrow> [])) else State_Monad.return None)
    (\<lambda>fast w. fast = None \<and> emb_rows w = rows \<and> repo_rows w = st)"
proof -
  have count: "hoare (\<lambda>w. emb_rows w = rows \<and> repo_rows w = st) (CountEmbeddings E k)
      (\<lambda>c w. c = Inr (length (filter (\<lambda>r. rw_RepoKey r = k) rows)) \<and> emb_rows w = rows \<and> repo_rows w = st)"
    unfolding CountEmbeddings_def by (rule fine_db_read [OF assms(1)]) simp
  have "filter (\<lambda>r. rw_RepoKey r = k) rows = []" if "main_sha E \<noteq> []" "(case st k of Some s \<Rightarrow> rs_HeadSHA s | None \<Rightarrow> []) = main_sha E"
    using that assms(2) by (cases "st k") (auto simp: up_to_date_def no_rows_def filter_empty_conv list_all_iff)
  then show ?thesis unfolding checkSameSHAFastPath_def
    by (intro hoare_if hoare_bind [OF count] hoare_sum hoare_conj_pure hoare_return) (auto simp: hoare_def)
qed

lemma indexRepoWithTool_exact:
  assumes "healthy E" "text_ok k" "rows_ok (emb_rows w)" "collectSymbols E = Inr symbols" "symbols_ok symbols"
    and "files_there E [recorded_root k (repo_rows w), rt] symbols" and "\<not> up_to_date E k w"
    and "\<not> shrinkGuardFires (card (dom (wanted_index (expandSymbolKinds E) symbols))) (length (filter (\<lambda>r. rw_RepoKey r = k) (emb_rows w)))"
  shows "hoare (\<lambda>w'. emb_rows w' = emb_rows w \<and> repo_rows w' = repo_rows w) (indexRepoWithTool E k rt)
    (indexed_exactly E k (index_of k (emb_rows w)) symbols)"
proof -
  let ?P = "\<lambda>w'. emb_rows w' = emb_rows w \<and> repo_rows w' = repo_rows w"
  let ?h = "case repo_rows w k of Some s \<Rightarrow> rs_HeadSHA s | None \<Rightarrow> []"
  have head: "hoare ?P (GetRepoState E k) (\<lambda>r w. r = Inr ?h \<and> ?P w)"
    unfolding GetRepoState_def by (rule fine_db_read [OF assms(1)]) simp
  have ex: "hoare ?P (if b then RepoStateExists E k else State_Monad.return (Inr True)) (\<lambda>_. ?P)" for b
    by (rule keeps_hoare [where I = "\<lambda>rows st. rows = emb_rows w \<and> st = repo_rows w"]) (intro keeps_rules)
  have hashes: "hoare ?P (GetHashes E k) (\<lambda>r w'. r = Inr (hashes_of k (emb_rows w)) \<and> ?P w')"
    unfolding GetHashes_def by (rule fine_db_read [OF assms(1)]) simp
  have "\<not> up_to_date E k \<lparr>emb_rows = emb_rows w, repo_rows = repo_rows w, db_clock = 0\<rparr>"
    using assms(7) by (simp add: up_to_date_def)
  note fast = fast_path_exact [OF assms(1) this, of rt]
  note rest = index_rest_exact [OF assms(1,2,5,3,6,8)]
  have collected: "hoare ?P (index_collected E k rt prev ex symbols) (indexed_exactly E k (index_of k (emb_rows w)) symbols)" for prev ex
    unfolding index_collected_def
    by (rule hoare_bind [OF hashes], rule hoare_conj_pure, simp, rule rest)
  show ?thesis unfolding indexRepoWithTool_def assms(4) sum.case
    apply (rule hoare_bind [OF head], rule hoare_conj_pure, simp only:)
    apply (rule hoare_bind [OF ex], rule hoare_bind [OF fast], rule hoare_conj_pure)
    apply (simp only: option.case collected)
    done
qed


text \<open>
  C14: When nothing fails, an index run that does not take the fast path leaves exactly the wanted index: for every file and name that
  the walk and the parser yield, the hash of the text of the first symbol of that name, and no other row of the repository. It embeds
  the keys whose stored hash differs, counts the others as skipped, and records the revision. The hypotheses besides the health of
  the services: names without a NUL, no file of a symbol missing under the root that the reconciliation uses, and a
  shrink guard that does not fire.
\<close>

theorem full_index_exact:
  assumes "healthy E" "text_ok k" "rows_ok (emb_rows w)" "collectSymbols E = Inr symbols" "symbols_ok symbols"
    and "files_there E [recorded_root k (repo_rows w), rt] symbols" and "\<not> up_to_date E k w"
    and "\<not> shrinkGuardFires (card (dom (wanted_index (expandSymbolKinds E) symbols))) (length (filter (\<lambda>r. rw_RepoKey r = k) (emb_rows w)))"
    and "run_state (indexRepoWithTool E k rt) w = (res, w')"
  shows "let T = wanted_index (expandSymbolKinds E) symbols; M = index_of k (emb_rows w) in
    res = Inr \<lparr>Indexed = card {x \<in> dom T. M x \<noteq> T x}, Skipped = card {x \<in> dom T. M x = T x}, Total = length symbols\<rparr> \<and>
    index_of k (emb_rows w') = T \<and>
    (main_sha E \<noteq> [] \<longrightarrow> map_option rs_HeadSHA (repo_rows w' k) = Some (main_sha E))"
  using hoare_D [OF indexRepoWithTool_exact [OF assms(1-8)] _ assms(9)] by (simp add: indexed_exactly_def Let_def)

text \<open>
  C11: Whatever fails and whenever, an index run loses no live row: a row whose symbol the walk and the parser still yield is there after the
  run, provided its file can be found under the recorded root and the root of the run.
\<close>

theorem indexing_loses_no_live_row:
  assumes "(k, f, n) \<in> row_key ` set (emb_rows w)" and "collectSymbols E = Inr symbols" and "(f, n) \<in> symbol_pair ` set symbols"
    and "list_all (\<lambda>sp. sp = [] \<or> stat_ok (disk E (path_join [sp, f]))) [recorded_root k (repo_rows w), rt]"
  shows "(k, f, n) \<in> row_key ` set (emb_rows (snd (run_state (indexRepoWithTool E k rt) w)))"
proof -
  let ?SP = "{[], recorded_root k (repo_rows w), rt}"
  have "keeps (lives k {(f, n)} ?SP) (indexRepoWithTool E k rt)"
    using assms(2-4) by (intro lives_run) (auto simp: symbol_pair_def)
  moreover have "lives k {(f, n)} ?SP (emb_rows w) (repo_rows w)"
    using assms(1) by (auto simp: lives_def recorded_root_def)
  ultimately show ?thesis unfolding keeps_def lives_def by blast
qed

lemma demo_collects: "collectSymbols demo_env = Inr [(demo_symbol, ''a.go''), (demo_symbol, ''a.go'')]"
  by code_simp

lemma demo_rows: "rows_ok (emb_rows demo_db)"
  by code_simp

theorem full_index_exact_witness:
  "index_of ''k'' (emb_rows (snd (run_state (indexRepoWithTool demo_env ''k'' ''/x'') demo_db))) =
     wanted_index False [(demo_symbol, ''a.go''), (demo_symbol, ''a.go'')]"
proof -
  let ?s = "[(demo_symbol, ''a.go''), (demo_symbol, ''a.go'')]"
  have healthy: "healthy demo_env" by (simp add: healthy_def demo_env_def)
  have name: "text_ok ''k''" by (simp add: text_ok_def)
  have symbols: "symbols_ok ?s" by (simp add: symbols_ok_def text_ok_def demo_symbol_def)
  have there: "files_there demo_env [recorded_root ''k'' (repo_rows demo_db), ''/x''] ?s"
    by (simp add: files_there_def recorded_root_def demo_db_def demo_env_def stat_ok_def)
  have old: "\<not> up_to_date demo_env ''k'' demo_db" by (simp add: up_to_date_def demo_db_def demo_env_def)
  have plain: "expandSymbolKinds demo_env = False" by (simp add: demo_env_def)
  have "card (dom (wanted_index (expandSymbolKinds demo_env) ?s)) = 1" by (simp add: wanted_index_def symbol_pair_def)
  then have guard: "\<not> shrinkGuardFires (card (dom (wanted_index (expandSymbolKinds demo_env) ?s)))
      (length (filter (\<lambda>r. rw_RepoKey r = ''k'') (emb_rows demo_db)))"
    by (simp add: shrinkGuardFires_def demo_db_def demo_row_def)
  have run: "run_state (indexRepoWithTool demo_env ''k'' ''/x'') demo_db =
      (fst (run_state (indexRepoWithTool demo_env ''k'' ''/x'') demo_db), snd (run_state (indexRepoWithTool demo_env ''k'' ''/x'') demo_db))"
    by simp
  from full_index_exact [OF healthy name demo_rows demo_collects symbols there old guard run] show ?thesis
    unfolding Let_def plain by blast
qed

theorem indexing_loses_no_live_row_witness:
  "(''k'', ''a.go'', ''f'') \<in> row_key ` set (emb_rows (snd (run_state (indexRepoWithTool (demo_env\<lparr>fault := (\<lambda>n. if even n then Fine else Unanswered)\<rparr>) ''k'' ''/x'') demo_db)))"
proof -
  have "collectSymbols (demo_env\<lparr>fault := (\<lambda>n. if even n then Fine else Unanswered)\<rparr>) = Inr [(demo_symbol, ''a.go''), (demo_symbol, ''a.go'')]"
    by code_simp
  then show ?thesis
    by (rule indexing_loses_no_live_row [rotated])
      (simp_all add: demo_db_def demo_row_def row_key_def symbol_pair_def demo_symbol_def recorded_root_def demo_env_def stat_ok_def)
qed

end
