(* ===== verification/EmbedSync.thy ===== *)
theory EmbedSync
  imports EmbedExact
begin

text \<open>
  Incremental indexing (\<open>internal/embeddings/pipeline_file.go\<close>, \<open>pipeline_incremental.go\<close>): one file, the files that
  git names as changed between two revisions, and the fall back to a full run. The metrics are left out.
\<close>

subsection \<open>One file\<close>

record FileIndexResult =
  fi_Embedded :: nat
  fi_Skipped :: nat
  fi_Deleted :: nat

text \<open>\<open>fsutil.ReadRepoFile\<close>: a regular file, no link, and not above the limit.\<close>

definition ReadRepoFile :: "'v embed_env \<Rightarrow> string \<Rightarrow> string \<Rightarrow> int \<Rightarrow> string option" where
  "ReadRepoFile E rootDir relPath limit =
     (case disk E (path_join [rootDir, relPath]) of
        Found d \<Rightarrow>
          if de_Regular d
          then (case de_Source d of
                  Some data \<Rightarrow> if int (length data) > limit then None else Some data
                | None \<Rightarrow> None)
          else None
      | _ \<Rightarrow> None)"

text \<open>The symbols of a file by name; the last one of a name stays.\<close>

definition current_symbols :: "'v embed_env \<Rightarrow> string \<Rightarrow> EmbSymbol list \<Rightarrow> (string \<times> symbolEntry) list" where
  "current_symbols E relPath syms =
     fold (\<lambda>s. AList.update (sym_Name s) (entry_of (expandSymbolKinds E) (s, relPath)))
       (filter (\<lambda>s. IsEmbeddableKindExpanded (sym_Kind s) (expandSymbolKinds E)) syms) []"

definition parseAndDiff :: "'v embed_env \<Rightarrow> string \<Rightarrow> string \<Rightarrow> string \<Rightarrow>
      ('v, symbolEntry list \<times> string list \<times> FileIndexResult) db_io" where
  "parseAndDiff E repoKey rootDir relPath =
     (let none = \<lparr>fi_Embedded = 0, fi_Skipped = 0, fi_Deleted = 0\<rparr>; lang = DetectLanguageFromPath (path_base relPath) in
      if lang = [] then State_Monad.return (Inr ([], [], none))
      else case ReadRepoFile E rootDir relPath maxIndexFileBytes of
        None \<Rightarrow> State_Monad.return (Inr ([], [], none))
      | Some source \<Rightarrow>
          (case parse E (path_join [rootDir, relPath]) lang source of
             None \<Rightarrow> State_Monad.return (Inl (ParseError relPath))
           | Some syms \<Rightarrow> do {
               existing \<leftarrow> GetSymbolsForFile E repoKey relPath;
               case existing of
                 Inl e \<Rightarrow> State_Monad.return (Inl e)
               | Inr ids \<Rightarrow>
                   let current = current_symbols E relPath syms;
                       dbHashes = map_of (rev (map (\<lambda>si. (si_SymbolName si, si_BodyHash si)) ids));
                       names = map_order E (map fst current);
                       entries = List.map_filter (map_of current) names;
                       same = (\<lambda>e. dbHashes (sym_Name (en_sym e)) = Some (en_hash e))
                   in State_Monad.return (Inr (filter (\<lambda>e. \<not> same e) entries, names, none\<lparr>fi_Skipped := length (filter same entries)\<rparr>))
             }))"

definition evict_file :: "'v embed_env \<Rightarrow> string \<Rightarrow> string \<Rightarrow> ('v, FileIndexResult) db_io" where
  "evict_file E repoKey relPath = do {
     d \<leftarrow> DeleteSymbolsForFile E repoKey relPath [];
     State_Monad.return (case d of
        Inl e \<Rightarrow> Inl e
      | Inr n \<Rightarrow> Inr \<lparr>fi_Embedded = 0, fi_Skipped = 0, fi_Deleted = n\<rparr>)
   }"

definition index_present :: "'v embed_env \<Rightarrow> string \<Rightarrow> string \<Rightarrow> string \<Rightarrow> ('v, FileIndexResult) db_io" where
  "index_present E repoKey rootDir relPath = do {
     p \<leftarrow> parseAndDiff E repoKey rootDir relPath;
     case p of
       Inl e \<Rightarrow> State_Monad.return (Inl e)
     | Inr (toEmbed, currentNames, result) \<Rightarrow> do {
         d \<leftarrow> DeleteSymbolsForFile E repoKey relPath currentNames;
         case d of
           Inl e \<Rightarrow> State_Monad.return (Inl e)
         | Inr deleted \<Rightarrow>
             if toEmbed \<noteq> [] then do {
               n \<leftarrow> embedAndUpsert E repoKey toEmbed;
               State_Monad.return (case n of
                  Inl e \<Rightarrow> Inl e
                | Inr embedded \<Rightarrow> Inr (result\<lparr>fi_Deleted := deleted, fi_Embedded := embedded\<rparr>))
             } else State_Monad.return (Inr (result\<lparr>fi_Deleted := deleted\<rparr>))
       }
   }"

text \<open>Test files, files above the limit and files that are gone lose their rows.\<close>

definition evicted :: "'v embed_env \<Rightarrow> string \<Rightarrow> string \<Rightarrow> bool" where
  "evicted E rootDir relPath \<longleftrightarrow>
     IsTestFile (env_unicode E) relPath \<or>
     (case disk E (path_join [rootDir, relPath]) of Found d \<Rightarrow> de_Size d > maxIndexFileBytes | Missing \<Rightarrow> True | StatFails \<Rightarrow> False)"

definition IndexFile :: "'v embed_env \<Rightarrow> string \<Rightarrow> string \<Rightarrow> string \<Rightarrow> ('v, FileIndexResult) db_io" where
  "IndexFile E repoKey rootDir relPath =
     (if evicted E rootDir relPath then evict_file E repoKey relPath else index_present E repoKey rootDir relPath)"

subsection \<open>The changed files\<close>

datatype IncrementalSyncMode =
  SyncIncremental | SkipSHAMatch | FullFallbackBootstrap | FullFallbackNoGit | FullFallbackDiffError

record IncrementalSyncResult =
  sr_Mode :: IncrementalSyncMode
  sr_PrevSHA :: string
  sr_CurrentSHA :: string
  sr_FilesChanged :: nat
  sr_FilesEmbedded :: nat
  sr_FilesSkipped :: nat
  sr_FilesDeleted :: nat
  sr_Truncated :: bool
  sr_Errors :: "(string \<times> index_error) list"

definition sync_result :: "IncrementalSyncMode \<Rightarrow> string \<Rightarrow> string \<Rightarrow> IncrementalSyncResult" where
  "sync_result mode prevSHA currentSHA =
     \<lparr>sr_Mode = mode, sr_PrevSHA = prevSHA, sr_CurrentSHA = currentSHA, sr_FilesChanged = 0, sr_FilesEmbedded = 0,
      sr_FilesSkipped = 0, sr_FilesDeleted = 0, sr_Truncated = False, sr_Errors = []\<rparr>"

definition gitDiffNames :: "'v embed_env \<Rightarrow> string \<Rightarrow> string \<Rightarrow> string list option" where
  "gitDiffNames E prevSHA currentSHA =
     map_option (\<lambda>out. filter (\<lambda>l. l \<noteq> []) (map go_trim_space (split_on newline out))) (git_diff E prevSHA currentSHA)"

definition fallbackToFull :: "'v embed_env \<Rightarrow> string \<Rightarrow> string \<Rightarrow> IncrementalSyncMode \<Rightarrow>
      ('v emb_db, IncrementalSyncResult \<times> index_error option) state" where
  "fallbackToFull E repoKey rootDir mode = do {
     full \<leftarrow> IndexRepo E repoKey rootDir;
     State_Monad.return (case full of
        Inl e \<Rightarrow> (sync_result mode [] [], Some e)
      | Inr r \<Rightarrow> ((sync_result mode [] [])\<lparr>sr_FilesEmbedded := Indexed r, sr_FilesSkipped := Skipped r\<rparr>, None))
   }"

fun sync_loop :: "'v embed_env \<Rightarrow> string \<Rightarrow> string \<Rightarrow> string list \<Rightarrow> nat \<Rightarrow> IncrementalSyncResult \<Rightarrow>
      ('v emb_db, IncrementalSyncResult) state" where
  "sync_loop E repoKey rootDir [] embeddedFiles result = State_Monad.return result"
| "sync_loop E repoKey rootDir (relPath # files) embeddedFiles result =
     (if maxEmbedded E > 0 \<and> int embeddedFiles \<ge> maxEmbedded E
      then State_Monad.return (result\<lparr>sr_Truncated := True\<rparr>)
      else do {
        r \<leftarrow> IndexFile E repoKey rootDir relPath;
        let result' = result\<lparr>sr_FilesChanged := sr_FilesChanged result + 1\<rparr>;
        case r of
          Inl e \<Rightarrow> sync_loop E repoKey rootDir files embeddedFiles (result'\<lparr>sr_Errors := sr_Errors result @ [(relPath, e)]\<rparr>)
        | Inr fr \<Rightarrow>
            sync_loop E repoKey rootDir files (if fi_Embedded fr > 0 then embeddedFiles + 1 else embeddedFiles)
              (result'\<lparr>sr_FilesEmbedded := sr_FilesEmbedded result + fi_Embedded fr,
                       sr_FilesSkipped := sr_FilesSkipped result + fi_Skipped fr,
                       sr_FilesDeleted := sr_FilesDeleted result + fi_Deleted fr\<rparr>)
      })"

definition sync_changed :: "'v embed_env \<Rightarrow> string \<Rightarrow> string \<Rightarrow> string list \<Rightarrow> string \<Rightarrow>
      ('v emb_db, IncrementalSyncResult \<times> index_error option) state" where
  "sync_changed E repoKey rootDir changedFiles prevSHA = do {
     result \<leftarrow> sync_loop E repoKey rootDir changedFiles 0 (sync_result SyncIncremental prevSHA (main_sha E));
     _ \<leftarrow> (if sr_Errors result = [] \<and> \<not> sr_Truncated result
          then do { _ \<leftarrow> writeRepoState E repoKey (main_sha E) rootDir; State_Monad.return () }
          else State_Monad.return ());
     State_Monad.return (result, None)
   }"

definition IncrementalSync :: "'v embed_env \<Rightarrow> string \<Rightarrow> string \<Rightarrow>
      ('v emb_db, IncrementalSyncResult \<times> index_error option) state" where
  "IncrementalSync E repoKey rootDir =
     (if main_sha E = [] then fallbackToFull E repoKey rootDir FullFallbackNoGit
      else do {
        prev \<leftarrow> GetRepoState E repoKey;
        let prevSHA = (case prev of Inr s \<Rightarrow> s | Inl _ \<Rightarrow> []);
        if prevSHA = [] then fallbackToFull E repoKey rootDir FullFallbackBootstrap
        else if prevSHA = main_sha E then do {
          c \<leftarrow> CountEmbeddings E repoKey;
          if (case c of Inr n \<Rightarrow> n > 0 | Inl _ \<Rightarrow> False) then do {
            _ \<leftarrow> runFastPathDryRunReconcile E repoKey rootDir;
            _ \<leftarrow> writeRepoState E repoKey (main_sha E) rootDir;
            State_Monad.return (sync_result SkipSHAMatch prevSHA (main_sha E), None)
          } else fallbackToFull E repoKey rootDir FullFallbackBootstrap
        }
        else case gitDiffNames E prevSHA (main_sha E) of
          None \<Rightarrow> fallbackToFull E repoKey rootDir FullFallbackDiffError
        | Some changedFiles \<Rightarrow> sync_changed E repoKey rootDir changedFiles prevSHA
      })"

definition LoopSkipReason :: "'v embed_env \<Rightarrow> string \<Rightarrow> ('v emb_db, string) state" where
  "LoopSkipReason E repoKey =
     (if main_sha E = [] then State_Monad.return ''no_git''
      else do {
        prev \<leftarrow> GetRepoState E repoKey;
        case prev of
          Inl _ \<Rightarrow> State_Monad.return []
        | Inr prevSHA \<Rightarrow>
            if prevSHA = [] then State_Monad.return ''bootstrap''
            else if prevSHA = main_sha E then do {
              c \<leftarrow> CountEmbeddings E repoKey;
              State_Monad.return (if c = Inr 0 then ''no_embeddings'' else [])
            } else State_Monad.return []
      })"

subsection \<open>Other repositories\<close>

lemma only_repo_file [keeps_rules]: "keeps (only_repo k R S) (IndexFile E k rt f)"
  unfolding IndexFile_def evict_file_def index_present_def parseAndDiff_def Let_def by (intro keeps_rules)

lemma only_repo_sync_loop [keeps_rules]: "keeps (only_repo k R S) (sync_loop E k rt fs n res)"
  by (induction fs arbitrary: n res) (auto simp: Let_def intro!: keeps_rules)

lemma only_repo_IndexRepo [keeps_rules]:
  "keeps (only_repo k R S) (IndexRepo E k rt)" "keeps (only_repo k R S) (IndexRepoAsyncWithTool E k rt)"
  unfolding IndexRepo_def IndexRepoAsyncWithTool_def by (intro keeps_rules)+

lemma only_repo_sync [keeps_rules]: "keeps (only_repo k R S) (IncrementalSync E k rt)"
  unfolding IncrementalSync_def fallbackToFull_def sync_changed_def runFastPathDryRunReconcile_def Let_def by (intro keeps_rules)

definition isolated :: "string \<Rightarrow> 'v emb_db \<Rightarrow> 'v emb_db \<Rightarrow> bool" where
  "isolated k w w' \<longleftrightarrow> rows_ok (emb_rows w') \<and> others k (emb_rows w') = others k (emb_rows w) \<and>
     (repo_rows w')(k := None) = (repo_rows w)(k := None)"

lemma only_repo_isolated:
  assumes "\<And>R S. keeps (only_repo k R S) m" and "rows_ok (emb_rows w)"
  shows "isolated k w (snd (run_state m w))"
proof -
  have "only_repo k (others k (emb_rows w)) (repo_rows w) (emb_rows w) (repo_rows w)" using assms(2) by (simp add: only_repo_def)
  with assms(1) have "only_repo k (others k (emb_rows w)) (repo_rows w) (emb_rows (snd (run_state m w))) (repo_rows (snd (run_state m w)))"
    unfolding keeps_def by blast
  then show ?thesis by (auto simp: isolated_def only_repo_def fun_eq_iff)
qed

text \<open>
  C31: Whatever fails and whenever, a full, a background and an incremental index run of one repository keep the primary key of the table and its texts free of NUL
  bytes, leave the rows of all other repositories as they are and in their order, and write no other state row.
\<close>

theorem indexing_keeps_the_tables:
  assumes "rows_ok (emb_rows w)"
  shows "isolated k w (snd (run_state (IndexRepo E k rt) w)) \<and> isolated k w (snd (run_state (IndexRepoAsyncWithTool E k rt) w)) \<and>
    isolated k w (snd (run_state (IncrementalSync E k rt) w))"
  by (intro conjI only_repo_isolated [OF _ assms] keeps_rules)

theorem indexing_keeps_the_tables_witness:
  "isolated ''k'' demo_db (snd (run_state (IncrementalSync (demo_env\<lparr>fault := (\<lambda>n. if even n then Fine else Unanswered)\<rparr>) ''k'' ''/x'') demo_db))"
  using indexing_keeps_the_tables [OF demo_rows] by blast


subsection \<open>When the revision advances\<close>

definition states_only :: "string \<Rightarrow> repo_row option \<Rightarrow> 'v emb_row list \<Rightarrow> (string \<Rightarrow> repo_row option) \<Rightarrow> bool" where
  "states_only k s rows st \<longleftrightarrow> st k = s"

lemma states_file [keeps_rules]: "keeps (states_only k s) (IndexFile E k' rt f)"
proof -
  have del: "keeps (states_only k s) (db_delete E P)" for P by (rule keeps_db_delete) (simp add: states_only_def)
  have up: "keeps (states_only k s) (Upsert E rs)" for rs
    unfolding Upsert_def upsertBatch_def by (intro keeps_in_turn keeps_rules keeps_db_call) (simp add: states_only_def on_rows_def)
  have sparse: "keeps (states_only k s) (UpdateSparseEmbeddingsBatch E us)" for us
    unfolding UpdateSparseEmbeddingsBatch_def updateSparseEmbeddingsBatchChunk_def
    by (intro keeps_in_turn keeps_db_call) (simp add: states_only_def on_rows_def)
  show ?thesis
    unfolding IndexFile_def evict_file_def index_present_def parseAndDiff_def DeleteSymbolsForFile_def embedAndUpsert_def runSparseWrites_def Let_def
    by (intro keeps_rules del up sparse)
qed

lemma sync_loop_count:
  "hoare (\<lambda>w. repo_rows w k = s) (sync_loop E k rt fs n res) (\<lambda>res' w. repo_rows w k = s \<and> sr_Mode res' = sr_Mode res \<and> sr_PrevSHA res' = sr_PrevSHA res \<and>
     (\<not> sr_Truncated res' \<longrightarrow> sr_FilesChanged res' = sr_FilesChanged res + length fs))"
proof (induction fs arbitrary: n res)
  case (Cons f fs)
  have one: "hoare (\<lambda>w. repo_rows w k = s) (IndexFile E k rt f) (\<lambda>_ w. repo_rows w k = s)"
    using keeps_hoare [OF states_file [of k s E k rt f]] by (simp add: states_only_def)
  show ?case unfolding sync_loop.simps Let_def
    by (intro hoare_if hoare_bind [OF one] hoare_sum hoare_weaken [OF Cons.IH] hoare_return) auto
qed (simp add: hoare_def)

definition sync_accounted :: "'v embed_env \<Rightarrow> string \<Rightarrow> repo_row option \<Rightarrow> IncrementalSyncResult \<times> index_error option \<Rightarrow> 'v emb_db \<Rightarrow> bool" where
  "sync_accounted E k s r w \<longleftrightarrow> sr_Mode (fst r) = SyncIncremental \<longrightarrow>
     (\<exists>fs. gitDiffNames E (sr_PrevSHA (fst r)) (main_sha E) = Some fs \<and>
       (if sr_Errors (fst r) = [] \<and> \<not> sr_Truncated (fst r) then sr_FilesChanged (fst r) = length fs else repo_rows w k = s))"

lemma fallback_accounted: "mode \<noteq> SyncIncremental \<Longrightarrow> hoare P (fallbackToFull E k rt mode) (sync_accounted E k' s)"
  unfolding fallbackToFull_def
  by (rule hoare_bind [OF hoare_any]) (auto simp: hoare_def sync_accounted_def sync_result_def split: sum.split)

text \<open>
  Whatever fails and whenever, an incremental run that met an error in a file or stopped at its limit leaves the state row of the
  repository alone, and one that met neither has gone through every file that git names between the two revisions.
\<close>

lemma IncrementalSync_advances_when_done:
  assumes "run_state (IncrementalSync E k rt) w = ((res, err), w')" and "sr_Mode res = SyncIncremental"
  shows "\<exists>fs. gitDiffNames E (sr_PrevSHA res) (main_sha E) = Some fs \<and>
    (if sr_Errors res = [] \<and> \<not> sr_Truncated res then sr_FilesChanged res = length fs else repo_rows w' k = repo_rows w k)"
proof -
  let ?s = "repo_rows w k"
  have prev: "hoare (\<lambda>w. repo_rows w k = ?s) (GetRepoState E k) (\<lambda>_ w. repo_rows w k = ?s)"
    using keeps_hoare [OF keeps_reads(3) [where I = "states_only k ?s" and k = k and E = E]] by (simp add: states_only_def)
  have "hoare (\<lambda>w. repo_rows w k = ?s) (sync_changed E k rt fs prevSHA) (sync_accounted E k ?s)"
    if "gitDiffNames E prevSHA (main_sha E) = Some fs" for fs prevSHA
    unfolding sync_changed_def
    by (rule hoare_bind [OF sync_loop_count]) (auto simp: hoare_def sync_accounted_def sync_result_def that split: prod.split)
  then have "hoare (\<lambda>w. repo_rows w k = ?s) (IncrementalSync E k rt) (sync_accounted E k ?s)"
    unfolding IncrementalSync_def Let_def
    by (intro hoare_if hoare_bind [OF prev] hoare_option fallback_accounted hoare_bind [OF hoare_any])
      (auto simp: hoare_def sync_accounted_def sync_result_def)
  from hoare_D [OF this _ assms(1)] assms(2) show ?thesis unfolding sync_accounted_def fst_conv by blast
qed

end
