(* ===== verification/Spec2Isabelle.thy ===== *)
theory Spec2Isabelle
  imports Caches DagRunner Impact CallTrace Slug Cypher Budget ArgNorm FleetSSH WarmRegistry GraphDiff ReviewDiff
    GoTemplateRender TemplateScan
    ImportResolve Communities Clean Ingest
    Clones IngestCache GraphMerge Flows EmbedSync
begin

text \<open>
  A verification development for \<^bold>\<open>vaelor\<close>, a Go server that answers questions about
  source repositories over the Model Context Protocol. The server parses repositories, builds a call
  graph, and answers tools such as tracing call chains and estimating the impact of a change; around
  that core it has caches, a worker pool for task graphs, normalisation of tool arguments, limits on the
  size of answers, stores in PostgreSQL with a Cypher dialect, and reports on the container images a
  fleet of hosts runs. Paths below are relative to \<^verbatim>\<open>src/internal\<close>.

  \<^bold>\<open>How the parts interact.\<close> A parsed file is kept in \<^verbatim>\<open>cache\<close> under its path, modification
  time and size. The symbols and call sites of the parsed files go to \<^verbatim>\<open>callgraph\<close>, which
  resolves each call to a symbol. \<^verbatim>\<open>callgraph/trace.go\<close> and \<^verbatim>\<open>impact\<close> search that graph
  downwards and upwards. \<^verbatim>\<open>goutil/dag.go\<close> runs tasks with dependencies. Every tool call passes
  \<^verbatim>\<open>argnorm\<close> on its way in and \<^verbatim>\<open>mcpmeta/budget.go\<close> on its way out. A repository is named
  by the slug that \<^verbatim>\<open>slugparse\<close> accepts, and its graph is queried through statements built by
  \<^verbatim>\<open>strutil/cypher.go\<close>. A template file is cut into virtual sources by \<^verbatim>\<open>parser/preproc\<close>, whose
  line maps carry what the grammars find back to the file. \<^verbatim>\<open>review\<close> reads a diff and finds the symbols it
  touches; \<^verbatim>\<open>codegraph/diff.go\<close> compares two snapshots of a graph. \<^verbatim>\<open>embeddings\<close> walks a
  repository with \<^verbatim>\<open>ingest\<close> and keeps one row for each symbol in two tables that every search reads. \<^verbatim>\<open>fleet\<close> compares the images a repository pins with those that run.

  \<^bold>\<open>Theories.\<close>

  \<^item> \<^verbatim>\<open>Prelude\<close>: lemmas on lists, association lists and sorting, and the collections that carry the
    invariants. \<^verbatim>\<open>GoStrings\<close>: the functions of package \<^verbatim>\<open>strings\<close> the code uses, on byte
    strings. \<^verbatim>\<open>GoPath\<close>: the functions of \<^verbatim>\<open>path/filepath\<close> on Unix, and ASCII case.
  \<^item> \<^verbatim>\<open>LruCache\<close> (\<^verbatim>\<open>cache/lru.go\<close>): the hash map and the linked list as a map from keys to elements
    and a list of elements; the invariant relates the two. Refinement: every operation sequence returns what
    a plain recency list returns; the capacity is respected. The locale \<^verbatim>\<open>lru_store\<close> states the
    contract on lookups that \<^verbatim>\<open>Caches\<close> (\<^verbatim>\<open>cache/ttl_lru.go\<close>, the parse cache of
    \<^verbatim>\<open>cache/cache.go\<close>) relies on, and is interpreted on the model. A read returns only a value that was
    last written and is not stale.
  \<^item> \<^verbatim>\<open>DagCycle\<close> and \<^verbatim>\<open>DagRunner\<close> (\<^verbatim>\<open>goutil/dag.go\<close>): the recursive three-colour search, and
    the worker pool as a transition system over \<^verbatim>\<open>run_state\<close>. An action is one atomic step of the
    dispatcher, of a worker or of the context; a critical section is one step that needs the mutex free, the
    dispatcher keeps the mutex from its wake-up to \<^verbatim>\<open>cond.Wait\<close>, and the buffered channel is a
    queue with its capacity. Invariants by induction over reachable states give absence of deadlock,
    dependency order, correctness of the result and a bound on the number of steps.
    The locale \<^verbatim>\<open>draining\<close> derives termination from a measure and is interpreted on the pool.
  \<^item> \<^verbatim>\<open>LangUtil\<close> (\<^verbatim>\<open>langutil\<close>, \<^verbatim>\<open>parser/parser_lang.go\<close>, \<^verbatim>\<open>callgraph/builtins.go\<close>):
    test files, kinds of callers, language detection, builtin names.
    \<^verbatim>\<open>CallGraph\<close> (\<^verbatim>\<open>callgraph/graph.go\<close>, \<^verbatim>\<open>graph_go.go\<close>, the indexes of
    \<^verbatim>\<open>graph_hooks.go\<close>): symbols are references into a store, since the code compares pointers.
    Narrowest enclosing function, soundness of the resolution, one edge per kept call.
    \<^verbatim>\<open>CallTrace\<close> (\<^verbatim>\<open>callgraph/trace.go\<close>): the depth-first search with its shared visited map
    and counters; what \<^verbatim>\<open>Trace\<close> returns is a tree whose paths are exactly the simple chains.
    \<^verbatim>\<open>Impact\<close> (\<^verbatim>\<open>impact\<close>): the breadth-first search over callers, exact with shortest
    distances, and the merge of the other kinds of callers.
  \<^item> \<^verbatim>\<open>Slug\<close> (\<^verbatim>\<open>slugparse\<close>), \<^verbatim>\<open>Cypher\<close> (\<^verbatim>\<open>strutil\<close>): well-formedness and round
    trips against readers of the Cypher and SQL literals that are written here from the rules of those languages.
  \<^item> \<^verbatim>\<open>Budget\<close> (\<^verbatim>\<open>mcpmeta/budget.go\<close>): shaping, its markers, and the ladder of renderings, whose
    model also returns which closures were called.
  \<^item> \<^verbatim>\<open>EditDistance\<close> and \<^verbatim>\<open>ArgNorm\<close> (\<^verbatim>\<open>argnorm\<close>, \<^verbatim>\<open>compare/strutil.go\<close>): the two-row
    matrix against the least number of edits; aliases, stripping, suggestions and the middleware.
  \<^item> \<^verbatim>\<open>WarmRegistry\<close> (\<^verbatim>\<open>callgraph/warm_registry.go\<close>, the claims and stamps of
    \<^verbatim>\<open>callgraph/repo.go\<close>): requests and background warms as a transition system whose steps are the atomic
    operations of the concurrent map. At most one claim per root at a time, but for one more with each warm that a request publishes while one is
    pending; what a cache read serves agrees with the registry.
  \<^item> \<^verbatim>\<open>PreprocScan\<close>, \<^verbatim>\<open>PreprocBuild\<close>, \<^verbatim>\<open>GoTemplate\<close>, \<^verbatim>\<open>GoTemplateRender\<close>,
    \<^verbatim>\<open>TemplateScan\<close> (\<^verbatim>\<open>parser/preproc\<close>, \<^verbatim>\<open>parser/preproc_remap.go\<close>,
    \<^verbatim>\<open>parser/markup_calls.go\<close>): scanners that walk an index through the bytes of a template, the builder of
    virtual sources, Go templates, htmx attributes and component tags. Every range lies in the file, every extracted byte
    maps back to its line, stripping blanks exactly the actions, and on a template printed from a tree the defines found are
    the outermost ones of the tree.
  \<^item> \<^verbatim>\<open>GoStrconv\<close> (numbers as \<^verbatim>\<open>strconv\<close> reads them), \<^verbatim>\<open>ReviewDiff\<close> (\<^verbatim>\<open>review/diff.go\<close>,
    \<^verbatim>\<open>symbols.go\<close>): the ranges of a printed diff are read back, exactly unless an added line looks like a
    file header; changed symbols.
    \<^verbatim>\<open>GraphDiff\<close> (\<^verbatim>\<open>codegraph/diff.go\<close>): the diff of two snapshots, exact and sorted.
  \<^item> \<^verbatim>\<open>PathNorm\<close> (cleaning and joining of paths), \<^verbatim>\<open>ImportResolve\<close>
    (\<^verbatim>\<open>importresolve/resolve.go\<close>, \<^verbatim>\<open>codegraph/graph_build_rels.go\<close>): from an import to the directory
    it names; independence of the order of directories, files and maps when no two wildcard keys rival each other,
    longest match, and that no edge of the imports graph is left without a vertex, but for relative imports that are
    local for one file and external for another.
  \<^item> \<^verbatim>\<open>Louvain\<close> (\<^verbatim>\<open>ranking/louvain*.go\<close>): community detection with the gain and the
    iteration order as parameters; communities are connected, numbered without a gap, and never partial.
    \<^verbatim>\<open>Communities\<close> (\<^verbatim>\<open>explore/community.go\<close>, \<^verbatim>\<open>impact/community.go\<close>) builds its
    input from a call graph and summarises the result.
  \<^item> \<^verbatim>\<open>GoUtf8\<close> and \<^verbatim>\<open>Glob\<close>: decoding of UTF-8 and the pattern language of \<^verbatim>\<open>filepath.Match\<close>.
    \<^verbatim>\<open>Clean\<close> (\<^verbatim>\<open>clean\<close>): comment stripping only deletes; the limits of the cleaned text, with what
    the markers of a cut add to them.
    \<^verbatim>\<open>Ingest\<close> (\<^verbatim>\<open>ingest/ignore.go\<close>, \<^verbatim>\<open>ingest.go\<close>, \<^verbatim>\<open>focus.go\<close>): the walk over a directory
    tree that is an argument; which files it returns, and that every other file is counted under one reason.
    \<^verbatim>\<open>IngestCache\<close> (\<^verbatim>\<open>ingest/cache.go\<close>): the key, the content hash, both levels of the cache and
    \<^verbatim>\<open>IngestRepo\<close> on top of the walk; results are slices in an explicit store, since callers write to them.
    \<^verbatim>\<open>Clones\<close> (\<^verbatim>\<open>ingest/clone.go\<close>, \<^verbatim>\<open>cloneref.go\<close>): the shared clone directories as a
    transition system of readers, flights of the single-flight group and reference counts.
  \<^item> \<^verbatim>\<open>DeadCode\<close> (\<^verbatim>\<open>deadcode\<close>): the rules that exempt a function and the report, exact, and
    sound for the graph of \<^verbatim>\<open>CallGraph\<close>. \<^verbatim>\<open>GraphMerge\<close> (\<^verbatim>\<open>callgraph/convert.go\<close>,
    \<^verbatim>\<open>repo_cache.go\<close>): typed edges linked to parsed symbols, the union of two graphs, and the graph
    that comes back from Redis, on which dead code is what it was if symbols are told apart by their keys, as
    they are in a union of graphs over one table whose keys differ. \<^verbatim>\<open>Flows\<close> (\<^verbatim>\<open>codegraph/flows.go\<close>):
    bounded walks from the entry points of the graph and which of them are kept.
  \<^item> \<^verbatim>\<open>EmbedStore\<close> (\<^verbatim>\<open>embeddings/store.go\<close>, \<^verbatim>\<open>repo_state.go\<close>, \<^verbatim>\<open>reconcile_paths.go\<close>,
    \<^verbatim>\<open>store_wipe.go\<close>, \<^verbatim>\<open>pipeline_helpers.go\<close>): the two tables in a state monad, with one atomic step
    for each statement, which may be refused, or take effect and yet be reported as failed. Rules for what a program keeps
    (\<^verbatim>\<open>keeps\<close>) and for what it returns (\<^verbatim>\<open>hoare\<close>), one for each way to build a program.
    \<^verbatim>\<open>EmbedIndex\<close> (\<^verbatim>\<open>pipeline.go\<close>, \<^verbatim>\<open>pipeline_sparse.go\<close>): the full index run and the compensation of
    a first index that failed. \<^verbatim>\<open>EmbedExact\<close>: the index that a run computes when nothing fails, and that no live
    row is lost when something does. \<^verbatim>\<open>EmbedSync\<close> (\<^verbatim>\<open>pipeline_file.go\<close>,
    \<^verbatim>\<open>pipeline_incremental.go\<close>): one file, and the files that git names; other repositories are never touched, and the
    revision stays when a file failed.
  \<^item> \<^verbatim>\<open>FleetDiff\<close> and \<^verbatim>\<open>FleetSSH\<close> (\<^verbatim>\<open>fleet\<close>, \<^verbatim>\<open>fleet/ssh\<close>): the drift reports; image
    references, the allowlist, shell quoting and the driver that runs ssh.

  \<^bold>\<open>Conventions.\<close> Go strings are byte strings (\<^typ>\<open>string\<close>); case mapping and classification of
    non-ASCII text is a parameter (record \<^verbatim>\<open>unicode\<close>). A panic is the value \<^const>\<open>None\<close>, an error an
    \<^const>\<open>Inl\<close>. Line numbers keep their 32 bits and counters their 64. Go's \<^verbatim>\<open>int\<close> is \<^typ>\<open>int\<close>
    where it cannot overflow within memory. Maps whose iteration order matters are given an order as a parameter or
    are visited in the sorted order the code asks for.

  \<^bold>\<open>Bounds and fuel.\<close> \<^verbatim>\<open>dag_visit\<close> has fuel, which the entry point sets above the number of
    identifiers; it is proved never to run out. The searches of \<^verbatim>\<open>CallTrace\<close> and \<^verbatim>\<open>Impact\<close>
    terminate by their depth and by the symbols not yet visited. The pool takes at most \<open>8 n + k + 5\<close> steps.

  \<^bold>\<open>Parameters.\<close> The scopes of Go files read through \<^verbatim>\<open>go/parser\<close>, the answers of the ox-codes
    search service, the grammars that read virtual sources, the output of git, the ssh process, JSON decoding of a docker line, the random tag of a dollar quote, the next
    handler of the middleware, the floating-point gain of community detection and the order in which Go visits a map, the hash functions, what Redis
    answers, the outcome and the time of each database call, the two embedding services, the disk that index runs see, the outcomes of git, \<^verbatim>\<open>filepath.Rel\<close>, random identifiers and page ranks (values of any linear order).

  \<^bold>\<open>Not modelled.\<close> The tree-sitter parsers, the graph store of \<^verbatim>\<open>codegraph\<close>, the searches, the fusion, the
    backfill and the boot loop of \<^verbatim>\<open>embeddings\<close>, clients of network services, tool registration and rendering. Metrics and logs are left
    out everywhere. 
\<close>

end
